(* ===== verification/Prelude.thy ===== *)
theory Prelude
  imports Main "HOL-Library.Word"
begin

unbundle bit_operations_syntax

text \<open>
  Shared vocabulary of the development: the machine integer types of
  \<^verbatim>\<open>include/core/std.h\<close>, the error numbers of \<^verbatim>\<open>include/core/errno.h\<close> and
  the generic lemmas on words, bit maps and lists that the component theories use.
\<close>

section \<open>Machine integers\<close>

type_synonym u8 = "8 word"
type_synonym u16 = "16 word"
type_synonym u32 = "32 word"
type_synonym u64 = "64 word"

text \<open>Facts that move word arithmetic to \<^typ>\<open>nat\<close>.\<close>

named_theorems word_nat \<open>transfer of word arithmetic to the natural numbers\<close>

lemma unat_plus_no_wrap [word_nat]:
  fixes a b :: "'a::len word"
  assumes "unat a + unat b < 2 ^ LENGTH('a)"
  shows "unat (a + b) = unat a + unat b"
  using assms by (simp add: unat_word_ariths)

lemma unat_Suc_less [word_nat]:
  fixes a b :: "'a::len word"
  assumes "a < b"
  shows "unat (a + 1) = Suc (unat a)"
proof -
  have "unat a < unat b" using assms by (simp add: word_less_nat_alt)
  moreover have "unat b < 2 ^ LENGTH('a)" by (rule unsigned_less)
  ultimately have "Suc (unat a) < 2 ^ LENGTH('a)" by linarith
  then show ?thesis by (simp add: unat_word_ariths)
qed

lemma word_of_unat [simp]: "of_nat (unat w) = (w :: 'a::len word)"
  by (metis of_nat_unat ucast_id)

lemma unat_ucast_mod:
  fixes x :: "'a::len word"
  shows "unat (ucast x :: 'b::len word) = unat x mod 2 ^ LENGTH('b)"
  by (simp add: unsigned_ucast_eq take_bit_eq_mod)

lemma unat_ucast_widen [word_nat]:
  fixes x :: "'a::len word"
  assumes "LENGTH('a) \<le> LENGTH('b)"
  shows "unat (ucast x :: 'b::len word) = unat x"
proof -
  have "unat x < 2 ^ LENGTH('a)" by (rule unsigned_less)
  also have "(2::nat) ^ LENGTH('a) \<le> 2 ^ LENGTH('b)" using assms by simp
  finally show ?thesis by (simp add: unat_ucast_mod)
qed

lemma unat_u32: "unat (w :: u32) < 4294967296"
  using unsigned_less [of w] by simp

lemma unat_u64: "unat (w :: u64) < 18446744073709551616"
  using unsigned_less [of w] by simp

lemma unat_of_nat_small:
  "n < 2 ^ LENGTH('a) \<Longrightarrow> unat (of_nat n :: 'a::len word) = n"
  by (simp add: unat_of_nat)

lemma find_append_case:
  "find P (xs @ ys) = (case find P xs of None \<Rightarrow> find P ys | Some x \<Rightarrow> Some x)"
  by (induction xs) auto

lemma card_minus_one: "card A \<le> Suc (card (A - {x}))"
proof (cases "x \<in> A")
  case True
  then show ?thesis by (simp add: card_Diff_singleton)
next
  case False
  then show ?thesis by simp
qed

text \<open>Evaluation of recursion on small numerals in witnesses.\<close>

named_theorems eval_num \<open>unfolding of functions at a numeral\<close>

lemma replicate_num [eval_num]: "replicate (numeral k) x = x # replicate (pred_numeral k) x"
  by (simp add: numeral_eq_Suc)

lemma upt_num [eval_num]: "[m..<numeral k] = (if m < numeral k then m # [Suc m..<numeral k] else [])"
  by (simp add: upt_conv_Cons)

section \<open>Error numbers\<close>

text \<open>The functions of the kernel return a negated error number (\<^verbatim>\<open>-EINVAL\<close>).\<close>

abbreviation (input) EUNKNOWN :: int where "EUNKNOWN \<equiv> 1"
abbreviation (input) EINVAL :: int where "EINVAL \<equiv> 2"
abbreviation (input) ENOMEM :: int where "ENOMEM \<equiv> 3"
abbreviation (input) EFAULT :: int where "EFAULT \<equiv> 4"
abbreviation (input) EBADF :: int where "EBADF \<equiv> 5"
abbreviation (input) ENOENT :: int where "ENOENT \<equiv> 9"
abbreviation (input) EACCESS :: int where "EACCESS \<equiv> 10"
abbreviation (input) ENOPROC :: int where "ENOPROC \<equiv> 18"
abbreviation (input) EFULL :: int where "EFULL \<equiv> 19"
abbreviation (input) EBADEXE :: int where "EBADEXE \<equiv> 20"
abbreviation (input) ERANGE :: int where "ERANGE \<equiv> 21"
abbreviation (input) ENOEXIST :: int where "ENOEXIST \<equiv> 22"
abbreviation (input) EHANG :: int where "EHANG \<equiv> 23"
abbreviation (input) ETOOSMALL :: int where "ETOOSMALL \<equiv> 24"
abbreviation (input) ENOTDIR :: int where "ENOTDIR \<equiv> 26"
abbreviation (input) EISDIR :: int where "EISDIR \<equiv> 27"
abbreviation (input) ENOTEMPTY :: int where "ENOTEMPTY \<equiv> 28"
abbreviation (input) EEXISTS :: int where "EEXISTS \<equiv> 29"
abbreviation (input) ELOOP :: int where "ELOOP \<equiv> 30"
abbreviation (input) ENAMETOOLONG :: int where "ENAMETOOLONG \<equiv> 31"
abbreviation (input) ENODEV :: int where "ENODEV \<equiv> 32"
abbreviation (input) ENOTTY :: int where "ENOTTY \<equiv> 33"
abbreviation (input) EDISK :: int where "EDISK \<equiv> 6"
abbreviation (input) ENOSPC :: int where "ENOSPC \<equiv> 25"

lemma find_upt_iff:
  "find P [i..<n] = Some j \<longleftrightarrow> i \<le> j \<and> j < n \<and> P j \<and> (\<forall>k. i \<le> k \<and> k < j \<longrightarrow> \<not> P k)"
proof (induction "n - i" arbitrary: i)
  case 0
  then show ?case by auto
next
  case (Suc d)
  then have u: "[i..<n] = i # [Suc i..<n]" by (simp add: upt_conv_Cons)
  have "d = n - Suc i" using Suc.hyps(2) by simp
  note IH = Suc.hyps(1) [OF this]
  show ?case
  proof (cases "P i")
    case True
    then show ?thesis unfolding u using Suc.hyps(2) by (auto intro: le_antisym leI)
  next
    case False
    then show ?thesis unfolding u using IH by (auto simp: Suc_le_eq) (metis le_neq_implies_less)+
  qed
qed

end
