(* ===== verification/Kqueue.thy ===== *)
theory Kqueue
  imports Prelude
begin

text \<open>
  The kernel byte queue, \<^verbatim>\<open>src/kern/queue.c\<close> and \<^verbatim>\<open>include/core/kqueue.h\<close>. A queue
  is a ring buffer whose
  write index \<^verbatim>\<open>head\<close> has 64 bits and whose read index \<^verbatim>\<open>tail\<close> has 8. A pointer
  argument that may be null is an \<^typ>\<open>'a option\<close>.
\<close>

section \<open>Model\<close>

record kqueue =
  kq_buf :: "u8 list"
  kq_sz :: u64
  kq_head :: u64
  kq_tail :: u8
  kq_cnt :: u64

text \<open>
  The first argument after the size is whether the allocation of the queue structure
  succeeds, the second is the buffer the second allocation returns.
\<close>

definition kqueue_init :: "u64 \<Rightarrow> bool \<Rightarrow> u8 list option \<Rightarrow> kqueue option" where
  "kqueue_init maxsz queue_ok bufmem =
     (if maxsz = 0 then None
      else if \<not> queue_ok then None
      else case bufmem of
          None \<Rightarrow> None
        | Some b \<Rightarrow> Some \<lparr>kq_buf = b, kq_sz = maxsz, kq_head = 0, kq_tail = 0, kq_cnt = 0\<rparr>)"

fun enqueue_loop :: "nat \<Rightarrow> nat \<Rightarrow> u8 list \<Rightarrow> kqueue \<Rightarrow> kqueue" where
  "enqueue_loop 0 i data q = q"
| "enqueue_loop (Suc k) i data q =
     enqueue_loop k (Suc i) data
       (q\<lparr>kq_buf := (kq_buf q)[unat (kq_head q) := data ! i],
          kq_head := (kq_head q + 1) mod kq_sz q\<rparr>)"

definition kqueue_enqueue ::
    "kqueue option \<Rightarrow> u8 list option \<Rightarrow> u64 \<Rightarrow> kqueue option \<times> u64" where
  "kqueue_enqueue queue data datasz =
     (case (queue, data) of
        (Some q, Some d) \<Rightarrow>
          if datasz = 0 then (queue, 0)
          else
            let avail = kq_sz q - kq_cnt q;
                n = (if datasz < avail then datasz else avail);
                q1 = enqueue_loop (unat n) 0 d q
            in (Some (q1\<lparr>kq_cnt := kq_cnt q1 + n\<rparr>), n)
      | _ \<Rightarrow> (queue, 0))"

fun dequeue_loop :: "nat \<Rightarrow> nat \<Rightarrow> u8 list \<Rightarrow> kqueue \<Rightarrow> u8 list \<times> kqueue" where
  "dequeue_loop 0 i data q = (data, q)"
| "dequeue_loop (Suc k) i data q =
     dequeue_loop k (Suc i)
       (data[i := kq_buf q ! unat (kq_tail q)])
       (q\<lparr>kq_tail := ucast ((ucast (kq_tail q) + 1 :: u64) mod kq_sz q)\<rparr>)"

definition kqueue_dequeue ::
    "kqueue option \<Rightarrow> u8 list option \<Rightarrow> u64 \<Rightarrow> kqueue option \<times> u8 list option \<times> u64" where
  "kqueue_dequeue queue data datasz =
     (case (queue, data) of
        (Some q, Some d) \<Rightarrow>
          if datasz = 0 then (queue, data, 0)
          else
            let n = (if datasz < kq_cnt q then datasz else kq_cnt q);
                (d1, q1) = dequeue_loop (unat n) 0 d q
            in (Some (q1\<lparr>kq_cnt := kq_cnt q1 - n\<rparr>), Some d1, n)
      | _ \<Rightarrow> (queue, data, 0))"

definition kqueue_queued :: "kqueue option \<Rightarrow> u64" where
  "kqueue_queued queue = (case queue of None \<Rightarrow> 0 | Some q \<Rightarrow> kq_cnt q)"

section \<open>Well-formed queues and their contents\<close>

definition kq_wf :: "kqueue \<Rightarrow> bool" where
  "kq_wf q \<longleftrightarrow>
     0 < kq_sz q \<and> length (kq_buf q) = unat (kq_sz q) \<and> kq_head q < kq_sz q \<and>
     kq_cnt q \<le> kq_sz q \<and> unat (kq_tail q) < unat (kq_sz q) \<and>
     unat (kq_head q) = (unat (kq_tail q) + unat (kq_cnt q)) mod unat (kq_sz q)"

definition kq_contents :: "kqueue \<Rightarrow> u8 list" where
  "kq_contents q =
     map (\<lambda>i. kq_buf q ! ((unat (kq_tail q) + i) mod unat (kq_sz q))) [0..<unat (kq_cnt q)]"

definition kq_free :: "kqueue \<Rightarrow> nat" where
  "kq_free q = unat (kq_sz q) - unat (kq_cnt q)"

lemma length_kq_contents [simp]: "length (kq_contents q) = unat (kq_cnt q)"
  by (simp add: kq_contents_def)

subsection \<open>One byte in, one byte out\<close>

definition put1 :: "kqueue \<Rightarrow> u8 \<Rightarrow> kqueue" where
  "put1 q b = q\<lparr>kq_buf := (kq_buf q)[unat (kq_head q) := b],
                kq_head := (kq_head q + 1) mod kq_sz q, kq_cnt := kq_cnt q + 1\<rparr>"

definition get1 :: "kqueue \<Rightarrow> kqueue" where
  "get1 q = q\<lparr>kq_tail := ucast ((ucast (kq_tail q) + 1 :: u64) mod kq_sz q),
              kq_cnt := kq_cnt q - 1\<rparr>"

lemma unat_mod_Suc:
  fixes h s :: "'a::len word"
  assumes "h < s"
  shows "unat ((h + 1) mod s) = Suc (unat h) mod unat s"
  using unat_Suc_less [OF assms] by (simp add: unat_mod_distrib)

lemma ring_index_neq:
  fixes t :: nat
  assumes "i < c" "c < s"
  shows "(t + i) mod s \<noteq> (t + c) mod s"
proof
  assume "(t + i) mod s = (t + c) mod s"
  then have "s dvd (t + c) - (t + i)"
    using assms by (metis add_le_cancel_left less_imp_le mod_eq_dvd_iff_nat)
  then have "s dvd c - i" by simp
  moreover have "0 < c - i" "c - i < s" using assms by auto
  ultimately show False by (auto dest: dvd_imp_le)
qed

lemma put1_wf:
  assumes "kq_wf q" "kq_cnt q < kq_sz q"
  shows "kq_wf (put1 q b)"
proof -
  have c: "unat (kq_cnt q + 1) = Suc (unat (kq_cnt q))" using assms by (simp add: unat_Suc_less)
  have h: "unat ((kq_head q + 1) mod kq_sz q) = Suc (unat (kq_head q)) mod unat (kq_sz q)"
    using assms by (simp add: kq_wf_def unat_mod_Suc)
  have "(kq_head q + 1) mod kq_sz q < kq_sz q"
    using assms by (simp add: kq_wf_def word_less_nat_alt unat_mod_distrib)
  moreover have "kq_cnt q + 1 \<le> kq_sz q"
    using assms c by (simp add: word_less_nat_alt word_le_nat_alt)
  ultimately show ?thesis
    using assms c h by (simp add: kq_wf_def put1_def mod_Suc_eq)
qed

lemma put1_contents:
  assumes "kq_wf q" "kq_cnt q < kq_sz q"
  shows "kq_contents (put1 q b) = kq_contents q @ [b]"
proof -
  let ?t = "unat (kq_tail q)" and ?c = "unat (kq_cnt q)" and ?s = "unat (kq_sz q)"
  have c: "unat (kq_cnt q + 1) = Suc ?c" using assms by (simp add: unat_Suc_less)
  have lt: "?c < ?s" using assms by (simp add: word_less_nat_alt)
  have h: "unat (kq_head q) = (?t + ?c) mod ?s" and len: "length (kq_buf q) = ?s"
    using assms by (auto simp: kq_wf_def)
  have last: "(?t + ?c) mod ?s < ?s" using lt by (intro mod_less_divisor) simp
  have old: "(kq_buf q)[(?t + ?c) mod ?s := b] ! ((?t + i) mod ?s) = kq_buf q ! ((?t + i) mod ?s)"
    if "i < ?c" for i
    using ring_index_neq [OF that lt, of ?t] by (metis nth_list_update_neq)
  show ?thesis
    using lt last by (simp add: kq_contents_def put1_def c h len old)
qed

lemma put1_sz [simp]: "kq_sz (put1 q b) = kq_sz q" "kq_cnt (put1 q b) = kq_cnt q + 1"
  by (simp_all add: put1_def)

text \<open>The read index keeps its 8 bits only while the ring has at most 256 slots.\<close>

definition tail_fits :: "kqueue \<Rightarrow> nat \<Rightarrow> bool" where
  "tail_fits q n \<longleftrightarrow> unat (kq_sz q) \<le> 256 \<or> unat (kq_tail q) + n \<le> 255"

lemma get1_tail:
  assumes "kq_wf q" "tail_fits q (Suc 0)"
  shows "unat (kq_tail (get1 q)) = Suc (unat (kq_tail q)) mod unat (kq_sz q)"
proof -
  let ?t = "unat (kq_tail q)" and ?s = "unat (kq_sz q)"
  have t: "?t < ?s" "0 < ?s" using assms by (auto simp: kq_wf_def word_less_nat_alt)
  have "unat (kq_tail q) < 256" using unsigned_less [of "kq_tail q"] by simp
  then have "unat (ucast (kq_tail q) + 1 :: u64) = Suc ?t"
    by (simp add: unat_word_ariths unat_ucast_widen)
  then have m: "unat ((ucast (kq_tail q) + 1 :: u64) mod kq_sz q) = Suc ?t mod ?s"
    by (simp add: unat_mod_distrib)
  have "Suc ?t mod ?s < 256"
  proof (cases "?s \<le> 256")
    case True
    then show ?thesis using t mod_less_divisor [of ?s "Suc ?t"] by linarith
  next
    case False
    then show ?thesis using assms by (simp add: tail_fits_def)
  qed
  with m show ?thesis by (simp add: get1_def unat_ucast_mod)
qed

lemma get1_cnt: "0 < kq_cnt q \<Longrightarrow> unat (kq_cnt q - 1) = unat (kq_cnt q) - 1"
  by (simp add: unat_minus_one)

lemma get1_wf:
  assumes "kq_wf q" "0 < kq_cnt q" "tail_fits q (Suc 0)"
  shows "kq_wf (get1 q)"
proof -
  let ?t = "unat (kq_tail q)" and ?s = "unat (kq_sz q)" and ?c = "unat (kq_cnt q)"
  have t: "unat (kq_tail (get1 q)) = Suc ?t mod ?s" using assms get1_tail by blast
  have c: "unat (kq_cnt q - 1) = ?c - 1" "0 < ?c"
    using assms get1_cnt by (auto simp: word_less_nat_alt)
  have "(Suc ?t mod ?s + (?c - 1)) mod ?s = (Suc ?t + (?c - 1)) mod ?s"
    by (simp add: mod_add_left_eq)
  also have "Suc ?t + (?c - 1) = ?t + ?c" using c by simp
  finally have "unat (kq_head q) = (unat (kq_tail (get1 q)) + (?c - 1)) mod ?s"
    using assms t by (simp add: kq_wf_def)
  moreover have "kq_cnt q - 1 \<le> kq_sz q"
    using assms c by (auto simp: kq_wf_def word_le_nat_alt)
  ultimately show ?thesis
    using assms t c by (simp add: kq_wf_def get1_def word_less_nat_alt)
qed

lemma get1_contents:
  assumes "kq_wf q" "0 < kq_cnt q" "tail_fits q (Suc 0)"
  shows "kq_contents q = kq_buf q ! unat (kq_tail q) # kq_contents (get1 q)"
proof -
  let ?t = "unat (kq_tail q)" and ?s = "unat (kq_sz q)" and ?c = "unat (kq_cnt q)"
  have t: "unat (kq_tail (get1 q)) = Suc ?t mod ?s" using assms get1_tail by blast
  have c: "unat (kq_cnt (get1 q)) = ?c - 1" "0 < ?c"
    using assms get1_cnt by (auto simp: word_less_nat_alt get1_def)
  have "kq_contents (get1 q) = map (\<lambda>i. kq_buf q ! ((?t + Suc i) mod ?s)) [0..<?c - 1]"
    unfolding kq_contents_def t c by (simp add: get1_def mod_add_left_eq)
  also have "\<dots> = map (\<lambda>i. kq_buf q ! ((?t + i) mod ?s)) [1..<?c]"
    using c by (intro nth_equalityI) auto
  finally show ?thesis
    using c assms by (simp add: kq_contents_def upt_conv_Cons kq_wf_def)
qed

subsection \<open>The copying loops\<close>

lemma enqueue_loop_cnt:
  "enqueue_loop k i d (r\<lparr>kq_cnt := c\<rparr>) = (enqueue_loop k i d r)\<lparr>kq_cnt := c\<rparr>"
proof (induction k arbitrary: r i)
  case 0
  then show ?case by simp
next
  case (Suc k)
  let ?f = "\<lambda>r. r\<lparr>kq_buf := (kq_buf r)[unat (kq_head r) := d ! i],
                   kq_head := (kq_head r + 1) mod kq_sz r\<rparr>"
  have "?f (r\<lparr>kq_cnt := c\<rparr>) = (?f r)\<lparr>kq_cnt := c\<rparr>" by simp
  then show ?case using Suc.IH [of "Suc i" "?f r"] by (simp only: enqueue_loop.simps)
qed

lemma kq_cnt_enqueue_loop [simp]: "kq_cnt (enqueue_loop k i d q) = kq_cnt q"
  by (induction k arbitrary: i q) simp_all

lemma kq_cnt_dequeue_loop [simp]: "kq_cnt (snd (dequeue_loop k i d q)) = kq_cnt q"
  by (induction k arbitrary: i d q) simp_all

lemma dequeue_loop_cnt:
  "dequeue_loop k i d (r\<lparr>kq_cnt := c\<rparr>) =
     (fst (dequeue_loop k i d r), (snd (dequeue_loop k i d r))\<lparr>kq_cnt := c\<rparr>)"
proof (induction k arbitrary: r i d)
  case 0
  then show ?case by simp
next
  case (Suc k)
  let ?f = "\<lambda>r. r\<lparr>kq_tail := ucast ((ucast (kq_tail r) + 1 :: u64) mod kq_sz r)\<rparr>"
  have "?f (r\<lparr>kq_cnt := c\<rparr>) = (?f r)\<lparr>kq_cnt := c\<rparr>" "kq_buf (r\<lparr>kq_cnt := c\<rparr>) = kq_buf r"
    "kq_tail (r\<lparr>kq_cnt := c\<rparr>) = kq_tail r" by simp_all
  then show ?case
    using Suc.IH [of "Suc i" "d[i := kq_buf r ! unat (kq_tail r)]" "?f r"]
    by (simp only: dequeue_loop.simps)
qed

lemma enqueue_loop_put1:
  assumes "i + k \<le> length d"
  shows "(enqueue_loop k i d q)\<lparr>kq_cnt := kq_cnt q + of_nat k\<rparr> = foldl put1 q (take k (drop i d))"
  using assms
proof (induction k arbitrary: i q)
  case 0
  then show ?case by simp
next
  case (Suc k)
  let ?q1 = "q\<lparr>kq_buf := (kq_buf q)[unat (kq_head q) := d ! i],
               kq_head := (kq_head q + 1) mod kq_sz q\<rparr>"
  have take: "take (Suc k) (drop i d) = d ! i # take k (drop (Suc i) d)"
    using Suc.prems by (metis Cons_nth_drop_Suc Suc_le_lessD add_Suc_right le_add1 le_trans
        not_less_eq_eq take_Suc_Cons)
  have "(enqueue_loop k (Suc i) d (put1 q (d ! i)))\<lparr>kq_cnt := kq_cnt (put1 q (d ! i)) + of_nat k\<rparr>
        = foldl put1 (put1 q (d ! i)) (take k (drop (Suc i) d))"
    using Suc.IH [of "Suc i" "put1 q (d ! i)"] Suc.prems by simp
  moreover have "put1 q (d ! i) = ?q1\<lparr>kq_cnt := kq_cnt q + 1\<rparr>" by (simp add: put1_def)
  ultimately show ?case by (simp add: take enqueue_loop_cnt add.assoc)
qed

lemma foldl_put1:
  assumes "kq_wf q" "unat (kq_cnt q) + length xs \<le> unat (kq_sz q)"
  shows "kq_wf (foldl put1 q xs) \<and> kq_contents (foldl put1 q xs) = kq_contents q @ xs \<and>
         kq_sz (foldl put1 q xs) = kq_sz q"
  using assms
proof (induction xs arbitrary: q)
  case Nil
  then show ?case by simp
next
  case (Cons x xs)
  have lt: "kq_cnt q < kq_sz q" using Cons.prems by (simp add: word_less_nat_alt)
  have "unat (kq_cnt (put1 q x)) = Suc (unat (kq_cnt q))" using lt by (simp add: unat_Suc_less)
  then show ?case
    using Cons.IH [of "put1 q x"] Cons.prems lt put1_wf [of q x] put1_contents [of q x] by simp
qed

lemma dequeue_loop_get1:
  assumes "kq_wf q" "k \<le> unat (kq_cnt q)" "tail_fits q k" "i + k \<le> length d"
  shows "fst (dequeue_loop k i d q) = take i d @ take k (kq_contents q) @ drop (i + k) d \<and>
         kq_wf ((snd (dequeue_loop k i d q))\<lparr>kq_cnt := kq_cnt q - of_nat k\<rparr>) \<and>
         kq_contents ((snd (dequeue_loop k i d q))\<lparr>kq_cnt := kq_cnt q - of_nat k\<rparr>) =
           drop k (kq_contents q) \<and>
         kq_sz (snd (dequeue_loop k i d q)) = kq_sz q \<and>
         kq_cnt (snd (dequeue_loop k i d q)) = kq_cnt q"
  using assms
proof (induction k arbitrary: i d q)
  case 0
  then show ?case by simp
next
  case (Suc k)
  let ?b = "kq_buf q ! unat (kq_tail q)"
  let ?q1 = "q\<lparr>kq_tail := ucast ((ucast (kq_tail q) + 1 :: u64) mod kq_sz q)\<rparr>"
  have pos: "0 < kq_cnt q" using Suc.prems by (auto simp: word_less_nat_alt)
  have fit: "tail_fits q (Suc 0)" using Suc.prems by (auto simp: tail_fits_def)
  have g: "get1 q = ?q1\<lparr>kq_cnt := kq_cnt q - 1\<rparr>" by (simp add: get1_def)
  have tail: "unat (kq_tail (get1 q)) = Suc (unat (kq_tail q)) mod unat (kq_sz q)"
    using Suc.prems fit by (intro get1_tail)
  have "unat (kq_tail (get1 q)) \<le> Suc (unat (kq_tail q))" unfolding tail by simp
  moreover have "kq_sz (get1 q) = kq_sz q" by (simp add: get1_def)
  ultimately have fits: "tail_fits (get1 q) k"
    using Suc.prems(3) unfolding tail_fits_def by auto
  have c1: "unat (kq_cnt (get1 q)) = unat (kq_cnt q) - 1"
    using get1_cnt [OF pos] by (simp add: get1_def)
  have IH: "fst (dequeue_loop k (Suc i) (d[i := ?b]) (get1 q)) =
        take (Suc i) (d[i := ?b]) @ take k (kq_contents (get1 q)) @ drop (Suc i + k) (d[i := ?b]) \<and>
      kq_wf ((snd (dequeue_loop k (Suc i) (d[i := ?b]) (get1 q)))\<lparr>kq_cnt := kq_cnt (get1 q) - of_nat k\<rparr>) \<and>
      kq_contents ((snd (dequeue_loop k (Suc i) (d[i := ?b]) (get1 q)))\<lparr>kq_cnt := kq_cnt (get1 q) - of_nat k\<rparr>) =
        drop k (kq_contents (get1 q)) \<and>
      kq_sz (snd (dequeue_loop k (Suc i) (d[i := ?b]) (get1 q))) = kq_sz (get1 q) \<and>
      kq_cnt (snd (dequeue_loop k (Suc i) (d[i := ?b]) (get1 q))) = kq_cnt (get1 q)"
    using Suc.prems pos fit fits c1 by (intro Suc.IH get1_wf) auto
  have con: "kq_contents q = ?b # kq_contents (get1 q)"
    using Suc.prems pos fit by (intro get1_contents)
  have tk: "take (Suc i) (d[i := ?b]) = take i d @ [?b]" "drop (Suc i + k) (d[i := ?b]) = drop (Suc (i + k)) d"
    using Suc.prems by (simp_all add: take_Suc_conv_app_nth)
  show ?case
    using IH unfolding g dequeue_loop_cnt con tk by (simp add: diff_diff_eq add.commute)
qed

section \<open>Functional behaviour of the operations\<close>

lemma kqueue_enqueue_correct:
  assumes "kq_wf q" "unat datasz \<le> length d"
  shows "\<exists>q'. kqueue_enqueue (Some q) (Some d) datasz = (Some q', of_nat (min (unat datasz) (kq_free q))) \<and>
             kq_wf q' \<and> kq_sz q' = kq_sz q \<and>
             kq_contents q' = kq_contents q @ take (min (unat datasz) (kq_free q)) d"
proof (cases "datasz = 0")
  case True
  with assms show ?thesis by (simp add: kqueue_enqueue_def)
next
  case False
  let ?avail = "kq_sz q - kq_cnt q"
  let ?n = "if datasz < ?avail then datasz else ?avail"
  have av: "unat ?avail = kq_free q"
    using assms by (simp add: kq_free_def kq_wf_def unat_sub)
  have n: "unat ?n = min (unat datasz) (kq_free q)"
    using av by (auto simp: word_less_nat_alt)
  have bound: "unat (kq_cnt q) + length (take (unat ?n) d) \<le> unat (kq_sz q)"
    using assms n by (auto simp: kq_free_def kq_wf_def word_le_nat_alt)
  have len: "0 + unat ?n \<le> length d" using assms n by simp
  have eq: "(enqueue_loop (unat ?n) 0 d q)\<lparr>kq_cnt := kq_cnt q + ?n\<rparr> = foldl put1 q (take (unat ?n) d)"
    using enqueue_loop_put1 [OF len, of q] by simp
  have "kqueue_enqueue (Some q) (Some d) datasz = (Some (foldl put1 q (take (unat ?n) d)), ?n)"
    using False eq by (simp add: kqueue_enqueue_def Let_def)
  moreover have "?n = of_nat (min (unat datasz) (kq_free q))" unfolding n [symmetric] by (rule word_of_unat [symmetric])
  ultimately show ?thesis
    using foldl_put1 [OF assms(1) bound] n by simp
qed

lemma kqueue_dequeue_correct:
  assumes "kq_wf q" "unat datasz \<le> length d" "tail_fits q (min (unat datasz) (unat (kq_cnt q)))"
  shows "\<exists>q'. kqueue_dequeue (Some q) (Some d) datasz =
             (Some q', Some (take (min (unat datasz) (unat (kq_cnt q))) (kq_contents q) @
                             drop (min (unat datasz) (unat (kq_cnt q))) d),
              of_nat (min (unat datasz) (unat (kq_cnt q)))) \<and>
             kq_wf q' \<and> kq_sz q' = kq_sz q \<and>
             kq_contents q' = drop (min (unat datasz) (unat (kq_cnt q))) (kq_contents q)"
proof (cases "datasz = 0")
  case True
  with assms show ?thesis by (simp add: kqueue_dequeue_def)
next
  case False
  let ?n = "if datasz < kq_cnt q then datasz else kq_cnt q"
  have n: "unat ?n = min (unat datasz) (unat (kq_cnt q))" by (auto simp: word_less_nat_alt)
  have neq: "?n = of_nat (min (unat datasz) (unat (kq_cnt q)))" unfolding n [symmetric] by (rule word_of_unat [symmetric])
  note loop = dequeue_loop_get1 [of q "unat ?n" 0 d]
  have pre: "unat ?n \<le> unat (kq_cnt q)" "tail_fits q (unat ?n)" "0 + unat ?n \<le> length d"
    using assms n by simp_all
  obtain d1 q1 where dq: "dequeue_loop (unat ?n) 0 d q = (d1, q1)" by force
  have "kqueue_dequeue (Some q) (Some d) datasz = (Some (q1\<lparr>kq_cnt := kq_cnt q1 - ?n\<rparr>), Some d1, ?n)"
    using False dq by (simp add: kqueue_dequeue_def Let_def)
  then show ?thesis
    using loop [OF assms(1) pre] n neq unfolding dq by simp
qed

section \<open>The queue as a first-in first-out channel\<close>

datatype fifo_op = Enq "u8 list" | Deq nat

text \<open>
  A run of operations returns the final queue, the bytes the queue accepted and the bytes
  it delivered.
\<close>

fun fifo_run ::
    "('q \<Rightarrow> u8 list \<Rightarrow> 'q \<times> nat) \<Rightarrow> ('q \<Rightarrow> nat \<Rightarrow> 'q \<times> u8 list) \<Rightarrow> 'q \<Rightarrow> fifo_op list \<Rightarrow>
     'q \<times> u8 list \<times> u8 list" where
  "fifo_run enq deq q [] = (q, [], [])"
| "fifo_run enq deq q (Enq xs # ops) =
     (let (q1, n) = enq q xs; (q2, acc, del) = fifo_run enq deq q1 ops
      in (q2, take n xs @ acc, del))"
| "fifo_run enq deq q (Deq n # ops) =
     (let (q1, ys) = deq q n; (q2, acc, del) = fifo_run enq deq q1 ops
      in (q2, acc, ys @ del))"

definition op_ok :: "fifo_op \<Rightarrow> bool" where
  "op_ok x = (case x of Enq xs \<Rightarrow> length xs < 2 ^ 64 | Deq n \<Rightarrow> n < 2 ^ 64)"

locale byte_fifo =
  fixes enq :: "'q \<Rightarrow> u8 list \<Rightarrow> 'q \<times> nat"
    and deq :: "'q \<Rightarrow> nat \<Rightarrow> 'q \<times> u8 list"
    and contents :: "'q \<Rightarrow> u8 list"
    and room :: "'q \<Rightarrow> nat"
    and invar :: "'q \<Rightarrow> bool"
  assumes enq_law: "invar q \<Longrightarrow> length xs < 2 ^ 64 \<Longrightarrow> enq q xs = (q', n) \<Longrightarrow>
      invar q' \<and> n = min (length xs) (room q) \<and> contents q' = contents q @ take n xs"
    and deq_law: "invar q \<Longrightarrow> n < 2 ^ 64 \<Longrightarrow> deq q n = (q', ys) \<Longrightarrow>
      invar q' \<and> ys = take n (contents q) \<and> contents q' = drop n (contents q)"
begin

lemma fifo_order:
  assumes "invar q" "list_all op_ok ops" "fifo_run enq deq q ops = (q', acc, del)"
  shows "invar q' \<and> contents q @ acc = del @ contents q'"
  using assms
proof (induction ops arbitrary: q q' acc del)
  case Nil
  then show ?case by simp
next
  case (Cons x ops)
  show ?case
  proof (cases x)
    case (Enq xs)
    obtain q1 n where e: "enq q xs = (q1, n)" by force
    obtain acc1 where r: "fifo_run enq deq q1 ops = (q', acc1, del)" and acc: "acc = take n xs @ acc1"
      using Cons.prems(3) Enq e by (auto split: prod.splits)
    have l: "invar q1" "contents q1 = contents q @ take n xs"
      using enq_law [OF Cons.prems(1) _ e] Cons.prems(2) Enq by (auto simp: op_ok_def)
    show ?thesis using Cons.IH [OF l(1) _ r] Cons.prems(2) l acc by simp
  next
    case (Deq n)
    obtain q1 ys where e: "deq q n = (q1, ys)" by force
    obtain del1 where r: "fifo_run enq deq q1 ops = (q', acc, del1)" and del: "del = ys @ del1"
      using Cons.prems(3) Deq e by (auto split: prod.splits)
    have l: "invar q1" "ys = take n (contents q)" "contents q1 = drop n (contents q)"
      using deq_law [OF Cons.prems(1) _ e] Cons.prems(2) Deq by (auto simp: op_ok_def)
    have "contents q @ acc = ys @ contents q1 @ acc" using l by simp
    then show ?thesis using Cons.IH [OF l(1) _ r] Cons.prems(2) del by simp
  qed
qed

end

text \<open>The kernel queue behind that interface: at most 256 slots.\<close>

definition kq_enq :: "kqueue \<Rightarrow> u8 list \<Rightarrow> kqueue \<times> nat" where
  "kq_enq q xs = (case kqueue_enqueue (Some q) (Some xs) (of_nat (length xs)) of
                    (Some q', n) \<Rightarrow> (q', unat n) | (None, n) \<Rightarrow> (q, unat n))"

definition kq_deq :: "kqueue \<Rightarrow> nat \<Rightarrow> kqueue \<times> u8 list" where
  "kq_deq q n = (case kqueue_dequeue (Some q) (Some (replicate n 0)) (of_nat n) of
                   (Some q', Some d, m) \<Rightarrow> (q', take (unat m) d) | _ \<Rightarrow> (q, []))"

definition kq_small :: "kqueue \<Rightarrow> bool" where
  "kq_small q \<longleftrightarrow> kq_wf q \<and> unat (kq_sz q) \<le> 256"

lemma kq_enq_law:
  assumes "kq_wf q" "length xs < 2 ^ 64" "kq_enq q xs = (q', n)"
  shows "kq_wf q' \<and> kq_sz q' = kq_sz q \<and> n = min (length xs) (kq_free q) \<and>
         kq_contents q' = kq_contents q @ take n xs"
proof -
  have u: "unat (of_nat (length xs) :: u64) = length xs" using assms(2) by (simp add: unat_of_nat)
  have "unat (of_nat (min (length xs) (kq_free q)) :: u64) = min (length xs) (kq_free q)"
    using assms(2) by (simp add: unat_of_nat min_def)
  then show ?thesis
    using kqueue_enqueue_correct [OF assms(1), of "of_nat (length xs)" xs] assms(3) u
    by (auto simp: kq_enq_def)
qed

lemma kq_deq_law:
  assumes "kq_wf q" "n < 2 ^ 64" "tail_fits q (min n (unat (kq_cnt q)))" "kq_deq q n = (q', ys)"
  shows "kq_wf q' \<and> kq_sz q' = kq_sz q \<and> ys = take n (kq_contents q) \<and>
         kq_contents q' = drop n (kq_contents q)"
proof -
  have u: "unat (of_nat n :: u64) = n" using assms(2) by (simp add: unat_of_nat)
  have "unat (of_nat (min n (unat (kq_cnt q))) :: u64) = min n (unat (kq_cnt q))"
    using assms(2) by (simp add: unat_of_nat min_def)
  moreover have "drop (min n (unat (kq_cnt q))) (kq_contents q) = drop n (kq_contents q)"
      "take (min n (unat (kq_cnt q))) (kq_contents q) = take n (kq_contents q)"
    by (simp_all add: min_def)
  ultimately show ?thesis
    using kqueue_dequeue_correct [OF assms(1), of "of_nat n" "replicate n 0"] assms(3,4) u
    by (auto simp: kq_deq_def)
qed

interpretation kq: byte_fifo kq_enq kq_deq kq_contents kq_free kq_small
proof
  show "kq_small q' \<and> n = min (length xs) (kq_free q) \<and> kq_contents q' = kq_contents q @ take n xs"
    if "kq_small q" "length xs < 2 ^ 64" "kq_enq q xs = (q', n)" for q xs q' n
    using kq_enq_law [OF _ that(2,3)] that(1) by (auto simp: kq_small_def)
  show "kq_small q' \<and> ys = take n (kq_contents q) \<and> kq_contents q' = drop n (kq_contents q)"
    if "kq_small q" "n < 2 ^ 64" "kq_deq q n = (q', ys)" for q n q' ys
    using kq_deq_law [OF _ that(2) _ that(3)] that(1) by (auto simp: kq_small_def tail_fits_def)
qed

section \<open>Rings of more than 256 slots\<close>

lemma dequeue_loop_add:
  "dequeue_loop (a + b) i d q =
     dequeue_loop b (i + a) (fst (dequeue_loop a i d q)) (snd (dequeue_loop a i d q))"
  by (induction a arbitrary: i d q) simp_all

lemma dequeue_loop_frame [simp]:
  "kq_buf (snd (dequeue_loop k i d q)) = kq_buf q"
  "kq_sz (snd (dequeue_loop k i d q)) = kq_sz q"
  "kq_head (snd (dequeue_loop k i d q)) = kq_head q"
  by (induction k arbitrary: i d q) simp_all

lemma dequeue_loop_tail:
  assumes "unat (kq_tail q) + k \<le> 255" "256 < unat (kq_sz q)"
  shows "unat (kq_tail (snd (dequeue_loop k i d q))) = unat (kq_tail q) + k"
  using assms
proof (induction k arbitrary: i d q)
  case 0
  then show ?case by simp
next
  case (Suc k)
  let ?q1 = "q\<lparr>kq_tail := ucast ((ucast (kq_tail q) + 1 :: u64) mod kq_sz q)\<rparr>"
  have "unat (ucast (kq_tail q) + 1 :: u64) = Suc (unat (kq_tail q))"
    using Suc.prems by (simp add: unat_word_ariths unat_ucast_widen)
  then have "unat (kq_tail ?q1) = Suc (unat (kq_tail q))"
    using Suc.prems by (simp add: unat_ucast_mod unat_mod_distrib)
  then show ?case using Suc.IH [of ?q1 "Suc i"] Suc.prems by simp
qed

lemma dequeue_256_tail:
  assumes "kq_tail q = 0" "256 < unat (kq_sz q)"
  shows "kq_tail (snd (dequeue_loop 256 i d q)) = 0"
proof -
  let ?r = "snd (dequeue_loop 255 i d q)"
  have t: "unat (kq_tail ?r) = 255" using dequeue_loop_tail [of q 255 i d] assms by simp
  then have "unat (ucast (kq_tail ?r) + 1 :: u64) = 256"
    by (simp add: unat_word_ariths unat_ucast_widen)
  then have "unat (ucast ((ucast (kq_tail ?r) + 1 :: u64) mod kq_sz q) :: u8) = 0"
    using assms by (simp add: unat_ucast_mod unat_mod_distrib)
  moreover have e: "(256::nat) = 255 + Suc 0" by simp
  ultimately show ?thesis
    unfolding e dequeue_loop_add by (simp add: unat_eq_zero)
qed

definition kq_fresh :: "u64 \<Rightarrow> u8 list \<Rightarrow> kqueue" where
  "kq_fresh maxsz b = \<lparr>kq_buf = b, kq_sz = maxsz, kq_head = 0, kq_tail = 0, kq_cnt = 0\<rparr>"

lemma kqueue_init_fresh: "0 < maxsz \<Longrightarrow> kqueue_init maxsz True (Some b) = Some (kq_fresh maxsz b)"
  by (auto simp: kqueue_init_def kq_fresh_def)

lemma kq_fresh_wf: "0 < maxsz \<Longrightarrow> length b = unat maxsz \<Longrightarrow> kq_wf (kq_fresh maxsz b)"
  by (auto simp: kq_wf_def kq_fresh_def word_less_nat_alt)

lemma kq_deq_value:
  assumes "kq_cnt q = of_nat n" "0 < n" "n < 2 ^ 64"
  shows "kq_deq q n =
    ((snd (dequeue_loop n 0 (replicate n 0) q))\<lparr>kq_cnt := 0\<rparr>,
     take n (fst (dequeue_loop n 0 (replicate n 0) q)))"
proof -
  have u: "unat (of_nat n :: u64) = n" using assms(3) by (simp add: unat_of_nat)
  then have "(of_nat n :: u64) \<noteq> 0" using assms(2) by (metis less_irrefl unat_0)
  then show ?thesis
    using assms u by (simp add: kq_deq_def kqueue_dequeue_def Let_def case_prod_beta)
qed

lemma kq_enq_one:
  assumes "kq_cnt q = 0" "0 < kq_sz q"
  shows "kq_enq q [b] = (q\<lparr>kq_buf := (kq_buf q)[unat (kq_head q) := b],
           kq_head := (kq_head q + 1) mod kq_sz q, kq_cnt := 1\<rparr>, 1)"
proof -
  have "kq_sz q = 1" if "\<not> 1 < kq_sz q"
    using that assms(2) by unat_arith
  then have "(if 1 < kq_sz q then 1 else kq_sz q) = 1" by auto
  then show ?thesis using assms(1) by (simp add: kq_enq_def kqueue_enqueue_def)
qed

lemma kq_tail_enqueue_loop [simp]: "kq_tail (enqueue_loop k i d q) = kq_tail q"
  by (induction k arbitrary: i q) simp_all

lemma kq_enq_tail: "kq_enq q xs = (q', n) \<Longrightarrow> kq_tail q' = kq_tail q"
  by (auto simp: kq_enq_def kqueue_enqueue_def Let_def split: if_splits)

lemma length_dequeue_loop [simp]: "length (fst (dequeue_loop k i d q)) = length d"
  by (induction k arbitrary: i d q) simp_all

lemma enqueue_loop_num [eval_num]:
  "enqueue_loop (numeral k) i d q = enqueue_loop (Suc (pred_numeral k)) i d q"
  by (simp only: numeral_eq_Suc)

lemma dequeue_loop_num [eval_num]:
  "dequeue_loop (numeral k) i d q = dequeue_loop (Suc (pred_numeral k)) i d q"
  by (simp only: numeral_eq_Suc)

section \<open>Properties\<close>

text \<open>
  Enqueueing \<open>datasz\<close> bytes into a well-formed queue of any size stores the longest
  prefix that fits, in order, after what was queued, returns its length and keeps the queue
  well-formed.
\<close>

theorem kqueue_enqueue_appends:
  assumes "kq_wf q" "unat datasz \<le> length d"
  shows "\<exists>q'. kqueue_enqueue (Some q) (Some d) datasz = (Some q', of_nat (min (unat datasz) (kq_free q))) \<and>
             kq_wf q' \<and> kq_contents q' = kq_contents q @ take (min (unat datasz) (kq_free q)) d"
  using kqueue_enqueue_correct [OF assms] by auto

theorem kqueue_enqueue_appends_witness:
  "kq_wf (kq_fresh 2 [0, 0]) \<and>
   (\<exists>q'. kqueue_enqueue (Some (kq_fresh 2 [0, 0])) (Some [7, 8, 9]) 3 = (Some q', 2) \<and>
         kq_contents q' = [7, 8])"
proof -
  have wf: "kq_wf (kq_fresh 2 [0, 0])" by (rule kq_fresh_wf) simp_all
  have c: "kq_contents (kq_fresh 2 [0, 0]) = []" "kq_free (kq_fresh 2 [0, 0]) = 2"
    by (simp_all add: kq_contents_def kq_free_def kq_fresh_def)
  show ?thesis using wf kqueue_enqueue_appends [OF wf, of 3 "[7, 8, 9]"] c by auto
qed

text \<open>
  C17. On a queue of at most 256 slots the operations are a first-in first-out channel: over
  any run of enqueues and dequeues, what was queued before followed by the bytes accepted is
  what was delivered followed by what is still queued, and the queue stays well-formed.
\<close>

theorem kqueue_fifo:
  assumes "kq_wf q" "unat (kq_sz q) \<le> 256" "list_all op_ok ops"
    and "fifo_run kq_enq kq_deq q ops = (q', acc, del)"
  shows "kq_wf q' \<and> kq_contents q @ acc = del @ kq_contents q'"
  using kq.fifo_order [OF _ assms(3,4)] assms(1,2) by (simp add: kq_small_def)

theorem kqueue_fifo_witness:
  "fifo_run kq_enq kq_deq (kq_fresh 2 [0, 0]) [Enq [7, 8], Deq 1, Enq [9], Deq 2] =
     (\<lparr>kq_buf = [9, 8], kq_sz = 2, kq_head = 1, kq_tail = 1, kq_cnt = 0\<rparr>, [7, 8, 9], [7, 8, 9]) \<and>
   kq_wf \<lparr>kq_buf = [9, 8], kq_sz = 2, kq_head = 1, kq_tail = 1, kq_cnt = 0\<rparr>"
proof -
  have wf: "kq_wf (kq_fresh 2 [0, 0])" by (rule kq_fresh_wf) simp_all
  have run: "fifo_run kq_enq kq_deq (kq_fresh 2 [0, 0]) [Enq [7, 8], Deq 1, Enq [9], Deq 2] =
     (\<lparr>kq_buf = [9, 8], kq_sz = 2, kq_head = 1, kq_tail = 1, kq_cnt = 0\<rparr>, [7, 8, 9], [7, 8, 9])"
    by (simp add: kq_enq_def kq_deq_def kq_fresh_def kqueue_enqueue_def kqueue_dequeue_def eval_num)
  show ?thesis using kqueue_fifo [OF wf _ _ run] run by (simp add: kq_fresh_def op_ok_def)
qed

text \<open>
  On a fresh queue of more than 256 slots (every queue the kernel creates) the 8-bit read
  index wraps: after 256 bytes have gone through, the next byte enqueued is not the next byte
  dequeued; the queue delivers the very first byte again.
\<close>

theorem kqueue_large_ring_repeats:
  assumes "256 < unat maxsz" "length b0 = unat maxsz" "length xs = 256"
    and "kqueue_init maxsz True (Some b0) = Some q0"
    and "kq_enq q0 xs = (q1, n1)" "kq_deq q1 256 = (q2, ys)"
    and "kq_enq q2 [b] = (q3, n3)" "kq_deq q3 1 = (q4, zs)"
  shows "n1 = 256 \<and> length ys = 256 \<and> n3 = 1 \<and> zs = [xs ! 0]"
proof -
  have pos: "0 < maxsz" using assms(1) by (simp add: word_less_nat_alt)
  have q0: "q0 = kq_fresh maxsz b0" using assms(4) kqueue_init_fresh [OF pos, of b0] by simp
  have wf0: "kq_wf q0" using pos assms(2) by (simp add: q0 kq_fresh_wf)
  have q1: "kq_wf q1" "kq_sz q1 = maxsz" "n1 = 256" "kq_contents q1 = xs"
    using kq_enq_law [OF wf0 _ assms(5)] assms(1,3)
    by (auto simp: q0 kq_free_def kq_fresh_def kq_contents_def)
  have t1: "kq_tail q1 = 0" using kq_enq_tail [OF assms(5)] by (simp add: q0 kq_fresh_def)
  have c1: "unat (kq_cnt q1) = 256" using q1(4) assms(3) by (metis length_kq_contents)
  then have c1w: "kq_cnt q1 = of_nat 256" by (metis word_of_unat)
  have "hd xs = kq_buf q1 ! 0"
    using c1 t1 by (simp add: q1(4) [symmetric] kq_contents_def hd_map)
  then have b1: "kq_buf q1 ! 0 = xs ! 0" using assms(3) by (metis hd_conv_nth list.size(3) zero_neq_numeral)
  let ?r = "snd (dequeue_loop 256 0 (replicate 256 0) q1)"
  have q2: "q2 = ?r\<lparr>kq_cnt := 0\<rparr>" "length ys = 256"
    using assms(6) kq_deq_value [OF c1w] by auto
  have r: "kq_tail ?r = 0" using dequeue_256_tail [OF t1] q1(2) assms(1) by simp
  have h1: "unat (kq_head q1) = 256" using q1 c1 t1 assms(1) by (simp add: kq_wf_def)
  have q3: "kq_tail q3 = 0" "kq_buf q3 ! 0 = xs ! 0" "kq_cnt q3 = of_nat 1" "n3 = 1"
    using assms(7) kq_enq_one [of q2 b] pos q1(2) r b1 h1 by (auto simp: q2(1))
  show ?thesis
    using assms(8) kq_deq_value [OF q3(3)] q3 q1(3) q2(2) by auto
qed

theorem kqueue_large_ring_repeats_witness:
  "\<exists>q0 q1 q2 q3 q4 ys. kqueue_init 512 True (Some (replicate 512 0)) = Some q0 \<and>
     kq_enq q0 (replicate 256 65) = (q1, 256) \<and> kq_deq q1 256 = (q2, ys) \<and>
     kq_enq q2 [66] = (q3, 1) \<and> kq_deq q3 1 = (q4, [65])"
proof -
  obtain q0 where i: "kqueue_init 512 True (Some (replicate 512 0)) = Some q0"
    using kqueue_init_fresh [of 512 "replicate 512 0"] by simp
  obtain q1 n1 where e1: "kq_enq q0 (replicate 256 65) = (q1, n1)" by force
  obtain q2 ys where d1: "kq_deq q1 256 = (q2, ys)" by force
  obtain q3 n3 where e2: "kq_enq q2 [66] = (q3, n3)" by force
  obtain q4 zs where d2: "kq_deq q3 1 = (q4, zs)" by force
  have "n1 = 256 \<and> length ys = 256 \<and> n3 = 1 \<and> zs = [replicate 256 65 ! 0]"
    using kqueue_large_ring_repeats [OF _ _ _ i e1 d1 e2 d2] by simp
  then show ?thesis using i e1 d1 e2 d2 by auto
qed

end
