(* ===== verification/Range_Alloc.thy ===== *)
theory Range_Alloc
  imports Main
begin

text \<open>
  The contract of an allocator of consecutive numbered units, which the physical frame
  allocator and the kernel's virtual region allocator both provide: what the two calls do to
  the set of free units and to the blocks that may be released. Clients that only allocate
  and release whole blocks are then safe, whatever the order of their calls.
\<close>

datatype frame_op = Alloc nat | Release nat

definition live_frames :: "(nat \<times> nat) list \<Rightarrow> nat list" where
  "live_frames L = concat (map (\<lambda>(f, c). [f..<f + c]) L)"

lemma live_frames_simps [simp]:
  "live_frames [] = []" "live_frames ((f, c) # L) = [f..<f + c] @ live_frames L"
  "live_frames (A @ B) = live_frames A @ live_frames B"
  by (simp_all add: live_frames_def)

fun frames_run ::
    "('s \<Rightarrow> nat \<Rightarrow> 's \<times> nat option) \<Rightarrow> ('s \<Rightarrow> nat \<Rightarrow> nat \<Rightarrow> 's) \<Rightarrow> frame_op list \<Rightarrow>
     's \<Rightarrow> (nat \<times> nat) list \<Rightarrow> 's \<times> (nat \<times> nat) list" where
  "frames_run alloc release [] s L = (s, L)"
| "frames_run alloc release (Alloc c # ops) s L =
     (case alloc s c of
        (s', None) \<Rightarrow> frames_run alloc release ops s' L
      | (s', Some f) \<Rightarrow> frames_run alloc release ops s' ((f, c) # L))"
| "frames_run alloc release (Release i # ops) s L =
     (if i < length L
      then frames_run alloc release ops (release s (fst (L ! i)) (snd (L ! i)))
             (take i L @ drop (Suc i) L)
      else frames_run alloc release ops s L)"

locale range_allocator =
  fixes alloc :: "'s \<Rightarrow> nat \<Rightarrow> 's \<times> nat option"
    and release :: "'s \<Rightarrow> nat \<Rightarrow> nat \<Rightarrow> 's"
    and free :: "'s \<Rightarrow> nat set"
    and univ :: "'s \<Rightarrow> nat set"
    and blocks :: "'s \<Rightarrow> (nat \<times> nat) set"
    and inv :: "'s \<Rightarrow> bool"
    and maxc :: nat
  assumes free_univ: "inv s \<Longrightarrow> free s \<subseteq> univ s"
    and alloc_some: "\<lbrakk>inv s; 0 < c; c \<le> maxc; alloc s c = (s', Some f)\<rbrakk> \<Longrightarrow>
      inv s' \<and> univ s' = univ s \<and> {f..<f + c} \<subseteq> free s \<and> free s' = free s - {f..<f + c} \<and>
      insert (f, c) (blocks s) \<subseteq> blocks s'"
    and alloc_none: "\<lbrakk>inv s; 0 < c; c \<le> maxc; alloc s c = (s', None)\<rbrakk> \<Longrightarrow> s' = s"
    and release_law: "\<lbrakk>inv s; (f, c) \<in> blocks s\<rbrakk> \<Longrightarrow>
      inv (release s f c) \<and> univ (release s f c) = univ s \<and>
      free (release s f c) = free s \<union> {f..<f + c} \<and>
      blocks s - {(f, c)} \<subseteq> blocks (release s f c)"
begin

definition ledger :: "nat set \<Rightarrow> 's \<Rightarrow> (nat \<times> nat) list \<Rightarrow> bool" where
  "ledger F s L \<longleftrightarrow> inv s \<and> F \<subseteq> univ s \<and> distinct (live_frames L) \<and>
     set (live_frames L) \<inter> free s = {} \<and> set (live_frames L) \<union> free s = F \<and>
     (\<forall>(f, c) \<in> set L. 0 < c) \<and> set L \<subseteq> blocks s"

lemma ledger_alloc:
  assumes "ledger F s L" "alloc s c = (s', Some f)" "0 < c" "c \<le> maxc"
  shows "ledger F s' ((f, c) # L)"
  using assms(1) alloc_some [OF _ assms(3,4,2)] assms(3)
  by (auto simp: ledger_def)

lemma ledger_release:
  assumes "ledger F s L" "i < length L"
  shows "ledger F (release s (fst (L ! i)) (snd (L ! i))) (take i L @ drop (Suc i) L)"
proof -
  obtain f c where fc: "L ! i = (f, c)" by fastforce
  have L: "L = take i L @ (f, c) # drop (Suc i) L"
    using id_take_nth_drop [OF assms(2)] fc by simp
  define A where "A = take i L"
  define B where "B = drop (Suc i) L"
  have L': "L = A @ (f, c) # B" using L by (simp add: A_def B_def)
  have fc': "0 < c" "(f, c) \<in> blocks s" "inv s"
    using assms(1) unfolding L' by (auto simp: ledger_def)
  then have "inv (release s f c)" "univ (release s f c) = univ s"
      "free (release s f c) = free s \<union> {f..<f + c}"
      "blocks s - {(f, c)} \<subseteq> blocks (release s f c)"
    using release_law by blast+
  moreover have "(f, c) \<notin> set (A @ B)"
  proof
    assume "(f, c) \<in> set (A @ B)"
    then have "f \<in> set (live_frames (A @ B))" using fc'(1) by (force simp: live_frames_def)
    moreover have "f \<in> {f..<f + c}" using fc'(1) by simp
    moreover have "{f..<f + c} \<inter> set (live_frames (A @ B)) = {}"
      using assms(1) unfolding L' ledger_def by auto
    ultimately show False by blast
  qed
  ultimately have "ledger F (release s f c) (A @ B)"
    using assms(1) unfolding L' by (auto simp: ledger_def)
  then show ?thesis by (simp add: fc A_def B_def)
qed

lemma run_ledger:
  assumes "ledger F s L" "\<forall>c. Alloc c \<in> set ops \<longrightarrow> 0 < c \<and> c \<le> maxc"
    and "frames_run alloc release ops s L = (s', L')"
  shows "ledger F s' L'"
  using assms
proof (induction ops arbitrary: s L)
  case Nil
  then show ?case by simp
next
  case (Cons op ops)
  show ?case
  proof (cases op)
    case (Alloc c)
    obtain t r where a: "alloc s c = (t, r)" by fastforce
    have c: "0 < c" "c \<le> maxc" using Cons.prems(2) Alloc by auto
    have ops: "\<forall>c. Alloc c \<in> set ops \<longrightarrow> 0 < c \<and> c \<le> maxc" using Cons.prems(2) by simp
    show ?thesis
    proof (cases r)
      case None
      then have "t = s" using alloc_none [of s c t] a c Cons.prems(1) by (simp add: ledger_def)
      then show ?thesis using Cons.IH [OF Cons.prems(1) ops] Cons.prems(3) a None Alloc by simp
    next
      case (Some f)
      then have "ledger F t ((f, c) # L)" using ledger_alloc [OF Cons.prems(1)] a c by simp
      then show ?thesis using Cons.IH [OF _ ops] Cons.prems(3) a Some Alloc by simp
    qed
  next
    case (Release i)
    then show ?thesis using Cons ledger_release [of F s L i] by (auto split: if_splits)
  qed
qed

end

end
