(* ===== verification/Pmm.thy ===== *)
theory Pmm
  imports Prelude Range_Alloc
begin

unbundle bit_operations_syntax

text \<open>
  The physical frame allocator, \<^verbatim>\<open>src/kern/mem/pmm.c\<close>: one bit of \<^verbatim>\<open>state.mmap\<close>
  per 4 KiB frame, set while the frame is in use. Frame indices are 32-bit words and the
  address computations keep the width the C code gives them.
\<close>

section \<open>Model\<close>

record pmm_state =
  mem_high :: u64
  mem_low :: u64
  nframes :: u32
  mxframe :: u32
  framesz :: u32
  mmap :: "u8 list"
  mmap_sz :: u64

definition frame_bit :: "pmm_state \<Rightarrow> u32 \<Rightarrow> bool" where
  "frame_bit s fidx \<longleftrightarrow> (mmap s ! unat (fidx div 8)) AND push_bit (unat (fidx mod 8)) 1 \<noteq> 0"

definition frame_set :: "u32 \<Rightarrow> pmm_state \<Rightarrow> pmm_state" where
  "frame_set fidx s =
     s\<lparr>mmap := (mmap s)[unat (fidx div 8) :=
        (mmap s ! unat (fidx div 8)) OR push_bit (unat (fidx mod 8)) 1]\<rparr>"

definition frame_clear :: "u32 \<Rightarrow> pmm_state \<Rightarrow> pmm_state" where
  "frame_clear fidx s =
     s\<lparr>mmap := (mmap s)[unat (fidx div 8) :=
        (mmap s ! unat (fidx div 8)) AND NOT (push_bit (unat (fidx mod 8)) 1)]\<rparr>"

text \<open>The two loops of \<^verbatim>\<open>pmm_try_resv\<close>; the first argument counts the iterations left.\<close>

fun resv_check :: "nat \<Rightarrow> u32 \<Rightarrow> u32 \<Rightarrow> pmm_state \<Rightarrow> bool" where
  "resv_check 0 stidx i s = True"
| "resv_check (Suc k) stidx i s =
     (if frame_bit s (stidx + i) then False else resv_check k stidx (i + 1) s)"

fun resv_set :: "nat \<Rightarrow> u32 \<Rightarrow> u32 \<Rightarrow> pmm_state \<Rightarrow> pmm_state" where
  "resv_set 0 stidx i s = s"
| "resv_set (Suc k) stidx i s = resv_set k stidx (i + 1) (frame_set (stidx + i) s)"

definition pmm_try_resv :: "pmm_state \<Rightarrow> u32 \<Rightarrow> u32 \<Rightarrow> pmm_state \<times> bool" where
  "pmm_try_resv s stidx cnt =
     (if nframes s < stidx + cnt then (s, False)
      else if \<not> resv_check (unat cnt) stidx 0 s then (s, False)
      else (resv_set (unat cnt) stidx 0 s, True))"

text \<open>
  The search of \<^verbatim>\<open>pmm_falloc\<close>: the bits of one byte, then the bytes. \<^verbatim>\<open>cnt\<close> has 64 bits
  and is truncated to 32 in the call of \<^verbatim>\<open>pmm_try_resv\<close>; the product of the frame index
  and the frame size has 32 bits.
\<close>

fun falloc_bits :: "nat \<Rightarrow> u32 \<Rightarrow> u32 \<Rightarrow> u64 \<Rightarrow> pmm_state \<Rightarrow> pmm_state \<times> u64 option" where
  "falloc_bits 0 bi i cnt s = (s, None)"
| "falloc_bits (Suc k) bi i cnt s =
     (let fidx = i * 8 + bi
      in case pmm_try_resv s fidx (ucast cnt) of
           (s', True) \<Rightarrow> (s', Some (mem_low s + ucast (fidx * framesz s)))
         | (s', False) \<Rightarrow> falloc_bits k (bi + 1) i cnt s')"

fun falloc_bytes :: "nat \<Rightarrow> u32 \<Rightarrow> u64 \<Rightarrow> pmm_state \<Rightarrow> pmm_state \<times> u64" where
  "falloc_bytes 0 i cnt s = (s, 0)"
| "falloc_bytes (Suc k) i cnt s =
     (if mmap s ! unat i = 0xFF then falloc_bytes k (i + 1) cnt s
      else case falloc_bits 8 0 i cnt s of
             (s', Some addr) \<Rightarrow> (s', addr)
           | (s', None) \<Rightarrow> falloc_bytes k (i + 1) cnt s')"

definition pmm_falloc :: "pmm_state \<Rightarrow> u64 \<Rightarrow> pmm_state \<times> u64" where
  "pmm_falloc s cnt = falloc_bytes (unat (mmap_sz s)) 0 cnt s"

fun ffree_loop :: "nat \<Rightarrow> u32 \<Rightarrow> u32 \<Rightarrow> pmm_state \<Rightarrow> pmm_state" where
  "ffree_loop 0 stidx i s = s"
| "ffree_loop (Suc k) stidx i s =
     (if nframes s \<le> stidx + i then s
      else ffree_loop k stidx (i + 1) (frame_clear (stidx + i) s))"

definition pmm_ffree :: "pmm_state \<Rightarrow> u64 \<Rightarrow> u64 \<Rightarrow> pmm_state" where
  "pmm_ffree s addr cnt =
     (if addr < mem_low s \<or> mem_high s \<le> addr \<or> cnt = 0 then s
      else ffree_loop (unat cnt) (ucast ((addr - mem_low s) div ucast (framesz s))) 0 s)"

subsection \<open>Initialisation from the boot memory map\<close>

record memmap_entry =
  e_base :: u64
  e_length :: u64
  e_type :: u64

abbreviation (input) LIMINE_MEMMAP_USABLE :: u64 where "LIMINE_MEMMAP_USABLE \<equiv> 0"

datatype pmm_panic = No_usable_memory | No_block_for_bitmap

definition init_high :: "memmap_entry list \<Rightarrow> u64" where
  "init_high es = fold (\<lambda>e h. if h < e_base e + e_length e then e_base e + e_length e else h) es 0"

definition init_bmapaddr :: "u64 \<Rightarrow> memmap_entry list \<Rightarrow> u64" where
  "init_bmapaddr msz es =
     (case find (\<lambda>e. e_type e = LIMINE_MEMMAP_USABLE \<and> msz \<le> e_length e) es of None \<Rightarrow> 0 | Some e \<Rightarrow> e_base e)"

definition init_free_entry :: "memmap_entry \<Rightarrow> pmm_state \<Rightarrow> pmm_state" where
  "init_free_entry e s =
     (if e_type e = LIMINE_MEMMAP_USABLE then
        let fsz = ucast (framesz s) :: u64;
            sidx = (e_base e + fsz - 1) div fsz;
            eidx = (e_base e + e_length e) div fsz
        in if sidx < eidx then pmm_ffree s (sidx * fsz) (eidx - sidx) else s
      else s)"

definition pmm_init :: "memmap_entry list \<Rightarrow> pmm_panic + pmm_state" where
  "pmm_init es =
     (let fsz = 4096 :: u32;
          high = init_high es
      in if high = 0 then Inl No_usable_memory
         else
           let nfr = ucast (high div ucast fsz) :: u32;
               msz = ucast (nfr div 8) + (if nfr mod 8 \<noteq> 0 then 1 else 0) :: u64;
               bmapaddr = init_bmapaddr msz es
           in if bmapaddr = 0 then Inl No_block_for_bitmap
              else
                let s0 = \<lparr>mem_high = high, mem_low = 0, nframes = nfr, mxframe = 0, framesz = fsz,
                          mmap = replicate (unat msz) 0xFF, mmap_sz = msz\<rparr>;
                    s1 = fold init_free_entry es s0;
                    bmapsidx = bmapaddr div ucast fsz;
                    bmapfcnt = (msz + ucast fsz - 1) div ucast fsz;
                    s2 = fst (pmm_try_resv s1 (ucast bmapsidx) (ucast bmapfcnt));
                    s3 = fst (pmm_try_resv s2 (0x8000 div fsz) 1)
                in Inr s3)"

section \<open>The bit map as a set of frames\<close>

definition pmm_inv :: "pmm_state \<Rightarrow> bool" where
  "pmm_inv s \<longleftrightarrow> framesz s = 4096 \<and> mem_low s = 0 \<and>
     unat (mmap_sz s) = (unat (nframes s) + 7) div 8 \<and> length (mmap s) = unat (mmap_sz s) \<and>
     unat (nframes s) * 4096 \<le> unat (mem_high s)"

definition fused :: "pmm_state \<Rightarrow> nat \<Rightarrow> bool" where
  "fused s f \<longleftrightarrow> bit (mmap s ! (f div 8)) (f mod 8)"

definition run_free :: "pmm_state \<Rightarrow> nat \<Rightarrow> nat \<Rightarrow> bool" where
  "run_free s f c \<longleftrightarrow> f + c \<le> unat (nframes s) \<and> (\<forall>j<c. \<not> fused s (f + j))"

lemma unat_div8 [simp]: "unat ((f::u32) div 8) = unat f div 8" "unat (f mod 8) = unat f mod 8"
  by (simp_all add: unat_div_distrib unat_mod_distrib)

lemma and_push_bit_1:
  assumes "n < 8" shows "(w :: u8) AND push_bit n 1 \<noteq> 0 \<longleftrightarrow> bit w n"
  using assms and_exp_eq_0_iff_not_bit [of w n] by simp

lemma frame_bit_fused: "frame_bit s f \<longleftrightarrow> fused s (unat f)"
  unfolding frame_bit_def fused_def using and_push_bit_1 [of "unat f mod 8"] by simp

lemma div_mod_8_eq: "(f div 8 = g div 8 \<and> f mod 8 = g mod 8) \<longleftrightarrow> f = (g::nat)"
  by (metis div_mult_mod_eq)

lemma fused_frame_set:
  assumes "unat f div 8 < length (mmap s)"
  shows "fused (frame_set f s) g \<longleftrightarrow> g = unat f \<or> fused s g"
proof (cases "g div 8 = unat f div 8")
  case True
  then show ?thesis
    using assms div_mod_8_eq [of g "unat f"]
    by (auto simp: fused_def frame_set_def bit_simps)
next
  case False
  then show ?thesis by (auto simp: fused_def frame_set_def)
qed

lemma fused_frame_clear:
  assumes "unat f div 8 < length (mmap s)"
  shows "fused (frame_clear f s) g \<longleftrightarrow> g \<noteq> unat f \<and> fused s g"
proof (cases "g div 8 = unat f div 8")
  case True
  then show ?thesis
    using assms div_mod_8_eq [of g "unat f"]
    by (auto simp: fused_def frame_clear_def bit_simps)
next
  case False
  then show ?thesis by (auto simp: fused_def frame_clear_def)
qed

lemma frame_set_frame [simp]:
  "nframes (frame_set f s) = nframes s" "framesz (frame_set f s) = framesz s"
  "mem_low (frame_set f s) = mem_low s" "mem_high (frame_set f s) = mem_high s"
  "mmap_sz (frame_set f s) = mmap_sz s" "length (mmap (frame_set f s)) = length (mmap s)"
  "mxframe (frame_set f s) = mxframe s"
  by (simp_all add: frame_set_def)

lemma frame_clear_frame [simp]:
  "nframes (frame_clear f s) = nframes s" "framesz (frame_clear f s) = framesz s"
  "mem_low (frame_clear f s) = mem_low s" "mem_high (frame_clear f s) = mem_high s"
  "mmap_sz (frame_clear f s) = mmap_sz s" "length (mmap (frame_clear f s)) = length (mmap s)"
  "mxframe (frame_clear f s) = mxframe s"
  by (simp_all add: frame_clear_def)

text \<open>Two states with the same geometry and the same frames in use are the same state.\<close>

definition same_geom :: "pmm_state \<Rightarrow> pmm_state \<Rightarrow> bool" where
  "same_geom s t \<longleftrightarrow> mem_high s = mem_high t \<and> mem_low s = mem_low t \<and> nframes s = nframes t \<and>
     mxframe s = mxframe t \<and> framesz s = framesz t \<and> mmap_sz s = mmap_sz t \<and>
     length (mmap s) = length (mmap t)"

lemma same_geom_refl [simp]: "same_geom s s"
  by (simp add: same_geom_def)

lemma same_geom_inv: "same_geom s t \<Longrightarrow> pmm_inv s = pmm_inv t"
  by (simp add: same_geom_def pmm_inv_def)

lemma pmm_state_ext:
  assumes "same_geom s t" "\<And>f. f < 8 * length (mmap s) \<Longrightarrow> fused s f = fused t f"
  shows "s = t"
proof -
  have "mmap s = mmap t"
  proof (rule nth_equalityI)
    show "length (mmap s) = length (mmap t)" using assms(1) by (simp add: same_geom_def)
    fix i assume i: "i < length (mmap s)"
    show "mmap s ! i = mmap t ! i"
    proof (rule bit_word_eqI)
      fix n assume "n < LENGTH(8)"
      then have n: "n < 8" by simp
      then have "8 * i + n < 8 * length (mmap s)" using i by simp
      from assms(2) [OF this] show "bit (mmap s ! i) n = bit (mmap t ! i) n"
        using n by (simp add: fused_def)
    qed
  qed
  then show ?thesis using assms(1) by (simp add: same_geom_def)
qed

lemma resv_set_frame: "same_geom (resv_set k st i s) s"
  by (induction k st i s rule: resv_set.induct) (auto simp: same_geom_def)

lemma resv_check_iff:
  assumes "unat st + unat i + k < 2 ^ 32"
  shows "resv_check k st i s \<longleftrightarrow> (\<forall>j<k. \<not> fused s (unat st + unat i + j))"
  using assms
proof (induction k st i s rule: resv_check.induct)
  case (2 k st i s)
  have u: "unat (st + i) = unat st + unat i" and v: "unat (i + 1) = Suc (unat i)"
    using 2(2) by (simp_all add: unat_plus_no_wrap)
  show ?case
    using 2 by (auto simp: frame_bit_fused u v less_Suc_eq_0_disj)
qed simp

lemma fused_resv_set:
  assumes "unat st + unat i + k \<le> 8 * length (mmap s)" "unat st + unat i + k < 2 ^ 32"
  shows "fused (resv_set k st i s) g \<longleftrightarrow>
    fused s g \<or> (unat st + unat i \<le> g \<and> g < unat st + unat i + k)"
  using assms
proof (induction k st i s rule: resv_set.induct)
  case (2 k st i s)
  have u: "unat (st + i) = unat st + unat i" and v: "unat (i + 1) = Suc (unat i)"
    using 2(3) by (simp_all add: unat_plus_no_wrap)
  have b: "unat (st + i) div 8 < length (mmap s)" using 2(2) u by simp
  show ?case
    using 2 by (auto simp: fused_frame_set [OF b] u v)
qed auto

lemma fused_ffree_loop:
  assumes "unat st + unat i \<le> unat (nframes s)" "unat (nframes s) \<le> 8 * length (mmap s)"
  shows "same_geom (ffree_loop k st i s) s \<and> (fused (ffree_loop k st i s) g \<longleftrightarrow>
    fused s g \<and> \<not> (unat st + unat i \<le> g \<and> g < unat st + unat i + k \<and> g < unat (nframes s)))"
  using assms
proof (induction k st i s rule: ffree_loop.induct)
  case (2 k st i s)
  have "unat (nframes s) < 2 ^ 32" using unat_u32 [of "nframes s"] by simp
  then have u: "unat (st + i) = unat st + unat i"
    using 2(2) by (simp add: unat_plus_no_wrap)
  show ?case
  proof (cases "nframes s \<le> st + i")
    case True
    then have "unat st + unat i = unat (nframes s)" using 2(2) u by (simp add: word_le_nat_alt)
    then show ?thesis using True by auto
  next
    case False
    then have lt: "unat st + unat i < unat (nframes s)" using u by (simp add: word_le_nat_alt)
    then have v: "unat (i + 1) = Suc (unat i)"
      using \<open>unat (nframes s) < 2 ^ 32\<close> by (simp add: unat_plus_no_wrap)
    have b: "unat (st + i) div 8 < length (mmap s)" using 2(3) u lt by simp
    have IH: "same_geom (ffree_loop k st (i + 1) (frame_clear (st + i) s)) (frame_clear (st + i) s) \<and>
      (fused (ffree_loop k st (i + 1) (frame_clear (st + i) s)) g \<longleftrightarrow>
       fused (frame_clear (st + i) s) g \<and> \<not> (unat st + unat (i + 1) \<le> g \<and>
         g < unat st + unat (i + 1) + k \<and> g < unat (nframes s)))"
      using 2(1) [OF False] lt 2(3) v by simp
    then show ?thesis using False lt
      by (auto simp: fused_frame_clear [OF b] u v same_geom_def)
  qed
qed auto

text \<open>What one reservation does, and the search as a first fit over the frames.\<close>

definition reserve :: "pmm_state \<Rightarrow> nat \<Rightarrow> nat \<Rightarrow> pmm_state" where
  "reserve s f c = resv_set c (of_nat f) 0 s"

lemma inv_frames_le: "pmm_inv s \<Longrightarrow> unat (nframes s) \<le> 8 * length (mmap s)"
  by (simp add: pmm_inv_def)

lemma same_geom_reserve: "same_geom (reserve s f c) s"
  by (simp add: reserve_def resv_set_frame)

lemma fused_reserve:
  assumes "pmm_inv s" "f + c \<le> unat (nframes s)"
  shows "fused (reserve s f c) g \<longleftrightarrow> fused s g \<or> (f \<le> g \<and> g < f + c)"
proof -
  have "f + c < 4294967296" using assms(2) unat_u32 [of "nframes s"] by simp
  then have "unat (of_nat f :: u32) = f" by (simp add: unat_of_nat)
  then show ?thesis
    using fused_resv_set [of "of_nat f" 0 c s g] inv_frames_le [OF assms(1)] assms(2)
      \<open>f + c < 4294967296\<close>
    by (simp add: reserve_def)
qed

lemma pmm_try_resv_run:
  assumes "unat st + unat cnt < 4294967296"
  shows "pmm_try_resv s st cnt =
    (if run_free s (unat st) (unat cnt) then (reserve s (unat st) (unat cnt), True) else (s, False))"
proof -
  have "unat (st + cnt) = unat st + unat cnt" using assms by (simp add: unat_plus_no_wrap)
  then show ?thesis
    using assms resv_check_iff [of st 0 "unat cnt" s]
    by (auto simp: pmm_try_resv_def run_free_def reserve_def word_less_nat_alt)
qed

definition falloc_result :: "pmm_state \<Rightarrow> nat \<Rightarrow> nat option \<Rightarrow> pmm_state \<times> u64 option" where
  "falloc_result s c r = (case r of None \<Rightarrow> (s, None)
     | Some f \<Rightarrow> (reserve s f c, Some (ucast (of_nat f * 4096 :: u32))))"

lemma falloc_bits_find:
  assumes "pmm_inv s" "8 * unat i + unat bi + k + c < 4294967296" "c = unat (ucast cnt :: u32)"
  shows "falloc_bits k bi i cnt s =
    falloc_result s c (find (\<lambda>f. run_free s f c) [8 * unat i + unat bi..<8 * unat i + unat bi + k])"
  using assms(2)
proof (induction k arbitrary: bi)
  case 0
  then show ?case by (simp add: falloc_result_def)
next
  case (Suc k)
  have "unat (i * 8) = 8 * unat i"
    using Suc.prems by (simp add: unat_word_ariths)
  then have u: "unat (i * 8 + bi) = 8 * unat i + unat bi" and v: "unat (bi + 1) = Suc (unat bi)"
    using Suc.prems by (simp_all add: unat_plus_no_wrap)
  have t: "pmm_try_resv s (i * 8 + bi) (ucast cnt) =
      (if run_free s (8 * unat i + unat bi) c then (reserve s (8 * unat i + unat bi) c, True)
       else (s, False))"
    using pmm_try_resv_run [of "i * 8 + bi" "ucast cnt" s] Suc.prems u assms(3) by simp
  have "framesz s = 4096" "mem_low s = 0" using assms(1) by (simp_all add: pmm_inv_def)
  moreover have "[8 * unat i + unat bi..<8 * unat i + unat bi + Suc k] =
      (8 * unat i + unat bi) # [8 * unat i + unat (bi + 1)..<8 * unat i + unat (bi + 1) + k]"
    using v by (simp add: upt_conv_Cons del: upt_Suc)
  moreover have "falloc_bits k (bi + 1) i cnt s = falloc_result s c
      (find (\<lambda>f. run_free s f c) [8 * unat i + unat (bi + 1)..<8 * unat i + unat (bi + 1) + k])"
    by (rule Suc.IH) (use Suc.prems v in simp)
  ultimately show ?case
    by (simp add: Let_def t falloc_result_def del: upt_Suc)
qed

lemma bit_full_byte: "n < 8 \<Longrightarrow> bit (0xFF :: u8) n"
proof -
  assume "n < 8"
  moreover have "(0xFF :: u8) = mask 8" by (simp add: mask_eq_exp_minus_1)
  ultimately show ?thesis by (simp only: bit_mask_iff) simp
qed

lemma bit_full_byte_mod: "bit (0xFF :: u8) (f mod 8)"
  by (rule bit_full_byte) simp

lemma full_byte_no_run:
  assumes "mmap s ! i = 0xFF" "0 < c"
  shows "find (\<lambda>f. run_free s f c) [8 * i..<8 * i + 8] = None"
proof -
  have "\<not> run_free s f c" if "8 * i \<le> f" "f < 8 * i + 8" for f
  proof -
    have "f div 8 = i" using that by auto
    then have "fused s f" using assms bit_full_byte_mod [of f] unfolding fused_def by metis
    then show ?thesis using assms(2) by (auto simp: run_free_def intro!: exI [of _ 0])
  qed
  then show ?thesis by (auto simp: find_None_iff)
qed

lemma falloc_bytes_find:
  assumes "pmm_inv s" "8 * unat i + 8 * k + c < 4294967296" "c = unat (ucast cnt :: u32)" "0 < c"
  shows "falloc_bytes k i cnt s =
    (case falloc_result s c (find (\<lambda>f. run_free s f c) [8 * unat i..<8 * unat i + 8 * k]) of
       (s', None) \<Rightarrow> (s', 0) | (s', Some a) \<Rightarrow> (s', a))"
  using assms(2)
proof (induction k arbitrary: i)
  case 0
  then show ?case by (simp add: falloc_result_def)
next
  case (Suc k)
  have v: "unat (i + 1) = Suc (unat i)" using Suc.prems by (simp add: unat_plus_no_wrap)
  have split: "[8 * unat i..<8 * unat i + 8 * Suc k] =
      [8 * unat i..<8 * unat i + 8] @ [8 * unat (i + 1)..<8 * unat (i + 1) + 8 * k]"
    using v upt_add_eq_append [of "8 * unat i" "8 * unat i + 8" "8 * k"]
    by (simp add: algebra_simps del: upt_Suc)
  have IH: "falloc_bytes k (i + 1) cnt s =
    (case falloc_result s c
       (find (\<lambda>f. run_free s f c) [8 * unat (i + 1)..<8 * unat (i + 1) + 8 * k]) of
       (s', None) \<Rightarrow> (s', 0) | (s', Some a) \<Rightarrow> (s', a))"
    by (rule Suc.IH) (use Suc.prems v in simp)
  have B: "falloc_bits 8 0 i cnt s =
      falloc_result s c (find (\<lambda>f. run_free s f c) [8 * unat i..<8 * unat i + 8])"
    using falloc_bits_find [of s i 0 8 c cnt] assms Suc.prems by simp
  show ?case
  proof (cases "mmap s ! unat i = 0xFF")
    case True
    then show ?thesis
      unfolding split find_append_case full_byte_no_run [OF True assms(4)] by (simp add: IH)
  next
    case False
    then show ?thesis
      unfolding split find_append_case
      by (simp add: B IH falloc_result_def split: option.split del: upt_Suc)
  qed
qed

text \<open>The frame allocator is a first-fit search.\<close>

lemma pmm_falloc_find:
  assumes "pmm_inv s" "unat (nframes s) + c < 4294967280" "c = unat (ucast cnt :: u32)" "0 < c"
  shows "pmm_falloc s cnt =
    (case falloc_result s c (find (\<lambda>f. run_free s f c) [0..<8 * unat (mmap_sz s)]) of
       (s', None) \<Rightarrow> (s', 0) | (s', Some a) \<Rightarrow> (s', a))"
proof -
  have "8 * unat (mmap_sz s) \<le> unat (nframes s) + 7" using assms(1) by (simp add: pmm_inv_def)
  then show ?thesis
    unfolding pmm_falloc_def using falloc_bytes_find [of s 0 "unat (mmap_sz s)" c cnt] assms by simp
qed

lemma find_upt_least:
  assumes "P f" "f < n" "\<And>g. g < f \<Longrightarrow> \<not> P g"
  shows "find P [0..<n] = Some f"
  using assms by (simp add: find_upt_iff)

lemma run_free_lt:
  assumes "pmm_inv s" "run_free s f c" "0 < c"
  shows "f < 8 * unat (mmap_sz s)"
  using assms by (auto simp: pmm_inv_def run_free_def)

lemma pmm_falloc_none:
  assumes "pmm_inv s" "unat (nframes s) + c < 4294967280" "c = unat (ucast cnt :: u32)" "0 < c"
    and "\<And>f. \<not> run_free s f c"
  shows "pmm_falloc s cnt = (s, 0)"
proof -
  have "find (\<lambda>f. run_free s f c) [0..<8 * unat (mmap_sz s)] = None"
    using assms(5) by (auto simp: find_None_iff)
  then show ?thesis using pmm_falloc_find [OF assms(1-4)] by (simp add: falloc_result_def)
qed

lemma pmm_falloc_least:
  assumes "pmm_inv s" "unat (nframes s) + c < 4294967280" "c = unat (ucast cnt :: u32)" "0 < c"
    and "run_free s f c" "\<And>g. g < f \<Longrightarrow> \<not> run_free s g c"
  shows "pmm_falloc s cnt = (reserve s f c, ucast (of_nat f * 4096 :: u32))"
proof -
  have "find (\<lambda>f. run_free s f c) [0..<8 * unat (mmap_sz s)] = Some f"
    using find_upt_least [of "\<lambda>f. run_free s f c", OF assms(5) run_free_lt [OF assms(1,5,4)] assms(6)] .
  then show ?thesis using pmm_falloc_find [OF assms(1-4)] by (simp add: falloc_result_def)
qed

lemma frame_addr_unat:
  "unat (ucast (of_nat f * 4096 :: u32) :: u64) = 4096 * (f mod 1048576)"
proof -
  have "unat (of_nat f * 4096 :: u32) = (f * 4096) mod 4294967296"
    by (simp add: unat_word_ariths unat_of_nat mod_mult_left_eq)
  also have "\<dots> = 4096 * (f mod 1048576)"
    using mult_mod_right [of 4096 f 1048576] by (simp add: mult.commute)
  finally show ?thesis by (simp add: unat_ucast_widen)
qed

lemma frame_addr:
  "ucast (of_nat f * 4096 :: u32) = (of_nat (4096 * (f mod 1048576)) :: u64)"
proof -
  have "unat (of_nat (4096 * (f mod 1048576)) :: u64) = 4096 * (f mod 1048576)"
    by (rule unat_of_nat_small) simp
  then show ?thesis by (simp only: word_unat_eq_iff frame_addr_unat)
qed

lemma pmm_ffree_spec:
  assumes "pmm_inv s" "f < unat (nframes s)" "cnt \<noteq> 0"
  shows "same_geom (pmm_ffree s (of_nat (4096 * f)) cnt) s \<and>
    (fused (pmm_ffree s (of_nat (4096 * f)) cnt) g \<longleftrightarrow>
      fused s g \<and> \<not> (f \<le> g \<and> g < f + unat cnt \<and> g < unat (nframes s)))"
proof -
  have f: "f < 4294967296" using assms(2) unat_u32 [of "nframes s"] by simp
  have a: "unat (of_nat (4096 * f) :: u64) = 4096 * f" by (rule unat_of_nat_small) (use f in simp)
  have g: "framesz s = 4096" "mem_low s = 0" "4096 * unat (nframes s) \<le> unat (mem_high s)"
    using assms(1) by (simp_all add: pmm_inv_def mult.commute)
  have "unat (ucast (of_nat (4096 * f) div 4096 :: u64) :: u32) = f"
    using f by (simp only: unat_ucast_mod unat_div_distrib a) simp
  then have st: "ucast (of_nat (4096 * f) div 4096 :: u64) = (of_nat f :: u32)"
    using word_of_unat [of "ucast (of_nat (4096 * f) div 4096 :: u64) :: u32"] by simp
  have "\<not> mem_high s \<le> of_nat (4096 * f)"
    unfolding word_le_nat_alt a using g(3) assms(2) by simp
  then have "pmm_ffree s (of_nat (4096 * f)) cnt = ffree_loop (unat cnt) (of_nat f) 0 s"
    unfolding pmm_ffree_def using assms(3) g st by simp
  moreover have "unat (of_nat f :: u32) = f" using f by (simp add: unat_of_nat)
  ultimately show ?thesis
    using fused_ffree_loop [of "of_nat f" 0 s "unat cnt" g] inv_frames_le [OF assms(1)] assms(2)
    by simp
qed

section \<open>The allocator behind the interface of range allocators\<close>

text \<open>
  The kernel's allocator behind that interface, on a machine with at most 4 GiB (2^20 frames)
  whose frame 0 is never handed out (address 0 is the failure value of \<^verbatim>\<open>pmm_falloc\<close>).
\<close>

definition pm_alloc :: "pmm_state \<Rightarrow> nat \<Rightarrow> pmm_state \<times> nat option" where
  "pm_alloc s c = (case pmm_falloc s (of_nat c) of
     (s', a) \<Rightarrow> (s', if a = 0 then None else Some (unat a div 4096)))"

definition pm_release :: "pmm_state \<Rightarrow> nat \<Rightarrow> nat \<Rightarrow> pmm_state" where
  "pm_release s f c = pmm_ffree s (of_nat (4096 * f)) (of_nat c)"

definition pm_free :: "pmm_state \<Rightarrow> nat set" where
  "pm_free s = {f. 0 < f \<and> f < unat (nframes s) \<and> \<not> fused s f}"

definition pm_univ :: "pmm_state \<Rightarrow> nat set" where
  "pm_univ s = {f. 0 < f \<and> f < unat (nframes s)}"

text \<open>Any range of managed frames may be released.\<close>

definition pm_blocks :: "pmm_state \<Rightarrow> (nat \<times> nat) set" where
  "pm_blocks s = {(f, c). 0 < c \<and> {f..<f + c} \<subseteq> pm_univ s}"

definition pm_ok :: "pmm_state \<Rightarrow> bool" where
  "pm_ok s \<longleftrightarrow> pmm_inv s \<and> nframes s \<le> 1048576 \<and> fused s 0"

lemma small_nframes: "nframes s \<le> 1048576 \<Longrightarrow> unat (nframes s) \<le> 1048576"
  by (simp add: word_le_nat_alt)

lemma ucast_of_nat_cnt:
  assumes "c \<le> 2147483648" shows "unat (ucast (of_nat c :: u64) :: u32) = c"
  using assms by (simp add: unat_ucast_mod unat_of_nat)

lemma run_free_pm_free:
  assumes "fused s 0" "0 < c"
  shows "run_free s f c \<longleftrightarrow> {f..<f + c} \<subseteq> pm_free s"
proof
  assume r: "run_free s f c"
  show "{f..<f + c} \<subseteq> pm_free s"
  proof
    fix g assume "g \<in> {f..<f + c}"
    then have g: "g - f < c" "g < unat (nframes s)" "f + (g - f) = g"
      using r by (auto simp: run_free_def)
    then have "\<not> fused s g" using r unfolding run_free_def by metis
    then show "g \<in> pm_free s" using assms(1) g by (auto simp: pm_free_def intro: gr0I)
  qed
next
  assume sub: "{f..<f + c} \<subseteq> pm_free s"
  moreover have "f + (c - 1) \<in> {f..<f + c}" using assms(2) by simp
  ultimately have "f + (c - 1) < unat (nframes s)" unfolding pm_free_def by blast
  moreover have "\<not> fused s (f + j)" if "j < c" for j
    using sub that unfolding pm_free_def by (metis (lifting) atLeastLessThan_iff le_add1
      mem_Collect_eq nat_add_left_cancel_less subsetD)
  ultimately show "run_free s f c" using assms(2) by (simp add: run_free_def)
qed

lemma least_run:
  assumes "run_free s f c"
  obtains g where "run_free s g c" "\<And>h. h < g \<Longrightarrow> \<not> run_free s h c"
  using assms exists_least_iff [of "\<lambda>f. run_free s f c"] by blast

lemma pm_falloc_cases:
  assumes "pmm_inv s" "nframes s \<le> 1048576" "0 < c" "c \<le> 2147483648"
  obtains (none) "pmm_falloc s (of_nat c) = (s, 0)" "\<And>f. \<not> run_free s f c"
  | (some) f where "pmm_falloc s (of_nat c) = (reserve s f c, of_nat (4096 * f))"
      "unat (of_nat (4096 * f) :: u64) = 4096 * f" "run_free s f c"
      "\<And>g. g < f \<Longrightarrow> \<not> run_free s g c"
proof (cases "\<exists>f. run_free s f c")
  case True
  then obtain f where f: "run_free s f c" "\<And>g. g < f \<Longrightarrow> \<not> run_free s g c" using least_run by blast
  then have "f < 1048576" using small_nframes [OF assms(2)] assms(3) by (auto simp: run_free_def)
  moreover from this have "unat (of_nat (4096 * f) :: u64) = 4096 * f"
    by (intro unat_of_nat_small) simp
  ultimately show ?thesis
    using pmm_falloc_least [OF assms(1) _ _ assms(3) f, of "of_nat c"] ucast_of_nat_cnt [OF assms(4)]
      small_nframes [OF assms(2)] assms(4) some [OF _ _ f]
    by (simp add: frame_addr)
next
  case False
  then show ?thesis
    using pmm_falloc_none [OF assms(1) _ _ assms(3), of "of_nat c"] ucast_of_nat_cnt [OF assms(4)]
      small_nframes [OF assms(2)] assms(4) none by simp
qed

lemma reserve_free:
  assumes "pm_ok s" "run_free s f c" "0 < c"
  shows "pm_ok (reserve s f c) \<and> pm_univ (reserve s f c) = pm_univ s \<and>
    pm_free (reserve s f c) = pm_free s - {f..<f + c}"
proof -
  have g: "same_geom (reserve s f c) s" by (rule same_geom_reserve)
  then have "nframes (reserve s f c) = nframes s" by (simp add: same_geom_def)
  then show ?thesis
    using assms fused_reserve [of s f c] same_geom_inv [OF g]
    by (auto simp: pm_ok_def pm_univ_def pm_free_def run_free_def)
qed

lemma release_free:
  assumes "pm_ok s" "0 < c" "{f..<f + c} \<subseteq> pm_univ s"
  shows "pm_ok (pm_release s f c) \<and> pm_univ (pm_release s f c) = pm_univ s \<and>
    pm_free (pm_release s f c) = pm_free s \<union> {f..<f + c}"
proof -
  have "f \<in> {f..<f + c}" using assms(2) by simp
  then have f: "0 < f" "f < unat (nframes s)" using assms(3) unfolding pm_univ_def by blast+
  have "f + (c - 1) \<in> {f..<f + c}" using assms(2) by simp
  then have c: "f + (c - 1) < unat (nframes s)" using assms(3) unfolding pm_univ_def by blast
  have "unat (of_nat c :: u64) = c"
    by (rule unat_of_nat_small) (use c unat_u32 [of "nframes s"] in simp)
  moreover from this have "(of_nat c :: u64) \<noteq> 0" using assms(2) by auto
  ultimately have g: "same_geom (pm_release s f c) s" and
      u: "fused (pm_release s f c) g \<longleftrightarrow> fused s g \<and> \<not> (f \<le> g \<and> g < f + c)" for g
    using pmm_ffree_spec [of s f "of_nat c" g] f c assms(1) by (auto simp: pm_release_def pm_ok_def)
  have "nframes (pm_release s f c) = nframes s" using g by (simp add: same_geom_def)
  then show ?thesis
    using assms f c u same_geom_inv [OF g] by (auto simp: pm_ok_def pm_univ_def pm_free_def)
qed

interpretation pm: range_allocator pm_alloc pm_release pm_free pm_univ pm_blocks pm_ok 2147483648
proof unfold_locales
  show "pm_free s \<subseteq> pm_univ s" if "pm_ok s" for s by (auto simp: pm_free_def pm_univ_def)
next
  fix s c s' f
  assume a: "pm_ok s" "0 < c" "c \<le> 2147483648" "pm_alloc s c = (s', Some f)"
  then have b: "pmm_inv s" "nframes s \<le> 1048576" by (auto simp: pm_ok_def)
  show "pm_ok s' \<and> pm_univ s' = pm_univ s \<and> {f..<f + c} \<subseteq> pm_free s \<and>
      pm_free s' = pm_free s - {f..<f + c} \<and> insert (f, c) (pm_blocks s) \<subseteq> pm_blocks s'"
    using b a(2,3)
  proof (cases rule: pm_falloc_cases)
    case none
    then show ?thesis using a(4) by (simp add: pm_alloc_def)
  next
    case (some g)
    then have "s' = reserve s g c" "f = g" using a(4) by (auto simp: pm_alloc_def split: if_splits)
    then show ?thesis
      using reserve_free [OF a(1) some(3) a(2)] run_free_pm_free [of s c g] some(3) a
      by (auto simp: pm_ok_def pm_blocks_def pm_univ_def pm_free_def)
  qed
next
  fix s c s'
  assume a: "pm_ok s" "0 < c" "c \<le> 2147483648" "pm_alloc s c = (s', None)"
  then have b: "pmm_inv s" "nframes s \<le> 1048576" by (auto simp: pm_ok_def)
  show "s' = s"
    using b a(2,3)
  proof (cases rule: pm_falloc_cases)
    case none
    then show ?thesis using a run_free_pm_free [of s c] by (auto simp: pm_alloc_def pm_ok_def)
  next
    case (some g)
    then have "g = 0" using a(4) by (auto simp: pm_alloc_def split: if_splits)
    then show ?thesis using some(3) a by (force simp: run_free_def pm_ok_def)
  qed
next
  show "pm_ok (pm_release s f c) \<and> pm_univ (pm_release s f c) = pm_univ s \<and>
      pm_free (pm_release s f c) = pm_free s \<union> {f..<f + c} \<and>
      pm_blocks s - {(f, c)} \<subseteq> pm_blocks (pm_release s f c)"
    if "pm_ok s" "(f, c) \<in> pm_blocks s" for s c f
    using release_free [of s c f] that by (auto simp: pm_blocks_def)
qed

section \<open>Initialisation\<close>

definition entry_end :: "memmap_entry \<Rightarrow> nat" where
  "entry_end e = unat (e_base e) + unat (e_length e)"

text \<open>A frame lies wholly in a usable entry of the boot memory map.\<close>

definition in_entry :: "memmap_entry \<Rightarrow> nat \<Rightarrow> bool" where
  "in_entry e g \<longleftrightarrow> e_type e = LIMINE_MEMMAP_USABLE \<and>
     unat (e_base e) \<le> 4096 * g \<and> 4096 * (g + 1) \<le> entry_end e"

lemma unat_entry_end:
  assumes "entry_end e < 17592186044416"
  shows "unat (e_base e + e_length e) = entry_end e"
  using assms by (simp add: entry_end_def unat_plus_no_wrap)

lemma init_high_fold:
  assumes "\<forall>e \<in> set es. entry_end e < 17592186044416" "unat h < 17592186044416"
  shows "let r = fold (\<lambda>e h. if h < e_base e + e_length e then e_base e + e_length e else h) es h
    in unat r < 17592186044416 \<and> unat h \<le> unat r \<and> (\<forall>e \<in> set es. entry_end e \<le> unat r)"
  using assms
proof (induction es arbitrary: h)
  case (Cons e es)
  define h' where "h' = (if h < e_base e + e_length e then e_base e + e_length e else h)"
  have u: "unat (e_base e + e_length e) = entry_end e"
    by (rule unat_entry_end) (use Cons.prems in simp)
  have "unat h' < 17592186044416" "unat h \<le> unat h'" "entry_end e \<le> unat h'"
    using Cons.prems u by (auto simp: h'_def word_less_nat_alt)
  then show ?case using Cons.IH [of h'] Cons.prems by (auto simp: h'_def Let_def)
qed simp

lemma init_high_bounds:
  assumes "\<forall>e \<in> set es. entry_end e < 17592186044416"
  shows "unat (init_high es) < 17592186044416" "e \<in> set es \<Longrightarrow> entry_end e \<le> unat (init_high es)"
  using init_high_fold [OF assms, of 0] by (auto simp: init_high_def Let_def)

lemma init_free_entry_spec:
  assumes "pmm_inv s" "unat (nframes s) = unat (mem_high s) div 4096"
    and "entry_end e < 17592186044416" "entry_end e \<le> unat (mem_high s)"
  shows "same_geom (init_free_entry e s) s \<and>
    (fused (init_free_entry e s) g \<longleftrightarrow> fused s g \<and> \<not> in_entry e g)"
proof (cases "e_type e = LIMINE_MEMMAP_USABLE")
  case True
  have fsz: "framesz s = 4096" using assms(1) by (simp add: pmm_inv_def)
  define a where "a = (unat (e_base e) + 4095) div 4096"
  define b where "b = entry_end e div 4096"
  have "unat (e_base e) + 4095 < 18446744073709551616" using assms(3) by (simp add: entry_end_def)
  then have "unat (4095 + e_base e) = unat (e_base e) + 4095" by (simp add: unat_plus_no_wrap)
  then have ua: "unat ((4095 + e_base e) div 4096) = a" by (simp add: a_def unat_div_distrib)
  have ub: "unat ((e_base e + e_length e) div 4096) = b"
    using unat_entry_end [OF assms(3)] by (simp add: b_def unat_div_distrib)
  have wa: "(4095 + e_base e) div 4096 = of_nat a" unfolding ua [symmetric] by simp
  have wb: "(e_base e + e_length e) div 4096 = of_nat b" unfolding ub [symmetric] by simp
  have I: "init_free_entry e s =
      (if a < b then pmm_ffree s (of_nat (4096 * a)) (of_nat b - of_nat a) else s)"
    using True fsz ua ub
    by (simp add: init_free_entry_def Let_def word_less_nat_alt wa wb) (simp add: mult.commute)
  have in_ab: "in_entry e g \<longleftrightarrow> a \<le> g \<and> g < b"
    using True by (auto simp: in_entry_def a_def b_def)
  show ?thesis
  proof (cases "a < b")
    case ab: True
    have bn: "b \<le> unat (nframes s)" using assms(2,4) by (simp add: b_def div_le_mono)
    have "(of_nat b - of_nat a :: u64) = of_nat (b - a)" using ab by simp
    moreover have "unat (of_nat (b - a) :: u64) = b - a"
      by (rule unat_of_nat_small) (use bn unat_u32 [of "nframes s"] in simp)
    ultimately have c: "unat (of_nat b - of_nat a :: u64) = b - a" by simp
    then have "(of_nat b - of_nat a :: u64) \<noteq> 0" using ab by auto
    then show ?thesis
      using pmm_ffree_spec [OF assms(1), of a "of_nat b - of_nat a" g] ab bn
      unfolding I c in_ab by auto
  next
    case False
    then show ?thesis using I in_ab by auto
  qed
next
  case False
  then show ?thesis by (simp add: init_free_entry_def in_entry_def)
qed

lemma init_free_fold:
  assumes "pmm_inv s" "unat (nframes s) = unat (mem_high s) div 4096"
    and "\<forall>e \<in> set es. entry_end e < 17592186044416 \<and> entry_end e \<le> unat (mem_high s)"
  shows "same_geom (fold init_free_entry es s) s \<and>
    (fused (fold init_free_entry es s) g \<longleftrightarrow> fused s g \<and> (\<forall>e \<in> set es. \<not> in_entry e g))"
  using assms
proof (induction es arbitrary: s)
  case (Cons e es)
  have S: "same_geom (init_free_entry e s) s \<and>
      (fused (init_free_entry e s) g \<longleftrightarrow> fused s g \<and> \<not> in_entry e g)"
    using init_free_entry_spec Cons.prems by simp
  then have "same_geom (fold init_free_entry es (init_free_entry e s)) (init_free_entry e s) \<and>
      (fused (fold init_free_entry es (init_free_entry e s)) g \<longleftrightarrow>
       fused (init_free_entry e s) g \<and> (\<forall>e \<in> set es. \<not> in_entry e g))"
    using Cons.prems same_geom_inv [of "init_free_entry e s" s]
    by (intro Cons.IH) (auto simp: same_geom_def)
  then show ?case using S by (auto simp: same_geom_def)
qed simp

definition usable_aligned :: "memmap_entry \<Rightarrow> bool" where
  "usable_aligned e \<longleftrightarrow> (e_type e = LIMINE_MEMMAP_USABLE \<longrightarrow>
     4096 dvd unat (e_base e) \<and> 4096 dvd unat (e_length e))"

text \<open>The frames of the bitmap itself: it starts at the base of the first entry that holds it.\<close>

definition bitmap_frames :: "memmap_entry list \<Rightarrow> pmm_state \<Rightarrow> nat set" where
  "bitmap_frames es s =
     (let b = unat (init_bmapaddr (mmap_sz s) es) div 4096
      in {b..<b + (unat (mmap_sz s) + 4095) div 4096})"

lemma bmapaddr_entry:
  assumes "init_bmapaddr msz es \<noteq> 0"
  obtains e where "e \<in> set es" "e_type e = LIMINE_MEMMAP_USABLE" "msz \<le> e_length e"
    "init_bmapaddr msz es = e_base e"
proof -
  obtain e where e: "find (\<lambda>e. e_type e = LIMINE_MEMMAP_USABLE \<and> msz \<le> e_length e) es = Some e"
    using assms by (auto simp: init_bmapaddr_def split: option.splits)
  then have "e \<in> set es" "e_type e = LIMINE_MEMMAP_USABLE" "msz \<le> e_length e"
    by (auto simp: find_Some_iff)
  then show ?thesis using that e by (simp add: init_bmapaddr_def)
qed

lemma try_resv_if_run:
  assumes "pmm_inv s" "f + c \<le> unat (nframes s)" "\<And>g. f \<le> g \<Longrightarrow> g < f + c \<Longrightarrow> \<not> fused s g"
  shows "same_geom (fst (pmm_try_resv s (of_nat f) (of_nat c))) s \<and>
    (fused (fst (pmm_try_resv s (of_nat f) (of_nat c))) g \<longleftrightarrow> fused s g \<or> f \<le> g \<and> g < f + c)"
proof -
  have b: "f + c < 4294967296" using assms(2) unat_u32 [of "nframes s"] by simp
  then have u: "unat (of_nat f :: u32) = f" "unat (of_nat c :: u32) = c"
    by (simp_all add: unat_of_nat)
  have "run_free s f c" using assms(2,3) by (simp add: run_free_def)
  then have "pmm_try_resv s (of_nat f) (of_nat c) = (reserve s f c, True)"
    using pmm_try_resv_run [of "of_nat f" "of_nat c" s] b u by simp
  then show ?thesis using fused_reserve [OF assms(1,2)] same_geom_reserve by simp
qed

lemma try_resv_one:
  assumes "pmm_inv s" "f < 1000000"
  shows "same_geom (fst (pmm_try_resv s (of_nat f) 1)) s \<and>
    (g < unat (nframes s) \<longrightarrow>
      (fused (fst (pmm_try_resv s (of_nat f) 1)) g \<longleftrightarrow> fused s g \<or> g = f))"
proof -
  have u: "unat (of_nat f :: u32) = f" using assms(2) by (simp add: unat_of_nat)
  show ?thesis
  proof (cases "run_free s f 1")
    case True
    then have "f + 1 \<le> unat (nframes s)" by (simp add: run_free_def)
    then show ?thesis
      using pmm_try_resv_run [of "of_nat f" 1 s] True u assms(2) same_geom_reserve
        fused_reserve [OF assms(1), of f 1 g] by auto
  next
    case False
    then have "g < unat (nframes s) \<Longrightarrow> g = f \<Longrightarrow> fused s g" by (auto simp: run_free_def)
    then show ?thesis using pmm_try_resv_run [of "of_nat f" 1 s] False u assms(2) by auto
  qed
qed

lemma ceil_div_8: "((n::nat) + 7) div 8 = n div 8 + (if n mod 8 \<noteq> 0 then 1 else 0)"
proof -
  have "n = 8 * (n div 8) + n mod 8" "n mod 8 < 8" by simp_all
  then have "(n + 7) div 8 = n div 8 + (n mod 8 + 7) div 8" by linarith
  moreover have "(n mod 8 + 7) div 8 = (if n mod 8 \<noteq> 0 then 1 else 0)"
    using \<open>n mod 8 < 8\<close> by (auto simp: div_eq_dividend_iff intro!: div_nat_eqI)
  ultimately show ?thesis by simp
qed

lemma bitmap_bytes:
  fixes n :: u32
  shows "unat (ucast (n div 8) + (if n mod 8 \<noteq> 0 then 1 else 0) :: u64) = (unat n + 7) div 8"
proof -
  have "unat n div 8 < 4294967296" using unat_u32 [of n] by simp
  then have "unat (ucast (n div 8) :: u64) = unat n div 8" by (simp add: unat_ucast_widen)
  moreover have "n mod 8 \<noteq> 0 \<longleftrightarrow> unat n mod 8 \<noteq> 0" by (simp add: word_unat_eq_iff)
  moreover have "(unat n + 7) div 8 = unat n div 8 + (if unat n mod 8 \<noteq> 0 then 1 else 0)"
    by (rule ceil_div_8)
  ultimately show ?thesis using \<open>unat n div 8 < 4294967296\<close> by (simp add: unat_plus_no_wrap)
qed

lemma aligned_entry_holds:
  assumes "e_type e = LIMINE_MEMMAP_USABLE" "usable_aligned e" "m \<le> unat (e_length e)"
    and "unat (e_base e) div 4096 \<le> g" "g < unat (e_base e) div 4096 + (m + 4095) div 4096"
  shows "in_entry e g"
proof -
  obtain b l where b: "unat (e_base e) = 4096 * b" and l: "unat (e_length e) = 4096 * l"
    using assms(1,2) by (auto simp: usable_aligned_def elim!: dvdE)
  have "(m + 4095) div 4096 \<le> l" using assms(3) l by linarith
  then have "b \<le> g" "g < b + l" using assms(4,5) b by auto
  then show ?thesis using assms(1) b l by (simp add: in_entry_def entry_end_def)
qed

lemma pmm_init_start:
  assumes "pmm_init es = Inr s" "\<forall>e \<in> set es. entry_end e < 17592186044416"
  obtains s0 where "pmm_inv s0" "unat (nframes s0) = unat (mem_high s0) div 4096"
    "mem_high s0 = init_high es" "\<And>f. f < unat (nframes s0) \<Longrightarrow> fused s0 f"
    "init_bmapaddr (mmap_sz s0) es \<noteq> 0" "mmap_sz s0 \<le> 536870912"
    "s = fst (pmm_try_resv (fst (pmm_try_resv (fold init_free_entry es s0)
           (ucast (init_bmapaddr (mmap_sz s0) es div 4096))
           (ucast ((mmap_sz s0 + 4095) div 4096)))) 8 1)"
proof -
  define n :: u32 where "n = ucast (init_high es div 4096)"
  define msz :: u64 where "msz = ucast (n div 8) + (if n mod 8 \<noteq> 0 then 1 else 0)"
  define s0 where "s0 = \<lparr>mem_high = init_high es, mem_low = 0, nframes = n, mxframe = 0,
    framesz = 4096, mmap = replicate (unat msz) 0xFF, mmap_sz = msz\<rparr>"
  have n: "unat n = unat (init_high es) div 4096"
    using init_high_bounds(1) [OF assms(2)] by (simp add: n_def unat_ucast_mod unat_div_distrib)
  have msz: "unat msz = (unat n + 7) div 8" unfolding msz_def by (rule bitmap_bytes)
  have c: "ucast (4096 :: u32) = (4096 :: u64)" "0x8000 div (4096 :: u32) = 8"
      "msz + 4096 - 1 = msz + 4095"
    by simp_all
  have I: "pmm_init es =
      (if init_high es = 0 then Inl No_usable_memory
       else if init_bmapaddr msz es = 0 then Inl No_block_for_bitmap
       else Inr (fst (pmm_try_resv (fst (pmm_try_resv (fold init_free_entry es s0)
           (ucast (init_bmapaddr msz es div 4096)) (ucast ((msz + 4095) div 4096)))) 8 1)))"
    unfolding pmm_init_def Let_def c n_def [symmetric] msz_def [symmetric] s0_def [symmetric] ..
  have ms0: "mmap_sz s0 = msz" by (simp add: s0_def)
  show ?thesis
  proof (rule that [of s0])
    show "pmm_inv s0" using n msz by (simp add: s0_def pmm_inv_def)
    show "unat (nframes s0) = unat (mem_high s0) div 4096" using n by (simp add: s0_def)
    show "mem_high s0 = init_high es" by (simp add: s0_def)
    show "fused s0 f" if "f < unat (nframes s0)" for f
    proof -
      have "f div 8 < unat msz" using that msz by (simp add: s0_def)
      then show ?thesis unfolding fused_def s0_def by (simp only: pmm_state.simps nth_replicate bit_full_byte_mod)
    qed
    show "init_bmapaddr (mmap_sz s0) es \<noteq> 0"
      using assms(1) unfolding I ms0 by (simp split: if_splits)
    show "mmap_sz s0 \<le> 536870912"
      unfolding ms0 word_le_nat_alt msz using unat_u32 [of n] by simp
    show "s = fst (pmm_try_resv (fst (pmm_try_resv (fold init_free_entry es s0)
           (ucast (init_bmapaddr (mmap_sz s0) es div 4096))
           (ucast ((mmap_sz s0 + 4095) div 4096)))) 8 1)"
      using assms(1) unfolding I ms0 by (simp split: if_splits)
  qed
qed

lemma bitmap_reserved:
  assumes "\<forall>e \<in> set es. entry_end e < 17592186044416 \<and> usable_aligned e"
    and "pmm_inv s0" "unat (nframes s0) = unat (mem_high s0) div 4096" "mem_high s0 = init_high es"
    and "init_bmapaddr (mmap_sz s0) es \<noteq> 0" "mmap_sz s0 \<le> 536870912"
    and "same_geom s1 s0" "\<And>g. g < unat (nframes s0) \<Longrightarrow> fused s1 g \<longleftrightarrow> (\<forall>e \<in> set es. \<not> in_entry e g)"
  shows "\<exists>s2. s2 = fst (pmm_try_resv s1 (ucast (init_bmapaddr (mmap_sz s0) es div 4096))
           (ucast ((mmap_sz s0 + 4095) div 4096))) \<and> same_geom s2 s1 \<and>
         (\<forall>g. fused s2 g \<longleftrightarrow> fused s1 g \<or> g \<in> bitmap_frames es s0)"
proof -
  obtain e where e: "e \<in> set es" "e_type e = LIMINE_MEMMAP_USABLE" "mmap_sz s0 \<le> e_length e"
      "init_bmapaddr (mmap_sz s0) es = e_base e"
    using bmapaddr_entry [OF assms(5)] by blast
  define m where "m = unat (mmap_sz s0)"
  define b where "b = unat (e_base e) div 4096"
  define c where "c = (m + 4095) div 4096"
  have m: "m \<le> 536870912" "m \<le> unat (e_length e)"
    using assms(6) e(3) by (simp_all add: m_def word_le_nat_alt)
  have ends: "entry_end e < 17592186044416" "entry_end e \<le> unat (mem_high s0)" "usable_aligned e"
    using assms(1,4) e(1) init_high_bounds(2) [of es e] by auto
  have inb: "in_entry e g" if "b \<le> g" "g < b + c" for g
    using aligned_entry_holds [OF e(2) ends(3) m(2)] that by (simp add: b_def c_def)
  have "b + c \<le> unat (nframes s0)"
  proof (cases "c = 0")
    case False
    then have "in_entry e (b + (c - 1))" by (intro inb) auto
    then show ?thesis using False ends(2) assms(3) by (auto simp: in_entry_def)
  next
    case True
    have "unat (e_base e) \<le> unat (mem_high s0)" using ends(2) by (simp add: entry_end_def)
    then show ?thesis using True assms(3) by (simp add: b_def div_le_mono)
  qed
  moreover have "nframes s1 = nframes s0" "pmm_inv s1"
    using assms(2,7) same_geom_inv [OF assms(7)] by (auto simp: same_geom_def)
  moreover have "\<not> fused s1 g" if "b \<le> g" "g < b + c" for g
    using assms(8) [of g] inb [OF that] e(1) that \<open>b + c \<le> unat (nframes s0)\<close> by auto
  ultimately have T: "same_geom (fst (pmm_try_resv s1 (of_nat b) (of_nat c))) s1 \<and>
      (fused (fst (pmm_try_resv s1 (of_nat b) (of_nat c))) g \<longleftrightarrow> fused s1 g \<or> b \<le> g \<and> g < b + c)" for g
    by (intro try_resv_if_run) auto
  have "b < 4294967296" using ends(1) by (simp add: b_def entry_end_def)
  then have "unat (ucast (e_base e div 4096) :: u32) = b"
    by (simp add: unat_ucast_mod unat_div_distrib b_def)
  then have wb: "ucast (e_base e div 4096) = (of_nat b :: u32)" by (metis word_of_unat)
  have "unat (mmap_sz s0 + 4095) = m + 4095" using m(1) by (simp add: m_def unat_plus_no_wrap)
  moreover have "c < 4294967296" using m(1) by (simp add: c_def)
  ultimately have "unat (ucast ((mmap_sz s0 + 4095) div 4096) :: u32) = c"
    by (simp add: unat_ucast_mod unat_div_distrib c_def)
  then have wc: "ucast ((mmap_sz s0 + 4095) div 4096) = (of_nat c :: u32)" by (metis word_of_unat)
  have "g \<in> bitmap_frames es s0 \<longleftrightarrow> b \<le> g \<and> g < b + c" for g
    unfolding bitmap_frames_def e(4) Let_def b_def c_def m_def by simp
  then show ?thesis using T unfolding e(4) wb wc by blast
qed

section \<open>Properties\<close>

text \<open>A machine of 16 frames with the first two and the last four in use.\<close>

definition pm_demo :: pmm_state where
  "pm_demo = \<lparr>mem_high = 65536, mem_low = 0, nframes = 16, mxframe = 0, framesz = 4096,
              mmap = [0x03, 0xF0], mmap_sz = 2\<rparr>"

lemma pm_demo_inv:
  "pmm_inv pm_demo" "nframes pm_demo \<le> 1048576" "fused pm_demo 0"
  by (simp_all add: pm_demo_def pmm_inv_def fused_def)

lemma pm_demo_run: "run_free pm_demo 2 3"
proof -
  have "\<not> fused pm_demo (2 + j)" if "j < 3" for j
  proof -
    have "j = 0 \<or> j = 1 \<or> j = 2" using that by linarith
    then show ?thesis by (auto simp: pm_demo_def fused_def)
  qed
  then show ?thesis by (simp add: run_free_def) (simp add: pm_demo_def)
qed



text \<open>
  Freeing what was allocated restores the allocator: if a run of \<^verbatim>\<open>c\<close> free frames exists,
  \<^verbatim>\<open>pmm_ffree\<close> of the address \<^verbatim>\<open>pmm_falloc\<close> returned gives back the very state before.
\<close>

theorem pmm_falloc_ffree:
  assumes "pmm_inv s" "nframes s \<le> 1048576" "0 < c" "c \<le> 2147483648" "run_free s h c"
    and "pmm_falloc s (of_nat c) = (s', addr)"
  shows "pmm_ffree s' addr (of_nat c) = s"
  using assms(1-4)
proof (cases rule: pm_falloc_cases)
  case none
  then show ?thesis using assms(5) by simp
next
  case (some f)
  have s': "s' = reserve s f c" "addr = of_nat (4096 * f)" using some(1) assms(6) by auto
  have g: "same_geom (reserve s f c) s" by (rule same_geom_reserve)
  have i: "pmm_inv (reserve s f c)" and n: "nframes (reserve s f c) = nframes s"
    using g assms(1) same_geom_inv [OF g] by (auto simp: same_geom_def)
  have fc: "f + c \<le> unat (nframes s)" using some(3) by (simp add: run_free_def)
  have u: "unat (of_nat c :: u64) = c" by (rule unat_of_nat_small) (use assms(4) in simp)
  then have "(of_nat c :: u64) \<noteq> 0" using assms(3) by auto
  then have F: "same_geom (pmm_ffree s' addr (of_nat c)) (reserve s f c) \<and>
      (fused (pmm_ffree s' addr (of_nat c)) k \<longleftrightarrow>
        fused (reserve s f c) k \<and> \<not> (f \<le> k \<and> k < f + c \<and> k < unat (nframes s)))" for k
    unfolding s' using pmm_ffree_spec [OF i, of f "of_nat c" k] fc u n assms(3) by simp
  have "\<not> fused s k" if "f \<le> k" "k < f + c" for k
    using that some(3) unfolding run_free_def
    by (metis add_less_cancel_left le_add_diff_inverse)
  then have "fused (pmm_ffree s' addr (of_nat c)) k = fused s k" for k
    using F [of k] fused_reserve [OF assms(1) fc, of k] fc by auto
  moreover have "same_geom (pmm_ffree s' addr (of_nat c)) s" using F g by (simp add: same_geom_def)
  ultimately show ?thesis by (intro pmm_state_ext)
qed

theorem pmm_falloc_ffree_witness:
  "pmm_ffree (fst (pmm_falloc pm_demo (of_nat 3))) (snd (pmm_falloc pm_demo (of_nat 3))) (of_nat 3)
     = pm_demo"
  by (rule pmm_falloc_ffree [OF pm_demo_inv(1,2) _ _ pm_demo_run]) simp_all



text \<open>A machine with more than 4 GiB whose lower 4 GiB are in use.\<close>

definition pm_high_demo :: pmm_state where
  "pm_high_demo = \<lparr>mem_high = 4295000064, mem_low = 0, nframes = 1048584, mxframe = 0,
     framesz = 4096, mmap = replicate 131072 0xFF @ [0], mmap_sz = 131073\<rparr>"

lemma pm_high_demo_facts:
  "pmm_inv pm_high_demo" "\<not> fused pm_high_demo 1048576" "\<forall>g<1048576. fused pm_high_demo g"
proof -
  show "pmm_inv pm_high_demo" by (simp add: pm_high_demo_def pmm_inv_def)
  show "\<not> fused pm_high_demo 1048576" by (simp add: pm_high_demo_def fused_def nth_append)
  show "\<forall>g<1048576. fused pm_high_demo g"
  proof (intro allI impI)
    fix g :: nat assume "g < 1048576"
    then have "mmap pm_high_demo ! (g div 8) = 0xFF" by (simp add: pm_high_demo_def nth_append)
    then show "fused pm_high_demo g" unfolding fused_def by (simp only: bit_full_byte_mod)
  qed
qed

text \<open>
  C18. Above 4 GiB the product of frame index and frame size is computed in 32 bits: when the
  lowest free frame has an index of at least 2^20, \<^verbatim>\<open>pmm_falloc(1)\<close> marks that frame and returns
  the address of another one, which is in use.
\<close>

theorem pmm_falloc_high_frame_aliases:
  assumes "pmm_inv s" "unat (nframes s) < 4294967279"
    and "\<not> fused s f" "f < unat (nframes s)" "\<forall>g<f. fused s g" "1048576 \<le> f"
  shows "\<exists>s' addr. pmm_falloc s 1 = (s', addr) \<and> fused s' f \<and>
    unat addr \<noteq> 4096 * f \<and> fused s (unat addr div 4096)"
proof -
  have r: "run_free s f 1" using assms(3,4) by (simp add: run_free_def)
  have "\<not> run_free s g 1" if "g < f" for g
    using assms(5) that by (auto simp: run_free_def)
  then have F: "pmm_falloc s 1 = (reserve s f 1, of_nat (4096 * (f mod 1048576)))"
    using pmm_falloc_least [OF assms(1) _ _ _ r, of 1] assms(2) by (simp only: frame_addr) simp
  have u: "unat (of_nat (4096 * (f mod 1048576)) :: u64) = 4096 * (f mod 1048576)"
    by (rule unat_of_nat_small) simp
  have "f mod 1048576 < f" using assms(6) by (meson mod_less_divisor less_le_trans zero_less_numeral)
  then show ?thesis
    using F u assms(5) fused_reserve [OF assms(1), of f 1 f] assms(4) by auto
qed

theorem pmm_falloc_high_frame_aliases_witness:
  "\<exists>s' addr. pmm_falloc pm_high_demo 1 = (s', addr) \<and> fused s' 1048576 \<and>
    unat addr \<noteq> 4096 * 1048576 \<and> fused pm_high_demo (unat addr div 4096)"
  by (rule pmm_falloc_high_frame_aliases [OF pm_high_demo_facts(1) _ pm_high_demo_facts(2) _
        pm_high_demo_facts(3)]) (simp_all add: pm_high_demo_def)

text \<open>
  C5. After \<^verbatim>\<open>pmm_init\<close> on a boot memory map whose usable entries are page aligned, the free
  frames are exactly the frames inside a usable entry that hold neither the allocator's own
  bitmap nor the start-up trampoline at 0x8000.
\<close>

theorem pmm_init_frames:
  assumes "pmm_init es = Inr s" "\<forall>e \<in> set es. entry_end e < 17592186044416 \<and> usable_aligned e"
  shows "pmm_inv s \<and> (\<forall>f < unat (nframes s). \<not> fused s f \<longleftrightarrow>
    (\<exists>e \<in> set es. in_entry e f) \<and> f \<notin> bitmap_frames es s \<and> f \<noteq> 8)"
proof -
  have "\<forall>e \<in> set es. entry_end e < 17592186044416" using assms(2) by auto
  then obtain s0 where s0: "pmm_inv s0" "unat (nframes s0) = unat (mem_high s0) div 4096"
    "mem_high s0 = init_high es" "\<And>f. f < unat (nframes s0) \<Longrightarrow> fused s0 f"
    "init_bmapaddr (mmap_sz s0) es \<noteq> 0" "mmap_sz s0 \<le> 536870912"
    "s = fst (pmm_try_resv (fst (pmm_try_resv (fold init_free_entry es s0)
           (ucast (init_bmapaddr (mmap_sz s0) es div 4096))
           (ucast ((mmap_sz s0 + 4095) div 4096)))) 8 1)"
    using pmm_init_start [OF assms(1)] by blast
  define s1 where "s1 = fold init_free_entry es s0"
  have "\<forall>e \<in> set es. entry_end e < 17592186044416 \<and> entry_end e \<le> unat (mem_high s0)"
    using assms(2) init_high_bounds(2) [of es] s0(3) by auto
  then have s1: "same_geom s1 s0" "\<And>g. fused s1 g \<longleftrightarrow> fused s0 g \<and> (\<forall>e \<in> set es. \<not> in_entry e g)"
    using init_free_fold [OF s0(1,2), of es] by (auto simp: s1_def)
  obtain s2 where s2: "same_geom s2 s1" "\<And>g. fused s2 g \<longleftrightarrow> fused s1 g \<or> g \<in> bitmap_frames es s0"
      "s = fst (pmm_try_resv s2 8 1)"
    using bitmap_reserved [OF assms(2) s0(1-3,5,6) s1(1)] s1(2) s0(4,7) unfolding s1_def by blast
  have "pmm_inv s2" using s0(1) same_geom_inv [OF s2(1)] same_geom_inv [OF s1(1)] by simp
  then have s: "same_geom s s2" "\<And>g. g < unat (nframes s2) \<Longrightarrow> fused s g \<longleftrightarrow> fused s2 g \<or> g = 8"
    using try_resv_one [of s2 8] s2(3) by auto
  have "bitmap_frames es s = bitmap_frames es s0"
    using s(1) s2(1) s1(1) by (simp add: same_geom_def bitmap_frames_def)
  moreover have "nframes s = nframes s2" "nframes s = nframes s0"
    using s(1) s2(1) s1(1) by (simp_all add: same_geom_def)
  ultimately show ?thesis
    using s(2) s2(2) s1(2) s0(4) \<open>pmm_inv s2\<close> same_geom_inv [OF s(1)] by auto
qed

definition boot_demo :: "memmap_entry list" where
  "boot_demo = [\<lparr>e_base = 0, e_length = 4096, e_type = 1\<rparr>,
                \<lparr>e_base = 4096, e_length = 61440, e_type = LIMINE_MEMMAP_USABLE\<rparr>]"

theorem pmm_init_frames_witness:
  "\<exists>s. pmm_init boot_demo = Inr s \<and> pmm_inv s \<and> (\<forall>f < unat (nframes s). \<not> fused s f \<longleftrightarrow>
    (\<exists>e \<in> set boot_demo. in_entry e f) \<and> f \<notin> bitmap_frames boot_demo s \<and> f \<noteq> 8)"
proof -
  have "init_high boot_demo = 65536" by (simp add: init_high_def boot_demo_def)
  moreover have "init_bmapaddr 2 boot_demo = 4096" by (simp add: init_bmapaddr_def boot_demo_def)
  ultimately obtain s where s: "pmm_init boot_demo = Inr s" by (simp add: pmm_init_def Let_def)
  have "\<forall>e \<in> set boot_demo. entry_end e < 17592186044416 \<and> usable_aligned e"
    by (simp add: boot_demo_def entry_end_def usable_aligned_def)
  from pmm_init_frames [OF s this] s show ?thesis by blast
qed

end
