(* ===== verification/Vmm_Region.thy ===== *)
theory Vmm_Region
  imports Prelude Range_Alloc
begin

unbundle bit_operations_syntax

text \<open>
  The virtual region allocator of \<^verbatim>\<open>src/kern/mem/vmm.c\<close>: a singly linked list of regions
  over a static pool of nodes, which the code splits on allocation and merges on release, and
  the per-process range that user mappings must lie in. A pointer to a node is its index in
  the pool. The loops follow pointers, so they are partial functions: \<^term>\<open>None\<close> is a loop
  that does not end.
\<close>

section \<open>Model\<close>

abbreviation (input) MAX_VNODES :: nat where "MAX_VNODES \<equiv> 1024"
abbreviation (input) HEAP_START :: u64 where "HEAP_START \<equiv> 0xFFFF900000000000"
abbreviation (input) HEAP_END :: u64 where "HEAP_END \<equiv> 0xFFFFB00000000000"
abbreviation (input) HEAP_SIZE :: u64 where "HEAP_SIZE \<equiv> HEAP_END - HEAP_START"
abbreviation (input) USER_END :: u64 where "USER_END \<equiv> 0x00007FFFFFFFF000"

record vmm_region =
  vaddr_base :: u64
  page_count :: u64
  is_free :: bool
  nxt :: "nat option"

record vmm_range =
  r_vaddr_base :: u64
  r_vaddr_curr :: u64
  r_vaddr_end :: u64
  r_pgcnt :: u64

record vmm_regs =
  vmmr_head :: "nat option"
  vmmr_nodes :: "vmm_region list"
  vmm_umapr :: "vmm_range list"

definition node_blank :: "vmm_region \<Rightarrow> bool" where
  "node_blank n \<longleftrightarrow> vaddr_base n = 0 \<and> page_count n = 0 \<and> \<not> is_free n"

definition allocvmmr :: "vmm_regs \<Rightarrow> nat option" where
  "allocvmmr s = find (\<lambda>i. node_blank (vmmr_nodes s ! i)) [0..<MAX_VNODES]"

definition set_node :: "nat \<Rightarrow> vmm_region \<Rightarrow> vmm_regs \<Rightarrow> vmm_regs" where
  "set_node i n s = s\<lparr>vmmr_nodes := (vmmr_nodes s)[i := n]\<rparr>"

definition vmm_setumapbase :: "u8 \<Rightarrow> u64 \<Rightarrow> vmm_regs \<Rightarrow> vmm_regs" where
  "vmm_setumapbase pid base s =
     (let aligned = (base + 0xFFF) AND NOT 0xFFF;
          aligned_base = (if aligned < 0x10000000 then 0x10000000 else aligned);
          vend = USER_END - (16 * 4096)
      in s\<lparr>vmm_umapr := (vmm_umapr s)[unat pid :=
            \<lparr>r_vaddr_base = aligned_base, r_vaddr_curr = aligned_base, r_vaddr_end = vend,
             r_pgcnt = (vend - aligned_base) div 4096\<rparr>]\<rparr>)"

definition vmm_remumap :: "u8 \<Rightarrow> vmm_regs \<Rightarrow> vmm_regs" where
  "vmm_remumap pid s = s\<lparr>vmm_umapr := (vmm_umapr s)[unat pid :=
     \<lparr>r_vaddr_base = 0, r_vaddr_curr = 0, r_vaddr_end = 0, r_pgcnt = 0\<rparr>]\<rparr>"

definition vmm_rangeinusrmap :: "vmm_regs \<Rightarrow> nat \<Rightarrow> u64 \<Rightarrow> u64 \<Rightarrow> bool" where
  "vmm_rangeinusrmap s pid addr npages \<longleftrightarrow>
     r_vaddr_base (vmm_umapr s ! pid) \<le> addr \<and>
     addr + npages * 4096 \<le> r_vaddr_end (vmm_umapr s ! pid)"

text \<open>The end of \<^verbatim>\<open>vmm_ffreer\<close>: cut the block to size and take it.\<close>

definition ffreer_take :: "u64 \<Rightarrow> nat \<Rightarrow> vmm_regs \<Rightarrow> vmm_regs \<times> u64" where
  "ffreer_take pgcnt c s =
     (let n = vmmr_nodes s ! c in
      if pgcnt < page_count n then
        case allocvmmr s of
          None \<Rightarrow> (s, 0)
        | Some b \<Rightarrow>
            (set_node c (n\<lparr>page_count := pgcnt, nxt := Some b, is_free := False\<rparr>)
               (set_node b \<lparr>vaddr_base = vaddr_base n + pgcnt * 4096,
                            page_count = page_count n - pgcnt, is_free = True, nxt = nxt n\<rparr> s),
             vaddr_base n)
      else (set_node c (n\<lparr>is_free := False\<rparr>) s, vaddr_base n))"

definition ffreer_prefix :: "u64 \<Rightarrow> nat \<Rightarrow> nat \<Rightarrow> vmm_regs \<Rightarrow> vmm_regs" where
  "ffreer_prefix usable_start c mid s =
     (let n = vmmr_nodes s ! c;
          prefix_pages = (usable_start - vaddr_base n) div 4096
      in set_node c (n\<lparr>page_count := prefix_pages, nxt := Some mid\<rparr>)
           (set_node mid \<lparr>vaddr_base = usable_start, page_count = page_count n - prefix_pages,
                          is_free = True, nxt = nxt n\<rparr> s))"

partial_function (option) ffreer_loop ::
    "nat \<Rightarrow> u64 \<Rightarrow> bool \<Rightarrow> nat option \<Rightarrow> vmm_regs \<Rightarrow> (vmm_regs \<times> u64) option" where
  "ffreer_loop pid pgcnt user cur s =
     (case cur of
        None \<Rightarrow> Some (s, 0)
      | Some c \<Rightarrow>
          (let n = vmmr_nodes s ! c in
           if is_free n \<and> pgcnt \<le> page_count n then
             if user then
               let start_vaddr = vaddr_base n;
                   region_end = vaddr_base n + page_count n * 4096;
                   ubase = r_vaddr_base (vmm_umapr s ! pid);
                   usable_start = (if start_vaddr < ubase then ubase else start_vaddr)
               in if vmm_rangeinusrmap s pid usable_start pgcnt \<and>
                     usable_start + pgcnt * 4096 \<le> region_end
                  then if start_vaddr < usable_start
                       then case allocvmmr s of
                              None \<Rightarrow> Some (s, 0)
                            | Some mid \<Rightarrow>
                                Some (ffreer_take pgcnt mid (ffreer_prefix usable_start c mid s))
                       else Some (ffreer_take pgcnt c s)
                  else ffreer_loop pid pgcnt user (nxt n) s
             else Some (ffreer_take pgcnt c s)
           else ffreer_loop pid pgcnt user (nxt n) s))"

definition vmm_ffreer :: "nat \<Rightarrow> u64 \<Rightarrow> bool \<Rightarrow> vmm_regs \<Rightarrow> (vmm_regs \<times> u64) option" where
  "vmm_ffreer pid pgcnt user s = ffreer_loop pid pgcnt user (vmmr_head s) s"

text \<open>The region part of \<^verbatim>\<open>vmm_unmap_pages\<close>: find the region, split it, merge free neighbours.\<close>

partial_function (option) unmap_find ::
    "u64 \<Rightarrow> u64 \<Rightarrow> nat option \<Rightarrow> vmm_regs \<Rightarrow> nat option option" where
  "unmap_find vst szrm cur s =
     (case cur of
        None \<Rightarrow> Some None
      | Some c \<Rightarrow>
          (let n = vmmr_nodes s ! c in
           if \<not> is_free n \<and> vaddr_base n \<le> vst \<and> vst + szrm \<le> vaddr_base n + page_count n * 4096
           then Some (Some c)
           else unmap_find vst szrm (nxt n) s))"

definition unmap_split :: "u64 \<Rightarrow> u64 \<Rightarrow> nat \<Rightarrow> vmm_regs \<Rightarrow> vmm_regs" where
  "unmap_split vst pgcnt c s =
     (let n = vmmr_nodes s ! c;
          node_end = vaddr_base n + page_count n * 4096;
          free_end = vst + pgcnt * 4096
      in if vst = vaddr_base n \<and> free_end = node_end then set_node c (n\<lparr>is_free := True\<rparr>) s
         else if vst = vaddr_base n then
           case allocvmmr s of
             None \<Rightarrow> s
           | Some l \<Rightarrow>
               set_node c (n\<lparr>page_count := pgcnt, is_free := True, nxt := Some l\<rparr>)
                 (set_node l \<lparr>vaddr_base = free_end, page_count = page_count n - pgcnt,
                              is_free = False, nxt = nxt n\<rparr> s)
         else if free_end = node_end then
           case allocvmmr s of
             None \<Rightarrow> s
           | Some l \<Rightarrow>
               set_node c (n\<lparr>page_count := page_count n - pgcnt, nxt := Some l\<rparr>)
                 (set_node l \<lparr>vaddr_base = vst, page_count = pgcnt, is_free = True, nxt = nxt n\<rparr> s)
         else
           case (allocvmmr s, allocvmmr s) of
             (Some mid, Some trail) \<Rightarrow>
               set_node c (n\<lparr>page_count := (vst - vaddr_base n) div 4096, nxt := Some mid\<rparr>)
                 (set_node mid \<lparr>vaddr_base = vst, page_count = pgcnt, is_free = True,
                                nxt = Some trail\<rparr>
                   (set_node trail \<lparr>vaddr_base = free_end,
                                    page_count = (node_end - free_end) div 4096,
                                    is_free = False, nxt = nxt n\<rparr> s))
           | _ \<Rightarrow> s)"

partial_function (option) coalesce_loop :: "nat option \<Rightarrow> vmm_regs \<Rightarrow> vmm_regs option" where
  "coalesce_loop cur s =
     (case cur of
        None \<Rightarrow> Some s
      | Some c \<Rightarrow>
          (case nxt (vmmr_nodes s ! c) of
             None \<Rightarrow> Some s
           | Some d \<Rightarrow>
               if is_free (vmmr_nodes s ! c) \<and> is_free (vmmr_nodes s ! d) then
                 let s1 = set_node c ((vmmr_nodes s ! c)
                            \<lparr>page_count := page_count (vmmr_nodes s ! c) + page_count (vmmr_nodes s ! d)\<rparr>) s;
                     s2 = set_node c ((vmmr_nodes s1 ! c)\<lparr>nxt := nxt (vmmr_nodes s1 ! d)\<rparr>) s1
                 in coalesce_loop cur
                      (set_node d \<lparr>vaddr_base = 0, page_count = 0, is_free = False, nxt = None\<rparr> s2)
               else coalesce_loop (nxt (vmmr_nodes s ! c)) s))"

definition unmap_regions :: "u64 \<Rightarrow> u64 \<Rightarrow> vmm_regs \<Rightarrow> vmm_regs option" where
  "unmap_regions vst pgcnt s =
     (if vst < HEAP_START \<or> HEAP_END \<le> vst then Some s
      else case unmap_find vst (pgcnt * 4096) (vmmr_head s) s of
             None \<Rightarrow> None
           | Some None \<Rightarrow> coalesce_loop (vmmr_head s) s
           | Some (Some c) \<Rightarrow>
               let s1 = unmap_split vst pgcnt c s in coalesce_loop (vmmr_head s1) s1)"

text \<open>The end of \<^verbatim>\<open>vmm_init\<close>: the whole heap range is one free region.\<close>

definition init_regions :: "vmm_regs \<Rightarrow> vmm_regs" where
  "init_regions s =
     (case allocvmmr s of
        None \<Rightarrow> s\<lparr>vmmr_head := None\<rparr>
      | Some h \<Rightarrow> set_node h \<lparr>vaddr_base = HEAP_START, page_count = HEAP_SIZE div 4096,
                             is_free = True, nxt = None\<rparr> (s\<lparr>vmmr_head := Some h\<rparr>))"

section \<open>The region list as a tiling of the heap range\<close>

fun lseg :: "vmm_region list \<Rightarrow> nat option \<Rightarrow> nat list \<Rightarrow> nat option \<Rightarrow> bool" where
  "lseg N p [] q \<longleftrightarrow> p = q"
| "lseg N p (i # ns) q \<longleftrightarrow> p = Some i \<and> i < length N \<and> lseg N (nxt (N ! i)) ns q"

definition rpage :: "vmm_region \<Rightarrow> nat" where "rpage n = unat (vaddr_base n) div 4096"
definition rcnt :: "vmm_region \<Rightarrow> nat" where "rcnt n = unat (page_count n)"
definition rrng :: "vmm_region \<Rightarrow> nat set" where "rrng n = {rpage n..<rpage n + rcnt n}"

text \<open>The regions of a list of nodes follow each other without gap from page \<open>a\<close> to page \<open>e\<close>.\<close>

fun tiles :: "vmm_region list \<Rightarrow> nat \<Rightarrow> nat list \<Rightarrow> nat \<Rightarrow> bool" where
  "tiles N a [] e \<longleftrightarrow> a = e"
| "tiles N a (i # ns) e \<longleftrightarrow> unat (vaddr_base (N ! i)) = 4096 * a \<and> 0 < rcnt (N ! i) \<and>
     tiles N (a + rcnt (N ! i)) ns e"

abbreviation (input) heap_first :: nat where "heap_first \<equiv> 0xFFFF900000000"
abbreviation (input) heap_last :: nat where "heap_last \<equiv> 0xFFFFB00000000"

definition regs_wf :: "vmm_regs \<Rightarrow> nat list \<Rightarrow> bool" where
  "regs_wf s ns \<longleftrightarrow> length (vmmr_nodes s) = MAX_VNODES \<and> distinct ns \<and>
     lseg (vmmr_nodes s) (vmmr_head s) ns None \<and> tiles (vmmr_nodes s) heap_first ns heap_last \<and>
     (\<forall>i<MAX_VNODES. i \<notin> set ns \<longrightarrow> node_blank (vmmr_nodes s ! i))"

definition node_free :: "vmm_region list \<Rightarrow> nat list \<Rightarrow> nat set" where
  "node_free N ns = (\<Union>i \<in> {i \<in> set ns. is_free (N ! i)}. rrng (N ! i))"

definition node_used :: "vmm_region list \<Rightarrow> nat list \<Rightarrow> (nat \<times> nat) set" where
  "node_used N ns = (\<lambda>i. (rpage (N ! i), rcnt (N ! i))) ` {i \<in> set ns. \<not> is_free (N ! i)}"

text \<open>The free pages and the blocks in use, read off the whole node pool.\<close>

definition free_pages :: "vmm_regs \<Rightarrow> nat set" where
  "free_pages s = node_free (vmmr_nodes s) [0..<MAX_VNODES]"

definition used_blocks :: "vmm_regs \<Rightarrow> (nat \<times> nat) set" where
  "used_blocks s = {(p, c) \<in> node_used (vmmr_nodes s) [0..<MAX_VNODES]. 0 < c}"

lemma lseg_append [simp]: "lseg N p (xs @ ys) q \<longleftrightarrow> (\<exists>r. lseg N p xs r \<and> lseg N r ys q)"
  by (induction xs arbitrary: p) auto

lemma tiles_append [simp]: "tiles N a (xs @ ys) e \<longleftrightarrow> (\<exists>b. tiles N a xs b \<and> tiles N b ys e)"
  by (induction xs arbitrary: a) auto

lemma lseg_cong:
  "\<lbrakk>length N = length N'; \<And>i. i \<in> set ns \<Longrightarrow> nxt (N ! i) = nxt (N' ! i)\<rbrakk> \<Longrightarrow>
   lseg N p ns q = lseg N' p ns q"
  by (induction ns arbitrary: p) auto

lemma tiles_cong:
  "\<lbrakk>\<And>i. i \<in> set ns \<Longrightarrow> vaddr_base (N ! i) = vaddr_base (N' ! i) \<and> page_count (N ! i) = page_count (N' ! i)\<rbrakk>
   \<Longrightarrow> tiles N a ns e = tiles N' a ns e"
  by (induction ns arbitrary: a) (auto simp: rcnt_def)

lemma tiles_bounds:
  "tiles N a ns e \<Longrightarrow> a \<le> e \<and> (\<forall>i \<in> set ns. unat (vaddr_base (N ! i)) = 4096 * rpage (N ! i) \<and>
     a \<le> rpage (N ! i) \<and> rpage (N ! i) + rcnt (N ! i) \<le> e \<and> 0 < rcnt (N ! i))"
  by (induction ns arbitrary: a) (fastforce simp: rpage_def)+

lemma node_free_append [simp]: "node_free N (xs @ ys) = node_free N xs \<union> node_free N ys"
  by (auto simp: node_free_def)

lemma node_free_Cons [simp]:
  "node_free N (i # ns) = (if is_free (N ! i) then rrng (N ! i) else {}) \<union> node_free N ns"
  by (auto simp: node_free_def)

lemma node_free_Nil [simp]: "node_free N [] = {}"
  by (simp add: node_free_def)

lemma node_used_append [simp]: "node_used N (xs @ ys) = node_used N xs \<union> node_used N ys"
  by (auto simp: node_used_def)

lemma node_used_Cons [simp]:
  "node_used N (i # ns) =
     (if is_free (N ! i) then {} else {(rpage (N ! i), rcnt (N ! i))}) \<union> node_used N ns"
  by (auto simp: node_used_def)

lemma node_used_Nil [simp]: "node_used N [] = {}"
  by (simp add: node_used_def)

lemma node_sets_cong:
  assumes "\<And>i. i \<in> set ns \<Longrightarrow> N ! i = N' ! i"
  shows "node_free N ns = node_free N' ns" "node_used N ns = node_used N' ns"
  using assms by (auto simp: node_free_def node_used_def intro!: image_cong)

lemma node_free_bounds:
  assumes "tiles N a ns e" shows "node_free N ns \<subseteq> {a..<e}"
  using tiles_bounds [OF assms] by (fastforce simp: node_free_def rrng_def)

lemma lseg_subset: "lseg N p ns q \<Longrightarrow> set ns \<subseteq> {..<length N}"
  by (induction ns arbitrary: p) auto

lemma regs_wf_subset: "regs_wf s ns \<Longrightarrow> set ns \<subseteq> {..<MAX_VNODES}"
  by (metis lseg_subset regs_wf_def)

lemma free_pages_list:
  assumes "regs_wf s ns"
  shows "free_pages s = node_free (vmmr_nodes s) ns"
  using assms regs_wf_subset [OF assms]
  by (auto simp: free_pages_def node_free_def regs_wf_def node_blank_def)

lemma used_blocks_list:
  assumes "regs_wf s ns"
  shows "used_blocks s = node_used (vmmr_nodes s) ns"
proof -
  have "0 < rcnt (vmmr_nodes s ! i)" if "i \<in> set ns" for i
    using assms that tiles_bounds by (auto simp: regs_wf_def)
  moreover have "rcnt (vmmr_nodes s ! i) = 0" if "i < MAX_VNODES" "i \<notin> set ns" for i
    using assms that by (auto simp: regs_wf_def node_blank_def rcnt_def)
  ultimately show ?thesis
    using regs_wf_subset [OF assms] by (fastforce simp: used_blocks_def node_used_def)
qed

lemma wf_nonblank: "regs_wf s ns \<Longrightarrow> i \<in> set ns \<Longrightarrow> \<not> node_blank (vmmr_nodes s ! i)"
  using tiles_bounds by (fastforce simp: regs_wf_def node_blank_def rcnt_def)

lemma allocvmmr_Some:
  assumes "allocvmmr s = Some b"
  shows "b < MAX_VNODES" "node_blank (vmmr_nodes s ! b)"
  using assms by (auto simp: allocvmmr_def find_Some_iff)

lemma allocvmmr_fresh:
  assumes "regs_wf s ns" "allocvmmr s = Some b"
  shows "b \<notin> set ns" "b < length (vmmr_nodes s)"
  using wf_nonblank [OF assms(1)] allocvmmr_Some [OF assms(2)] assms(1) by (auto simp: regs_wf_def)

lemma set_node_sel [simp]:
  "vmmr_nodes (set_node i n s) = (vmmr_nodes s)[i := n]" "vmmr_head (set_node i n s) = vmmr_head s"
  "vmm_umapr (set_node i n s) = vmm_umapr s"
  by (simp_all add: set_node_def)

lemma region_upd_sel [simp]:
  "rcnt (n\<lparr>is_free := f\<rparr>) = rcnt n" "rpage (n\<lparr>is_free := f\<rparr>) = rpage n" "rrng (n\<lparr>is_free := f\<rparr>) = rrng n"
  "rpage (n\<lparr>page_count := c\<rparr>) = rpage n" "rcnt (n\<lparr>page_count := c\<rparr>) = unat c"
  "rcnt (n\<lparr>nxt := q\<rparr>) = rcnt n" "rpage (n\<lparr>nxt := q\<rparr>) = rpage n" "rrng (n\<lparr>nxt := q\<rparr>) = rrng n"
  by (simp_all add: rcnt_def rpage_def rrng_def)

definition nfree :: "vmm_region \<Rightarrow> nat set" where "nfree n = (if is_free n then rrng n else {})"
definition nused :: "vmm_region \<Rightarrow> (nat \<times> nat) set" where
  "nused n = (if is_free n then {} else {(rpage n, rcnt n)})"

lemma wf_parts:
  assumes "regs_wf s (xs @ c # ys)"
  shows "free_pages s = node_free (vmmr_nodes s) xs \<union> nfree (vmmr_nodes s ! c) \<union> node_free (vmmr_nodes s) ys"
    and "used_blocks s = node_used (vmmr_nodes s) xs \<union> nused (vmmr_nodes s ! c) \<union> node_used (vmmr_nodes s) ys"
  using free_pages_list [OF assms] used_blocks_list [OF assms]
  by (auto simp: nfree_def nused_def)

lemma wf_disjoint:
  assumes "regs_wf s (xs @ c # ys)"
  shows "node_free (vmmr_nodes s) xs \<inter> rrng (vmmr_nodes s ! c) = {}"
    "node_free (vmmr_nodes s) ys \<inter> rrng (vmmr_nodes s ! c) = {}"
    "rrng (vmmr_nodes s ! c) \<subseteq> {heap_first..<heap_last}"
    "unat (vaddr_base (vmmr_nodes s ! c)) = 4096 * rpage (vmmr_nodes s ! c)"
proof -
  let ?N = "vmmr_nodes s"
  obtain b where b: "tiles ?N heap_first xs b" "unat (vaddr_base (?N ! c)) = 4096 * b"
      "tiles ?N (b + rcnt (?N ! c)) ys heap_last"
    using assms by (auto simp: regs_wf_def)
  then have p: "rpage (?N ! c) = b" by (simp add: rpage_def)
  show "node_free ?N xs \<inter> rrng (?N ! c) = {}" "node_free ?N ys \<inter> rrng (?N ! c) = {}"
    using node_free_bounds [OF b(1)] node_free_bounds [OF b(3)] p by (fastforce simp: rrng_def)+
  show "rrng (?N ! c) \<subseteq> {heap_first..<heap_last}"
    using tiles_bounds [OF b(1)] tiles_bounds [OF b(3)] p by (auto simp: rrng_def)
  show "unat (vaddr_base (?N ! c)) = 4096 * rpage (?N ! c)" using b(2) p by simp
qed

lemma wf_flag:
  fixes f :: bool
  assumes "regs_wf s (xs @ c # ys)"
  defines "s' \<equiv> set_node c ((vmmr_nodes s ! c)\<lparr>is_free := f\<rparr>) s"
  shows "regs_wf s' (xs @ c # ys)"
    and "node_free (vmmr_nodes s') xs = node_free (vmmr_nodes s) xs"
    and "node_free (vmmr_nodes s') ys = node_free (vmmr_nodes s) ys"
    and "node_used (vmmr_nodes s') xs = node_used (vmmr_nodes s) xs"
    and "node_used (vmmr_nodes s') ys = node_used (vmmr_nodes s) ys"
proof -
  let ?N = "vmmr_nodes s" and ?N' = "vmmr_nodes s'"
  have N': "?N' = ?N[c := (?N ! c)\<lparr>is_free := f\<rparr>]" "vmmr_head s' = vmmr_head s" by (simp_all add: s'_def)
  have c: "c < length ?N" "c \<notin> set xs" "c \<notin> set ys" using assms(1) by (auto simp: regs_wf_def)
  have "lseg ?N' p ns q = lseg ?N p ns q" for p ns q
    by (rule lseg_cong) (use c in \<open>auto simp: N' nth_list_update\<close>)
  moreover have "tiles ?N' a ns e = tiles ?N a ns e" for a ns e
    by (rule tiles_cong) (use c in \<open>auto simp: N' nth_list_update\<close>)
  moreover have "\<forall>i<MAX_VNODES. i \<notin> set (xs @ c # ys) \<longrightarrow> node_blank (?N' ! i)"
    using assms(1) by (auto simp: regs_wf_def N')
  ultimately show "regs_wf s' (xs @ c # ys)" using assms(1) unfolding regs_wf_def N'(2) by (simp add: N'(1))
  have "\<And>i. i \<in> set xs \<Longrightarrow> ?N' ! i = ?N ! i" "\<And>i. i \<in> set ys \<Longrightarrow> ?N' ! i = ?N ! i"
    using c by (auto simp: N' nth_list_update)
  then show "node_free ?N' xs = node_free ?N xs" "node_free ?N' ys = node_free ?N ys"
      "node_used ?N' xs = node_used ?N xs" "node_used ?N' ys = node_used ?N ys"
    using node_sets_cong by blast+
qed

lemma wf_split:
  fixes nb nc :: vmm_region
  assumes "regs_wf s (xs @ c # ys)" "b \<notin> set (xs @ c # ys)" "b < MAX_VNODES"
    and "vaddr_base nc = vaddr_base (vmmr_nodes s ! c)" "nxt nc = Some b" "nxt nb = nxt (vmmr_nodes s ! c)"
    and "0 < rcnt nc" "0 < rcnt nb" "rcnt nc + rcnt nb = rcnt (vmmr_nodes s ! c)"
    and "unat (vaddr_base nb) = 4096 * (rpage (vmmr_nodes s ! c) + rcnt nc)"
  defines "s' \<equiv> set_node c nc (set_node b nb s)"
  shows "regs_wf s' (xs @ c # b # ys)"
    and "free_pages s' = node_free (vmmr_nodes s) xs \<union> nfree nc \<union> nfree nb \<union> node_free (vmmr_nodes s) ys"
    and "used_blocks s' = node_used (vmmr_nodes s) xs \<union> nused nc \<union> nused nb \<union> node_used (vmmr_nodes s) ys"
proof -
  let ?N = "vmmr_nodes s" and ?N' = "vmmr_nodes s'"
  have N': "?N' = ?N[b := nb, c := nc]" "vmmr_head s' = vmmr_head s" by (simp_all add: s'_def)
  have c: "c < length ?N" "c \<notin> set xs" "c \<notin> set ys" "b < length ?N" "b \<noteq> c" "b \<notin> set xs" "b \<notin> set ys"
    using assms(1-3) by (auto simp: regs_wf_def)
  have e: "\<And>i. i \<in> set xs \<Longrightarrow> ?N' ! i = ?N ! i" "\<And>i. i \<in> set ys \<Longrightarrow> ?N' ! i = ?N ! i"
      "?N' ! c = nc" "?N' ! b = nb"
    using c by (auto simp: N' nth_list_update)
  have l: "lseg ?N' p xs q = lseg ?N p xs q" "lseg ?N' p ys q = lseg ?N p ys q" for p q
    by (rule lseg_cong; use e in \<open>auto simp: N'\<close>)+
  have t: "tiles ?N' a xs z = tiles ?N a xs z" "tiles ?N' a ys z = tiles ?N a ys z" for a z
    by (rule tiles_cong; use e in auto)+
  obtain m where m: "tiles ?N heap_first xs m" "unat (vaddr_base (?N ! c)) = 4096 * m"
      "tiles ?N (m + rcnt (?N ! c)) ys heap_last"
    using assms(1) by (auto simp: regs_wf_def)
  then have "rpage (?N ! c) = m" by (simp add: rpage_def)
  then have "tiles ?N' heap_first (xs @ c # b # ys) heap_last"
    using m assms(4,7-10) by (auto simp: t e add.assoc)
  moreover have "lseg ?N' (vmmr_head s') (xs @ c # b # ys) None"
    using assms(1,5,6) c unfolding N'(2) by (auto simp: regs_wf_def l e) (simp_all add: N'(1))
  moreover have "\<forall>i<MAX_VNODES. i \<notin> set (xs @ c # b # ys) \<longrightarrow> node_blank (?N' ! i)"
    using assms(1) by (auto simp: regs_wf_def N')
  ultimately show wf: "regs_wf s' (xs @ c # b # ys)"
    using assms(1,2) by (auto simp: regs_wf_def N'(1))
  show "free_pages s' = node_free ?N xs \<union> nfree nc \<union> nfree nb \<union> node_free ?N ys"
    "used_blocks s' = node_used ?N xs \<union> nused nc \<union> nused nb \<union> node_used ?N ys"
    using wf_parts [OF wf] node_sets_cong [OF e(1)] node_sets_cong [OF e(2)] e(3,4)
    by (auto simp: nfree_def nused_def)
qed

lemma wf_merge:
  assumes "regs_wf s (xs @ c # d # ys)" "is_free (vmmr_nodes s ! c)" "is_free (vmmr_nodes s ! d)"
  defines "s' \<equiv> set_node d \<lparr>vaddr_base = 0, page_count = 0, is_free = False, nxt = None\<rparr>
     (set_node c ((vmmr_nodes s ! c)\<lparr>page_count := page_count (vmmr_nodes s ! c) + page_count (vmmr_nodes s ! d),
        nxt := nxt (vmmr_nodes s ! d)\<rparr>) s)"
  shows "regs_wf s' (xs @ c # ys)" "free_pages s' = free_pages s" "used_blocks s' = used_blocks s"
proof -
  let ?N = "vmmr_nodes s" and ?N' = "vmmr_nodes s'"
  define nc where "nc = (?N ! c)\<lparr>page_count := page_count (?N ! c) + page_count (?N ! d), nxt := nxt (?N ! d)\<rparr>"
  define z where "z = \<lparr>vaddr_base = 0, page_count = 0, is_free = False, nxt = None\<rparr>"
  have N': "?N' = ?N[c := nc, d := z]" "vmmr_head s' = vmmr_head s" by (simp_all add: s'_def nc_def z_def)
  have c: "c < length ?N" "c \<notin> set xs" "c \<notin> set ys" "d < length ?N" "d \<noteq> c" "d \<notin> set xs" "d \<notin> set ys"
    using assms(1) by (auto simp: regs_wf_def)
  have e: "\<And>i. i \<in> set xs \<Longrightarrow> ?N' ! i = ?N ! i" "\<And>i. i \<in> set ys \<Longrightarrow> ?N' ! i = ?N ! i"
      "?N' ! c = nc" "?N' ! d = z"
    using c by (auto simp: N' nth_list_update)
  have l: "lseg ?N' p xs q = lseg ?N p xs q" "lseg ?N' p ys q = lseg ?N p ys q" for p q
    by (rule lseg_cong; use e in \<open>auto simp: N'\<close>)+
  have t: "tiles ?N' a xs z = tiles ?N a xs z" "tiles ?N' a ys z = tiles ?N a ys z" for a z
    by (rule tiles_cong; use e in auto)+
  obtain m where m: "tiles ?N heap_first xs m" "unat (vaddr_base (?N ! c)) = 4096 * m" "0 < rcnt (?N ! c)"
      "unat (vaddr_base (?N ! d)) = 4096 * (m + rcnt (?N ! c))" "0 < rcnt (?N ! d)"
      "tiles ?N (m + rcnt (?N ! c) + rcnt (?N ! d)) ys heap_last"
    using assms(1) by (auto simp: regs_wf_def)
  have "rcnt (?N ! c) + rcnt (?N ! d) \<le> heap_last" using tiles_bounds [OF m(6)] by linarith
  then have cn: "rcnt nc = rcnt (?N ! c) + rcnt (?N ! d)"
    by (simp add: nc_def rcnt_def unat_plus_no_wrap)
  have pgs: "rpage (?N ! c) = m" "rpage (?N ! d) = m + rcnt (?N ! c)" "rpage nc = m" "is_free nc"
      "vaddr_base nc = vaddr_base (?N ! c)" "nxt nc = nxt (?N ! d)"
    using m(2,4) assms(2) by (simp_all add: rpage_def nc_def)
  have "tiles ?N' heap_first (xs @ c # ys) heap_last"
    using m pgs cn by (auto simp: t e add.assoc)
  moreover have "lseg ?N' (vmmr_head s') (xs @ c # ys) None"
    using assms(1) c pgs unfolding N'(2) by (auto simp: regs_wf_def l e) (simp_all add: N'(1))
  moreover have "\<forall>i<MAX_VNODES. i \<notin> set (xs @ c # ys) \<longrightarrow> node_blank (?N' ! i)"
    using assms(1) c by (auto simp: regs_wf_def N' nth_list_update node_blank_def z_def)
  ultimately show wf: "regs_wf s' (xs @ c # ys)"
    using assms(1) by (auto simp: regs_wf_def N'(1))
  have r: "rrng nc = rrng (?N ! c) \<union> rrng (?N ! d)" using pgs cn by (auto simp: rrng_def)
  show "free_pages s' = free_pages s" "used_blocks s' = used_blocks s"
    using wf_parts [OF wf] wf_parts [OF assms(1)] node_sets_cong [OF e(1)] node_sets_cong [OF e(2)]
      e(3) assms(2,3) pgs(4) r
    by (auto simp: nfree_def nused_def)
qed

lemma coalesce_wf:
  assumes "regs_wf s (xs @ c # ys)"
  shows "\<exists>s' ns. coalesce_loop (Some c) s = Some s' \<and> regs_wf s' ns \<and>
    free_pages s' = free_pages s \<and> used_blocks s' = used_blocks s"
  using assms
proof (induction ys arbitrary: s xs c)
  case Nil
  then have "nxt (vmmr_nodes s ! c) = None" by (auto simp: regs_wf_def)
  then have "coalesce_loop (Some c) s = Some s" by (subst coalesce_loop.simps) simp
  then show ?case using Nil by blast
next
  case (Cons d ys)
  let ?N = "vmmr_nodes s"
  have d: "nxt (?N ! c) = Some d" and cd: "c \<noteq> d" "c < length ?N" using Cons.prems by (auto simp: regs_wf_def)
  show ?case
  proof (cases "is_free (?N ! c) \<and> is_free (?N ! d)")
    case True
    define s' where "s' = set_node d \<lparr>vaddr_base = 0, page_count = 0, is_free = False, nxt = None\<rparr>
     (set_node c ((vmmr_nodes s ! c)\<lparr>page_count := page_count (vmmr_nodes s ! c) + page_count (vmmr_nodes s ! d),
        nxt := nxt (vmmr_nodes s ! d)\<rparr>) s)"
    have "coalesce_loop (Some c) s = coalesce_loop (Some c) s'"
      by (subst coalesce_loop.simps) (use d cd True in \<open>simp add: Let_def s'_def set_node_def\<close>)
    then show ?thesis
      using Cons.IH [of s' xs c] wf_merge [OF Cons.prems] True unfolding s'_def by metis
  next
    case False
    then have "coalesce_loop (Some c) s = coalesce_loop (Some d) s"
      by (subst coalesce_loop.simps) (use d in auto)
    then show ?thesis using Cons.IH [of s "xs @ [c]" d] Cons.prems by simp
  qed
qed

lemma coalesce_head_wf:
  assumes "regs_wf s ns"
  shows "\<exists>s' ns'. coalesce_loop (vmmr_head s) s = Some s' \<and> regs_wf s' ns' \<and>
    free_pages s' = free_pages s \<and> used_blocks s' = used_blocks s"
proof (cases ns)
  case Nil
  then show ?thesis using assms by (auto simp: regs_wf_def)
next
  case (Cons c ys)
  then show ?thesis using coalesce_wf [of s "[]" c ys] assms by (auto simp: regs_wf_def)
qed

section \<open>Allocation\<close>

lemma ffreer_loop_find:
  assumes "lseg (vmmr_nodes s) cur ns None"
  shows "ffreer_loop pid n False cur s =
    (case find (\<lambda>i. is_free (vmmr_nodes s ! i) \<and> n \<le> page_count (vmmr_nodes s ! i)) ns of
       None \<Rightarrow> Some (s, 0) | Some c \<Rightarrow> Some (ffreer_take n c s))"
  using assms
proof (induction ns arbitrary: cur)
  case Nil
  then show ?case by (subst ffreer_loop.simps) simp
next
  case (Cons i ns)
  then show ?case by (subst ffreer_loop.simps) (auto simp: Let_def)
qed

text \<open>Word arithmetic on a region of the heap does not wrap.\<close>

lemma region_word_end:
  fixes b k :: u64
  assumes "unat b = 4096 * p" "p + unat k \<le> heap_last"
  shows "unat (b + k * 4096) = 4096 * (p + unat k)"
proof -
  have k: "unat (k * 4096) = unat k * 4096" using assms(2) by (simp add: unat_word_ariths)
  have "unat (b + k * 4096) = unat b + unat (k * 4096)"
    by (rule unat_plus_no_wrap) (use assms k in simp)
  then show ?thesis unfolding k assms(1) by simp
qed

lemma wf_node_bounds_aux:
  assumes "tiles N a (xs @ c # ys) e"
  shows "rpage (N ! c) + rcnt (N ! c) \<le> e" "a \<le> rpage (N ! c)" "0 < rcnt (N ! c)"
    "unat (vaddr_base (N ! c)) = 4096 * rpage (N ! c)"
  using tiles_bounds [OF assms] by auto

lemma wf_node_bounds:
  assumes "regs_wf s (xs @ c # ys)"
  shows "rpage (vmmr_nodes s ! c) + rcnt (vmmr_nodes s ! c) \<le> heap_last" "heap_first \<le> rpage (vmmr_nodes s ! c)"
    "0 < rcnt (vmmr_nodes s ! c)" "unat (vaddr_base (vmmr_nodes s ! c)) = 4096 * rpage (vmmr_nodes s ! c)"
proof -
  have t: "tiles (vmmr_nodes s) heap_first (xs @ c # ys) heap_last"
    using assms by (simp only: regs_wf_def)
  show "rpage (vmmr_nodes s ! c) + rcnt (vmmr_nodes s ! c) \<le> heap_last" "heap_first \<le> rpage (vmmr_nodes s ! c)"
    "0 < rcnt (vmmr_nodes s ! c)" "unat (vaddr_base (vmmr_nodes s ! c)) = 4096 * rpage (vmmr_nodes s ! c)"
    by (fact wf_node_bounds_aux [OF t])+
qed

lemma ffreer_take_wf:
  assumes "regs_wf s (xs @ c # ys)" "is_free (vmmr_nodes s ! c)" "n \<le> page_count (vmmr_nodes s ! c)" "0 < n"
    and "n < page_count (vmmr_nodes s ! c) \<Longrightarrow> allocvmmr s \<noteq> None"
  shows "\<exists>s' ns. ffreer_take n c s = (s', vaddr_base (vmmr_nodes s ! c)) \<and> regs_wf s' ns \<and>
    free_pages s' = free_pages s - {rpage (vmmr_nodes s ! c)..<rpage (vmmr_nodes s ! c) + unat n} \<and>
    used_blocks s' = insert (rpage (vmmr_nodes s ! c), unat n) (used_blocks s)"
proof -
  let ?N = "vmmr_nodes s"
  let ?n = "?N ! c"
  note B = wf_node_bounds [OF assms(1)] and D = wf_disjoint [OF assms(1)] and P = wf_parts [OF assms(1)]
  have c: "c < length ?N" using assms(1) by (auto simp: regs_wf_def)
  have n: "0 < unat n" "unat n \<le> rcnt ?n" using assms(3,4) by (auto simp: word_le_nat_alt word_less_nat_alt rcnt_def)
  show ?thesis
  proof (cases "n < page_count ?n")
    case True
    then obtain b where b: "allocvmmr s = Some b" using assms(5) by auto
    let ?nc = "?n\<lparr>page_count := n, nxt := Some b, is_free := False\<rparr>"
    let ?nb = "\<lparr>vaddr_base = vaddr_base ?n + n * 4096, page_count = page_count ?n - n, is_free = True, nxt = nxt ?n\<rparr>"
    have T: "ffreer_take n c s = (set_node c ?nc (set_node b ?nb s), vaddr_base ?n)"
      using True b by (simp add: ffreer_take_def Let_def)
    have lt: "unat n < rcnt ?n" using True by (simp add: word_less_nat_alt rcnt_def)
    have cb: "rcnt ?nb = rcnt ?n - unat n" using assms(3) by (simp add: rcnt_def unat_sub)
    have pb: "unat (vaddr_base ?nb) = 4096 * (rpage ?n + unat n)"
      using region_word_end [OF B(4), of n] B(1) n by simp
    then have pgb: "rpage ?nb = rpage ?n + unat n" by (simp add: rpage_def)
    have cc: "rcnt ?nc = unat n" "rpage ?nc = rpage ?n" by (simp_all add: rcnt_def rpage_def)
    have S: "regs_wf (set_node c ?nc (set_node b ?nb s)) (xs @ c # b # ys)"
      "free_pages (set_node c ?nc (set_node b ?nb s)) = node_free ?N xs \<union> nfree ?nc \<union> nfree ?nb \<union> node_free ?N ys"
      "used_blocks (set_node c ?nc (set_node b ?nb s)) = node_used ?N xs \<union> nused ?nc \<union> nused ?nb \<union> node_used ?N ys"
      by (rule wf_split [OF assms(1)]; use allocvmmr_fresh [OF assms(1) b] allocvmmr_Some [OF b] cb cc lt n pb in simp)+
    have "nfree ?nc = {}" "nused ?nc = {(rpage ?n, unat n)}" "nused ?nb = {}"
        "nfree ?nb = {rpage ?n + unat n..<rpage ?n + rcnt ?n}" "nfree ?n = {rpage ?n..<rpage ?n + rcnt ?n}" "nused ?n = {}"
      using cc cb pgb lt assms(2) by (auto simp: nfree_def nused_def rrng_def)
    then have "free_pages (set_node c ?nc (set_node b ?nb s)) = free_pages s - {rpage ?n..<rpage ?n + unat n}"
        "used_blocks (set_node c ?nc (set_node b ?nb s)) = insert (rpage ?n, unat n) (used_blocks s)"
      using S(2,3) D(1,2) P n unfolding rrng_def by auto
    then show ?thesis using T S(1) by blast
  next
    case False
    then have eq: "unat n = rcnt ?n" using assms(3) by (simp add: rcnt_def)
    have T: "ffreer_take n c s = (set_node c (?n\<lparr>is_free := False\<rparr>) s, vaddr_base ?n)"
      using False by (simp add: ffreer_take_def Let_def)
    note F = wf_flag [OF assms(1), of False]
    have "nfree (?n\<lparr>is_free := False\<rparr>) = {}" "nused (?n\<lparr>is_free := False\<rparr>) = {(rpage ?n, unat n)}"
        "nfree ?n = {rpage ?n..<rpage ?n + rcnt ?n}" "nused ?n = {}"
      using eq assms(2) by (auto simp: nfree_def nused_def rrng_def)
    then have "free_pages (set_node c (?n\<lparr>is_free := False\<rparr>) s) = free_pages s - {rpage ?n..<rpage ?n + unat n}"
        "used_blocks (set_node c (?n\<lparr>is_free := False\<rparr>) s) = insert (rpage ?n, unat n) (used_blocks s)"
      using wf_parts [OF F(1)] F(2-5) D(1,2) P c eq unfolding rrng_def by auto
    then show ?thesis using T F(1) by blast
  qed
qed

lemma vmm_ffreer_kernel:
  assumes "regs_wf s ns" "0 < n"
  shows "\<exists>s' a. vmm_ffreer pid n False s = Some (s', a) \<and>
    (a = 0 \<and> s' = s \<and> ((\<forall>i \<in> set ns. is_free (vmmr_nodes s ! i) \<longrightarrow> page_count (vmmr_nodes s ! i) < n)
                         \<or> allocvmmr s = None)
     \<or> (\<exists>p ns'. unat a = 4096 * p \<and> a \<noteq> 0 \<and> regs_wf s' ns' \<and> {p..<p + unat n} \<subseteq> free_pages s \<and>
          free_pages s' = free_pages s - {p..<p + unat n} \<and>
          used_blocks s' = insert (p, unat n) (used_blocks s)))"
proof -
  let ?N = "vmmr_nodes s"
  have F: "vmm_ffreer pid n False s =
      (case find (\<lambda>i. is_free (?N ! i) \<and> n \<le> page_count (?N ! i)) ns of
         None \<Rightarrow> Some (s, 0) | Some c \<Rightarrow> Some (ffreer_take n c s))"
    unfolding vmm_ffreer_def by (rule ffreer_loop_find) (use assms(1) in \<open>simp add: regs_wf_def\<close>)
  show ?thesis
  proof (cases "find (\<lambda>i. is_free (?N ! i) \<and> n \<le> page_count (?N ! i)) ns")
    case None
    then have "vmm_ffreer pid n False s = Some (s, 0)" using F by simp
    moreover have "\<forall>i \<in> set ns. is_free (?N ! i) \<longrightarrow> page_count (?N ! i) < n"
      using None by (auto simp: find_None_iff not_le)
    ultimately show ?thesis by blast
  next
    case (Some c)
    then have c: "c \<in> set ns" "is_free (?N ! c)" "n \<le> page_count (?N ! c)" by (auto simp: find_Some_iff)
    then obtain xs ys where ns: "ns = xs @ c # ys" by (meson split_list)
    show ?thesis
    proof (cases "n < page_count (?N ! c) \<and> allocvmmr s = None")
      case True
      then have "vmm_ffreer pid n False s = Some (s, 0)" using F Some by (simp add: ffreer_take_def Let_def)
      then show ?thesis using True by blast
    next
      case False
      note B = wf_node_bounds [OF assms(1) [unfolded ns]]
      have "unat (vaddr_base (?N ! c)) \<noteq> 0" using B(2,4) by linarith
      then have "vaddr_base (?N ! c) \<noteq> 0" by auto
      moreover have "{rpage (?N ! c)..<rpage (?N ! c) + unat n} \<subseteq> free_pages s"
      proof -
        have "unat n \<le> rcnt (?N ! c)" using c(3) by (simp add: rcnt_def word_le_nat_alt)
        then have "{rpage (?N ! c)..<rpage (?N ! c) + unat n} \<subseteq> rrng (?N ! c)" unfolding rrng_def by simp
        moreover have "rrng (?N ! c) \<subseteq> free_pages s"
          unfolding wf_parts(1) [OF assms(1) [unfolded ns]] nfree_def using c(2) by auto
        ultimately show ?thesis by (rule order_trans)
      qed
      moreover obtain s' ns' where "ffreer_take n c s = (s', vaddr_base (?N ! c))" "regs_wf s' ns'"
          "free_pages s' = free_pages s - {rpage (?N ! c)..<rpage (?N ! c) + unat n}"
          "used_blocks s' = insert (rpage (?N ! c), unat n) (used_blocks s)"
      proof -
        have "n < page_count (?N ! c) \<Longrightarrow> allocvmmr s \<noteq> None" using False by simp
        from ffreer_take_wf [OF assms(1) [unfolded ns] c(2,3) assms(2) this] that show ?thesis by blast
      qed
      moreover from this have "vmm_ffreer pid n False s = Some (s', vaddr_base (?N ! c))"
        using F Some by simp
      ultimately show ?thesis using B(4) by blast
    qed
  qed
qed

section \<open>Release\<close>

lemma tiles_rng_disjoint:
  assumes "tiles N a ns e" "distinct ns" "i \<in> set ns" "j \<in> set ns" "i \<noteq> j"
  shows "rrng (N ! i) \<inter> rrng (N ! j) = {}"
  using assms
proof (induction ns arbitrary: a)
  case (Cons h ns)
  have h: "rrng (N ! h) = {a..<a + rcnt (N ! h)}" and t: "tiles N (a + rcnt (N ! h)) ns e"
    using Cons.prems(1) by (auto simp: rrng_def rpage_def)
  have rest: "rrng (N ! k) \<inter> rrng (N ! h) = {}" if "k \<in> set ns" for k
  proof -
    have "a + rcnt (N ! h) \<le> rpage (N ! k)" using tiles_bounds [OF t] that by blast
    then show ?thesis unfolding h by (auto simp: rrng_def)
  qed
  show ?case
  proof (cases "i = h \<or> j = h")
    case True
    then show ?thesis using rest Cons.prems(3-5) by auto
  next
    case False
    then show ?thesis using Cons.IH [OF t] Cons.prems by auto
  qed
qed simp

lemma unmap_find_find:
  assumes "lseg (vmmr_nodes s) cur ns None"
  shows "unmap_find vst sz cur s = Some (find (\<lambda>i. \<not> is_free (vmmr_nodes s ! i) \<and>
     vaddr_base (vmmr_nodes s ! i) \<le> vst \<and>
     vst + sz \<le> vaddr_base (vmmr_nodes s ! i) + page_count (vmmr_nodes s ! i) * 4096) ns)"
  using assms
proof (induction ns arbitrary: cur)
  case Nil
  then show ?case by (subst unmap_find.simps) simp
next
  case (Cons i ns)
  then show ?case by (subst unmap_find.simps) (auto simp: Let_def)
qed

lemma covers_iff:
  assumes "unat (vaddr_base n) = 4096 * rpage n" "rpage n + rcnt n \<le> heap_last"
    and "unat vst = 4096 * v" "v + unat k \<le> heap_last"
  shows "vaddr_base n \<le> vst \<and> vst + k * 4096 \<le> vaddr_base n + page_count n * 4096 \<longleftrightarrow>
    rpage n \<le> v \<and> v + unat k \<le> rpage n + rcnt n"
proof -
  have "unat (vst + k * 4096) = 4096 * (v + unat k)" by (rule region_word_end [OF assms(3,4)])
  moreover have "unat (vaddr_base n + page_count n * 4096) = 4096 * (rpage n + rcnt n)"
    unfolding rcnt_def by (rule region_word_end [OF assms(1)]) (use assms(2) in \<open>simp add: rcnt_def\<close>)
  ultimately show ?thesis using assms(1,3) by (auto simp: word_le_nat_alt)
qed

lemma unmap_find_node:
  assumes "regs_wf s (xs @ c # ys)" "\<not> is_free (vmmr_nodes s ! c)"
    and "unat vst = 4096 * v" "0 < unat k" "rpage (vmmr_nodes s ! c) \<le> v"
    and "v + unat k \<le> rpage (vmmr_nodes s ! c) + rcnt (vmmr_nodes s ! c)"
  shows "unmap_find vst (k * 4096) (vmmr_head s) s = Some (Some c)"
proof -
  let ?N = "vmmr_nodes s"
  let ?P = "\<lambda>i. \<not> is_free (?N ! i) \<and> vaddr_base (?N ! i) \<le> vst \<and>
     vst + k * 4096 \<le> vaddr_base (?N ! i) + page_count (?N ! i) * 4096"
  have w: "lseg ?N (vmmr_head s) (xs @ c # ys) None" "tiles ?N heap_first (xs @ c # ys) heap_last"
      "distinct (xs @ c # ys)"
    using assms(1) by (simp_all only: regs_wf_def)
  have b: "\<forall>i \<in> set (xs @ c # ys). unat (vaddr_base (?N ! i)) = 4096 * rpage (?N ! i) \<and>
      rpage (?N ! i) + rcnt (?N ! i) \<le> heap_last"
    using tiles_bounds [OF w(2)] by blast
  have vk: "v + unat k \<le> heap_last" using b assms(6) by fastforce
  have P: "?P i \<longleftrightarrow> \<not> is_free (?N ! i) \<and> rpage (?N ! i) \<le> v \<and> v + unat k \<le> rpage (?N ! i) + rcnt (?N ! i)"
    if "i \<in> set (xs @ c # ys)" for i
    using covers_iff [OF _ _ assms(3) vk, of "?N ! i"] b that by blast
  have "v \<in> rrng (?N ! c)" using assms(4-6) by (simp add: rrng_def)
  have "\<not> ?P i" if "i \<in> set xs" for i
  proof
    assume "?P i"
    then have "v \<in> rrng (?N ! i)" using P [of i] that assms(4) by (simp add: rrng_def)
    moreover have "i \<noteq> c" using that w(3) by auto
    ultimately show False
      using tiles_rng_disjoint [OF w(2,3), of i c] that \<open>v \<in> rrng (?N ! c)\<close> by auto
  qed
  then have "find ?P xs = None" by (auto simp: find_None_iff)
  moreover have "?P c" using P [of c] assms by simp
  ultimately have "find ?P (xs @ c # ys) = Some c" unfolding find_append_case by simp
  then show ?thesis using unmap_find_find [OF w(1), of vst "k * 4096"] by simp
qed

lemma unmap_split_whole:
  assumes "regs_wf s (xs @ c # ys)" "\<not> is_free (vmmr_nodes s ! c)"
    and "vst = vaddr_base (vmmr_nodes s ! c)" "k = page_count (vmmr_nodes s ! c)"
  shows "\<exists>ns. regs_wf (unmap_split vst k c s) ns \<and>
    free_pages (unmap_split vst k c s) = free_pages s \<union> rrng (vmmr_nodes s ! c) \<and>
    used_blocks (unmap_split vst k c s) \<union> {(rpage (vmmr_nodes s ! c), rcnt (vmmr_nodes s ! c))} = used_blocks s"
proof -
  let ?N = "vmmr_nodes s"
  let ?n = "?N ! c"
  have T: "unmap_split vst k c s = set_node c (?n\<lparr>is_free := True\<rparr>) s"
    using assms(3,4) by (simp add: unmap_split_def Let_def)
  have c: "c < length ?N" using assms(1) by (auto simp: regs_wf_def)
  note F = wf_flag [OF assms(1), of True] and P = wf_parts [OF assms(1)]
  have "nfree (?n\<lparr>is_free := True\<rparr>) = rrng ?n" "nused (?n\<lparr>is_free := True\<rparr>) = {}"
      "nfree ?n = {}" "nused ?n = {(rpage ?n, rcnt ?n)}"
    using assms(2) by (auto simp: nfree_def nused_def)
  then have "free_pages (unmap_split vst k c s) = free_pages s \<union> rrng ?n"
      "used_blocks (unmap_split vst k c s) \<union> {(rpage ?n, rcnt ?n)} = used_blocks s"
    unfolding T P using wf_parts [OF F(1)] F(2-5) c by auto
  then show ?thesis unfolding T using F(1) by blast
qed

lemma unmap_split_prefix:
  assumes "regs_wf s (xs @ c # ys)" "\<not> is_free (vmmr_nodes s ! c)"
    and "vst = vaddr_base (vmmr_nodes s ! c)" "0 < unat k" "unat k < rcnt (vmmr_nodes s ! c)"
    and "allocvmmr s = Some l"
  shows "\<exists>ns. regs_wf (unmap_split vst k c s) ns \<and>
    free_pages (unmap_split vst k c s) =
      free_pages s \<union> {rpage (vmmr_nodes s ! c)..<rpage (vmmr_nodes s ! c) + unat k} \<and>
    used_blocks (unmap_split vst k c s) \<union> {(rpage (vmmr_nodes s ! c), rcnt (vmmr_nodes s ! c))} =
      used_blocks s \<union> {(rpage (vmmr_nodes s ! c) + unat k, rcnt (vmmr_nodes s ! c) - unat k)}"
proof -
  let ?N = "vmmr_nodes s"
  let ?n = "?N ! c"
  note B = wf_node_bounds [OF assms(1)] and P = wf_parts [OF assms(1)]
  let ?nc = "?n\<lparr>page_count := k, is_free := True, nxt := Some l\<rparr>"
  let ?nb = "\<lparr>vaddr_base = vst + k * 4096, page_count = page_count ?n - k, is_free = False, nxt = nxt ?n\<rparr>"
  have fe: "unat (vst + k * 4096) = 4096 * (rpage ?n + unat k)"
    unfolding assms(3) by (rule region_word_end [OF B(4)]) (use B(1) assms(5) in linarith)
  have ne: "unat (vaddr_base ?n + page_count ?n * 4096) = 4096 * (rpage ?n + rcnt ?n)"
    unfolding rcnt_def by (rule region_word_end [OF B(4)]) (use B(1) in \<open>simp add: rcnt_def\<close>)
  have "vst + k * 4096 \<noteq> vaddr_base ?n + page_count ?n * 4096"
    using fe ne assms(5) by (metis add_left_cancel less_irrefl mult_cancel1 zero_neq_numeral)
  then have T: "unmap_split vst k c s = set_node c ?nc (set_node l ?nb s)"
    using assms(3,6) by (simp add: unmap_split_def Let_def)
  have kle: "k \<le> page_count ?n" using assms(5) by (simp add: word_le_nat_alt rcnt_def)
  have cb: "rcnt ?nb = rcnt ?n - unat k" using kle by (simp add: rcnt_def unat_sub)
  have pgb: "rpage ?nb = rpage ?n + unat k" using fe by (simp add: rpage_def)
  have cc: "rcnt ?nc = unat k" "rpage ?nc = rpage ?n" by (simp_all add: rcnt_def rpage_def)
  have S: "regs_wf (set_node c ?nc (set_node l ?nb s)) (xs @ c # l # ys)"
    "free_pages (set_node c ?nc (set_node l ?nb s)) = node_free ?N xs \<union> nfree ?nc \<union> nfree ?nb \<union> node_free ?N ys"
    "used_blocks (set_node c ?nc (set_node l ?nb s)) = node_used ?N xs \<union> nused ?nc \<union> nused ?nb \<union> node_used ?N ys"
    by (rule wf_split [OF assms(1)];
        use allocvmmr_fresh [OF assms(1,6)] allocvmmr_Some [OF assms(6)] cb cc assms(4,5) fe in simp)+
  have "nfree ?nc = {rpage ?n..<rpage ?n + unat k}" "nused ?nc = {}" "nused ?nb = {(rpage ?n + unat k, rcnt ?n - unat k)}"
      "nfree ?nb = {}" "nfree ?n = {}" "nused ?n = {(rpage ?n, rcnt ?n)}"
    using cc cb pgb assms(2) by (auto simp: nfree_def nused_def rrng_def)
  then have "free_pages (unmap_split vst k c s) = free_pages s \<union> {rpage ?n..<rpage ?n + unat k}"
      "used_blocks (unmap_split vst k c s) \<union> {(rpage ?n, rcnt ?n)} =
        used_blocks s \<union> {(rpage ?n + unat k, rcnt ?n - unat k)}"
    unfolding T P using S(2,3) by auto
  then show ?thesis unfolding T using S(1) by blast
qed

lemma unmap_split_suffix:
  assumes "regs_wf s (xs @ c # ys)" "\<not> is_free (vmmr_nodes s ! c)"
    and "unat vst = 4096 * v" "rpage (vmmr_nodes s ! c) < v" "0 < unat k"
    and "v + unat k = rpage (vmmr_nodes s ! c) + rcnt (vmmr_nodes s ! c)" "allocvmmr s = Some l"
  shows "\<exists>ns. regs_wf (unmap_split vst k c s) ns \<and>
    free_pages (unmap_split vst k c s) = free_pages s \<union> {v..<v + unat k} \<and>
    used_blocks (unmap_split vst k c s) \<union> {(rpage (vmmr_nodes s ! c), rcnt (vmmr_nodes s ! c))} =
      used_blocks s \<union> {(rpage (vmmr_nodes s ! c), rcnt (vmmr_nodes s ! c) - unat k)}"
proof -
  let ?N = "vmmr_nodes s"
  let ?n = "?N ! c"
  note B = wf_node_bounds [OF assms(1)] and P = wf_parts [OF assms(1)]
  let ?nc = "?n\<lparr>page_count := page_count ?n - k, nxt := Some l\<rparr>"
  let ?nb = "\<lparr>vaddr_base = vst, page_count = k, is_free = True, nxt = nxt ?n\<rparr>"
  have fe: "unat (vst + k * 4096) = 4096 * (v + unat k)"
    by (rule region_word_end [OF assms(3)]) (use B(1) assms(6) in linarith)
  have ne: "unat (vaddr_base ?n + page_count ?n * 4096) = 4096 * (rpage ?n + rcnt ?n)"
    unfolding rcnt_def by (rule region_word_end [OF B(4)]) (use B(1) in \<open>simp add: rcnt_def\<close>)
  have "vst + k * 4096 = vaddr_base ?n + page_count ?n * 4096"
    using fe ne assms(6) by (simp add: word_unat_eq_iff)
  moreover have "vst \<noteq> vaddr_base ?n" using B(4) assms(3,4) by auto
  ultimately have T: "unmap_split vst k c s = set_node c ?nc (set_node l ?nb s)"
    using assms(7) by (simp add: unmap_split_def Let_def)
  have kle: "unat k < rcnt ?n" using assms(4,6) by linarith
  then have "k \<le> page_count ?n" by (simp add: word_le_nat_alt rcnt_def)
  then have cc: "rcnt ?nc = rcnt ?n - unat k" "rpage ?nc = rpage ?n" by (simp_all add: rcnt_def rpage_def unat_sub)
  have cb: "rcnt ?nb = unat k" "rpage ?nb = v" using assms(3) by (simp_all add: rcnt_def rpage_def)
  have vb: "unat vst = 4096 * (rpage ?n + (rcnt ?n - unat k))" using assms(3,6) kle by simp
  have S: "regs_wf (set_node c ?nc (set_node l ?nb s)) (xs @ c # l # ys)"
    "free_pages (set_node c ?nc (set_node l ?nb s)) = node_free ?N xs \<union> nfree ?nc \<union> nfree ?nb \<union> node_free ?N ys"
    "used_blocks (set_node c ?nc (set_node l ?nb s)) = node_used ?N xs \<union> nused ?nc \<union> nused ?nb \<union> node_used ?N ys"
    by (rule wf_split [OF assms(1)];
        use allocvmmr_fresh [OF assms(1,7)] allocvmmr_Some [OF assms(7)] cb cc kle assms(5) vb in simp)+
  have "nfree ?nb = {v..<v + unat k}" "nused ?nb = {}" "nused ?nc = {(rpage ?n, rcnt ?n - unat k)}"
      "nfree ?nc = {}" "nfree ?n = {}" "nused ?n = {(rpage ?n, rcnt ?n)}"
    using cc cb assms(2) by (auto simp: nfree_def nused_def rrng_def)
  then have "free_pages (unmap_split vst k c s) = free_pages s \<union> {v..<v + unat k}"
      "used_blocks (unmap_split vst k c s) \<union> {(rpage ?n, rcnt ?n)} =
        used_blocks s \<union> {(rpage ?n, rcnt ?n - unat k)}"
    unfolding T P using S(2,3) by auto
  then show ?thesis unfolding T using S(1) by blast
qed

lemma heap_addr_in_range:
  assumes "unat vst = 4096 * v" "heap_first \<le> v" "v < heap_last"
  shows "\<not> vst < HEAP_START" "\<not> HEAP_END \<le> vst"
  using assms by (simp_all add: word_less_nat_alt word_le_nat_alt)

lemma used_block_node:
  assumes "regs_wf s ns" "(p, c) \<in> used_blocks s"
  obtains xs i ys where "ns = xs @ i # ys" "\<not> is_free (vmmr_nodes s ! i)"
    "rpage (vmmr_nodes s ! i) = p" "rcnt (vmmr_nodes s ! i) = c"
proof -
  obtain i where i: "i \<in> set ns" "\<not> is_free (vmmr_nodes s ! i)"
      "rpage (vmmr_nodes s ! i) = p" "rcnt (vmmr_nodes s ! i) = c"
    using assms(2) unfolding used_blocks_list [OF assms(1)] node_used_def by auto
  then show ?thesis using that split_list [OF i(1)] by blast
qed

lemma unmap_regions_edge:
  assumes "regs_wf s ns" "(p, c) \<in> used_blocks s" "unat vst = 4096 * v" "0 < unat k"
    and "p \<le> v" "v + unat k \<le> p + c" "v = p \<or> v + unat k = p + c"
    and "v = p \<and> unat k = c \<or> allocvmmr s \<noteq> None"
  shows "\<exists>s' ns'. unmap_regions vst k s = Some s' \<and> regs_wf s' ns' \<and>
    free_pages s' = free_pages s \<union> {v..<v + unat k} \<and>
    used_blocks s' \<union> {(p, c)} = used_blocks s \<union>
      (if unat k = c then {} else if v = p then {(p + unat k, c - unat k)} else {(p, c - unat k)})"
proof -
  obtain xs i ys where ns: "ns = xs @ i # ys" and i: "\<not> is_free (vmmr_nodes s ! i)"
      "rpage (vmmr_nodes s ! i) = p" "rcnt (vmmr_nodes s ! i) = c"
    using used_block_node [OF assms(1,2)] by blast
  note wf = assms(1) [unfolded ns]
  note B = wf_node_bounds [OF wf, unfolded i]
  have v: "\<not> vst < HEAP_START" "\<not> HEAP_END \<le> vst"
    by (rule heap_addr_in_range [OF assms(3)]; use B(1,2) assms(4-6) in linarith)+
  have find: "unmap_find vst (k * 4096) (vmmr_head s) s = Some (Some i)"
    by (rule unmap_find_node [OF wf i(1) assms(3,4)]) (use i assms(5,6) in simp_all)
  have split: "\<exists>ns. regs_wf (unmap_split vst k i s) ns \<and>
      free_pages (unmap_split vst k i s) = free_pages s \<union> {v..<v + unat k} \<and>
      used_blocks (unmap_split vst k i s) \<union> {(p, c)} = used_blocks s \<union>
        (if unat k = c then {} else if v = p then {(p + unat k, c - unat k)} else {(p, c - unat k)})"
  proof -
    consider (whole) "v = p" "unat k = c" | (prefix) "v = p" "unat k < c"
      | (suffix) "p < v" "v + unat k = p + c"
      using assms(5-7) by linarith
    then show ?thesis
    proof cases
      case whole
      have "vst = vaddr_base (vmmr_nodes s ! i)" "k = page_count (vmmr_nodes s ! i)"
        using B(4) assms(3) whole i by (simp_all add: word_unat_eq_iff rcnt_def)
      from unmap_split_whole [OF wf i(1) this] show ?thesis
        using whole assms(2) i by (auto simp: rrng_def)
    next
      case prefix
      then obtain l where l: "allocvmmr s = Some l" using assms(8) by auto
      have "vst = vaddr_base (vmmr_nodes s ! i)"
        using B(4) assms(3) prefix by (simp add: word_unat_eq_iff)
      from unmap_split_prefix [OF wf i(1) this assms(4) _ l] show ?thesis using prefix i by auto
    next
      case suffix
      then obtain l where l: "allocvmmr s = Some l" using assms(8) by auto
      have "unat k \<noteq> c" using suffix by linarith
      then show ?thesis
        using unmap_split_suffix [OF wf i(1) assms(3) _ assms(4) _ l] suffix i by auto
    qed
  qed
  then obtain ns1 where "regs_wf (unmap_split vst k i s) ns1" by blast
  from coalesce_head_wf [OF this] split show ?thesis
    using v find by (auto simp: unmap_regions_def Let_def)
qed

section \<open>The region allocator behind the interface of range allocators\<close>

definition vr_alloc :: "vmm_regs \<Rightarrow> nat \<Rightarrow> vmm_regs \<times> nat option" where
  "vr_alloc s c = (case vmm_ffreer 0 (of_nat c) False s of
     None \<Rightarrow> (s, None)
   | Some (s', a) \<Rightarrow> (s', if a = 0 then None else Some (unat a div 4096)))"

definition vr_release :: "vmm_regs \<Rightarrow> nat \<Rightarrow> nat \<Rightarrow> vmm_regs" where
  "vr_release s p c = (case unmap_regions (of_nat (4096 * p)) (of_nat c) s of None \<Rightarrow> s | Some s' \<Rightarrow> s')"

definition vr_univ :: "vmm_regs \<Rightarrow> nat set" where
  "vr_univ s = {heap_first..<heap_last}"

definition vr_ok :: "vmm_regs \<Rightarrow> bool" where
  "vr_ok s \<longleftrightarrow> (\<exists>ns. regs_wf s ns)"

lemma free_pages_univ: "vr_ok s \<Longrightarrow> free_pages s \<subseteq> vr_univ s"
  unfolding vr_ok_def vr_univ_def using free_pages_list node_free_bounds regs_wf_def by metis

lemma used_block_bounds:
  assumes "regs_wf s ns" "(p, c) \<in> used_blocks s"
  shows "0 < c" "heap_first \<le> p" "p + c \<le> heap_last"
proof -
  obtain xs i ys where ns: "ns = xs @ i # ys" and i: "rpage (vmmr_nodes s ! i) = p" "rcnt (vmmr_nodes s ! i) = c"
    using used_block_node [OF assms] by blast
  show "0 < c" "heap_first \<le> p" "p + c \<le> heap_last"
    using wf_node_bounds [OF assms(1) [unfolded ns]] unfolding i by simp_all
qed

lemma release_block:
  assumes "regs_wf s ns" "(p, c) \<in> used_blocks s"
  shows "\<exists>s' ns'. unmap_regions (of_nat (4096 * p)) (of_nat c) s = Some s' \<and> regs_wf s' ns' \<and>
    free_pages s' = free_pages s \<union> {p..<p + c} \<and> used_blocks s' \<union> {(p, c)} = used_blocks s"
proof -
  note B = used_block_bounds [OF assms]
  have v: "unat (of_nat (4096 * p) :: u64) = 4096 * p" "unat (of_nat c :: u64) = c"
    by (rule unat_of_nat_small; use B in simp)+
  from unmap_regions_edge [OF assms v(1), of "of_nat c"] show ?thesis using B(1) unfolding v by simp
qed

interpretation vr: range_allocator vr_alloc vr_release free_pages vr_univ used_blocks vr_ok 8589934592
proof unfold_locales
  show "free_pages s \<subseteq> vr_univ s" if "vr_ok s" for s by (rule free_pages_univ [OF that])
next
  fix s c s' f
  assume a: "vr_ok s" "0 < c" "c \<le> 8589934592" "vr_alloc s c = (s', Some f)"
  then obtain ns where wf: "regs_wf s ns" by (auto simp: vr_ok_def)
  have c: "unat (of_nat c :: u64) = c" by (rule unat_of_nat_small) (use a(3) in simp)
  then have "0 < (of_nat c :: u64)" using a(2) by (simp add: word_less_nat_alt)
  from vmm_ffreer_kernel [OF wf this, of 0] show "vr_ok s' \<and> vr_univ s' = vr_univ s \<and> {f..<f + c} \<subseteq> free_pages s \<and>
      free_pages s' = free_pages s - {f..<f + c} \<and> insert (f, c) (used_blocks s) \<subseteq> used_blocks s'"
    using a(4) unfolding c by (auto simp: vr_alloc_def vr_ok_def vr_univ_def split: if_splits)
next
  fix s c s'
  assume a: "vr_ok s" "0 < c" "c \<le> 8589934592" "vr_alloc s c = (s', None)"
  then obtain ns where wf: "regs_wf s ns" by (auto simp: vr_ok_def)
  have "unat (of_nat c :: u64) = c" by (rule unat_of_nat_small) (use a(3) in simp)
  then have "0 < (of_nat c :: u64)" using a(2) by (simp add: word_less_nat_alt)
  from vmm_ffreer_kernel [OF wf this, of 0] show "s' = s"
    using a(4) by (auto simp: vr_alloc_def split: if_splits)
next
  fix s p c
  assume a: "vr_ok s" "(p, c) \<in> used_blocks s"
  then obtain ns where wf: "regs_wf s ns" by (auto simp: vr_ok_def)
  from release_block [OF wf a(2)] show "vr_ok (vr_release s p c) \<and> vr_univ (vr_release s p c) = vr_univ s \<and>
      free_pages (vr_release s p c) = free_pages s \<union> {p..<p + c} \<and>
      used_blocks s - {(p, c)} \<subseteq> used_blocks (vr_release s p c)"
    by (auto simp: vr_release_def vr_ok_def vr_univ_def)
qed

section \<open>Properties\<close>

text \<open>The node pool as the kernel image holds it.\<close>

definition vmm_boot :: vmm_regs where
  "vmm_boot = \<lparr>vmmr_head = None,
     vmmr_nodes = replicate MAX_VNODES \<lparr>vaddr_base = 0, page_count = 0, is_free = False, nxt = None\<rparr>,
     vmm_umapr = replicate 255 \<lparr>r_vaddr_base = 0, r_vaddr_curr = 0, r_vaddr_end = 0, r_pgcnt = 0\<rparr>\<rparr>"

lemma allocvmmr_eqI:
  assumes "i < MAX_VNODES" "node_blank (vmmr_nodes s ! i)" "\<And>j. j < i \<Longrightarrow> \<not> node_blank (vmmr_nodes s ! j)"
  shows "allocvmmr s = Some i"
  unfolding allocvmmr_def using assms by (auto simp: find_Some_iff intro!: exI [of _ i])

definition heap_node :: vmm_region where
  "heap_node = \<lparr>vaddr_base = HEAP_START, page_count = HEAP_SIZE div 4096, is_free = True, nxt = None\<rparr>"

lemma init_regions_boot:
  "init_regions vmm_boot = set_node 0 heap_node (vmm_boot\<lparr>vmmr_head := Some 0\<rparr>)"
proof -
  have "allocvmmr vmm_boot = Some 0"
    by (rule allocvmmr_eqI) (simp_all add: vmm_boot_def node_blank_def)
  then show ?thesis by (simp add: init_regions_def heap_node_def)
qed

lemma heap_node_facts: "rpage heap_node = heap_first" "rcnt heap_node = 8589934592"
  "unat (vaddr_base heap_node) = 4096 * heap_first" "is_free heap_node" "nxt heap_node = None"
  by (simp_all add: heap_node_def rpage_def rcnt_def)

lemma init_regions_wf: "regs_wf (init_regions vmm_boot) [0]"
  unfolding init_regions_boot regs_wf_def
  by (auto simp: vmm_boot_def heap_node_facts node_blank_def nth_list_update)

lemma init_regions_free: "free_pages (init_regions vmm_boot) = {heap_first..<heap_last}"
proof -
  have "vmmr_nodes (init_regions vmm_boot) ! 0 = heap_node"
    unfolding init_regions_boot by (simp add: vmm_boot_def)
  then show ?thesis
    unfolding free_pages_list [OF init_regions_wf] by (simp add: heap_node_facts rrng_def)
qed

text \<open>
  C6. From the state \<^verbatim>\<open>vmm_init\<close> sets up, over any sequence of kernel heap reservations
  (\<^verbatim>\<open>vmm_ffreer\<close>) and releases of whole reservations (\<^verbatim>\<open>vmm_unmap_pages\<close>), the live blocks
  are disjoint, none of their pages is free, and together with the free pages they are the
  whole heap range: no page is handed out twice and none is lost.
\<close>

theorem vmm_regions_no_double_allocation:
  assumes "\<forall>c. Alloc c \<in> set ops \<longrightarrow> 0 < c \<and> c \<le> 8589934592"
    and "frames_run vr_alloc vr_release ops (init_regions vmm_boot) [] = (s', L)"
  shows "distinct (live_frames L) \<and> set (live_frames L) \<inter> free_pages s' = {} \<and>
    set (live_frames L) \<union> free_pages s' = {heap_first..<heap_last} \<and> vr_ok s'"
proof -
  have "vr_ok (init_regions vmm_boot)" using init_regions_wf by (auto simp: vr_ok_def)
  then have "vr.ledger {heap_first..<heap_last} (init_regions vmm_boot) []"
    by (simp add: vr.ledger_def init_regions_free vr_univ_def)
  from vr.run_ledger [OF this assms] show ?thesis by (simp add: vr.ledger_def)
qed

theorem vmm_regions_no_double_allocation_witness:
  "let r = frames_run vr_alloc vr_release [Alloc 4, Alloc 7, Release 1, Alloc 2] (init_regions vmm_boot) [] in
     distinct (live_frames (snd r)) \<and> set (live_frames (snd r)) \<inter> free_pages (fst r) = {} \<and>
     set (live_frames (snd r)) \<union> free_pages (fst r) = {heap_first..<heap_last} \<and> vr_ok (fst r)"
  unfolding Let_def
  by (rule vmm_regions_no_double_allocation [OF _ prod.collapse [symmetric]]) simp

text \<open>
  C7. Unmapping a range that is a whole reservation, its beginning or its end terminates and
  frees exactly that range; the rest of the reservation stays reserved.
\<close>

theorem vmm_unmap_edge:
  assumes "regs_wf s ns" "(p, c) \<in> used_blocks s" "unat vst = 4096 * v" "0 < unat k"
    and "p \<le> v" "v + unat k \<le> p + c" "v = p \<or> v + unat k = p + c"
    and "v = p \<and> unat k = c \<or> allocvmmr s \<noteq> None"
  shows "\<exists>s' ns'. unmap_regions vst k s = Some s' \<and> regs_wf s' ns' \<and>
    free_pages s' = free_pages s \<union> {v..<v + unat k} \<and>
    used_blocks s' \<union> {(p, c)} = used_blocks s \<union>
      (if unat k = c then {} else if v = p then {(p + unat k, c - unat k)} else {(p, c - unat k)})"
  by (rule unmap_regions_edge [OF assms])

text \<open>A heap whose first eight pages are reserved.\<close>

definition vmm_demo :: vmm_regs where
  "vmm_demo = \<lparr>vmmr_head = Some 0,
     vmmr_nodes = \<lparr>vaddr_base = HEAP_START, page_count = 8, is_free = False, nxt = Some 1\<rparr>
       # \<lparr>vaddr_base = HEAP_START + 8 * 4096, page_count = 8589934584, is_free = True, nxt = None\<rparr>
       # replicate 1022 \<lparr>vaddr_base = 0, page_count = 0, is_free = False, nxt = None\<rparr>,
     vmm_umapr = replicate 255 \<lparr>r_vaddr_base = 0, r_vaddr_curr = 0, r_vaddr_end = 0, r_pgcnt = 0\<rparr>\<rparr>"

lemma vmm_demo_nodes:
  "vmmr_nodes vmm_demo ! 0 = \<lparr>vaddr_base = HEAP_START, page_count = 8, is_free = False, nxt = Some 1\<rparr>"
  "vmmr_nodes vmm_demo ! Suc 0 =
     \<lparr>vaddr_base = HEAP_START + 8 * 4096, page_count = 8589934584, is_free = True, nxt = None\<rparr>"
  "1 < i \<Longrightarrow> i < MAX_VNODES \<Longrightarrow> node_blank (vmmr_nodes vmm_demo ! i)"
  "length (vmmr_nodes vmm_demo) = MAX_VNODES" "vmmr_head vmm_demo = Some 0"
  by (simp_all add: vmm_demo_def node_blank_def nth_Cons')

lemma vmm_demo_wf: "regs_wf vmm_demo [0, Suc 0]"
  using vmm_demo_nodes by (auto simp: regs_wf_def rcnt_def)

lemma vmm_demo_alloc: "allocvmmr vmm_demo = Some 2"
proof (rule allocvmmr_eqI)
  show "\<not> node_blank (vmmr_nodes vmm_demo ! j)" if "j < 2" for j
    using that vmm_demo_nodes(1,2) by (auto simp: node_blank_def less_2_cases_iff)
qed (simp_all add: vmm_demo_nodes)

lemma vmm_demo_used: "used_blocks vmm_demo = {(heap_first, 8)}"
  unfolding used_blocks_list [OF vmm_demo_wf] by (simp add: vmm_demo_nodes rpage_def rcnt_def)

theorem vmm_unmap_edge_witness:
  "\<exists>s' ns'. unmap_regions (HEAP_START + 6 * 4096) 2 vmm_demo = Some s' \<and> regs_wf s' ns' \<and>
    free_pages s' = free_pages vmm_demo \<union> {heap_first + 6..<heap_first + 8} \<and>
    used_blocks s' \<union> {(heap_first, 8)} = {(heap_first, 8), (heap_first, 6)}"
  using vmm_unmap_edge [OF vmm_demo_wf, of heap_first 8 "HEAP_START + 6 * 4096" "heap_first + 6" 2]
    vmm_demo_used vmm_demo_alloc by (simp add: insert_commute)

section \<open>Unmapping inside a reservation\<close>

fun no_adjacent_free :: "vmm_region list \<Rightarrow> nat list \<Rightarrow> bool" where
  "no_adjacent_free N (i # j # ns) \<longleftrightarrow>
     \<not> (is_free (N ! i) \<and> is_free (N ! j)) \<and> no_adjacent_free N (j # ns)"
| "no_adjacent_free N ns \<longleftrightarrow> True"

lemma coalesce_skip:
  assumes "lseg (vmmr_nodes s) cur (xs @ [c]) q" "no_adjacent_free (vmmr_nodes s) (xs @ [c])"
  shows "coalesce_loop cur s = coalesce_loop (Some c) s"
  using assms
proof (induction xs arbitrary: cur)
  case (Cons i xs)
  obtain j where j: "nxt (vmmr_nodes s ! i) = Some j" "lseg (vmmr_nodes s) (Some j) (xs @ [c]) q"
      "no_adjacent_free (vmmr_nodes s) (xs @ [c])" "\<not> (is_free (vmmr_nodes s ! i) \<and> is_free (vmmr_nodes s ! j))"
    using Cons.prems by (cases xs) auto
  have "coalesce_loop cur s = coalesce_loop (Some j) s"
    by (subst coalesce_loop.simps) (use Cons.prems(1) j in auto)
  then show ?case using Cons.IH [OF j(2,3)] by simp
qed auto

lemma split_middle:
  assumes "regs_wf s (xs @ c # ys)" "\<not> is_free (vmmr_nodes s ! c)" "allocvmmr s = Some m"
    and "unat vst = 4096 * v" "0 < unat k" "rpage (vmmr_nodes s ! c) < v"
    and "v + unat k < rpage (vmmr_nodes s ! c) + rcnt (vmmr_nodes s ! c)"
  shows "unmap_split vst k c s =
    set_node c ((vmmr_nodes s ! c)\<lparr>page_count := (vst - vaddr_base (vmmr_nodes s ! c)) div 4096, nxt := Some m\<rparr>)
      (set_node m \<lparr>vaddr_base = vst, page_count = k, is_free = True, nxt = Some m\<rparr> s)"
proof -
  let ?n = "vmmr_nodes s ! c"
  note B = wf_node_bounds [OF assms(1)]
  have fe: "unat (vst + k * 4096) = 4096 * (v + unat k)"
    by (rule region_word_end [OF assms(4)]) (use B(1) assms(7) in linarith)
  have ne: "unat (vaddr_base ?n + page_count ?n * 4096) = 4096 * (rpage ?n + rcnt ?n)"
    unfolding rcnt_def by (rule region_word_end [OF B(4)]) (use B(1) in \<open>simp add: rcnt_def\<close>)
  have "unat (vst + k * 4096) \<noteq> unat (vaddr_base ?n + page_count ?n * 4096)"
    unfolding fe ne using assms(7) by simp
  then have "vst + k * 4096 \<noteq> vaddr_base ?n + page_count ?n * 4096" by metis
  moreover have "vst \<noteq> vaddr_base ?n" using B(4) assms(4,6) by auto
  ultimately show ?thesis
    using assms(3) by (simp add: unmap_split_def Let_def set_node_def)
qed

lemma no_adjacent_cong:
  "(\<And>i. i \<in> set ns \<Longrightarrow> is_free (N ! i) = is_free (N' ! i)) \<Longrightarrow>
   no_adjacent_free N ns = no_adjacent_free N' ns"
  by (induction N ns rule: no_adjacent_free.induct) auto

text \<open>
  C22. Unmapping a range strictly inside a reservation asks \<^verbatim>\<open>allocvmmr\<close> for two nodes and gets
  the same one twice. The region list afterwards ends in an empty node right before the
  unmapped range: the range, the rest of the reservation and every later region of the heap
  are no longer on the list.
\<close>

theorem vmm_unmap_middle_loses_heap:
  assumes "regs_wf s (xs @ c # ys)" "\<not> is_free (vmmr_nodes s ! c)"
    and "no_adjacent_free (vmmr_nodes s) (xs @ [c])" "allocvmmr s = Some m"
    and "unat vst = 4096 * v" "0 < unat k" "rpage (vmmr_nodes s ! c) < v"
    and "v + unat k < rpage (vmmr_nodes s ! c) + rcnt (vmmr_nodes s ! c)"
  shows "\<exists>s'. unmap_regions vst k s = Some s' \<and>
    lseg (vmmr_nodes s') (vmmr_head s') (xs @ [c, m]) None \<and>
    tiles (vmmr_nodes s') heap_first (xs @ [c]) v \<and> rcnt (vmmr_nodes s' ! m) = 0"
proof -
  let ?N = "vmmr_nodes s"
  let ?n = "?N ! c"
  let ?nc = "?n\<lparr>page_count := (vst - vaddr_base ?n) div 4096, nxt := Some m\<rparr>"
  let ?nm = "\<lparr>vaddr_base = vst, page_count = k, is_free = True, nxt = Some m\<rparr>"
  let ?z = "\<lparr>vaddr_base = 0, page_count = 0, is_free = False, nxt = None\<rparr>"
  define s1 where "s1 = set_node c ?nc (set_node m ?nm s)"
  define s2 where "s2 = set_node m ?z s1"
  note B = wf_node_bounds [OF assms(1)]
  have m: "m \<notin> set (xs @ c # ys)" "m < length ?N" using allocvmmr_fresh [OF assms(1,4)] by auto
  have c: "c < length ?N" "c \<notin> set xs" using assms(1) by (auto simp: regs_wf_def)
  have N1: "vmmr_nodes s1 ! c = ?nc" "vmmr_nodes s1 ! m = ?nm" "length (vmmr_nodes s1) = length ?N"
      "vmmr_head s1 = vmmr_head s" "\<And>i. i \<in> set xs \<Longrightarrow> vmmr_nodes s1 ! i = ?N ! i"
    using m c by (auto simp: s1_def nth_list_update)
  have l: "lseg ?N (vmmr_head s) xs (Some c)" using assms(1) by (auto simp: regs_wf_def)
  have l1: "lseg (vmmr_nodes s1) (vmmr_head s1) (xs @ [c]) (Some m)"
    using l lseg_cong [of "vmmr_nodes s1" ?N xs "vmmr_head s" "Some c"] N1 c by auto
  have na: "no_adjacent_free (vmmr_nodes s1) (xs @ [c])"
  proof -
    have "is_free (vmmr_nodes s1 ! i) = is_free (?N ! i)" if "i \<in> set (xs @ [c])" for i
      using that N1(1,5) by auto
    then show ?thesis using assms(3) no_adjacent_cong [of "xs @ [c]" "vmmr_nodes s1" ?N] by simp
  qed
  have v: "\<not> vst < HEAP_START" "\<not> HEAP_END \<le> vst"
    by (rule heap_addr_in_range [OF assms(5)]; use B(1,2) assms(6-8) in linarith)+
  have "unmap_find vst (k * 4096) (vmmr_head s) s = Some (Some c)"
    by (rule unmap_find_node [OF assms(1,2,5,6)]) (use assms(7,8) in simp_all)
  then have "unmap_regions vst k s = coalesce_loop (vmmr_head s1) s1"
    using v split_middle [OF assms(1,2,4,5-8)] by (simp add: unmap_regions_def Let_def s1_def)
  also have "\<dots> = coalesce_loop (Some c) s1" by (rule coalesce_skip [OF l1 na])
  also have "\<dots> = coalesce_loop (Some m) s1"
    by (subst coalesce_loop.simps) (use N1 assms(2) in simp)
  also have "\<dots> = coalesce_loop (Some m) s2"
    by (subst coalesce_loop.simps) (use N1 m in \<open>simp add: Let_def s2_def set_node_def\<close>)
  also have "\<dots> = Some s2"
    by (subst coalesce_loop.simps) (use N1 m in \<open>simp add: s2_def\<close>)
  finally have R: "unmap_regions vst k s = Some s2" .
  have N2: "vmmr_nodes s2 ! c = ?nc" "vmmr_nodes s2 ! m = ?z" "length (vmmr_nodes s2) = length ?N"
      "vmmr_head s2 = vmmr_head s" "\<And>i. i \<in> set xs \<Longrightarrow> vmmr_nodes s2 ! i = ?N ! i"
    using m c N1 by (auto simp: s2_def nth_list_update)
  have "lseg (vmmr_nodes s2) (vmmr_head s2) (xs @ [c, m]) None"
    using l lseg_cong [of "vmmr_nodes s2" ?N xs "vmmr_head s" "Some c"] N2 c m(2) by auto
  moreover have "tiles ?N heap_first xs (rpage ?n)"
    using assms(1) by (auto simp: regs_wf_def rpage_def)
  then have "tiles (vmmr_nodes s2) heap_first xs (rpage ?n)"
    using tiles_cong [of xs "vmmr_nodes s2" ?N] N2(5) by auto
  moreover have "rcnt ?nc = v - rpage ?n"
  proof -
    have "unat (vst - vaddr_base ?n) = 4096 * (v - rpage ?n)"
      using B(4) assms(5,7) by (simp add: unat_sub word_le_nat_alt diff_mult_distrib2)
    then show ?thesis by (simp add: rcnt_def unat_div_distrib)
  qed
  ultimately show ?thesis
    using R N2 B(4) assms(7) by (intro exI [of _ s2]) (simp add: rcnt_def)
qed

theorem vmm_unmap_middle_loses_heap_witness:
  "\<exists>s'. unmap_regions (HEAP_START + 3 * 4096) 2 vmm_demo = Some s' \<and>
    lseg (vmmr_nodes s') (vmmr_head s') [0, 2] None \<and>
    tiles (vmmr_nodes s') heap_first [0] (heap_first + 3) \<and> rcnt (vmmr_nodes s' ! 2) = 0"
proof -
  have "regs_wf vmm_demo ([] @ 0 # [Suc 0])" using vmm_demo_wf by simp
  from vmm_unmap_middle_loses_heap [OF this _ _ vmm_demo_alloc, of "HEAP_START + 3 * 4096" "heap_first + 3" 2]
  show ?thesis by (simp add: vmm_demo_nodes rpage_def rcnt_def)
qed

end
