(* ===== verification/Vmm_Paging.thy ===== *)
theory Vmm_Paging
  imports Pmm Vmm_Region
begin

unbundle bit_operations_syntax

text \<open>
  The four-level page tables of \<^verbatim>\<open>src/kern/mem/vmm.c\<close>. Physical memory is a function from
  the physical address of an 8-byte entry to its value; the kernel reaches it through the
  direct map at \<^verbatim>\<open>hhdm_offset\<close>, so a \<^verbatim>\<open>page_table_t*\<close> is a 64-bit word from which the offset
  is subtracted on access. An access through a null table pointer is a page fault in the
  kernel: the operation then has the value \<^term>\<open>None\<close>. TLB maintenance is not modelled.
\<close>

section \<open>Model\<close>

abbreviation (input) PAGE_PRESENT :: u64 where "PAGE_PRESENT \<equiv> 1"
abbreviation (input) PAGE_WRITE :: u64 where "PAGE_WRITE \<equiv> 2"
abbreviation (input) PAGE_USER :: u64 where "PAGE_USER \<equiv> 4"
abbreviation (input) PAGE_HUGE :: u64 where "PAGE_HUGE \<equiv> 0x80"
abbreviation (input) MAP_ANYPHYS :: u64 where "MAP_ANYPHYS \<equiv> 0x1000000000000000"
abbreviation (input) MAP_CONT :: u64 where "MAP_CONT \<equiv> 0x2000000000000000"
abbreviation (input) MAP_ANYVIRT :: u64 where "MAP_ANYVIRT \<equiv> 0x4000000000000000"
abbreviation (input) MAP_USRMAP :: u64 where "MAP_USRMAP \<equiv> 0x8000000000000000"
abbreviation (input) UNMAP_KEEPPHYS :: u64 where "UNMAP_KEEPPHYS \<equiv> 1"
abbreviation (input) HHDM_START :: u64 where "HHDM_START \<equiv> 0xFFFF800000000000"
abbreviation (input) KERN_START :: u64 where "KERN_START \<equiv> 0xFFFFFFFF80000000"

definition PML4_IDX :: "u64 \<Rightarrow> u64" where "PML4_IDX a = drop_bit 39 a AND 0x1FF"
definition PDPT_IDX :: "u64 \<Rightarrow> u64" where "PDPT_IDX a = drop_bit 30 a AND 0x1FF"
definition PD_IDX :: "u64 \<Rightarrow> u64" where "PD_IDX a = drop_bit 21 a AND 0x1FF"
definition PT_IDX :: "u64 \<Rightarrow> u64" where "PT_IDX a = drop_bit 12 a AND 0x1FF"

record vmm_state =
  hhdm_offset :: u64
  lhhdm_off :: u64
  pml4 :: u64
  cr3 :: u64
  pmem :: "u64 \<Rightarrow> u64"
  pmms :: pmm_state
  vregs :: vmm_regs

definition ld :: "vmm_state \<Rightarrow> u64 \<Rightarrow> u64 \<Rightarrow> u64" where
  "ld st t i = pmem st (t - hhdm_offset st + 8 * i)"

definition sto :: "u64 \<Rightarrow> u64 \<Rightarrow> u64 \<Rightarrow> vmm_state \<Rightarrow> vmm_state" where
  "sto t i v st = st\<lparr>pmem := (pmem st)(t - hhdm_offset st + 8 * i := v)\<rparr>"

text \<open>The address bits of an entry, \<^verbatim>\<open>e & ~0xFFFULL\<close>.\<close>

definition pg_addr :: "u64 \<Rightarrow> u64" where
  "pg_addr e = e AND NOT 0xFFF"

definition present :: "u64 \<Rightarrow> bool" where
  "present e \<longleftrightarrow> e AND PAGE_PRESENT \<noteq> 0"

definition entry_table :: "vmm_state \<Rightarrow> u64 \<Rightarrow> u64" where
  "entry_table st e = hhdm_offset st + pg_addr e"

definition alloctblpg :: "vmm_state \<Rightarrow> vmm_state \<times> u64" where
  "alloctblpg st =
     (case pmm_falloc (pmms st) 1 of
        (p, phys_page) \<Rightarrow>
          if phys_page = 0 then (st\<lparr>pmms := p\<rparr>, 0)
          else (st\<lparr>pmms := p,
                   pmem := (\<lambda>x. if phys_page \<le> x \<and> x < phys_page + 4096 then 0 else pmem st x)\<rparr>,
                hhdm_offset st + phys_page))"

definition vmm_get_phys :: "vmm_state \<Rightarrow> u64 \<Rightarrow> u64 \<Rightarrow> u64" where
  "vmm_get_phys st pml4v virt =
     (if pml4v = 0 then 0 else
      let pml4e = ld st pml4v (PML4_IDX virt) in
      if \<not> present pml4e then 0 else
      let pdpte = ld st (entry_table st pml4e) (PDPT_IDX virt) in
      if \<not> present pdpte then 0 else
      let pde = ld st (entry_table st pdpte) (PD_IDX virt) in
      if \<not> present pde then 0 else
      if pde AND PAGE_HUGE \<noteq> 0 then (pde AND NOT 0x1FFFFF) OR (virt AND 0x1FFFFF) else
      let pte = ld st (entry_table st pde) (PT_IDX virt) in
      if \<not> present pte then 0 else pg_addr pte OR (virt AND 0xFFF))"

text \<open>
  The block \<^verbatim>\<open>vmm_map_page\<close> repeats per level: follow the entry, or allocate a table and
  link it. The next access goes through the new pointer, so a failed allocation faults there.
\<close>

definition get_table :: "vmm_state \<Rightarrow> u64 \<Rightarrow> u64 \<Rightarrow> (vmm_state \<times> u64) option" where
  "get_table st tbl idx =
     (let e = ld st tbl idx in
      if \<not> present e then
        case alloctblpg st of
          (st1, v) \<Rightarrow>
            if v = 0 then None
            else Some (sto tbl idx ((v - hhdm_offset st1) OR PAGE_PRESENT OR PAGE_WRITE OR PAGE_USER) st1, v)
      else Some (st, entry_table st e))"

definition mirror_pml4 :: "u64 \<Rightarrow> u64 \<Rightarrow> vmm_state \<Rightarrow> vmm_state" where
  "mirror_pml4 pml4v idx st =
     (if pml4 st \<noteq> 0 \<and> pml4 st \<noteq> pml4v \<and> 256 \<le> idx then sto (pml4 st) idx (ld st pml4v idx) st else st)"

definition vmm_map_page :: "vmm_state \<Rightarrow> u64 \<Rightarrow> u64 \<Rightarrow> u64 \<Rightarrow> u64 \<Rightarrow> vmm_state option" where
  "vmm_map_page st pml4v virt phys flg =
     (if pml4v = 0 then None else
      case get_table st pml4v (PML4_IDX virt) of
        None \<Rightarrow> None
      | Some (st1, pdpt_virt) \<Rightarrow>
          let st1' = (if present (ld st pml4v (PML4_IDX virt)) then st1
                      else mirror_pml4 pml4v (PML4_IDX virt) st1)
          in case get_table st1' pdpt_virt (PDPT_IDX virt) of
               None \<Rightarrow> None
             | Some (st2, pd_virt) \<Rightarrow>
                 case get_table st2 pd_virt (PD_IDX virt) of
                   None \<Rightarrow> None
                 | Some (st3, pt_virt) \<Rightarrow>
                     Some (sto pt_virt (PT_IDX virt) (pg_addr phys OR flg OR PAGE_PRESENT) st3))"

definition vmm_map_huge_page :: "vmm_state \<Rightarrow> u64 \<Rightarrow> u64 \<Rightarrow> u64 \<Rightarrow> u64 \<Rightarrow> vmm_state option" where
  "vmm_map_huge_page st pml4v virt phys flg =
     (if pml4v = 0 then None else
      case get_table st pml4v (PML4_IDX virt) of
        None \<Rightarrow> None
      | Some (st1, pdpt_virt) \<Rightarrow>
          case get_table st1 pdpt_virt (PDPT_IDX virt) of
            None \<Rightarrow> None
          | Some (st2, pd_virt) \<Rightarrow>
              Some (sto pd_virt (PD_IDX virt)
                ((phys AND NOT 0x1FFFFF) OR flg OR PAGE_PRESENT OR PAGE_HUGE) st2))"

text \<open>The loops over pages; the counter is the number of iterations left.\<close>

fun map_range :: "nat \<Rightarrow> u64 \<Rightarrow> u64 \<Rightarrow> u64 \<Rightarrow> u64 \<Rightarrow> vmm_state \<Rightarrow> vmm_state option" where
  "map_range 0 pml4v virt phys flg st = Some st"
| "map_range (Suc n) pml4v virt phys flg st =
     (case vmm_map_page st pml4v virt phys flg of
        None \<Rightarrow> None
      | Some st' \<Rightarrow> map_range n pml4v (virt + 4096) (phys + 4096) flg st')"

fun map_huge_range :: "nat \<Rightarrow> u64 \<Rightarrow> u64 \<Rightarrow> u64 \<Rightarrow> vmm_state \<Rightarrow> vmm_state option" where
  "map_huge_range 0 pml4v i flg st = Some st"
| "map_huge_range (Suc n) pml4v i flg st =
     (case vmm_map_huge_page st pml4v (HHDM_START + i) i flg of
        None \<Rightarrow> None
      | Some st' \<Rightarrow> map_huge_range n pml4v (i + 0x200000) flg st')"

fun map_anyphys :: "nat \<Rightarrow> u64 \<Rightarrow> u64 \<Rightarrow> u64 \<Rightarrow> vmm_state \<Rightarrow> (vmm_state \<times> bool) option" where
  "map_anyphys 0 pml4v virt flg st = Some (st, True)"
| "map_anyphys (Suc n) pml4v virt flg st =
     (case pmm_falloc (pmms st) 1 of
        (p, phys_page) \<Rightarrow>
          if phys_page = 0 then Some (st\<lparr>pmms := p\<rparr>, False)
          else case vmm_map_page (st\<lparr>pmms := p\<rparr>) pml4v virt phys_page flg of
                 None \<Rightarrow> None
               | Some st' \<Rightarrow> map_anyphys n pml4v (virt + 4096) flg st')"

subsection \<open>Initialisation\<close>

definition tbl_idx :: "nat \<Rightarrow> nat \<Rightarrow> u64 list" where
  "tbl_idx lo hi = map of_nat [lo..<hi]"

definition copy_boot_entry :: "u64 \<Rightarrow> u64 \<Rightarrow> u64 \<Rightarrow> vmm_state \<Rightarrow> vmm_state" where
  "copy_boot_entry npml4 lpml4v i st =
     (if ld st npml4 i = 0 \<and> ld st lpml4v i \<noteq> 0 then sto npml4 i (ld st lpml4v i) st else st)"

definition init_heap_pdpt :: "u64 \<Rightarrow> u64 \<Rightarrow> vmm_state \<Rightarrow> vmm_state" where
  "init_heap_pdpt npml4 v st =
     (if present (ld st npml4 (PML4_IDX v)) then st
      else case alloctblpg st of
             (st1, pdpt_virt) \<Rightarrow>
               sto npml4 (PML4_IDX v)
                 ((pdpt_virt - hhdm_offset st1) OR PAGE_PRESENT OR PAGE_WRITE OR PAGE_USER) st1)"

text \<open>
  \<^verbatim>\<open>vmm_init\<close>: the arguments are the physical base and the length of the kernel image and the
  offset of the boot loader's direct map; \<^term>\<open>cr3\<close> holds the boot loader's tables.
\<close>

definition vmm_init :: "u64 \<Rightarrow> u64 \<Rightarrow> u64 \<Rightarrow> vmm_state \<Rightarrow> vmm_state option" where
  "vmm_init kphys klen boot_offset st =
     (case alloctblpg st of
        (st0, npml4) \<Rightarrow>
          let st1 = st0\<lparr>pml4 := npml4\<rparr>;
              mhigh = mem_high (pmms st1);
              tpmem = (if mhigh < 0x100000000 then 0x100000000 else mhigh)
          in case map_huge_range ((unat tpmem + 0x1FFFFF) div 0x200000) npml4 0 PAGE_WRITE st1 of
               None \<Rightarrow> None
             | Some st2 \<Rightarrow>
                 case map_range ((unat klen + 4095) div 4096) npml4 KERN_START kphys PAGE_WRITE st2 of
                   None \<Rightarrow> None
                 | Some st3 \<Rightarrow>
                     case vmm_map_page st3 npml4 0x8000 0x8000 PAGE_WRITE of
                       None \<Rightarrow> None
                     | Some st4 \<Rightarrow>
                         let lpml4v = hhdm_offset st4 + cr3 st4;
                             st5 = fold (copy_boot_entry npml4 lpml4v) (tbl_idx 256 512) st4;
                             st6 = fold (\<lambda>k. init_heap_pdpt npml4 (HEAP_START + of_nat k * 0x8000000000))
                                     [0..<unat (HEAP_SIZE div 0x8000000000)] st5
                         in Some (st6\<lparr>cr3 := npml4 - hhdm_offset st6, lhhdm_off := boot_offset,
                                      hhdm_offset := HHDM_START, vregs := init_regions (vregs st6)\<rparr>))"

definition xlate_limptr :: "vmm_state \<Rightarrow> u64 \<Rightarrow> u64" where
  "xlate_limptr st limine_vaddr =
     (if limine_vaddr = 0 then 0 else (limine_vaddr - lhhdm_off st) + HHDM_START)"

subsection \<open>Unmapping\<close>

definition is_table_empty :: "vmm_state \<Rightarrow> u64 \<Rightarrow> bool" where
  "is_table_empty st table_virt \<longleftrightarrow> list_all (\<lambda>i. ld st table_virt i = 0) (tbl_idx 0 512)"

definition free_frame :: "u64 \<Rightarrow> vmm_state \<Rightarrow> vmm_state" where
  "free_frame pa st = st\<lparr>pmms := pmm_ffree (pmms st) pa 1\<rparr>"

definition vmm_unmap_page :: "vmm_state \<Rightarrow> u64 \<Rightarrow> u64 \<Rightarrow> u64 \<Rightarrow> vmm_state option" where
  "vmm_unmap_page st pml4v virt flags =
     (if pml4v = 0 then None else
      let pml4idx = PML4_IDX virt; pml4e = ld st pml4v pml4idx in
      if \<not> present pml4e then Some st else
      let pdptp = pg_addr pml4e; pdptv = hhdm_offset st + pdptp;
          pdptidx = PDPT_IDX virt; pdpte = ld st pdptv pdptidx in
      if \<not> present pdpte then Some st else
      let pdp = pg_addr pdpte; pdv = hhdm_offset st + pdp;
          pdidx = PD_IDX virt; pde = ld st pdv pdidx in
      if \<not> present pde then Some st else
      let ptp = pg_addr pde; ptv = hhdm_offset st + ptp;
          ptidx = PT_IDX virt;
          pframe = pg_addr (ld st ptv ptidx);
          st1 = sto ptv ptidx 0 st;
          st2 = (if flags AND UNMAP_KEEPPHYS \<noteq> UNMAP_KEEPPHYS then free_frame pframe st1 else st1) in
      if 256 \<le> pml4idx then Some st2 else
      if is_table_empty st2 ptv then
        let st3 = sto pdv pdidx 0 (free_frame ptp st2) in
        if is_table_empty st3 pdv then
          let st4 = sto pdptv pdptidx 0 (free_frame pdp st3) in
          if is_table_empty st4 pdptv then Some (sto pml4v pml4idx 0 (free_frame pdptp st4))
          else Some st4
        else Some st3
      else Some st2)"

fun unmap_range :: "nat \<Rightarrow> u64 \<Rightarrow> u64 \<Rightarrow> u64 \<Rightarrow> vmm_state \<Rightarrow> vmm_state option" where
  "unmap_range 0 pml4v virt flags st = Some st"
| "unmap_range (Suc n) pml4v virt flags st =
     (case vmm_unmap_page st pml4v virt flags of
        None \<Rightarrow> None
      | Some st' \<Rightarrow> unmap_range n pml4v (virt + 4096) flags st')"

definition vmm_unmap_pages :: "vmm_state \<Rightarrow> u64 \<Rightarrow> u64 \<Rightarrow> u64 \<Rightarrow> u64 \<Rightarrow> vmm_state option" where
  "vmm_unmap_pages st pml4v vst pgcnt flags =
     (case unmap_range (unat pgcnt) pml4v vst flags st of
        None \<Rightarrow> None
      | Some st1 \<Rightarrow>
          case unmap_regions vst pgcnt (vregs st1) of
            None \<Rightarrow> None
          | Some r \<Rightarrow> Some (st1\<lparr>vregs := r\<rparr>))"

subsection \<open>Mapping a range\<close>

text \<open>The result pairs the new state with the returned address, 0 for a null pointer.\<close>

definition vmm_map_at :: "vmm_state \<Rightarrow> u64 \<Rightarrow> u64 \<Rightarrow> u64 \<Rightarrow> u64 \<Rightarrow> u64 \<Rightarrow> (vmm_state \<times> u64) option" where
  "vmm_map_at st pml4v vst pst pgcnt flg =
     (let x86flgs = flg AND NOT (MAP_ANYPHYS OR MAP_CONT OR MAP_ANYVIRT OR MAP_USRMAP) in
      if flg AND MAP_ANYPHYS \<noteq> 0 then
        if flg AND MAP_CONT \<noteq> 0 then
          case pmm_falloc (pmms st) pgcnt of
            (p, bphys) \<Rightarrow>
              if bphys = 0 then Some (st\<lparr>pmms := p\<rparr>, 0)
              else map_option (\<lambda>st'. (st', vst))
                     (map_range (unat pgcnt) pml4v vst bphys x86flgs (st\<lparr>pmms := p\<rparr>))
        else map_option (\<lambda>(st', ok). (st', if ok then vst else 0))
               (map_anyphys (unat pgcnt) pml4v vst x86flgs st)
      else map_option (\<lambda>st'. (st', vst)) (map_range (unat pgcnt) pml4v vst pst x86flgs st))"

text \<open>
  The second parameter of \<^verbatim>\<open>vmm_ffreer\<close> is an \<^verbatim>\<open>int\<close>: the 64-bit value \<^verbatim>\<open>flg & MAP_USRMAP\<close> is
  converted to 32 bits in the call.
\<close>

definition vmm_map_pages ::
    "nat \<Rightarrow> vmm_state \<Rightarrow> u64 \<Rightarrow> u64 \<Rightarrow> u64 \<Rightarrow> u64 \<Rightarrow> u64 \<Rightarrow> (vmm_state \<times> u64) option" where
  "vmm_map_pages current_pid st pml4v vst pst pgcnt flg =
     (if flg AND MAP_ANYVIRT \<noteq> 0 then
        case vmm_ffreer current_pid pgcnt ((ucast (flg AND MAP_USRMAP) :: u32) \<noteq> 0) (vregs st) of
          None \<Rightarrow> None
        | Some (r, v) \<Rightarrow>
            if v = 0 then Some (st\<lparr>vregs := r\<rparr>, 0)
            else vmm_map_at (st\<lparr>vregs := r\<rparr>) pml4v v pst pgcnt flg
      else if flg AND MAP_USRMAP \<noteq> 0 \<and>
              (vst < r_vaddr_base (vmm_umapr (vregs st) ! current_pid) \<or>
               r_vaddr_end (vmm_umapr (vregs st) ! current_pid) < vst + pgcnt * 4096) then Some (st, 0)
      else vmm_map_at st pml4v vst pst pgcnt flg)"

subsection \<open>Address spaces\<close>

definition vmm_cpml4v :: "vmm_state \<Rightarrow> u64" where
  "vmm_cpml4v st = hhdm_offset st + pg_addr (cr3 st)"

definition vmm_casp :: "vmm_state \<Rightarrow> vmm_state \<times> u64" where
  "vmm_casp st =
     (case alloctblpg st of
        (st1, npml4) \<Rightarrow>
          if npml4 = 0 then (st1, 0)
          else (fold (\<lambda>i s. sto npml4 i (ld s (pml4 s) i) s) (tbl_idx 256 512) st1, npml4))"

definition vmm_sasp :: "u64 \<Rightarrow> vmm_state \<Rightarrow> vmm_state" where
  "vmm_sasp tpml4 st = (if tpml4 = 0 then st else st\<lparr>cr3 := tpml4 - hhdm_offset st\<rparr>)"

definition vmm_skasp :: "vmm_state \<Rightarrow> vmm_state" where
  "vmm_skasp st = (if pml4 st = 0 then st else vmm_sasp (pml4 st) st)"

text \<open>
  \<^verbatim>\<open>vmm_dasp\<close> has four nested loops; each level frees what the present entries of a table
  point to, then the table's frame, and clears the entry.
\<close>

definition dasp_pt :: "u64 \<Rightarrow> u64 \<Rightarrow> vmm_state \<Rightarrow> vmm_state" where
  "dasp_pt pt i st =
     (let pte = ld st pt i in
      if present pte then sto pt i 0 (free_frame (pg_addr pte) st) else st)"

definition dasp_pd :: "u64 \<Rightarrow> u64 \<Rightarrow> vmm_state \<Rightarrow> vmm_state" where
  "dasp_pd pd i st =
     (let pde = ld st pd i in
      if present pde
      then sto pd i 0 (free_frame (pg_addr pde)
             (fold (dasp_pt (entry_table st pde)) (tbl_idx 0 512) st))
      else st)"

definition dasp_pdpt :: "u64 \<Rightarrow> u64 \<Rightarrow> vmm_state \<Rightarrow> vmm_state" where
  "dasp_pdpt pdpt i st =
     (let pdpte = ld st pdpt i in
      if present pdpte
      then sto pdpt i 0 (free_frame (pg_addr pdpte)
             (fold (dasp_pd (entry_table st pdpte)) (tbl_idx 0 512) st))
      else st)"

definition dasp_pml4 :: "u64 \<Rightarrow> u64 \<Rightarrow> vmm_state \<Rightarrow> vmm_state" where
  "dasp_pml4 tpml4 i st =
     (let pml4e = ld st tpml4 i in
      if present pml4e
      then sto tpml4 i 0 (free_frame (pg_addr pml4e)
             (fold (dasp_pdpt (entry_table st pml4e)) (tbl_idx 0 512) st))
      else st)"

definition vmm_dasp :: "u64 \<Rightarrow> vmm_state \<Rightarrow> vmm_state" where
  "vmm_dasp tpml4 st =
     (let st1 = fold (dasp_pml4 tpml4) (tbl_idx 0 256) st
      in free_frame (tpml4 - hhdm_offset st1) st1)"

subsection \<open>Page flags\<close>

text \<open>These two functions use the fixed window \<^verbatim>\<open>HHDM_START\<close> instead of \<^verbatim>\<open>hhdm_offset\<close>.\<close>

definition hh_table :: "u64 \<Rightarrow> u64" where
  "hh_table e = HHDM_START + pg_addr e"

fun setflgs_loop :: "nat \<Rightarrow> u64 \<Rightarrow> u64 \<Rightarrow> u64 \<Rightarrow> vmm_state \<Rightarrow> vmm_state \<times> int" where
  "setflgs_loop 0 pml4v virt flgs st = (st, 0)"
| "setflgs_loop (Suc n) pml4v virt flgs st =
     (let pml4e = ld st pml4v (PML4_IDX virt) in
      if \<not> present pml4e then (st, - ENOEXIST) else
      let pdpte = ld st (hh_table pml4e) (PDPT_IDX virt) in
      if \<not> present pdpte then (st, - ENOEXIST) else
      let pde = ld st (hh_table pdpte) (PD_IDX virt) in
      if \<not> present pde then (st, - ENOEXIST) else
      let pte = ld st (hh_table pde) (PT_IDX virt) in
      if \<not> present pte then (st, - ENOEXIST) else
      setflgs_loop n pml4v (virt + 4096) flgs
        (sto (hh_table pde) (PT_IDX virt) (pg_addr pte OR flgs OR PAGE_PRESENT) st))"

definition vmm_setflgs :: "vmm_state \<Rightarrow> u64 \<Rightarrow> u64 \<Rightarrow> u64 \<Rightarrow> u64 \<Rightarrow> vmm_state \<times> int" where
  "vmm_setflgs st pml4v svirt npgs flgs =
     (if pml4v = 0 then (st, - ENOEXIST) else setflgs_loop (unat npgs) pml4v svirt flgs st)"

definition vmm_getflgs :: "vmm_state \<Rightarrow> u64 \<Rightarrow> u64 \<Rightarrow> int + u64" where
  "vmm_getflgs st pml4v virt0 =
     (if pml4v = 0 then Inl (- ENOEXIST) else
      let virt = pg_addr virt0; pml4e = ld st pml4v (PML4_IDX virt) in
      if \<not> present pml4e then Inl (- ENOEXIST) else
      let pdpte = ld st (hh_table pml4e) (PDPT_IDX virt) in
      if \<not> present pdpte then Inl (- ENOEXIST) else
      let pde = ld st (hh_table pdpte) (PD_IDX virt) in
      if \<not> present pde then Inl (- ENOEXIST) else
      let pte = ld st (hh_table pde) (PT_IDX virt) in
      if \<not> present pte then Inl (- ENOEXIST) else Inr (pte AND 0xFFF))"

end
