(* ===== verification/Vmm_Tree.thy ===== *)
theory Vmm_Tree
  imports Vmm_Paging
begin

unbundle bit_operations_syntax

text \<open>
  Correctness of the page-table operations. The tables reachable from a root form a tree: a
  table is named by the list of indices that leads to it, distinct paths lead to distinct
  tables, and every table is a frame in use. \<^term>\<open>vmm_map_page\<close> only adds tables to the tree and
  \<^term>\<open>vmm_unmap_page\<close> only takes empty ones out, so neither changes another translation.
\<close>

section \<open>Page-aligned words and entries\<close>

definition wpage :: "u64 \<Rightarrow> nat" where "wpage w = unat w div 4096"
definition aligned :: "u64 \<Rightarrow> bool" where "aligned w \<longleftrightarrow> 4096 dvd unat w"

lemma mask_page: "pg_addr e = (e div 4096) * (4096 :: u64)"
proof -
  have "pg_addr e = e AND NOT (mask 12)" by (simp add: pg_addr_def mask_eq_exp_minus_1)
  also have "\<dots> = push_bit 12 (drop_bit 12 e)"
    by (rule bit_word_eqI) (auto simp: bit_simps)
  also have "\<dots> = (e div 4096) * 4096"
    by (simp add: push_bit_eq_mult drop_bit_eq_div)
  finally show ?thesis .
qed

lemma unat_mask_page: "unat (pg_addr e) = 4096 * wpage e"
proof -
  have "unat e div 4096 * 4096 < 18446744073709551616"
    using unat_u64 [of e] div_times_less_eq_dividend [of "unat e" 4096] by linarith
  then show ?thesis unfolding mask_page wpage_def
    by (simp add: unat_word_ariths unat_div_distrib)
qed

lemma aligned_mask [simp]: "aligned (pg_addr e)"
  by (simp add: aligned_def unat_mask_page)

lemma mask_aligned: "aligned t \<Longrightarrow> pg_addr t = t"
  by (auto simp: aligned_def word_unat_eq_iff unat_mask_page wpage_def)

lemma aligned_unat: "aligned t \<Longrightarrow> unat t = 4096 * wpage t"
  by (auto simp: aligned_def wpage_def)

lemma idx_less: "unat (x AND 0x1FF :: u64) < 512"
proof -
  have "x AND 0x1FF = take_bit 9 x" by (simp add: take_bit_eq_mask mask_eq_exp_minus_1)
  moreover have "unat (take_bit 9 x) < 512" by (simp add: take_bit_eq_mod unat_mod_distrib)
  ultimately show ?thesis by simp
qed

lemma table_idx_less [simp]:
  "unat (PML4_IDX a) < 512" "unat (PDPT_IDX a) < 512" "unat (PD_IDX a) < 512" "unat (PT_IDX a) < 512"
  by (simp_all add: PML4_IDX_def PDPT_IDX_def PD_IDX_def PT_IDX_def idx_less)

lemma unat_slot:
  assumes "aligned t" "unat i < 512"
  shows "unat (t + 8 * i) = 4096 * wpage t + 8 * unat i"
proof -
  have i: "unat (8 * i) = 8 * unat i" using assms(2) by (simp add: unat_word_ariths)
  have "4096 * wpage t + 4096 \<le> 18446744073709551616"
    using aligned_unat [OF assms(1)] unat_u64 [of t] by simp
  then have "unat (t + 8 * i) = unat t + unat (8 * i)"
    by (intro unat_plus_no_wrap) (use i assms aligned_unat [OF assms(1)] in simp)
  then show ?thesis using i aligned_unat [OF assms(1)] by simp
qed

lemma wpage_slot: "aligned t \<Longrightarrow> unat i < 512 \<Longrightarrow> wpage (t + 8 * i) = wpage t"
  using unat_slot [of t i] by (simp add: wpage_def)

lemma aligned_eq: "aligned t \<Longrightarrow> aligned u \<Longrightarrow> wpage t = wpage u \<longleftrightarrow> t = u"
  by (metis aligned_unat word_unat_eq_iff)

lemma slot_eq_iff:
  assumes "aligned t" "aligned u" "unat i < 512" "unat j < 512"
  shows "t + 8 * i = u + 8 * j \<longleftrightarrow> t = u \<and> i = j"
proof
  assume e: "t + 8 * i = u + 8 * j"
  then have "wpage t = wpage u" using assms wpage_slot by metis
  then have "t = u" using assms aligned_eq by blast
  moreover have "unat i = unat j"
    using e unat_slot [OF assms(1,3)] unat_slot [OF assms(2,4)] \<open>wpage t = wpage u\<close> by simp
  ultimately show "t = u \<and> i = j" by (simp add: word_unat_eq_iff)
qed simp

lemma div_page_iff: "(4096 * p \<le> u \<and> u < 4096 * p + 4096) \<longleftrightarrow> u div 4096 = (p::nat)"
proof
  show "4096 * p \<le> u \<and> u < 4096 * p + 4096 \<Longrightarrow> u div 4096 = p" by (intro div_nat_eqI) auto
  have "u = 4096 * (u div 4096) + u mod 4096" "u mod 4096 < 4096" by simp_all
  then show "u div 4096 = p \<Longrightarrow> 4096 * p \<le> u \<and> u < 4096 * p + 4096" by linarith
qed

lemma in_page_iff:
  assumes "aligned n" "wpage n < 4503599627370495"
  shows "n \<le> x \<and> x < n + 4096 \<longleftrightarrow> wpage x = wpage n"
proof -
  have "unat (n + 4096) = 4096 * wpage n + 4096"
  proof -
    have "unat (n + 4096) = unat n + unat (4096 :: u64)"
      by (rule unat_plus_no_wrap) (use assms aligned_unat [OF assms(1)] in simp)
    then show ?thesis using aligned_unat [OF assms(1)] by simp
  qed
  then show ?thesis
    unfolding word_le_nat_alt word_less_nat_alt aligned_unat [OF assms(1)]
    using div_page_iff [of "wpage n" "unat x"] by (simp add: wpage_def)
qed

text \<open>The entry that links a table: its low bits are the flags.\<close>

lemma present_bit: "present e \<longleftrightarrow> bit e 0"
  by (simp add: present_def and_one_eq bit_0 mod2_eq_if)

lemma link_entry:
  assumes "aligned n"
  shows "present (n OR 1 OR 2 OR 4)" "(n OR 1 OR 2 OR 4) AND 0x80 = 0" "pg_addr (n OR 1 OR 2 OR 4) = n"
proof -
  have n: "n = push_bit 12 (drop_bit 12 n)"
    using mask_aligned [OF assms] unfolding mask_page by (simp add: push_bit_eq_mult drop_bit_eq_div)
  have b: "12 \<le> k" if "bit n k" for k using that by (subst (asm) n) (auto simp: bit_simps)
  have low: "bit (7 :: u64) k \<longleftrightarrow> k < 3" for k
  proof -
    have "(7 :: u64) = mask 3" by (simp add: mask_eq_exp_minus_1)
    then show ?thesis by (simp only: bit_mask_iff) (auto simp: possible_bit_def)
  qed
  have e: "n OR 1 OR 2 OR 4 = n OR 7" by (simp add: or.assoc)
  show "present (n OR 1 OR 2 OR 4)" unfolding e present_bit bit_or_iff low by simp
  show "(n OR 1 OR 2 OR 4) AND 0x80 = 0" unfolding e
  proof -
    have "\<not> bit (n OR 7) 7" unfolding bit_or_iff low using b [of 7] by auto
    then have "(n OR 7) AND 2 ^ 7 = 0" by (rule and_exp_eq_0_iff_not_bit [THEN iffD2])
    then show "(n OR 7) AND 0x80 = 0" by simp
  qed
  have m: "NOT 0xFFF = (NOT (mask 12) :: u64)" by (simp add: mask_eq_exp_minus_1)
  show "pg_addr (n OR 1 OR 2 OR 4) = n" unfolding e pg_addr_def m
  proof (rule bit_word_eqI)
    fix k assume "k < LENGTH(64)"
    then show "bit ((n OR 7) AND NOT (mask 12)) k = bit n k"
      unfolding bit_and_iff bit_or_iff bit_not_iff bit_mask_iff low
      using b [of k] by (auto simp: possible_bit_def)
  qed
qed

section \<open>The table tree\<close>

definition pt_next :: "(u64 \<Rightarrow> u64) \<Rightarrow> u64 \<Rightarrow> u64 \<Rightarrow> u64 option" where
  "pt_next M t i =
     (let e = M (t + 8 * i) in if present e \<and> e AND 0x80 = 0 then Some (pg_addr e) else None)"

text \<open>The table reached from the root by a list of indices.\<close>

definition tab :: "(u64 \<Rightarrow> u64) \<Rightarrow> u64 \<Rightarrow> u64 list \<Rightarrow> u64 option" where
  "tab M root Q = foldl (\<lambda>r i. Option.bind r (\<lambda>t. pt_next M t i)) (Some root) Q"

definition tpath :: "u64 list \<Rightarrow> bool" where
  "tpath Q \<longleftrightarrow> length Q \<le> 3 \<and> (\<forall>i \<in> set Q. unat i < 512)"

lemma tab_Nil [simp]: "tab M root [] = Some root"
  by (simp add: tab_def)

lemma tab_snoc: "tab M root (Q @ [i]) = Option.bind (tab M root Q) (\<lambda>t. pt_next M t i)"
  by (simp add: tab_def)

lemma tab_singletons:
  "tab M root [a] = pt_next M root a"
  "tab M root [a, b] = Option.bind (tab M root [a]) (\<lambda>t. pt_next M t b)"
  "tab M root [a, b, c] = Option.bind (tab M root [a, b]) (\<lambda>t. pt_next M t c)"
  by (simp_all add: tab_def)

lemma tpath_snoc [simp]: "tpath (Q @ [i]) \<longleftrightarrow> tpath Q \<and> length Q \<le> 2 \<and> unat i < 512"
  by (auto simp: tpath_def)

definition tree_ok :: "pmm_state \<Rightarrow> (u64 \<Rightarrow> u64) \<Rightarrow> u64 \<Rightarrow> bool" where
  "tree_ok p M root \<longleftrightarrow> pm_ok p \<and>
     (\<forall>Q R t. tpath Q \<longrightarrow> tpath R \<longrightarrow> tab M root Q = Some t \<longrightarrow> tab M root R = Some t \<longrightarrow> Q = R) \<and>
     (\<forall>Q t. tpath Q \<longrightarrow> tab M root Q = Some t \<longrightarrow>
        aligned t \<and> 0 < wpage t \<and> fused p (wpage t) \<and> wpage t < unat (nframes p)) \<and>
     (\<forall>Q t i. tpath Q \<longrightarrow> length Q \<le> 1 \<longrightarrow> unat i < 512 \<longrightarrow> tab M root Q = Some t \<longrightarrow>
        present (M (t + 8 * i)) \<longrightarrow> M (t + 8 * i) AND 0x80 = 0)"

lemma tree_okD:
  assumes "tree_ok p M root"
  shows "pm_ok p" "\<lbrakk>tpath Q; tpath R; tab M root Q = Some t; tab M root R = Some t\<rbrakk> \<Longrightarrow> Q = R"
    "\<lbrakk>tpath Q; tab M root Q = Some t\<rbrakk> \<Longrightarrow> aligned t"
    "\<lbrakk>tpath Q; tab M root Q = Some t\<rbrakk> \<Longrightarrow> fused p (wpage t)"
    "\<lbrakk>tpath Q; tab M root Q = Some t\<rbrakk> \<Longrightarrow> wpage t < unat (nframes p)"
    "\<lbrakk>tpath Q; length Q \<le> 1; unat i < 512; tab M root Q = Some t; present (M (t + 8 * i))\<rbrakk>
      \<Longrightarrow> M (t + 8 * i) AND 0x80 = 0"
    "\<lbrakk>tpath Q; tab M root Q = Some t\<rbrakk> \<Longrightarrow> 0 < wpage t"
  using assms unfolding tree_ok_def by blast+

text \<open>The physical address the tables give, read off the tree.\<close>

definition gphys :: "(u64 \<Rightarrow> u64) \<Rightarrow> u64 \<Rightarrow> u64 \<Rightarrow> u64" where
  "gphys M root v =
     (case tab M root [PML4_IDX v, PDPT_IDX v] of
        None \<Rightarrow> 0
      | Some pd \<Rightarrow>
          let pde = M (pd + 8 * PD_IDX v) in
          if \<not> present pde then 0
          else if pde AND 0x80 \<noteq> 0 then (pde AND NOT 0x1FFFFF) OR (v AND 0x1FFFFF)
          else let pte = M (pg_addr pde + 8 * PT_IDX v)
               in if \<not> present pte then 0 else pg_addr pte OR (v AND 0xFFF))"

definition huge_at :: "(u64 \<Rightarrow> u64) \<Rightarrow> u64 \<Rightarrow> u64 \<Rightarrow> bool" where
  "huge_at M root v \<longleftrightarrow> (\<exists>pd. tab M root [PML4_IDX v, PDPT_IDX v] = Some pd \<and>
     present (M (pd + 8 * PD_IDX v)) \<and> M (pd + 8 * PD_IDX v) AND 0x80 \<noteq> 0)"

lemma tpath_idx [simp]:
  "tpath []" "tpath [PML4_IDX v]" "tpath [PML4_IDX v, PDPT_IDX v]" "tpath [PML4_IDX v, PDPT_IDX v, PD_IDX v]"
  by (simp_all add: tpath_def)

lemma get_phys_gphys:
  assumes "tree_ok p (pmem st) root" "hhdm_offset st + root \<noteq> 0"
  shows "vmm_get_phys st (hhdm_offset st + root) v = gphys (pmem st) root v"
proof -
  let ?M = "pmem st"
  let ?e4 = "?M (root + 8 * PML4_IDX v)"
  let ?e3 = "?M (pg_addr ?e4 + 8 * PDPT_IDX v)"
  have l: "ld st (hhdm_offset st + t) i = ?M (t + 8 * i)" for t i by (simp add: ld_def)
  have h4: "present ?e4 \<Longrightarrow> ?e4 AND 0x80 = 0" using tree_okD(6) [OF assms(1), of "[]"] by simp
  have h3: "present ?e4 \<Longrightarrow> present ?e3 \<Longrightarrow> ?e3 AND 0x80 = 0"
    using tree_okD(6) [OF assms(1), of "[PML4_IDX v]" "PDPT_IDX v" "pg_addr ?e4"] h4
    by (simp add: tab_singletons pt_next_def)
  show ?thesis
    using h4 h3 assms(2)
    by (auto simp: vmm_get_phys_def gphys_def Let_def entry_table_def l tab_singletons pt_next_def)
qed

lemma tab_frame:
  assumes "\<And>Q t i. tpath (Q @ [i]) \<Longrightarrow> tab M root Q = Some t \<Longrightarrow> pt_next M' t i = pt_next M t i"
  shows "tpath Q \<Longrightarrow> tab M' root Q = tab M root Q"
proof (induction Q rule: rev_induct)
  case (snoc i Q)
  then show ?case using assms [of Q i] by (cases "tab M root Q") (auto simp: tab_snoc)
qed simp

lemma tree_ok_tabs:
  assumes "tree_ok p M root" "\<And>Q. tpath Q \<Longrightarrow> tab M' root Q = tab M root Q"
    and "\<And>Q t i. \<lbrakk>tpath Q; length Q \<le> 1; unat i < 512; tab M root Q = Some t\<rbrakk> \<Longrightarrow> M' (t + 8 * i) = M (t + 8 * i)"
  shows "tree_ok p M' root"
  using assms(1) unfolding tree_ok_def by (simp add: assms(2,3) cong: conj_cong)

lemma agree_on_tables:
  assumes "tree_ok p M root"
    and "\<And>Q t i. \<lbrakk>tpath Q; tab M root Q = Some t; unat i < 512\<rbrakk> \<Longrightarrow> M' (t + 8 * i) = M (t + 8 * i)"
  shows "tpath Q \<Longrightarrow> tab M' root Q = tab M root Q" "tree_ok p M' root"
    "gphys M' root v = gphys M root v" "huge_at M' root v = huge_at M root v"
proof -
  show tabs: "tpath Q \<Longrightarrow> tab M' root Q = tab M root Q" for Q
    by (rule tab_frame) (auto simp: pt_next_def assms(2))
  show "tree_ok p M' root" by (rule tree_ok_tabs [OF assms(1) tabs assms(2)])
  have "tab M root [PML4_IDX v, PDPT_IDX v, PD_IDX v] = Some (pg_addr (M (pd + 8 * PD_IDX v)))"
    if "tab M root [PML4_IDX v, PDPT_IDX v] = Some pd" "present (M (pd + 8 * PD_IDX v))"
       "M (pd + 8 * PD_IDX v) AND 0x80 = 0" for pd
    using that by (simp add: tab_singletons pt_next_def)
  then show "gphys M' root v = gphys M root v" "huge_at M' root v = huge_at M root v"
    using assms(2) [of "[PML4_IDX v, PDPT_IDX v]" _ "PD_IDX v"]
      assms(2) [of "[PML4_IDX v, PDPT_IDX v, PD_IDX v]" _ "PT_IDX v"]
    by (auto simp: gphys_def huge_at_def tabs Let_def split: option.splits)
qed

definition vpn :: "u64 \<Rightarrow> u64 \<times> u64 \<times> u64 \<times> u64" where
  "vpn v = (PML4_IDX v, PDPT_IDX v, PD_IDX v, PT_IDX v)"

lemma leaf_store:
  fixes e :: u64
  assumes "tree_ok p M root" "tab M root [PML4_IDX v, PDPT_IDX v, PD_IDX v] = Some pt"
  defines "M' \<equiv> M(pt + 8 * PT_IDX v := e)"
  shows "tpath Q \<Longrightarrow> tab M' root Q = tab M root Q" "tree_ok p M' root"
    "vpn w \<noteq> vpn v \<Longrightarrow> gphys M' root w = gphys M root w"
    "gphys M' root v = (if present e then pg_addr e OR (v AND 0xFFF) else 0)"
    "huge_at M' root w = huge_at M root w"
proof -
  let ?P = "[PML4_IDX v, PDPT_IDX v, PD_IDX v]"
  have apt: "aligned pt" using tree_okD(3) [OF assms(1) _ assms(2)] by simp
  have same: "M' (t + 8 * i) = M (t + 8 * i)"
    if "tpath Q" "tab M root Q = Some t" "unat i < 512" "Q \<noteq> ?P \<or> i \<noteq> PT_IDX v" for Q t i
  proof -
    have "aligned t" using tree_okD(3) [OF assms(1) that(1,2)] .
    moreover have "t \<noteq> pt \<or> i \<noteq> PT_IDX v"
      using tree_okD(2) [OF assms(1) that(1) _ that(2), of ?P] assms(2) that(4) by auto
    ultimately show ?thesis using slot_eq_iff [OF _ apt that(3), of t "PT_IDX v"] by (auto simp: M'_def)
  qed
  have same2: "M' (t + 8 * i) = M (t + 8 * i)"
    if "tpath Q" "tab M root Q = Some t" "unat i < 512" "length Q \<le> 2" for Q t i
    by (rule same [OF that(1-3)]) (use that(4) in auto)
  show tabs: "tpath Q \<Longrightarrow> tab M' root Q = tab M root Q" for Q
    by (rule tab_frame) (auto simp: pt_next_def same2)
  show "tree_ok p M' root" by (rule tree_ok_tabs [OF assms(1) tabs]) (auto intro: same2)
  have pde: "M' (pd + 8 * PD_IDX w) = M (pd + 8 * PD_IDX w)"
    if "tab M root [PML4_IDX w, PDPT_IDX w] = Some pd" for w pd
    using same2 [OF _ that] by simp
  show "huge_at M' root w = huge_at M root w"
    using pde by (auto simp: huge_at_def tabs)
  have pt3: "tab M root [PML4_IDX w, PDPT_IDX w, PD_IDX w] = Some (pg_addr (M (pd + 8 * PD_IDX w)))"
    if "tab M root [PML4_IDX w, PDPT_IDX w] = Some pd" "present (M (pd + 8 * PD_IDX w))"
       "M (pd + 8 * PD_IDX w) AND 0x80 = 0" for pd w
    using that by (simp add: tab_singletons pt_next_def)
  show "gphys M' root w = gphys M root w" if "vpn w \<noteq> vpn v"
  proof -
    have "M' (t + 8 * PT_IDX w) = M (t + 8 * PT_IDX w)"
      if "tab M root [PML4_IDX w, PDPT_IDX w, PD_IDX w] = Some t" for t
      using same [OF _ that, of "PT_IDX w"] \<open>vpn w \<noteq> vpn v\<close> by (auto simp: vpn_def)
    then show ?thesis using pt3 [of w] pde [of w] by (auto simp: gphys_def tabs Let_def split: option.splits)
  qed
  obtain pd where pd: "tab M root [PML4_IDX v, PDPT_IDX v] = Some pd" "present (M (pd + 8 * PD_IDX v))"
      "M (pd + 8 * PD_IDX v) AND 0x80 = 0" "pg_addr (M (pd + 8 * PD_IDX v)) = pt"
    using assms(2) unfolding tab_singletons(3)
    by (auto simp: pt_next_def Let_def bind_eq_Some_conv split: if_splits)
  then show "gphys M' root v = (if present e then pg_addr e OR (v AND 0xFFF) else 0)"
    using pde [OF pd(1)] by (simp add: gphys_def tabs Let_def) (simp add: M'_def)
qed

text \<open>Linking a fresh, cleared table below an existing one.\<close>

lemma link_table:
  fixes n :: u64
  assumes ok: "tree_ok p M root" and P: "tpath P" "length P \<le> 2" "tab M root P = Some t"
    and i: "unat i < 512" "\<not> present (M (t + 8 * i))"
    and n: "aligned n" "wpage n < unat (nframes p)" "\<not> fused p (wpage n)"
  defines "M' \<equiv> (\<lambda>x. if wpage x = wpage n then 0 else M x)(t + 8 * i := n OR 1 OR 2 OR 4)"
    and "p' \<equiv> reserve p (wpage n) 1"
  shows "tpath Q \<Longrightarrow> tab M' root Q = (if Q = P @ [i] then Some n else tab M root Q)"
    and "tree_ok p' M' root" "gphys M' root v = gphys M root v" "huge_at M' root v = huge_at M root v"
proof -
  note L = link_entry [OF n(1)]
  have at: "aligned t" by (rule tree_okD(3) [OF ok P(1,3)])
  have nt: "u \<noteq> n" if "tpath Q" "tab M root Q = Some u" for Q u
    using tree_okD(4) [OF ok that] n(3) by auto
  have ent: "M' (u + 8 * q) = (if Q = P \<and> q = i then n OR 1 OR 2 OR 4 else M (u + 8 * q))"
    if Q: "tpath Q" "tab M root Q = Some u" "unat q < 512" for Q u q
  proof -
    have au: "aligned u" by (rule tree_okD(3) [OF ok Q(1,2)])
    have "wpage (u + 8 * q) \<noteq> wpage n"
      using wpage_slot [OF au Q(3)] aligned_eq [OF au n(1)] nt [OF Q(1,2)] by simp
    moreover have "u = t \<longleftrightarrow> Q = P" using tree_okD(2) [OF ok Q(1) P(1) Q(2)] P(3) Q(2) by auto
    ultimately show ?thesis using slot_eq_iff [OF au at Q(3) i(1)] by (auto simp: M'_def)
  qed
  have zero: "M' (n + 8 * q) = 0" if "unat q < 512" for q
    using slot_eq_iff [OF n(1) at that i(1)] nt [OF P(1,3)] wpage_slot [OF n(1) that] by (auto simp: M'_def)
  have none: "tab M root (P @ [i]) = None" using P(3) i(2) by (simp add: tab_snoc pt_next_def)
  show tabs: "tpath Q \<Longrightarrow> tab M' root Q = (if Q = P @ [i] then Some n else tab M root Q)" for Q
  proof (induction Q rule: rev_induct)
    case (snoc q Q)
    then have IH: "tab M' root Q = (if Q = P @ [i] then Some n else tab M root Q)" and q: "unat q < 512"
      and tQ: "tpath Q" by auto
    show ?case
    proof (cases "Q = P @ [i]")
      case True
      then have "tab M' root (Q @ [q]) = None" "tab M root (Q @ [q]) = None"
        unfolding tab_snoc IH using zero [OF q] none by (simp_all add: pt_next_def present_def)
      then show ?thesis using True by auto
    next
      case False
      show ?thesis
      proof (cases "tab M root Q")
        case None
        then show ?thesis using IH False P(3) by (auto simp: tab_snoc)
      next
        case (Some u)
        then have "tab M' root (Q @ [q]) = pt_next M' u q" using IH False by (simp add: tab_snoc)
        moreover have "pt_next M' u q = (if Q = P \<and> q = i then Some n else pt_next M u q)"
          unfolding pt_next_def ent [OF tQ Some q] using L by simp
        ultimately show ?thesis using Some by (auto simp: tab_snoc)
      qed
    qed
  qed simp
  have pok: "pm_ok p" by (rule tree_okD(1) [OF ok])
  have run: "run_free p (wpage n) 1" using n(2,3) by (simp add: run_free_def)
  have p': "pm_ok p'" "nframes p' = nframes p" "\<And>g. fused p' g \<longleftrightarrow> fused p g \<or> g = wpage n"
    using reserve_free [OF pok run] same_geom_reserve [of p "wpage n" 1] fused_reserve [of p "wpage n" 1] pok n(2)
    by (auto simp: p'_def same_geom_def pm_ok_def)
  have tnew: "tab M' root Q = Some u \<longleftrightarrow> Q = P @ [i] \<and> u = n \<or> tab M root Q = Some u" if "tpath Q" for Q u
    using tabs [OF that] none by auto
  show "tree_ok p' M' root"
    unfolding tree_ok_def
  proof (intro conjI allI impI)
    show "pm_ok p'" by (rule p')
    fix Q R u assume "tpath Q" "tpath R" "tab M' root Q = Some u" "tab M' root R = Some u"
    then show "Q = R" using tnew nt tree_okD(2) [OF ok] by metis
  next
    fix Q u assume Q: "tpath Q" "tab M' root Q = Some u"
    then have "u = n \<or> tab M root Q = Some u" using tnew by blast
    moreover have "0 < wpage n" using n(3) pok by (auto simp: pm_ok_def intro: gr0I)
    ultimately show "aligned u" "0 < wpage u" "fused p' (wpage u)" "wpage u < unat (nframes p')"
      using n(1,2) tree_okD(3-5,7) [OF ok Q(1), of u] p' by auto
  next
    fix Q u q
    assume Q: "tpath Q" "length Q \<le> 1" "unat q < 512" "tab M' root Q = Some u" "present (M' (u + 8 * q))"
    consider "u = n" | "tab M root Q = Some u" using tnew [OF Q(1)] Q(4) by blast
    then show "M' (u + 8 * q) AND 0x80 = 0"
    proof cases
      case 1
      then show ?thesis using zero [OF Q(3)] by simp
    next
      case 2
      then show ?thesis using ent [OF Q(1) 2 Q(3)] L(2) tree_okD(6) [OF ok Q(1-3) 2] Q(5) by (auto split: if_splits)
    qed
  qed
  let ?Q = "[PML4_IDX v, PDPT_IDX v]"
  have pde: "M' (pd + 8 * PD_IDX v) = (if ?Q = P \<and> PD_IDX v = i then n OR 1 OR 2 OR 4 else M (pd + 8 * PD_IDX v))"
    if "tab M root ?Q = Some pd" for pd
    using ent [OF _ that, of "PD_IDX v"] by simp
  have pte: "M' (pt + 8 * PT_IDX v) = M (pt + 8 * PT_IDX v)"
    if "tab M root [PML4_IDX v, PDPT_IDX v, PD_IDX v] = Some pt" for pt
    using ent [OF _ that, of "PT_IDX v"] P(2) by auto
  have pt3: "tab M root [PML4_IDX v, PDPT_IDX v, PD_IDX v] = Some (pg_addr (M (pd + 8 * PD_IDX v)))"
    if "tab M root ?Q = Some pd" "present (M (pd + 8 * PD_IDX v))" "M (pd + 8 * PD_IDX v) AND 0x80 = 0" for pd
    using that by (simp add: tab_singletons pt_next_def)
  show "gphys M' root v = gphys M root v" "huge_at M' root v = huge_at M root v"
  proof -
    consider (new) "?Q = P @ [i]" | (no) "tab M root ?Q = None" "?Q \<noteq> P @ [i]"
      | (old) pd where "tab M root ?Q = Some pd" "?Q \<noteq> P @ [i]" by fastforce
    then have "gphys M' root v = gphys M root v \<and> huge_at M' root v = huge_at M root v"
    proof cases
      case new
      have "tab M' root ?Q = Some n" using tabs [OF tpath_idx(3) [of v]] unfolding new by simp
      moreover have "tab M root ?Q = None" unfolding new by (rule none)
      ultimately show ?thesis
        using zero [of "PD_IDX v"] by (simp add: gphys_def huge_at_def present_def)
    next
      case no
      have "tab M' root ?Q = None" unfolding tabs [OF tpath_idx(3) [of v]] using no by auto
      then show ?thesis using no(1) by (simp add: gphys_def huge_at_def)
    next
      case (old pd)
      have t': "tab M' root ?Q = Some pd" unfolding tabs [OF tpath_idx(3) [of v]] using old by auto
      show ?thesis
      proof (cases "?Q = P \<and> PD_IDX v = i")
        case True
        then have "pd = t" using P(3) old(1) by auto
        then have "\<not> present (M (pd + 8 * PD_IDX v))" using i(2) True by simp
        moreover have "M' (pd + 8 * PD_IDX v) = n OR 1 OR 2 OR 4" using pde [OF old(1)] True by simp
        ultimately show ?thesis
          using t' old(1) L zero [of "PT_IDX v"] by (simp add: gphys_def huge_at_def Let_def) (simp add: present_def)
      next
        case False
        then have "M' (pd + 8 * PD_IDX v) = M (pd + 8 * PD_IDX v)" using pde [OF old(1)] by auto
        then show ?thesis
          using t' old(1) pt3 [OF old(1)] pte by (auto simp: gphys_def huge_at_def Let_def)
      qed
    qed
    then show "gphys M' root v = gphys M root v" "huge_at M' root v = huge_at M root v" by simp_all
  qed
qed

section \<open>Mapping a page\<close>

definition hh_ok :: "vmm_state \<Rightarrow> bool" where
  "hh_ok st \<longleftrightarrow> 0 < unat (hhdm_offset st) \<and> unat (hhdm_offset st) \<le> 18446744069414584320"

lemma falloc_one:
  assumes "pm_ok p" "pm_free p \<noteq> {}"
  obtains n where "pmm_falloc p 1 = (reserve p (wpage n) 1, n)" "n \<noteq> 0" "aligned n"
    "wpage n < unat (nframes p)" "\<not> fused p (wpage n)" "wpage n < 1048576"
proof -
  have ok: "pmm_inv p" "nframes p \<le> 1048576" "fused p 0" using assms(1) by (auto simp: pm_ok_def)
  have c: "(0::nat) < 1" "(1::nat) \<le> 2147483648" by simp_all
  obtain g where g: "g \<in> pm_free p" using assms(2) by blast
  then have r: "run_free p g 1" by (simp add: pm_free_def run_free_def Suc_le_eq)
  show ?thesis
    using ok(1,2) c
  proof (cases rule: pm_falloc_cases)
    case none
    then show ?thesis using r by blast
  next
    case (some f)
    then have f: "\<not> fused p f" "f < unat (nframes p)" by (auto simp: run_free_def)
    let ?n = "of_nat (4096 * f) :: u64"
    have u: "unat ?n = 4096 * f" by (rule some(2))
    then have w: "wpage ?n = f" "aligned ?n" unfolding wpage_def aligned_def u by simp_all
    have "f \<noteq> 0" using f(1) ok(3) by (cases f) auto
    then have "unat ?n \<noteq> 0" unfolding u by simp
    then have "?n \<noteq> 0" by (metis unat_0)
    then show ?thesis using that [of ?n] some(1) w f small_nframes [OF ok(2)] by simp
  qed
qed

lemma hh_nonzero:
  assumes "hh_ok st" "aligned t" "wpage t < 1048576"
  shows "hhdm_offset st + t \<noteq> 0"
proof -
  have "unat (hhdm_offset st + t) = unat (hhdm_offset st) + unat t"
    by (rule unat_plus_no_wrap) (use assms aligned_unat [OF assms(2)] in \<open>simp add: hh_ok_def\<close>)
  then show ?thesis using assms(1) unfolding hh_ok_def by auto
qed

lemma tree_page_small:
  assumes "tree_ok p M root" "tpath Q" "tab M root Q = Some t"
  shows "wpage t < 1048576"
  using tree_okD(1,5) [OF assms(1)] assms(2,3) small_nframes [of p] by (fastforce simp: pm_ok_def)

text \<open>Another address space: its root is in use and is no table of this tree.\<close>

definition other_root :: "pmm_state \<Rightarrow> (u64 \<Rightarrow> u64) \<Rightarrow> u64 \<Rightarrow> u64 \<Rightarrow> bool" where
  "other_root p M root kp \<longleftrightarrow> aligned kp \<and> fused p (wpage kp) \<and> (\<forall>Q. tpath Q \<longrightarrow> tab M root Q \<noteq> Some kp)"

text \<open>One step of the construction of a path: tables are added, none is lost, no translation changes.\<close>

definition grows :: "u64 \<Rightarrow> vmm_state \<Rightarrow> vmm_state \<Rightarrow> bool" where
  "grows root st st' \<longleftrightarrow> tree_ok (pmms st') (pmem st') root \<and>
     (\<forall>v. gphys (pmem st') root v = gphys (pmem st) root v) \<and>
     (\<forall>v. huge_at (pmem st') root v = huge_at (pmem st) root v) \<and>
     (\<forall>Q t. tpath Q \<longrightarrow> tab (pmem st) root Q = Some t \<longrightarrow> tab (pmem st') root Q = Some t) \<and>
     (\<forall>kp. other_root (pmms st) (pmem st) root kp \<longrightarrow> other_root (pmms st') (pmem st') root kp) \<and>
     hhdm_offset st' = hhdm_offset st \<and> pml4 st' = pml4 st \<and>
     card (pm_free (pmms st)) \<le> Suc (card (pm_free (pmms st')))"

lemma get_table_grows:
  assumes ok: "tree_ok (pmms st) (pmem st) root" and hh: "hh_ok st"
    and P: "tpath P" "length P \<le> 2" "tab (pmem st) root P = Some t" and i: "unat i < 512"
    and nh: "present (pmem st (t + 8 * i)) \<Longrightarrow> pmem st (t + 8 * i) AND 0x80 = 0"
    and free: "pm_free (pmms st) \<noteq> {}"
  shows "\<exists>st' n. get_table st (hhdm_offset st + t) i = Some (st', hhdm_offset st + n) \<and>
    tab (pmem st') root (P @ [i]) = Some n \<and> grows root st st'"
proof (cases "present (pmem st (t + 8 * i))")
  case True
  then have "get_table st (hhdm_offset st + t) i = Some (st, hhdm_offset st + pg_addr (pmem st (t + 8 * i)))"
    by (simp add: get_table_def ld_def Let_def entry_table_def)
  moreover have "tab (pmem st) root (P @ [i]) = Some (pg_addr (pmem st (t + 8 * i)))"
    using P(3) True nh by (simp add: tab_snoc pt_next_def)
  ultimately show ?thesis using ok by (auto simp: grows_def)
next
  case False
  have pok: "pm_ok (pmms st)" by (rule tree_okD(1) [OF ok])
  obtain n where n: "pmm_falloc (pmms st) 1 = (reserve (pmms st) (wpage n) 1, n)" "n \<noteq> 0" "aligned n"
      "wpage n < unat (nframes (pmms st))" "\<not> fused (pmms st) (wpage n)" "wpage n < 1048576"
    using falloc_one [OF pok free] by blast
  define M' where "M' = (\<lambda>x. if wpage x = wpage n then 0 else pmem st x)(t + 8 * i := n OR 1 OR 2 OR 4)"
  define st' where "st' = st\<lparr>pmms := reserve (pmms st) (wpage n) 1, pmem := M'\<rparr>"
  have z: "(\<lambda>x. if n \<le> x \<and> x < n + 4096 then 0 else pmem st x) = (\<lambda>x. if wpage x = wpage n then 0 else pmem st x)"
    using in_page_iff [OF n(3)] n(6) by auto
  have "hhdm_offset st + n \<noteq> 0" by (rule hh_nonzero [OF hh n(3,6)])
  then have g: "get_table st (hhdm_offset st + t) i = Some (st', hhdm_offset st + n)"
    using False n(1,2) z
    by (simp add: get_table_def ld_def Let_def alloctblpg_def sto_def st'_def M'_def)
  note L = link_table [OF ok P i False n(3-5), folded M'_def]
  have "tab M' root (P @ [i]) = Some n" using L(1) [of "P @ [i]"] P i by simp
  moreover have "grows root st st'"
    unfolding grows_def
  proof (intro conjI allI impI)
    show "tree_ok (pmms st') (pmem st') root" using L(2) by (simp add: st'_def)
    show "gphys (pmem st') root v = gphys (pmem st) root v"
      "huge_at (pmem st') root v = huge_at (pmem st) root v" for v
      using L(3,4) by (simp_all add: st'_def)
    have none: "tab (pmem st) root (P @ [i]) = None" using P(3) False by (simp add: tab_snoc pt_next_def)
    show "tab (pmem st') root Q = Some u" if "tpath Q" "tab (pmem st) root Q = Some u" for Q u
      using L(1) [OF that(1)] that(2) none by (auto simp: st'_def)
    have run: "run_free (pmms st) (wpage n) 1" using n(4,5) by (simp add: run_free_def)
    show "other_root (pmms st') (pmem st') root kp" if "other_root (pmms st) (pmem st) root kp" for kp
      using that L(1) fused_reserve [of "pmms st" "wpage n" 1] pok n(4,5)
      by (auto simp: other_root_def st'_def pm_ok_def)
    have "pm_free (pmms st') = pm_free (pmms st) - {wpage n}"
      using reserve_free [OF pok run] by (auto simp: st'_def)
    then show "card (pm_free (pmms st)) \<le> Suc (card (pm_free (pmms st')))"
      using card_minus_one [of "pm_free (pmms st)" "wpage n"] by simp
  qed (simp_all add: st'_def)
  ultimately show ?thesis using g by (auto simp: st'_def)
qed

definition kernel_root_ok :: "u64 \<Rightarrow> vmm_state \<Rightarrow> bool" where
  "kernel_root_ok root st \<longleftrightarrow> pml4 st = 0 \<or> pml4 st = hhdm_offset st + root \<or>
     other_root (pmms st) (pmem st) root (pml4 st - hhdm_offset st)"

lemma grows_kernel_root: "grows root st st' \<Longrightarrow> kernel_root_ok root st \<Longrightarrow> kernel_root_ok root st'"
  by (auto simp: kernel_root_ok_def grows_def)

lemma mirror_grows:
  assumes "tree_ok (pmms st) (pmem st) root" "kernel_root_ok root st" "unat idx < 512"
  shows "grows root st (mirror_pml4 (hhdm_offset st + root) idx st)"
    "pmms (mirror_pml4 (hhdm_offset st + root) idx st) = pmms st"
proof -
  let ?st' = "mirror_pml4 (hhdm_offset st + root) idx st"
  show p: "pmms ?st' = pmms st" by (simp add: mirror_pml4_def sto_def)
  have same: "pmem ?st' (t + 8 * i) = pmem st (t + 8 * i)"
    if "tpath Q" "tab (pmem st) root Q = Some t" "unat i < 512" for Q t i
  proof (cases "pml4 st \<noteq> 0 \<and> pml4 st \<noteq> hhdm_offset st + root \<and> 256 \<le> idx")
    case True
    let ?kp = "pml4 st - hhdm_offset st"
    have k: "aligned ?kp" "t \<noteq> ?kp"
      using assms(2) True that by (auto simp: kernel_root_ok_def other_root_def)
    have "t + 8 * i \<noteq> ?kp + 8 * idx"
      using slot_eq_iff [OF tree_okD(3) [OF assms(1) that(1,2)] k(1) that(3) assms(3)] k(2) by simp
    then show ?thesis using True by (simp add: mirror_pml4_def sto_def)
  qed (auto simp: mirror_pml4_def)
  have A: "tree_ok (pmms st) (pmem ?st') root" "gphys (pmem ?st') root v = gphys (pmem st) root v"
      "huge_at (pmem ?st') root v = huge_at (pmem st) root v" for v
    by (rule agree_on_tables(2-4) [OF assms(1)]; erule same; assumption)+
  have T: "tab (pmem ?st') root Q = tab (pmem st) root Q" if "tpath Q" for Q
    by (rule agree_on_tables(1) [OF assms(1) _ that]) (rule same)
  have "hhdm_offset ?st' = hhdm_offset st" "pml4 ?st' = pml4 st" by (simp_all add: mirror_pml4_def sto_def)
  then show "grows root st ?st'" using A T p by (simp add: grows_def other_root_def)
qed

lemma growsD:
  assumes "grows root st st'"
  shows "tree_ok (pmms st') (pmem st') root" "gphys (pmem st') root v = gphys (pmem st) root v"
    "huge_at (pmem st') root v = huge_at (pmem st) root v"
    "tpath Q \<Longrightarrow> tab (pmem st) root Q = Some t \<Longrightarrow> tab (pmem st') root Q = Some t"
    "hhdm_offset st' = hhdm_offset st" "card (pm_free (pmms st)) \<le> Suc (card (pm_free (pmms st')))"
  using assms unfolding grows_def by blast+

lemma leaf_entry:
  assumes "unat flg < 4096"
  shows "present (pg_addr ph OR flg OR 1)" "pg_addr (pg_addr ph OR flg OR 1) = pg_addr ph"
proof -
  have hi: "\<not> bit flg k" if "12 \<le> k" for k
  proof -
    have "flg = take_bit 12 flg" using assms
      by (simp add: word_unat_eq_iff take_bit_eq_mod unat_mod_distrib)
    then show ?thesis using that by (metis bit_take_bit_iff not_le)
  qed
  have one: "bit (1 :: u64) k \<longleftrightarrow> k = 0" for k by (simp add: bit_1_iff)
  show "present (pg_addr ph OR flg OR 1)" by (simp add: present_bit bit_or_iff one)
  have m: "NOT 0xFFF = (NOT (mask 12) :: u64)" by (simp add: mask_eq_exp_minus_1)
  show "pg_addr (pg_addr ph OR flg OR 1) = pg_addr ph" unfolding pg_addr_def m
  proof (rule bit_word_eqI)
    fix k assume "k < LENGTH(64)"
    then show "bit ((ph AND NOT (mask 12) OR flg OR 1) AND NOT (mask 12)) k = bit (ph AND NOT (mask 12)) k"
      unfolding bit_and_iff bit_or_iff bit_not_iff bit_mask_iff one
      using hi [of k] by (auto simp: possible_bit_def)
  qed
qed

lemma map_page_path:
  assumes ok: "tree_ok (pmms st) (pmem st) root" and hh: "hh_ok st"
    and free: "3 \<le> card (pm_free (pmms st))" and nh: "\<not> huge_at (pmem st) root virt"
    and kr: "kernel_root_ok root st"
  shows "\<exists>st3 pt. tree_ok (pmms st3) (pmem st3) root \<and>
    (\<forall>v. gphys (pmem st3) root v = gphys (pmem st) root v) \<and> hhdm_offset st3 = hhdm_offset st \<and>
    (\<forall>v. huge_at (pmem st3) root v = huge_at (pmem st) root v) \<and>
    tab (pmem st3) root [PML4_IDX virt, PDPT_IDX virt, PD_IDX virt] = Some pt \<and>
    vmm_map_page st (hhdm_offset st + root) virt phys flg =
      Some (sto (hhdm_offset st + pt) (PT_IDX virt) (pg_addr phys OR flg OR 1) st3)"
proof -
  have root: "hhdm_offset st + root \<noteq> 0"
    by (rule hh_nonzero [OF hh]) (use tree_okD(3) [OF ok, of "[]"] tree_page_small [OF ok, of "[]"] in simp_all)
  have ne: "pm_free p \<noteq> {}" if "0 < card (pm_free p)" for p using that by auto
  obtain st1 n1 where g1: "get_table st (hhdm_offset st + root) (PML4_IDX virt) = Some (st1, hhdm_offset st + n1)"
      "tab (pmem st1) root [PML4_IDX virt] = Some n1" "grows root st st1"
    using get_table_grows [OF ok hh, of "[]" root "PML4_IDX virt"] tree_okD(6) [OF ok, of "[]"] free ne
    by fastforce
  define s1 where "s1 = (if present (ld st (hhdm_offset st + root) (PML4_IDX virt)) then st1
    else mirror_pml4 (hhdm_offset st + root) (PML4_IDX virt) st1)"
  note G1 = growsD [OF g1(3)]
  have m: "grows root st1 s1" "pmms s1 = pmms st1"
  proof -
    have "grows root st1 st1" using G1(1) by (simp add: grows_def)
    then show "grows root st1 s1" "pmms s1 = pmms st1"
      using mirror_grows [OF G1(1) grows_kernel_root [OF g1(3) kr], of "PML4_IDX virt"] G1(5)
      by (auto simp: s1_def)
  qed
  note GM = growsD [OF m(1)]
  have t1: "tab (pmem s1) root [PML4_IDX virt] = Some n1" using GM(4) g1(2) by simp
  have hs1: "hhdm_offset s1 = hhdm_offset st" "hh_ok s1" using GM(5) G1(5) hh by (simp_all add: hh_ok_def)
  have "2 \<le> card (pm_free (pmms s1))" using free G1(6) m(2) by simp
  then obtain st2 n2 where g2: "get_table s1 (hhdm_offset st + n1) (PDPT_IDX virt) = Some (st2, hhdm_offset st + n2)"
      "tab (pmem st2) root [PML4_IDX virt, PDPT_IDX virt] = Some n2" "grows root s1 st2"
    using get_table_grows [OF GM(1) hs1(2), of "[PML4_IDX virt]" n1 "PDPT_IDX virt"] t1
      tree_okD(6) [OF GM(1), of "[PML4_IDX virt]"] hs1(1) ne by fastforce
  note G2 = growsD [OF g2(3)]
  have hs2: "hhdm_offset st2 = hhdm_offset st" "hh_ok st2" using G2(5) hs1 by (simp_all add: hh_ok_def)
  have "1 \<le> card (pm_free (pmms st2))" using \<open>2 \<le> card (pm_free (pmms s1))\<close> G2(6) by simp
  moreover have "\<not> huge_at (pmem st2) root virt" using nh G1(3) GM(3) G2(3) by simp
  then have "present (pmem st2 (n2 + 8 * PD_IDX virt)) \<Longrightarrow> pmem st2 (n2 + 8 * PD_IDX virt) AND 0x80 = 0"
    using g2(2) by (auto simp: huge_at_def)
  ultimately obtain st3 n3 where g3: "get_table st2 (hhdm_offset st + n2) (PD_IDX virt) = Some (st3, hhdm_offset st + n3)"
      "tab (pmem st3) root [PML4_IDX virt, PDPT_IDX virt, PD_IDX virt] = Some n3" "grows root st2 st3"
    using get_table_grows [OF G2(1) hs2(2), of "[PML4_IDX virt, PDPT_IDX virt]" n2 "PD_IDX virt"] g2(2) hs2(1) ne
    by fastforce
  note G3 = growsD [OF g3(3)]
  have "vmm_map_page st (hhdm_offset st + root) virt phys flg =
      Some (sto (hhdm_offset st + n3) (PT_IDX virt) (pg_addr phys OR flg OR 1) st3)"
    unfolding vmm_map_page_def using root g1(1) g2(1) g3(1) by (simp add: Let_def flip: s1_def)
  then show ?thesis using G1 GM G2 G3 g3(2) hs2(1) by auto
qed

lemma map_page_result:
  assumes ok: "tree_ok (pmms st) (pmem st) root" and hh: "hh_ok st"
    and free: "3 \<le> card (pm_free (pmms st))" and nh: "\<not> huge_at (pmem st) root virt"
    and kr: "kernel_root_ok root st" and flg: "unat flg < 4096"
  shows "\<exists>st'. vmm_map_page st (hhdm_offset st + root) virt phys flg = Some st' \<and>
    tree_ok (pmms st') (pmem st') root \<and> hhdm_offset st' = hhdm_offset st \<and>
    (\<forall>w. huge_at (pmem st') root w = huge_at (pmem st) root w) \<and>
    vmm_get_phys st' (hhdm_offset st + root) virt = pg_addr phys OR (virt AND 0xFFF) \<and>
    (\<forall>w. vpn w \<noteq> vpn virt \<longrightarrow>
       vmm_get_phys st' (hhdm_offset st + root) w = vmm_get_phys st (hhdm_offset st + root) w)"
proof -
  obtain st3 pt where s3: "tree_ok (pmms st3) (pmem st3) root"
      "\<And>v. gphys (pmem st3) root v = gphys (pmem st) root v" "hhdm_offset st3 = hhdm_offset st"
      "\<And>v. huge_at (pmem st3) root v = huge_at (pmem st) root v"
      "tab (pmem st3) root [PML4_IDX virt, PDPT_IDX virt, PD_IDX virt] = Some pt"
      "vmm_map_page st (hhdm_offset st + root) virt phys flg =
        Some (sto (hhdm_offset st + pt) (PT_IDX virt) (pg_addr phys OR flg OR 1) st3)"
    using map_page_path [OF ok hh free nh kr] by blast
  let ?e = "pg_addr phys OR flg OR 1"
  define st' where "st' = sto (hhdm_offset st + pt) (PT_IDX virt) ?e st3"
  have st': "pmem st' = (pmem st3)(pt + 8 * PT_IDX virt := ?e)" "pmms st' = pmms st3"
      "hhdm_offset st' = hhdm_offset st"
    using s3(3) by (simp_all add: st'_def sto_def)
  note S = leaf_store [OF s3(1,5), where e = ?e, folded st'(1)]
  have ok': "tree_ok (pmms st') (pmem st') root" using S(2) by (simp add: st'(2))
  have root: "hhdm_offset st + root \<noteq> 0"
    by (rule hh_nonzero [OF hh]) (use tree_okD(3) [OF ok, of "[]"] tree_page_small [OF ok, of "[]"] in simp_all)
  have g: "vmm_get_phys st (hhdm_offset st + root) w = gphys (pmem st) root w"
      "vmm_get_phys st' (hhdm_offset st + root) w = gphys (pmem st') root w" for w
    using get_phys_gphys [OF ok root] get_phys_gphys [OF ok'] root st'(3) by auto
  show ?thesis
    using s3(2,4,6) ok' S(3-5) leaf_entry [OF flg, of phys] st'(3)
    by (intro exI [of _ st']) (simp add: g flip: st'_def)
qed

section \<open>Unmapping a page\<close>

text \<open>Taking an empty table out of the tree.\<close>

lemma unlink_table:
  assumes ok: "tree_ok p M root" and P: "tpath P" "length P \<le> 2" "tab M root P = Some t"
    and i: "unat i < 512" "tab M root (P @ [i]) = Some n"
    and z0: "\<forall>q. unat q < 512 \<longrightarrow> M (n + 8 * q) = 0"
  defines "M' \<equiv> M(t + 8 * i := 0)"
  shows "tpath Q \<Longrightarrow> tab M' root Q = (if Q = P @ [i] then None else tab M root Q)"
    and "gphys M' root v = gphys M root v"
proof -
  have z: "M (n + 8 * q) = 0" if "unat q < 512" for q using z0 that by blast
  have at: "aligned t" by (rule tree_okD(3) [OF ok P(1,3)])
  have ent: "M' (u + 8 * q) = (if Q = P \<and> q = i then 0 else M (u + 8 * q))"
    if Q: "tpath Q" "tab M root Q = Some u" "unat q < 512" for Q u q
  proof -
    have au: "aligned u" by (rule tree_okD(3) [OF ok Q(1,2)])
    have "u = t \<longleftrightarrow> Q = P" using tree_okD(2) [OF ok Q(1) P(1) Q(2)] P(3) Q(2) by auto
    then show ?thesis using slot_eq_iff [OF au at Q(3) i(1)] by (auto simp: M'_def)
  qed
  have below: "tab M root (P @ [i] @ [q]) = None" if "unat q < 512" for q
    using i(2) z [OF that] tab_snoc [of M root "P @ [i]" q] by (simp add: pt_next_def present_def)
  show tabs: "tpath Q \<Longrightarrow> tab M' root Q = (if Q = P @ [i] then None else tab M root Q)" for Q
  proof (induction Q rule: rev_induct)
    case (snoc q Q)
    then have IH: "tab M' root Q = (if Q = P @ [i] then None else tab M root Q)" and q: "unat q < 512"
      and tQ: "tpath Q" by auto
    show ?case
    proof (cases "Q = P @ [i]")
      case True
      then have "tab M' root (Q @ [q]) = None" "tab M root (Q @ [q]) = None"
        using below [OF q] tab_snoc [of M' root Q q] IH by simp_all
      then show ?thesis by simp
    next
      case False
      show ?thesis
      proof (cases "tab M root Q")
        case None
        then show ?thesis using IH False by (auto simp: tab_snoc)
      next
        case (Some u)
        then have "tab M' root (Q @ [q]) = pt_next M' u q" using IH False by (simp add: tab_snoc)
        moreover have "pt_next M' u q = (if Q = P \<and> q = i then None else pt_next M u q)"
          unfolding pt_next_def ent [OF tQ Some q] by (simp add: present_def)
        ultimately show ?thesis using Some by (auto simp: tab_snoc)
      qed
    qed
  qed simp
  let ?Q = "[PML4_IDX v, PDPT_IDX v]"
  show "gphys M' root v = gphys M root v"
  proof (cases "tab M root ?Q")
    case None
    then have "tab M' root ?Q = None" using tabs [OF tpath_idx(3) [of v]] by auto
    then show ?thesis using None by (simp add: gphys_def)
  next
    case (Some pd)
    note pde = ent [OF tpath_idx(3) Some, of "PD_IDX v", simplified]
    show ?thesis
    proof (cases "?Q = P @ [i]")
      case True
      then have "tab M' root ?Q = None" using tabs [OF tpath_idx(3) [of v]] by (simp only: if_True simp_thms)
      moreover have "pd = n" using i(2) Some unfolding True by simp
      then have "M (pd + 8 * PD_IDX v) = 0" using z [of "PD_IDX v"] by simp
      ultimately show ?thesis using Some by (simp add: gphys_def present_def)
    next
      case False
      then have t': "tab M' root ?Q = Some pd" using tabs [OF tpath_idx(3) [of v]] Some by (simp only: if_False)
      show ?thesis
      proof (cases "?Q = P \<and> PD_IDX v = i")
        case True
        have "tab M root (?Q @ [PD_IDX v]) = Some n" using i(2) True by auto
        then have pde0: "present (M (pd + 8 * PD_IDX v))" "M (pd + 8 * PD_IDX v) AND 0x80 = 0" "pg_addr (M (pd + 8 * PD_IDX v)) = n"
          using Some unfolding tab_snoc by (auto simp: pt_next_def Let_def split: if_splits)
        have "M' (pd + 8 * PD_IDX v) = 0" using pde True by auto
        then show ?thesis
          using t' Some pde0 z [of "PT_IDX v"] by (simp add: gphys_def Let_def) (simp add: present_def)
      next
        case False
        then have "M' (pd + 8 * PD_IDX v) = M (pd + 8 * PD_IDX v)" using pde by auto
        moreover have "M' (pg_addr (M (pd + 8 * PD_IDX v)) + 8 * PT_IDX v) =
            M (pg_addr (M (pd + 8 * PD_IDX v)) + 8 * PT_IDX v)"
          if "present (M (pd + 8 * PD_IDX v))" "M (pd + 8 * PD_IDX v) AND 0x80 = 0"
        proof -
          have "tab M root [PML4_IDX v, PDPT_IDX v, PD_IDX v] = Some (pg_addr (M (pd + 8 * PD_IDX v)))"
            using that Some by (simp add: tab_singletons pt_next_def)
          from ent [OF _ this, of "PT_IDX v"] show ?thesis using P(2) by auto
        qed
        ultimately show ?thesis using t' Some by (auto simp: gphys_def Let_def)
      qed
    qed
  qed
qed

lemma ffree_one:
  assumes "pm_ok p" "aligned a" "0 < wpage a" "wpage a < unat (nframes p)"
  shows "pm_ok (pmm_ffree p a 1)" "nframes (pmm_ffree p a 1) = nframes p"
    "fused (pmm_ffree p a 1) g \<longleftrightarrow> fused p g \<and> g \<noteq> wpage a"
proof -
  have a: "of_nat (4096 * wpage a) = a" using aligned_unat [OF assms(2)] word_of_unat [of a] by simp
  have inv: "pmm_inv p" using assms(1) by (simp add: pm_ok_def)
  have S: "same_geom (pmm_ffree p a 1) p"
      "\<And>g. fused (pmm_ffree p a 1) g \<longleftrightarrow> fused p g \<and> \<not> (wpage a \<le> g \<and> g < wpage a + 1 \<and> g < unat (nframes p))"
    using pmm_ffree_spec [OF inv assms(4), of 1] unfolding a by simp_all
  show n: "nframes (pmm_ffree p a 1) = nframes p" using S(1) by (simp add: same_geom_def)
  show f: "fused (pmm_ffree p a 1) g \<longleftrightarrow> fused p g \<and> g \<noteq> wpage a" for g
    using S(2) [of g] assms(4) by auto
  show "pm_ok (pmm_ffree p a 1)"
    using assms(1,3) same_geom_inv [OF S(1)] n f by (simp add: pm_ok_def)
qed

text \<open>A frame that is no table may be freed without harm to the tree.\<close>

lemma free_other_frame:
  assumes "tree_ok p M root" "aligned a" "0 < wpage a" "wpage a < unat (nframes p)"
    and "\<And>Q. tpath Q \<Longrightarrow> tab M root Q \<noteq> Some a"
  shows "tree_ok (pmm_ffree p a 1) M root"
proof -
  note F = ffree_one [OF tree_okD(1) [OF assms(1)] assms(2-4)]
  have "wpage t \<noteq> wpage a" if "tpath Q" "tab M root Q = Some t" for Q t
    using aligned_eq [OF tree_okD(3) [OF assms(1) that] assms(2)] assms(5) [OF that(1)] that(2) by auto
  then show ?thesis using assms(1) F unfolding tree_ok_def by auto
qed

lemma unlink_tree_ok:
  assumes ok: "tree_ok p M root" and P: "tpath P" "length P \<le> 2" "tab M root P = Some t"
    and i: "unat i < 512" "tab M root (P @ [i]) = Some n"
    and z0: "\<forall>q. unat q < 512 \<longrightarrow> M (n + 8 * q) = 0"
  shows "tree_ok (pmm_ffree p n 1) (M(t + 8 * i := 0)) root"
proof -
  let ?M' = "M(t + 8 * i := 0)"
  note T = unlink_table(1) [OF ok P i z0]
  have at: "aligned t" by (rule tree_okD(3) [OF ok P(1,3)])
  have Pi: "tpath (P @ [i])" using P i by simp
  have old: "tab ?M' root Q = Some u \<Longrightarrow> tab M root Q = Some u \<and> Q \<noteq> P @ [i]" if "tpath Q" for Q u
    using T [OF that] by (auto split: if_splits)
  have "tree_ok p ?M' root"
    unfolding tree_ok_def
  proof (intro conjI allI impI)
    show "pm_ok p" by (rule tree_okD(1) [OF ok])
    fix Q R u assume "tpath Q" "tpath R" "tab ?M' root Q = Some u" "tab ?M' root R = Some u"
    then show "Q = R" using old tree_okD(2) [OF ok] by blast
  next
    fix Q u assume Q: "tpath Q" "tab ?M' root Q = Some u"
    then show "aligned u" "0 < wpage u" "fused p (wpage u)" "wpage u < unat (nframes p)"
      using old [OF Q] tree_okD(3-5,7) [OF ok Q(1)] by blast+
  next
    fix Q u q
    assume Q: "tpath Q" "length Q \<le> 1" "unat q < 512" "tab ?M' root Q = Some u" "present (?M' (u + 8 * q))"
    have u: "tab M root Q = Some u" using old [OF Q(1,4)] by simp
    have "present 0 = False" by (simp add: present_def)
    then have "u + 8 * q \<noteq> t + 8 * i" using Q(5) by auto
    then show "?M' (u + 8 * q) AND 0x80 = 0" using tree_okD(6) [OF ok Q(1-3) u] Q(5) by simp
  qed
  moreover have "tab ?M' root Q \<noteq> Some n" if "tpath Q" for Q
    using old [OF that, of n] tree_okD(2) [OF ok that Pi _ i(2)] by blast
  ultimately show ?thesis
    using free_other_frame [of p ?M' root n] tree_okD(3,5,7) [OF ok Pi i(2)] by blast
qed

lemma table_empty_iff:
  assumes "is_table_empty st (hhdm_offset st + n)" "unat q < 512"
  shows "pmem st (n + 8 * q) = 0"
proof -
  have "q = of_nat (unat q)" by simp
  then have "q \<in> set (tbl_idx 0 512)" using assms(2) unfolding tbl_idx_def by force
  then show ?thesis using assms(1) by (auto simp: is_table_empty_def ld_def list_all_iff)
qed

text \<open>One level of the reclamation at the end of \<^verbatim>\<open>vmm_unmap_page\<close>.\<close>

lemma unlink_step:
  assumes ok: "tree_ok (pmms s) (pmem s) root" and P: "tpath P" "length P \<le> 2" "tab (pmem s) root P = Some t"
    and i: "unat i < 512" "tab (pmem s) root (P @ [i]) = Some n" and e: "is_table_empty s (hhdm_offset s + n)"
  defines "s' \<equiv> sto (hhdm_offset s + t) i 0 (free_frame n s)"
  shows "tree_ok (pmms s') (pmem s') root" "gphys (pmem s') root v = gphys (pmem s) root v"
    "tpath Q \<Longrightarrow> Q \<noteq> P @ [i] \<Longrightarrow> tab (pmem s') root Q = tab (pmem s) root Q" "hhdm_offset s' = hhdm_offset s"
proof -
  have s': "pmem s' = (pmem s)(t + 8 * i := 0)" "pmms s' = pmm_ffree (pmms s) n 1" "hhdm_offset s' = hhdm_offset s"
    by (simp_all add: s'_def sto_def free_frame_def)
  have z: "\<forall>q. unat q < 512 \<longrightarrow> pmem s (n + 8 * q) = 0" using table_empty_iff [OF e] by blast
  show "tree_ok (pmms s') (pmem s') root" unfolding s' by (rule unlink_tree_ok [OF ok P i z])
  show "gphys (pmem s') root v = gphys (pmem s) root v" unfolding s' by (rule unlink_table(2) [OF ok P i z])
  show "tpath Q \<Longrightarrow> Q \<noteq> P @ [i] \<Longrightarrow> tab (pmem s') root Q = tab (pmem s) root Q"
    unfolding s' using unlink_table(1) [OF ok P i z] by simp
  show "hhdm_offset s' = hhdm_offset s" by (rule s')
qed

text \<open>The frame a page maps may be freed: it is a frame of the machine and no table of the tree.\<close>

definition leaf_frame_ok :: "vmm_state \<Rightarrow> u64 \<Rightarrow> u64 \<Rightarrow> bool" where
  "leaf_frame_ok st root virt \<longleftrightarrow>
     (\<forall>pt. tab (pmem st) root [PML4_IDX virt, PDPT_IDX virt, PD_IDX virt] = Some pt \<longrightarrow>
        (let a = pg_addr (pmem st (pt + 8 * PT_IDX virt)) in
         0 < wpage a \<and> wpage a < unat (nframes (pmms st)) \<and> (\<forall>Q. tpath Q \<longrightarrow> tab (pmem st) root Q \<noteq> Some a)))"

lemma reclaim_tables:
  assumes ok: "tree_ok (pmms s) (pmem s) root" and h: "hhdm_offset s = h"
    and T: "tab (pmem s) root [a] = Some pdptp" "tab (pmem s) root [a, b] = Some pdp"
      "tab (pmem s) root [a, b, c] = Some ptp"
    and idx: "unat a < 512" "unat b < 512" "unat c < 512"
  shows "\<exists>s'. (if is_table_empty s (h + ptp) then
        let st3 = sto (h + pdp) c 0 (free_frame ptp s) in
        if is_table_empty st3 (h + pdp) then
          let st4 = sto (h + pdptp) b 0 (free_frame pdp st3) in
          if is_table_empty st4 (h + pdptp) then Some (sto (h + root) a 0 (free_frame pdptp st4))
          else Some st4
        else Some st3
      else Some s) = Some s' \<and> tree_ok (pmms s') (pmem s') root \<and> hhdm_offset s' = h \<and>
      (\<forall>v. gphys (pmem s') root v = gphys (pmem s) root v)"
proof (cases "is_table_empty s (h + ptp)")
  case False
  then show ?thesis using ok h by auto
next
  case e1: True
  define s3 where "s3 = sto (h + pdp) c 0 (free_frame ptp s)"
  have tp: "tpath []" "tpath [a]" "tpath [a, b]" using idx by (simp_all add: tpath_def)
  note U3 = unlink_step [OF ok, of "[a, b]" pdp c ptp, unfolded h, folded s3_def]
  have s3: "tree_ok (pmms s3) (pmem s3) root" "hhdm_offset s3 = h" "\<And>v. gphys (pmem s3) root v = gphys (pmem s) root v"
      "tab (pmem s3) root [a] = Some pdptp" "tab (pmem s3) root [a, b] = Some pdp"
    using U3 T e1 idx tp by simp_all
  show ?thesis
  proof (cases "is_table_empty s3 (h + pdp)")
    case False
    then show ?thesis using e1 s3 by (auto simp: Let_def simp flip: s3_def)
  next
    case e2: True
    define s4 where "s4 = sto (h + pdptp) b 0 (free_frame pdp s3)"
    note U4 = unlink_step [OF s3(1), of "[a]" pdptp b pdp, unfolded s3(2), folded s4_def]
    have s4: "tree_ok (pmms s4) (pmem s4) root" "hhdm_offset s4 = h" "\<And>v. gphys (pmem s4) root v = gphys (pmem s) root v"
        "tab (pmem s4) root [a] = Some pdptp"
      using U4 s3 e2 idx tp by simp_all
    show ?thesis
    proof (cases "is_table_empty s4 (h + pdptp)")
      case False
      then show ?thesis using e1 e2 s4 by (auto simp: Let_def simp flip: s3_def s4_def)
    next
      case e3: True
      note U5 = unlink_step [OF s4(1), of "[]" root a pdptp, unfolded s4(2)]
      show ?thesis
        using U5 s4 e1 e2 e3 idx tp by (simp add: Let_def flip: s3_def s4_def)
    qed
  qed
qed

lemma tab_present:
  assumes "tree_ok p M root" "\<not> huge_at M root v"
    and "present (M (root + 8 * PML4_IDX v))"
    and "present (M (pg_addr (M (root + 8 * PML4_IDX v)) + 8 * PDPT_IDX v))"
    and "present (M (pg_addr (M (pg_addr (M (root + 8 * PML4_IDX v)) + 8 * PDPT_IDX v)) + 8 * PD_IDX v))"
  shows "tab M root [PML4_IDX v] = Some (pg_addr (M (root + 8 * PML4_IDX v)))"
    "tab M root [PML4_IDX v, PDPT_IDX v] =
       Some (pg_addr (M (pg_addr (M (root + 8 * PML4_IDX v)) + 8 * PDPT_IDX v)))"
    "tab M root [PML4_IDX v, PDPT_IDX v, PD_IDX v] = Some (pg_addr
       (M (pg_addr (M (pg_addr (M (root + 8 * PML4_IDX v)) + 8 * PDPT_IDX v)) + 8 * PD_IDX v)))"
proof -
  show 1: "tab M root [PML4_IDX v] = Some (pg_addr (M (root + 8 * PML4_IDX v)))"
    using tree_okD(6) [OF assms(1), of "[]"] assms(3) by (simp add: tab_singletons pt_next_def)
  show 2: "tab M root [PML4_IDX v, PDPT_IDX v] =
      Some (pg_addr (M (pg_addr (M (root + 8 * PML4_IDX v)) + 8 * PDPT_IDX v)))"
    using tree_okD(6) [OF assms(1) _ _ _ 1] assms(4) 1 unfolding tab_singletons(2) by (simp add: pt_next_def)
  show "tab M root [PML4_IDX v, PDPT_IDX v, PD_IDX v] = Some (pg_addr
      (M (pg_addr (M (pg_addr (M (root + 8 * PML4_IDX v)) + 8 * PDPT_IDX v)) + 8 * PD_IDX v)))"
    using assms(2,5) 2 unfolding tab_singletons(3) by (auto simp: pt_next_def huge_at_def)
qed

lemma unmap_page_result:
  assumes ok: "tree_ok (pmms st) (pmem st) root" and hh: "hh_ok st" and nh: "\<not> huge_at (pmem st) root virt"
    and lf: "flags AND 1 = 1 \<or> leaf_frame_ok st root virt"
  shows "\<exists>st'. vmm_unmap_page st (hhdm_offset st + root) virt flags = Some st' \<and>
    tree_ok (pmms st') (pmem st') root \<and>
    vmm_get_phys st' (hhdm_offset st + root) virt = 0 \<and>
    (\<forall>w. vpn w \<noteq> vpn virt \<longrightarrow>
       vmm_get_phys st' (hhdm_offset st + root) w = vmm_get_phys st (hhdm_offset st + root) w)"
proof -
  let ?h = "hhdm_offset st" and ?M = "pmem st"
  have root: "?h + root \<noteq> 0"
    by (rule hh_nonzero [OF hh]) (use tree_okD(3) [OF ok, of "[]"] tree_page_small [OF ok, of "[]"] in simp_all)
  have g: "vmm_get_phys st (?h + root) w = gphys ?M root w" for w using get_phys_gphys [OF ok root] .
  let ?e4 = "?M (root + 8 * PML4_IDX virt)"
  let ?e3 = "?M (pg_addr ?e4 + 8 * PDPT_IDX virt)"
  let ?e2 = "?M (pg_addr ?e3 + 8 * PD_IDX virt)"
  let ?pt = "pg_addr ?e2"
  have l: "ld s (hhdm_offset s + t) i = pmem s (t + 8 * i)" for s t i by (simp add: ld_def)
  show ?thesis
  proof (cases "present ?e4 \<and> present ?e3 \<and> present ?e2")
    case False
    then have "vmm_unmap_page st (?h + root) virt flags = Some st"
      using root by (auto simp: vmm_unmap_page_def Let_def l)
    moreover have "vmm_get_phys st (?h + root) virt = 0"
      using False root by (auto simp: vmm_get_phys_def Let_def l entry_table_def)
    ultimately show ?thesis using ok by auto
  next
    case True
    note T = tab_present [OF ok nh] 
    have t: "tab ?M root [PML4_IDX virt] = Some (pg_addr ?e4)"
        "tab ?M root [PML4_IDX virt, PDPT_IDX virt] = Some (pg_addr ?e3)"
        "tab ?M root [PML4_IDX virt, PDPT_IDX virt, PD_IDX virt] = Some ?pt"
      using T True by blast+
    define pframe where "pframe = pg_addr (?M (?pt + 8 * PT_IDX virt))"
    define st1 where "st1 = sto (?h + ?pt) (PT_IDX virt) 0 st"
    define st2 where "st2 = (if flags AND 1 \<noteq> 1 then free_frame pframe st1 else st1)"
    have s1: "pmem st1 = ?M(?pt + 8 * PT_IDX virt := 0)" "pmms st1 = pmms st" "hhdm_offset st1 = ?h"
      by (simp_all add: st1_def sto_def)
    note S = leaf_store [OF ok t(3), where e = 0, folded s1(1)]
    have s2: "pmem st2 = pmem st1" "hhdm_offset st2 = ?h" by (simp_all add: st2_def free_frame_def s1)
    have ok2: "tree_ok (pmms st2) (pmem st2) root"
    proof (cases "flags AND 1 = 1")
      case True
      then show ?thesis using S(2) s1(2) by (simp add: st2_def)
    next
      case False
      then have f: "0 < wpage pframe" "wpage pframe < unat (nframes (pmms st))"
          "\<And>Q. tpath Q \<Longrightarrow> tab ?M root Q \<noteq> Some pframe"
        using lf t(3) by (auto simp: leaf_frame_ok_def Let_def pframe_def)
      have "tree_ok (pmm_ffree (pmms st) pframe 1) (pmem st1) root"
        by (rule free_other_frame [OF S(2)]) (use f S(1) in \<open>simp_all add: pframe_def\<close>)
      then show ?thesis using False s1(2) by (simp add: st2_def free_frame_def)
    qed
    have t2: "tab (pmem st2) root [PML4_IDX virt] = Some (pg_addr ?e4)"
        "tab (pmem st2) root [PML4_IDX virt, PDPT_IDX virt] = Some (pg_addr ?e3)"
        "tab (pmem st2) root [PML4_IDX virt, PDPT_IDX virt, PD_IDX virt] = Some ?pt"
      using t S(1) s2(1) by simp_all
    obtain st' where st': "vmm_unmap_page st (?h + root) virt flags = Some st'"
        "tree_ok (pmms st') (pmem st') root" "hhdm_offset st' = ?h"
        "\<And>v. gphys (pmem st') root v = gphys (pmem st2) root v"
    proof -
      have U: "vmm_unmap_page st (?h + root) virt flags =
         (if 256 \<le> PML4_IDX virt then Some st2 else
          if is_table_empty st2 (?h + ?pt) then
            let st3 = sto (?h + pg_addr ?e3) (PD_IDX virt) 0 (free_frame ?pt st2) in
            if is_table_empty st3 (?h + pg_addr ?e3) then
              let st4 = sto (?h + pg_addr ?e4) (PDPT_IDX virt) 0 (free_frame (pg_addr ?e3) st3) in
              if is_table_empty st4 (?h + pg_addr ?e4)
              then Some (sto (?h + root) (PML4_IDX virt) 0 (free_frame (pg_addr ?e4) st4))
              else Some st4
            else Some st3
          else Some st2)"
        using True root unfolding vmm_unmap_page_def Let_def
        by (simp add: l st2_def st1_def pframe_def)
      show ?thesis
      proof (cases "256 \<le> PML4_IDX virt")
        case True
        then show ?thesis using that [of st2] ok2 s2(2) U by simp
      next
        case False
        from reclaim_tables [OF ok2 s2(2) t2 table_idx_less(1-3)]
        show ?thesis using that U False by (simp only: if_False) blast
      qed
    qed
    have g': "vmm_get_phys st' (?h + root) w = gphys (pmem st') root w" for w
      using get_phys_gphys [OF st'(2)] root st'(3) by simp
    show ?thesis
      using st'(1,2,4) S(3,4) by (auto simp: g g' s2(1) present_def)
  qed
qed

section \<open>Properties\<close>

text \<open>A machine of 16 frames with one empty address space whose root is frame 1.\<close>

definition pt_demo :: vmm_state where
  "pt_demo = \<lparr>hhdm_offset = HHDM_START, lhhdm_off = HHDM_START, pml4 = HHDM_START + 4096, cr3 = 4096,
     pmem = (\<lambda>_. 0), pmms = pm_demo, vregs = init_regions vmm_boot\<rparr>"

lemma tab_zero: "tab (\<lambda>_. 0) root (i # Q) = None"
proof -
  have "foldl (\<lambda>r i. Option.bind r (\<lambda>t. pt_next (\<lambda>_. 0) t i)) None Q = None" by (induction Q) auto
  then show ?thesis by (simp add: tab_def pt_next_def present_def)
qed

lemma pt_demo_tree: "tree_ok (pmms pt_demo) (pmem pt_demo) 4096"
proof -
  have T: "tab (\<lambda>_. 0) 4096 Q = Some t \<longleftrightarrow> Q = [] \<and> t = 4096" for Q t
    using tab_zero by (cases Q) auto
  have "aligned 4096" "wpage 4096 = 1" by (simp_all add: aligned_def wpage_def)
  moreover have "fused pm_demo 1" "unat (nframes pm_demo) = 16" by (simp_all add: pm_demo_def fused_def)
  ultimately show ?thesis
    using pm_demo_inv by (simp add: T tree_ok_def pt_demo_def pm_ok_def present_def)
qed

lemma pt_demo_free: "3 \<le> card (pm_free (pmms pt_demo))"
proof -
  have "{2, 3, 4} \<subseteq> pm_free pm_demo" by (auto simp: pm_free_def pm_demo_def fused_def)
  moreover have "finite (pm_free pm_demo)" by (simp add: pm_free_def)
  ultimately have "card {2, 3, 4 :: nat} \<le> card (pm_free pm_demo)" by (rule card_mono [rotated])
  then show ?thesis by (simp add: pt_demo_def)
qed

lemma pt_demo_misc:
  "hh_ok pt_demo" "kernel_root_ok 4096 pt_demo" "\<not> huge_at (pmem pt_demo) 4096 v"
  "hhdm_offset pt_demo = HHDM_START"
  by (simp_all add: pt_demo_def hh_ok_def kernel_root_ok_def huge_at_def tab_zero)

text \<open>
  C8. On a well-formed table tree with three free frames, \<^verbatim>\<open>vmm_map_page\<close> succeeds; afterwards
  \<^verbatim>\<open>vmm_get_phys\<close> of the page gives the mapped frame with the offset of the address, the
  translation of every other page is what it was, and the tree is well formed again.
\<close>

theorem vmm_map_page_correct:
  assumes "tree_ok (pmms st) (pmem st) root" "hh_ok st" "3 \<le> card (pm_free (pmms st))"
    and "\<not> huge_at (pmem st) root virt" "kernel_root_ok root st" "unat flg < 4096"
  shows "\<exists>st'. vmm_map_page st (hhdm_offset st + root) virt phys flg = Some st' \<and>
    tree_ok (pmms st') (pmem st') root \<and>
    vmm_get_phys st' (hhdm_offset st + root) virt = pg_addr phys OR (virt AND 0xFFF) \<and>
    (\<forall>w. vpn w \<noteq> vpn virt \<longrightarrow>
       vmm_get_phys st' (hhdm_offset st + root) w = vmm_get_phys st (hhdm_offset st + root) w)"
  using map_page_result [OF assms] by blast

theorem vmm_map_page_correct_witness:
  "\<exists>st'. vmm_map_page pt_demo (HHDM_START + 4096) 0x400123 0x5000 3 = Some st' \<and>
    tree_ok (pmms st') (pmem st') 4096 \<and>
    vmm_get_phys st' (HHDM_START + 4096) 0x400123 = pg_addr 0x5000 OR (0x400123 AND 0xFFF) \<and>
    (\<forall>w. vpn w \<noteq> vpn 0x400123 \<longrightarrow>
       vmm_get_phys st' (HHDM_START + 4096) w = vmm_get_phys pt_demo (HHDM_START + 4096) w)"
  using vmm_map_page_correct [OF pt_demo_tree pt_demo_misc(1) pt_demo_free pt_demo_misc(3,2), of 3 "0x400123" "0x5000"]
  by (simp only: pt_demo_misc(4)) simp

text \<open>
  C9. \<^verbatim>\<open>vmm_unmap_page\<close> of a page that is not part of a huge page removes its translation, leaves
  that of every other page unchanged and keeps the tree well formed while it gives the frame
  and the tables that became empty back to the frame allocator.
\<close>

theorem vmm_unmap_page_correct:
  assumes "tree_ok (pmms st) (pmem st) root" "hh_ok st" "\<not> huge_at (pmem st) root virt"
    and "flags AND 1 = 1 \<or> leaf_frame_ok st root virt"
  shows "\<exists>st'. vmm_unmap_page st (hhdm_offset st + root) virt flags = Some st' \<and>
    tree_ok (pmms st') (pmem st') root \<and>
    vmm_get_phys st' (hhdm_offset st + root) virt = 0 \<and>
    (\<forall>w. vpn w \<noteq> vpn virt \<longrightarrow>
       vmm_get_phys st' (hhdm_offset st + root) w = vmm_get_phys st (hhdm_offset st + root) w)"
  by (rule unmap_page_result [OF assms])

theorem vmm_unmap_page_correct_witness:
  "\<exists>st st'. vmm_map_page pt_demo (HHDM_START + 4096) 0x400123 0x5000 3 = Some st \<and>
    vmm_get_phys st (HHDM_START + 4096) 0x400123 = 0x5123 \<and>
    vmm_unmap_page st (HHDM_START + 4096) 0x400123 1 = Some st' \<and>
    vmm_get_phys st' (HHDM_START + 4096) 0x400123 = 0"
proof -
  obtain st where st: "vmm_map_page pt_demo (HHDM_START + 4096) 0x400123 0x5000 3 = Some st"
      "tree_ok (pmms st) (pmem st) 4096" "hhdm_offset st = HHDM_START" "\<not> huge_at (pmem st) 4096 0x400123"
      "vmm_get_phys st (HHDM_START + 4096) 0x400123 = pg_addr 0x5000 OR (0x400123 AND 0xFFF)"
    using map_page_result [OF pt_demo_tree pt_demo_misc(1) pt_demo_free pt_demo_misc(3,2), of 3 "0x400123" "0x5000"]
      pt_demo_misc(3) unfolding pt_demo_misc(4) by auto
  then have "hh_ok st" by (simp add: hh_ok_def)
  from vmm_unmap_page_correct [OF st(2) this st(4), of 1] st(1,3,5) show ?thesis
    by (auto simp: pg_addr_def)
qed

end
