(* ===== verification/Usermem.thy ===== *)
theory Usermem
  imports Vmm_Tree
begin

unbundle bit_operations_syntax

text \<open>
  The checks the system calls make on user pointers, \<^verbatim>\<open>src/usr/ensurance.c\<close>, and the memory
  mapping calls of \<^verbatim>\<open>src/usr/user_mmap.c\<close>.
\<close>

section \<open>Model\<close>

definition okaddr :: "vmm_state \<Rightarrow> u64 \<Rightarrow> u64 \<Rightarrow> bool \<Rightarrow> bool" where
  "okaddr st tbl addr wr =
     (if tbl = 0 then False else
      let pml4e = ld st tbl (PML4_IDX addr) in
      if \<not> present pml4e then False else
      if wr \<and> pml4e AND PAGE_WRITE = 0 then False else
      let pdpte = ld st (hh_table pml4e) (PDPT_IDX addr) in
      if \<not> present pdpte then False else
      if wr \<and> pdpte AND PAGE_WRITE = 0 then False else
      let pde = ld st (hh_table pdpte) (PD_IDX addr) in
      if \<not> present pde then False else
      if wr \<and> pde AND PAGE_WRITE = 0 then False else
      if pde AND PAGE_HUGE \<noteq> 0 then True else
      let pte = ld st (hh_table pde) (PT_IDX addr) in
      if \<not> present pte then False else
      if wr \<and> pte AND PAGE_WRITE = 0 then False else True)"

text \<open>
  The loop of \<^verbatim>\<open>ensure_pointer\<close> runs for \<^verbatim>\<open>i = 0, 0x1000, \<dots>\<close> while \<^verbatim>\<open>i < sz\<close>. Near the top of
  the 64-bit range \<^verbatim>\<open>i\<close> would wrap and the loop would not end, so it is a partial function.
\<close>

partial_function (option) ensure_loop ::
    "(u64 \<Rightarrow> bool) \<Rightarrow> u64 \<Rightarrow> u64 \<Rightarrow> u64 \<Rightarrow> bool option" where
  "ensure_loop ok addr sz i =
     (if i < sz then
        if ok (pg_addr (addr + i)) then ensure_loop ok addr sz (i + 0x1000) else Some False
      else Some True)"

definition ensure_pointer :: "vmm_state \<Rightarrow> u64 \<Rightarrow> u64 \<Rightarrow> bool \<Rightarrow> bool option" where
  "ensure_pointer st uptr sz wr =
     (if uptr = 0 then Some False else
      let cnon = drop_bit 47 uptr in
      if cnon \<noteq> 0 \<and> cnon \<noteq> 0x1FFFF then Some False
      else ensure_loop (\<lambda>pg. okaddr st (vmm_cpml4v st) pg wr) uptr sz 0)"

text \<open>
  \<^verbatim>\<open>ensure_string\<close> reads the bytes of the string as it goes; \<^term>\<open>mem\<close> is the memory of the
  current address space.
\<close>

fun ensure_string_loop :: "nat \<Rightarrow> vmm_state \<Rightarrow> (u64 \<Rightarrow> u8) \<Rightarrow> u64 \<Rightarrow> bool \<Rightarrow> u64 \<Rightarrow> bool option" where
  "ensure_string_loop 0 st mem str wr i = Some False"
| "ensure_string_loop (Suc k) st mem str wr i =
     (case ensure_pointer st (str + i) (i + 1) wr of
        None \<Rightarrow> None
      | Some False \<Rightarrow> Some False
      | Some True \<Rightarrow> if mem (str + i) = 0 then Some True else ensure_string_loop k st mem str wr (i + 1))"

definition ensure_string :: "vmm_state \<Rightarrow> (u64 \<Rightarrow> u8) \<Rightarrow> u64 \<Rightarrow> u64 \<Rightarrow> bool \<Rightarrow> bool option" where
  "ensure_string st mem str maxsz wr = ensure_string_loop (unat maxsz) st mem str wr 0"

definition user_mmap ::
    "nat \<Rightarrow> vmm_state \<Rightarrow> u64 \<Rightarrow> u64 \<Rightarrow> u64 \<Rightarrow> u64 \<Rightarrow> u64 \<Rightarrow> (vmm_state \<times> u64) option" where
  "user_mmap current_pid st uasp reqaddr phys npages flags =
     (if npages = 0 then Some (st, 0)
      else if USER_END \<le> reqaddr then Some (st, 0)
      else vmm_map_pages current_pid st uasp reqaddr phys npages (flags OR MAP_ANYPHYS OR PAGE_USER))"

definition user_munmap :: "vmm_state \<Rightarrow> u64 \<Rightarrow> u64 \<Rightarrow> u64 \<Rightarrow> u64 \<Rightarrow> (vmm_state \<times> int) option" where
  "user_munmap st uasp addr npages flags =
     (if addr = 0 \<or> USER_END \<le> addr then Some (st, - EINVAL)
      else map_option (\<lambda>st'. (st', 0)) (vmm_unmap_pages st uasp addr npages flags))"

definition user_mprotect :: "vmm_state \<Rightarrow> u64 \<Rightarrow> u64 \<Rightarrow> u64 \<Rightarrow> u64 \<Rightarrow> vmm_state \<times> int" where
  "user_mprotect st uasp addr npgs flgs =
     (if addr = 0 \<or> USER_END \<le> addr then (st, - EINVAL)
      else vmm_setflgs st uasp addr npgs (flgs OR PAGE_USER))"

section \<open>The checks do not depend on the user bit\<close>

text \<open>The same tables with every user-accessible mark removed.\<close>

definition kernel_only :: "vmm_state \<Rightarrow> vmm_state" where
  "kernel_only st = st\<lparr>pmem := \<lambda>x. pmem st x AND NOT PAGE_USER\<rparr>"

lemma kernel_only_entry:
  "present (e AND NOT PAGE_USER) = present e" "(e AND NOT PAGE_USER) AND PAGE_WRITE = e AND PAGE_WRITE"
  "(e AND NOT PAGE_USER) AND PAGE_HUGE = e AND PAGE_HUGE" "pg_addr (e AND NOT PAGE_USER) = pg_addr e"
  by (simp_all add: present_def pg_addr_def and.assoc)

lemma okaddr_kernel_only: "okaddr (kernel_only st) tbl addr wr = okaddr st tbl addr wr"
proof -
  have l: "ld (kernel_only st) t i = ld st t i AND NOT PAGE_USER" for t i
    by (simp add: ld_def kernel_only_def)
  have h: "hh_table (e AND NOT PAGE_USER) = hh_table e" for e
    unfolding hh_table_def kernel_only_entry(4) ..
  show ?thesis unfolding okaddr_def Let_def l h kernel_only_entry ..
qed

section \<open>The pages that are checked\<close>

lemma ensure_loop_pages:
  assumes "unat sz \<le> 18446744073709547520" "unat i = 4096 * k"
  shows "ensure_loop ok addr sz i =
    Some (\<forall>j. k \<le> j \<longrightarrow> 4096 * j < unat sz \<longrightarrow> ok (pg_addr (addr + of_nat (4096 * j))))"
  using assms
proof (induction "unat sz - 4096 * k" arbitrary: i k rule: less_induct)
  case less
  have i: "i = of_nat (4096 * k)" using less.prems(2) word_of_unat [of i] by simp
  show ?case
  proof (cases "i < sz")
    case True
    then have lt: "4096 * k < unat sz" using less.prems(2) by (simp add: word_less_nat_alt)
    have i1: "unat (i + 0x1000) = 4096 * Suc k"
    proof -
      have "unat (i + 0x1000) = unat i + unat (0x1000 :: u64)"
        by (rule unat_plus_no_wrap) (use lt less.prems in simp)
      then show ?thesis using less.prems(2) by simp
    qed
    have IH: "ensure_loop ok addr sz (i + 0x1000) =
        Some (\<forall>j. Suc k \<le> j \<longrightarrow> 4096 * j < unat sz \<longrightarrow> ok (pg_addr (addr + of_nat (4096 * j))))"
      by (rule less.hyps [OF _ less.prems(1) i1]) (use lt in simp)
    have split: "(\<forall>j. k \<le> j \<longrightarrow> P j) \<longleftrightarrow> P k \<and> (\<forall>j. Suc k \<le> j \<longrightarrow> P j)" for P
      by (metis Suc_leD le_antisym not_less_eq_eq order_refl)
    show ?thesis
      using True IH lt split [of "\<lambda>j. 4096 * j < unat sz \<longrightarrow> ok (pg_addr (addr + of_nat (4096 * j)))"]
      by (subst ensure_loop.simps) (auto simp: i)
  next
    case False
    then have "unat sz \<le> 4096 * k" using less.prems(2) by (simp add: word_le_nat_alt not_less)
    then show ?thesis using False by (subst ensure_loop.simps) auto
  qed
qed

lemma wpage_plus:
  assumes "unat a + n < 18446744073709551616"
  shows "wpage (a + of_nat n) = (unat a + n) div 4096"
proof -
  have "unat (of_nat n :: u64) = n" by (rule unat_of_nat_small) (use assms in simp)
  then have "unat (a + of_nat n) = unat a + n" using assms by (simp add: unat_plus_no_wrap)
  then show ?thesis by (simp add: wpage_def)
qed

lemma pg_addr_eq_iff: "pg_addr a = pg_addr b \<longleftrightarrow> wpage a = wpage b"
  by (metis mult_cancel1 unat_mask_page word_unat_eq_iff zero_neq_numeral)

lemma ensure_pointer_pages:
  assumes "uptr \<noteq> 0" "drop_bit 47 uptr = 0 \<or> drop_bit 47 uptr = 0x1FFFF"
    and "unat sz \<le> 18446744073709547520"
  shows "ensure_pointer st uptr sz wr =
    Some (\<forall>j. 4096 * j < unat sz \<longrightarrow> okaddr st (vmm_cpml4v st) (pg_addr (uptr + of_nat (4096 * j))) wr)"
  using assms ensure_loop_pages [OF assms(3), of 0 0] by (auto simp: ensure_pointer_def Let_def)

section \<open>What the processor does with an address\<close>

text \<open>
  The page walk of a processor in 4-level paging: at level \<open>l\<close> (3 for the PML4, 0 for a page table)
  the entry is selected by nine bits of the address; bit 0 is \<^verbatim>\<open>present\<close>, bit 1 \<^verbatim>\<open>writable\<close>, bits 12 to
  51 are the address of the next table, and bit 7 at levels 1 and 2 marks a large page (at level 3 it
  is reserved and faults). The result says whether writing is allowed, which takes every entry on the
  way.
\<close>

fun mmu_walk :: "(u64 \<Rightarrow> u64) \<Rightarrow> nat \<Rightarrow> u64 \<Rightarrow> u64 \<Rightarrow> bool option" where
  "mmu_walk M l t va =
     (let e = M (t + 8 * take_bit 9 (drop_bit (12 + 9 * l) va)) in
      if \<not> bit e 0 \<or> l = 3 \<and> bit e 7 then None
      else if l = 0 \<or> bit e 7 then Some (bit e 1)
      else map_option (\<lambda>w. w \<and> bit e 1) (mmu_walk M (l - 1) (push_bit 12 (take_bit 40 (drop_bit 12 e))) va))"

declare mmu_walk.simps [simp del]

text \<open>An address that is not canonical faults before any table is read.\<close>

definition canonical :: "u64 \<Rightarrow> bool" where
  "canonical va \<longleftrightarrow> unat va < 2 ^ 47 \<or> 2 ^ 64 - 2 ^ 47 \<le> unat va"

definition mmu_access :: "(u64 \<Rightarrow> u64) \<Rightarrow> u64 \<Rightarrow> u64 \<Rightarrow> bool \<Rightarrow> bool" where
  "mmu_access M root va wr \<longleftrightarrow> canonical va \<and>
     (case mmu_walk M 3 root va of None \<Rightarrow> False | Some w \<Rightarrow> wr \<longrightarrow> w)"

lemma idx_take_bit:
  "PML4_IDX va = take_bit 9 (drop_bit 39 va)" "PDPT_IDX va = take_bit 9 (drop_bit 30 va)"
  "PD_IDX va = take_bit 9 (drop_bit 21 va)" "PT_IDX va = take_bit 9 (drop_bit 12 va)"
  by (simp_all add: PML4_IDX_def PDPT_IDX_def PD_IDX_def PT_IDX_def take_bit_eq_mask mask_eq_exp_minus_1)

lemma entry_bits:
  "(e :: u64) AND 2 = 0 \<longleftrightarrow> \<not> bit e 1" "(e :: u64) AND 0x80 = 0 \<longleftrightarrow> \<not> bit e 7"
  using and_exp_eq_0_iff_not_bit [of e 1] and_exp_eq_0_iff_not_bit [of e 7] by simp_all

lemma table_field:
  assumes "wpage e < 2 ^ 40"
  shows "push_bit 12 (take_bit 40 (drop_bit 12 e)) = pg_addr e"
proof -
  have d: "unat (drop_bit 12 e) = wpage e" by (simp add: wpage_def drop_bit_eq_div unat_div_distrib)
  have "take_bit 40 (drop_bit 12 e) = drop_bit 12 e"
    using assms by (simp add: word_unat_eq_iff take_bit_eq_mod unat_mod_distrib d)
  then show ?thesis by (simp add: mask_page push_bit_eq_mult drop_bit_eq_div)
qed

text \<open>On a well-formed tree the check of one address is the page walk.\<close>

lemma walk_leaf: "mmu_walk M 0 t va = (let e = M (t + 8 * PT_IDX va) in if bit e 0 then Some (bit e 1) else None)"
  by (subst mmu_walk.simps) (simp add: Let_def idx_take_bit)

lemma walk_pd: "mmu_walk M (Suc 0) t va =
   (let e = M (t + 8 * PD_IDX va) in
    if \<not> bit e 0 then None else if bit e 7 then Some (bit e 1)
    else map_option (\<lambda>w. w \<and> bit e 1) (mmu_walk M 0 (push_bit 12 (take_bit 40 (drop_bit 12 e))) va))"
  by (subst mmu_walk.simps) (simp add: Let_def idx_take_bit)

lemma walk_pdpt: "mmu_walk M 2 t va =
   (let e = M (t + 8 * PDPT_IDX va) in
    if \<not> bit e 0 then None else if bit e 7 then Some (bit e 1)
    else map_option (\<lambda>w. w \<and> bit e 1) (mmu_walk M (Suc 0) (push_bit 12 (take_bit 40 (drop_bit 12 e))) va))"
  by (subst mmu_walk.simps) (simp add: Let_def idx_take_bit)

lemma walk_pml4: "mmu_walk M 3 t va =
   (let e = M (t + 8 * PML4_IDX va) in
    if \<not> bit e 0 \<or> bit e 7 then None
    else map_option (\<lambda>w. w \<and> bit e 1) (mmu_walk M 2 (push_bit 12 (take_bit 40 (drop_bit 12 e))) va))"
  by (subst mmu_walk.simps) (simp add: Let_def idx_take_bit)

lemma okaddr_walk:
  assumes ok: "tree_ok (pmms st) (pmem st) root" and hh: "hhdm_offset st = HHDM_START"
  shows "okaddr st (HHDM_START + root) va wr \<longleftrightarrow>
    (case mmu_walk (pmem st) 3 root va of None \<Rightarrow> False | Some w \<Rightarrow> wr \<longrightarrow> w)"
proof -
  let ?M = "pmem st"
  define e4 where "e4 = ?M (root + 8 * PML4_IDX va)"
  define e3 where "e3 = ?M (pg_addr e4 + 8 * PDPT_IDX va)"
  define e2 where "e2 = ?M (pg_addr e3 + 8 * PD_IDX va)"
  define e1 where "e1 = ?M (pg_addr e2 + 8 * PT_IDX va)"
  have l: "ld st (HHDM_START + t) i = ?M (t + 8 * i)" for t i by (simp add: ld_def hh)
  have small: "wpage t < 2 ^ 40" if "tpath Q" "tab ?M root Q = Some t" for Q t
  proof -
    have "unat (nframes (pmms st)) \<le> 1048576"
      using tree_okD(1) [OF ok] by (simp add: pm_ok_def word_le_nat_alt)
    then show ?thesis using tree_okD(5) [OF ok that] by simp
  qed
  have pg: "wpage (pg_addr e) = wpage e" for e by (simp add: wpage_def unat_mask_page)
  have f: "push_bit 12 (take_bit 40 (drop_bit 12 e)) = pg_addr e" if "tpath Q" "tab ?M root Q = Some (pg_addr e)" for Q e
    using table_field [of e] small [OF that] by (simp add: pg)
  have h4: "bit e4 0 \<Longrightarrow> \<not> bit e4 7"
    using tree_okD(6) [OF ok, of "[]"] by (simp add: present_bit entry_bits e4_def)
  have t3: "tab ?M root [PML4_IDX va] = Some (pg_addr e4)" if "bit e4 0"
    using that h4 by (simp add: tab_singletons pt_next_def present_bit entry_bits Let_def flip: e4_def)
  have h3: "\<not> bit e3 7" if "bit e4 0" "bit e3 0"
    using tree_okD(6) [OF ok, of "[PML4_IDX va]" "PDPT_IDX va" "pg_addr e4"] t3 that
    by (simp add: present_bit entry_bits e3_def)
  have t2: "tab ?M root [PML4_IDX va, PDPT_IDX va] = Some (pg_addr e3)" if "bit e4 0" "bit e3 0"
    using that h4 h3 by (simp add: tab_singletons pt_next_def present_bit entry_bits Let_def flip: e4_def e3_def)
  have t1: "tab ?M root [PML4_IDX va, PDPT_IDX va, PD_IDX va] = Some (pg_addr e2)"
    if "bit e4 0" "bit e3 0" "bit e2 0" "\<not> bit e2 7"
    using that h4 h3 by (simp add: tab_singletons pt_next_def present_bit entry_bits Let_def flip: e4_def e3_def e2_def)
  have r0: "HHDM_START + root \<noteq> 0"
  proof
    assume "HHDM_START + root = 0"
    then have "root = - HHDM_START" by (simp add: eq_neg_iff_add_eq_0 add.commute)
    then have "root = 0x800000000000" by simp
    then show False using small [of "[]" root] tree_okD(5) [OF ok, of "[]" root] tree_okD(1) [OF ok]
      by (simp add: wpage_def pm_ok_def word_le_nat_alt)
  qed
  have W: "mmu_walk ?M 3 root va =
      (if \<not> bit e4 0 then None else map_option (\<lambda>w. w \<and> bit e4 1)
        (if \<not> bit e3 0 then None else map_option (\<lambda>w. w \<and> bit e3 1)
          (if \<not> bit e2 0 then None else if bit e2 7 then Some (bit e2 1)
           else map_option (\<lambda>w. w \<and> bit e2 1) (if bit e1 0 then Some (bit e1 1) else None))))"
    using h4 h3 f [OF _ t3] f [OF _ t2] f [OF _ t1]
    by (simp add: walk_pml4 walk_pdpt walk_pd walk_leaf Let_def flip: e4_def e3_def e2_def e1_def)
  show ?thesis
    unfolding W okaddr_def Let_def hh_table_def l e4_def [symmetric] e3_def [symmetric] e2_def [symmetric] e1_def [symmetric]
    using r0 by (auto simp: present_bit entry_bits)
qed

lemma walk_page: "mmu_walk M l t (pg_addr va) = mmu_walk M l t va"
proof -
  have i: "take_bit 9 (drop_bit (12 + 9 * k) (pg_addr va)) = take_bit 9 (drop_bit (12 + 9 * k) va)" for k
  proof -
    have "pg_addr va = va AND NOT (mask 12)" by (simp add: pg_addr_def mask_eq_exp_minus_1)
    then show ?thesis by (intro bit_word_eqI) (auto simp: bit_simps dest: bit_imp_le_length)
  qed
  show ?thesis
  proof (induction l arbitrary: t)
    case 0
    then show ?case by (simp only: mmu_walk.simps [of M 0] i simp_thms if_True Let_def)
  next
    case (Suc l)
    then show ?case by (simp only: mmu_walk.simps [of M "Suc l"] i diff_Suc_1)
  qed
qed

lemma page_of_byte:
  assumes "aligned uptr" "unat uptr + b < 18446744073709551616"
  shows "pg_addr (uptr + of_nat b) = pg_addr (uptr + of_nat (4096 * (b div 4096)))"
proof -
  let ?j = "b div 4096"
  have "4096 * ?j \<le> b" by simp
  then have s: "unat uptr + 4096 * ?j < 18446744073709551616" using assms(2) by linarith
  have "(4096 * wpage uptr + b) div 4096 = (4096 * wpage uptr + 4096 * ?j) div 4096"
    by (simp only: div_mult_self4 div_mult_self1 nonzero_mult_div_cancel_left add.commute
        flip: distrib_left)
  then have "wpage (uptr + of_nat b) = wpage (uptr + of_nat (4096 * ?j))"
    unfolding wpage_plus [OF assms(2)] wpage_plus [OF s] aligned_unat [OF assms(1)] .
  then show ?thesis by (rule pg_addr_eq_iff [THEN iffD2])
qed

lemma canonical_drop: "canonical va \<longleftrightarrow> drop_bit 47 va = 0 \<or> drop_bit 47 va = 0x1FFFF"
proof -
  have d: "unat (drop_bit 47 va) = unat va div 140737488355328" by (simp add: drop_bit_eq_div unat_div_distrib)
  have "unat va < 18446744073709551616" by (rule unat_u64)
  then have "unat va div 140737488355328 = 131071 \<longleftrightarrow> 18446603336221196288 \<le> unat va"
    by (auto simp: less_mult_imp_div_less le_div_geq intro!: div_nat_eqI)
  moreover have "unat va div 140737488355328 = 0 \<longleftrightarrow> unat va < 140737488355328" by (simp add: div_eq_0_iff)
  ultimately show ?thesis by (simp add: canonical_def word_unat_eq_iff d)
qed

section \<open>Properties\<close>

text \<open>Tables that map the single page at 0x400000, writable and user accessible.\<close>

definition um_demo :: vmm_state where
  "um_demo = pt_demo\<lparr>cr3 := 0x1000, pmms := pm_demo\<lparr>mmap := [0x1F, 0xF0]\<rparr>, pmem := (\<lambda>_. 0)(0x1000 := 0x2007,
     0x2000 := 0x3007, 0x3010 := 0x4007, 0x4000 := 0x5007)\<rparr>"

lemma um_demo_ok: "okaddr um_demo (vmm_cpml4v um_demo) 0x400000 wr"
  by (simp add: um_demo_def pt_demo_def okaddr_def vmm_cpml4v_def ld_def hh_table_def pg_addr_def present_def
      PML4_IDX_def PDPT_IDX_def PD_IDX_def PT_IDX_def drop_bit_eq_div)

lemma um_demo_unmapped: "\<not> okaddr um_demo (vmm_cpml4v um_demo) 0x401000 wr"
  by (simp add: um_demo_def pt_demo_def okaddr_def vmm_cpml4v_def ld_def hh_table_def pg_addr_def present_def
      PML4_IDX_def PDPT_IDX_def PD_IDX_def PT_IDX_def drop_bit_eq_div)

lemma um_next:
  assumes "aligned t" "unat i < 512"
  shows "pt_next (pmem um_demo) t i =
    (if t = 0x1000 \<and> i = 0 then Some 0x2000 else if t = 0x2000 \<and> i = 0 then Some 0x3000
     else if t = 0x3000 \<and> i = 2 then Some 0x4000 else if t = 0x4000 \<and> i = 0 then Some 0x5000 else None)"
proof -
  have s: "t + 8 * i = u \<longleftrightarrow> t = u \<and> i = 0" if "aligned u" for u
    using slot_eq_iff [OF assms(1) that assms(2), of 0] by simp
  have "t + 8 * i = 0x3010 \<longleftrightarrow> t = 0x3000 \<and> i = 2"
    using slot_eq_iff [OF assms(1) _ assms(2), of "0x3000" 2] by (simp add: aligned_def)
  then show ?thesis
    by (simp add: pt_next_def um_demo_def present_def pg_addr_def s aligned_def Let_def)
qed

lemma um_tab:
  assumes "tpath Q"
  shows "tab (pmem um_demo) 0x1000 Q =
    (if Q = [] then Some 0x1000 else if Q = [0] then Some 0x2000 else if Q = [0, 0] then Some 0x3000
     else if Q = [0, 0, 2] then Some 0x4000 else None)"
proof -
  have a: "aligned 0x1000" "aligned 0x2000" "aligned 0x3000" "aligned 0x4000" by (simp_all add: aligned_def)
  consider "Q = []" | i where "Q = [i]" | i j where "Q = [i, j]" | i j k where "Q = [i, j, k]"
    using assms by (auto simp: tpath_def length_Suc_conv le_Suc_eq numeral_3_eq_3)
  then show ?thesis
    by cases (use assms a in \<open>auto simp: tab_def tpath_def um_next\<close>)
qed

lemma um_tree: "tree_ok (pmms um_demo) (pmem um_demo) 0x1000"
proof -
  have ok: "pm_ok (pmms um_demo)" by (simp add: pm_ok_def pmm_inv_def um_demo_def pm_demo_def fused_def)
  have f: "fused (pmms um_demo) f" if "f \<in> {1, 2, 3, 4}" for f
    using that by (auto simp: um_demo_def pm_demo_def fused_def)
  have n: "unat (nframes (pmms um_demo)) = 16" by (simp add: um_demo_def pm_demo_def)
  have "pmem um_demo x AND 0x80 = 0" for x by (simp add: um_demo_def)
  then show ?thesis unfolding tree_ok_def using ok f n
    by (auto simp: um_tab aligned_def wpage_def split: if_splits)
qed



text \<open>
  For an unaligned pointer whose last byte lies one page beyond the pages at multiples of
  0x1000 from its start, the page of that last byte is not looked at: \<^verbatim>\<open>ensure_pointer\<close> accepts
  the buffer whenever all other pages are fine, although the last one may not be mapped at all.
\<close>

theorem ensure_pointer_misses_last_page:
  assumes "uptr \<noteq> 0" "drop_bit 47 uptr = 0 \<or> drop_bit 47 uptr = 0x1FFFF" "0 < unat sz"
    and "unat uptr + unat sz < 18446744073709547520"
    and "4096 \<le> unat uptr mod 4096 + (unat sz - 1) mod 4096"
    and "\<forall>b<unat sz. pg_addr (uptr + of_nat b) \<noteq> pg_addr (uptr + of_nat (unat sz - 1)) \<longrightarrow>
      okaddr st (vmm_cpml4v st) (pg_addr (uptr + of_nat b)) wr"
  shows "ensure_pointer st uptr sz wr = Some True"
proof -
  have "pg_addr (uptr + of_nat (4096 * j)) \<noteq> pg_addr (uptr + of_nat (unat sz - 1))"
    if "4096 * j < unat sz" for j
  proof -
    have s: "unat uptr + 4096 * j < 18446744073709551616" "unat uptr + (unat sz - 1) < 18446744073709551616"
      using assms(4) that by linarith+
    have "wpage (uptr + of_nat (4096 * j)) = unat uptr div 4096 + j"
      unfolding wpage_plus [OF s(1)] by simp
    moreover have "unat uptr div 4096 + (unat sz - 1) div 4096 < (unat uptr + (unat sz - 1)) div 4096"
      using assms(5) by (subst div_add1_eq) simp
    then have "unat uptr div 4096 + (unat sz - 1) div 4096 < wpage (uptr + of_nat (unat sz - 1))"
      unfolding wpage_plus [OF s(2)] .
    moreover have "j \<le> (unat sz - 1) div 4096" using that assms(3) by (simp add: less_eq_div_iff_mult_less_eq)
    ultimately show ?thesis unfolding pg_addr_eq_iff by linarith
  qed
  then have "\<forall>j. 4096 * j < unat sz \<longrightarrow> okaddr st (vmm_cpml4v st) (pg_addr (uptr + of_nat (4096 * j))) wr"
    using assms(6) by blast
  then have all: "(\<forall>j. 4096 * j < unat sz \<longrightarrow>
      okaddr st (vmm_cpml4v st) (pg_addr (uptr + of_nat (4096 * j))) wr) = True" by blast
  have "unat sz \<le> 18446744073709547520" using assms(4) by linarith
  from ensure_pointer_pages [OF assms(1,2) this, of st wr, unfolded all] show ?thesis .
qed

theorem ensure_pointer_misses_last_page_witness:
  "ensure_pointer um_demo 0x400F00 0x200 True = Some True \<and>
   pg_addr (0x400F00 + of_nat 0x1FF) = 0x401000 \<and> \<not> okaddr um_demo (vmm_cpml4v um_demo) 0x401000 True"
proof -
  have page: "pg_addr (0x400F00 + of_nat b) = (if b < 0x100 then 0x400000 else 0x401000)" if "b < 0x200" for b
  proof -
    have "wpage (0x400F00 + of_nat b) = (0x400F00 + b) div 4096"
      using wpage_plus [of "0x400F00" b] that by simp
    then have "unat (pg_addr (0x400F00 + of_nat b)) = 4096 * ((0x400F00 + b) div 4096)"
      by (simp only: unat_mask_page)
    moreover have "(0x400F00 + b) div 4096 = (if b < 0x100 then 0x400 else 0x401)"
      using that by (auto intro!: div_nat_eqI)
    ultimately show ?thesis by (simp add: word_unat_eq_iff split: if_splits)
  qed
  have "ensure_pointer um_demo 0x400F00 0x200 True = Some True"
  proof (rule ensure_pointer_misses_last_page)
    show "\<forall>b<unat (0x200 :: u64). pg_addr (0x400F00 + of_nat b) \<noteq> pg_addr (0x400F00 + of_nat (unat (0x200 :: u64) - 1)) \<longrightarrow>
        okaddr um_demo (vmm_cpml4v um_demo) (pg_addr (0x400F00 + of_nat b)) True"
      using um_demo_ok page [of "0x1FF"] by (auto simp: page)
  qed (simp_all add: drop_bit_eq_div)
  then show ?thesis using page [of "0x1FF"] um_demo_unmapped by simp
qed

text \<open>
  The checks never look at the user bit of an entry: with every user mark removed from the
  tables, \<^verbatim>\<open>ensure_pointer\<close> gives the same answers, so it accepts pointers to mapped kernel memory.
\<close>

theorem ensure_pointer_ignores_user_bit:
  "ensure_pointer (kernel_only st) uptr sz wr = ensure_pointer st uptr sz wr"
proof -
  have k: "vmm_cpml4v (kernel_only st) = vmm_cpml4v st" by (simp add: vmm_cpml4v_def kernel_only_def)
  show ?thesis unfolding ensure_pointer_def okaddr_kernel_only k ..
qed

section \<open>Memory mapping calls\<close>

lemma or_and_nonzero: "(f :: u64) AND m \<noteq> 0 \<Longrightarrow> (f OR x) AND m \<noteq> 0"
  by (simp add: bit.conj_disj_distrib2 or_eq_0_iff)

lemma and_single_bit: "(f :: u64) AND push_bit n 1 = 0 \<or> f AND push_bit n 1 = push_bit n 1"
proof (cases "bit f n")
  case True
  then have "f AND push_bit n 1 = push_bit n 1" by (intro bit_word_eqI) (auto simp: bit_simps)
  then show ?thesis ..
next
  case False
  then have "f AND push_bit n 1 = 0" by (intro bit_word_eqI) (auto simp: bit_simps)
  then show ?thesis ..
qed

lemma usrmap_truncated: "ucast (f AND MAP_USRMAP :: u64) = (0 :: u32)"
  using and_single_bit [of f 63] by auto

lemma map_at_addr:
  assumes "vmm_map_at st tbl vst pst n flg = Some (st', a)"
  shows "a = 0 \<or> a = vst"
  using assms by (auto simp: vmm_map_at_def Let_def split: if_splits prod.splits option.splits)

lemma ffreer_heap_address:
  assumes "regs_wf r ns" "0 < n" "vmm_ffreer pid n False r = Some (r', a)" "a \<noteq> 0"
  shows "HEAP_START \<le> a" "unat a + 4096 * unat n \<le> unat HEAP_END"
proof -
  obtain p where p: "unat a = 4096 * p" "{p..<p + unat n} \<subseteq> free_pages r"
    using vmm_ffreer_kernel [OF assms(1,2), of pid] assms(3,4) by auto
  have n: "p \<in> {p..<p + unat n}" "p + unat n - 1 \<in> {p..<p + unat n}" using assms(2) by (auto simp: word_less_nat_alt)
  have "vr_ok r" using assms(1) by (auto simp: vr_ok_def)
  then have "p \<in> vr_univ r" "p + unat n - 1 \<in> vr_univ r" using n p(2) free_pages_univ [of r] by blast+
  then show "HEAP_START \<le> a" "unat a + 4096 * unat n \<le> unat HEAP_END"
    using p(1) by (auto simp: vr_univ_def word_le_nat_alt)
qed

lemma tree_ok_reserve:
  assumes "tree_ok p M root" "run_free p f 1"
  shows "tree_ok (reserve p f 1) M root"
proof -
  have ok: "pm_ok p" by (rule tree_okD(1) [OF assms(1)])
  have "pm_ok (reserve p f 1)" "nframes (reserve p f 1) = nframes p"
    using reserve_free [OF ok assms(2)] same_geom_reserve [of p f 1] by (auto simp: same_geom_def)
  moreover have "fused p g \<Longrightarrow> fused (reserve p f 1) g" for g
    using fused_reserve [of p f 1 g] ok assms(2) by (auto simp: pm_ok_def run_free_def)
  ultimately show ?thesis using assms(1) unfolding tree_ok_def by auto
qed

lemma map_one_anyphys:
  assumes "tree_ok (pmms st) (pmem st) root" "hh_ok st" "4 \<le> card (pm_free (pmms st))"
    and "\<not> huge_at (pmem st) root virt" "kernel_root_ok root st" "unat flg < 4096"
  shows "\<exists>st'. map_anyphys 1 (hhdm_offset st + root) virt flg st = Some (st', True)"
proof -
  have ok: "pm_ok (pmms st)" by (rule tree_okD(1) [OF assms(1)])
  have "pm_free (pmms st) \<noteq> {}" using assms(3) by auto
  then obtain n where n: "pmm_falloc (pmms st) 1 = (reserve (pmms st) (wpage n) 1, n)" "n \<noteq> 0"
      "wpage n < unat (nframes (pmms st))" "\<not> fused (pmms st) (wpage n)"
    using falloc_one [OF ok] by metis
  have run: "run_free (pmms st) (wpage n) 1" using n(3,4) by (simp add: run_free_def)
  define s where "s = st\<lparr>pmms := reserve (pmms st) (wpage n) 1\<rparr>"
  have s: "pmem s = pmem st" "hhdm_offset s = hhdm_offset st" "pml4 s = pml4 st"
      "pmms s = reserve (pmms st) (wpage n) 1" by (simp_all add: s_def)
  have "pm_free (pmms s) = pm_free (pmms st) - {wpage n}" using reserve_free [OF ok run] by (auto simp: s)
  then have "3 \<le> card (pm_free (pmms s))" 
    using card_minus_one [of "pm_free (pmms st)" "wpage n"] assms(3) by simp
  moreover have "tree_ok (pmms s) (pmem s) root" using tree_ok_reserve [OF assms(1) run] by (simp add: s)
  moreover have "kernel_root_ok root s"
    using assms(5) fused_reserve [of "pmms st" "wpage n" 1] ok n(3)
    by (auto simp: kernel_root_ok_def other_root_def s pm_ok_def)
  moreover have "hh_ok s" using assms(2) by (simp add: hh_ok_def s)
  ultimately obtain st' where "vmm_map_page s (hhdm_offset s + root) virt n flg = Some st'"
    using map_page_result [of s root virt flg n] assms(4,6) by (auto simp: s)
  then show ?thesis using n(1,2) by (simp add: s_def)
qed

text \<open>
  C26. \<^verbatim>\<open>user_mmap\<close> lets the caller pass \<^verbatim>\<open>MAP_ANYVIRT\<close>. The restriction \<^verbatim>\<open>MAP_USRMAP\<close> is bit 63 and is
  lost when it is passed as an \<^verbatim>\<open>int\<close>, so whatever flags a process passes with \<^verbatim>\<open>MAP_ANYVIRT\<close>, all the
  pages of a mapping it obtains this way lie in the kernel heap range, between \<^verbatim>\<open>HEAP_START\<close> and
  \<^verbatim>\<open>HEAP_END\<close>, not in the user range.
\<close>

theorem user_mmap_anyvirt_kernel_address:
  assumes "regs_wf (vregs st) ns" "flags AND MAP_ANYVIRT \<noteq> 0"
    and "user_mmap pid st uasp reqaddr phys npages flags = Some (st', a)" "a \<noteq> 0"
  shows "HEAP_START \<le> a \<and> unat a + 4096 * unat npages \<le> unat HEAP_END"
proof -
  let ?f = "flags OR MAP_ANYPHYS OR PAGE_USER"
  have f: "?f AND MAP_ANYVIRT \<noteq> 0" by (rule or_and_nonzero [OF assms(2)])
  have n: "0 < npages" using assms(3,4) by (auto simp: user_mmap_def word_neq_0_conv split: if_splits)
  have m: "vmm_map_pages pid st uasp reqaddr phys npages ?f = Some (st', a)"
    using assms(3,4) by (auto simp: user_mmap_def split: if_splits)
  obtain r v where r: "vmm_ffreer pid npages False (vregs st) = Some (r, v)" "v \<noteq> 0"
      "vmm_map_at (st\<lparr>vregs := r\<rparr>) uasp v phys npages ?f = Some (st', a)"
    using m f assms(4) unfolding vmm_map_pages_def usrmap_truncated
    by (auto split: option.splits prod.splits if_splits)
  then show ?thesis using map_at_addr [OF r(3)] assms(4) ffreer_heap_address [OF assms(1) n r(1,2)] by simp
qed

lemma pt_demo_free4: "4 \<le> card (pm_free (pmms pt_demo))"
proof -
  have "{2, 3, 4, 5} \<subseteq> pm_free pm_demo" by (auto simp: pm_free_def pm_demo_def fused_def)
  moreover have "finite (pm_free pm_demo)" by (simp add: pm_free_def)
  ultimately have "card {2, 3, 4, 5 :: nat} \<le> card (pm_free pm_demo)" by (rule card_mono [rotated])
  then show ?thesis by (simp add: pt_demo_def)
qed

lemma boot_alloc_succeeds:
  "\<exists>r v. vmm_ffreer pid 1 False (init_regions vmm_boot) = Some (r, v) \<and> v \<noteq> 0"
proof -
  have n: "vmmr_nodes (init_regions vmm_boot) ! 0 = heap_node"
    unfolding init_regions_boot by (simp add: vmm_boot_def)
  have "allocvmmr (init_regions vmm_boot) = Some 1"
  proof (rule allocvmmr_eqI)
    show "node_blank (vmmr_nodes (init_regions vmm_boot) ! 1)"
      unfolding init_regions_boot by (simp add: vmm_boot_def node_blank_def)
    show "\<not> node_blank (vmmr_nodes (init_regions vmm_boot) ! j)" if "j < 1" for j
      using that n by (simp add: node_blank_def heap_node_def)
  qed simp
  then show ?thesis
    using vmm_ffreer_kernel [OF init_regions_wf, of 1 pid] n by (auto simp: heap_node_def word_less_nat_alt)
qed

theorem user_mmap_anyvirt_kernel_address_witness:
  "\<exists>st' a. user_mmap 0 pt_demo (HHDM_START + 4096) 0x400000 0 1 (MAP_ANYVIRT OR MAP_USRMAP OR PAGE_WRITE)
     = Some (st', a) \<and> a \<noteq> 0 \<and> HEAP_START \<le> a \<and> unat a + 4096 \<le> unat HEAP_END"
proof -
  let ?f = "MAP_ANYVIRT OR MAP_USRMAP OR PAGE_WRITE :: u64"
  obtain r v where r: "vmm_ffreer 0 1 False (init_regions vmm_boot) = Some (r, v)" "v \<noteq> 0"
    using boot_alloc_succeeds by blast
  define s where "s = pt_demo\<lparr>vregs := r\<rparr>"
  have s: "pmem s = pmem pt_demo" "pmms s = pmms pt_demo" "hhdm_offset s = HHDM_START" "pml4 s = pml4 pt_demo"
    by (simp_all add: s_def pt_demo_misc(4))
  have "\<exists>st'. map_anyphys 1 (hhdm_offset s + 4096) v 6 s = Some (st', True)"
    by (rule map_one_anyphys)
      (use pt_demo_tree pt_demo_free4 pt_demo_misc in
        \<open>simp_all add: s hh_ok_def kernel_root_ok_def other_root_def\<close>)
  then obtain st' where st': "map_anyphys 1 (HHDM_START + 4096) v 6 s = Some (st', True)" by (auto simp: s)
  have u: "user_mmap 0 pt_demo (HHDM_START + 4096) 0x400000 0 1 ?f = Some (st', v)"
  proof -
    have "vregs pt_demo = init_regions vmm_boot" by (simp add: pt_demo_def)
    then show ?thesis
      using r st' unfolding user_mmap_def vmm_map_pages_def usrmap_truncated vmm_map_at_def
      by (simp add: Let_def flip: s_def)
  qed
  have "regs_wf (vregs pt_demo) [0]" using init_regions_wf by (simp add: pt_demo_def)
  from user_mmap_anyvirt_kernel_address [OF this _ u r(2)] u r(2) show ?thesis by simp
qed

end
