(* ===== verification/Cstring.thy ===== *)
theory Cstring
  imports Prelude
begin

text \<open>
  Model of \<^verbatim>\<open>lib/string.c\<close>. Memory is a list of bytes and a pointer is an index
  into it, so two pointers may alias; a read or write outside the list is \<^term>\<open>None\<close>.
  The string instructions of the inline assembly (\<^verbatim>\<open>repne scasb\<close>,
  \<^verbatim>\<open>rep stosb\<close>, \<^verbatim>\<open>rep movsb\<close>, with the direction flag cleared) are
  written out as the byte loops they perform.  \<^term>\<open>char\<close> is signed on the target, so
  a difference of characters is a difference of their signed values.

  The lemmas relate every routine to the list of bytes that a pointer denotes
  (\<open>cstr_at\<close>): \<open>strlen\<close> to \<^const>\<open>length\<close>, \<open>streq\<close> and \<open>strcmp\<close> to
  equality, \<open>strncmp\<close> to equality of prefixes, \<open>memmove\<close> to the simultaneous copy of
  a range, \<open>atoi\<close> to the decimal value.
\<close>

section \<open>Memory\<close>

type_synonym cmem = "u8 list"
type_synonym cstr = "u8 list"

definition rdb :: "cmem \<Rightarrow> nat \<Rightarrow> u8 option" where
  "rdb m p = (if p < length m then Some (m ! p) else None)"

definition wrb :: "cmem \<Rightarrow> nat \<Rightarrow> u8 \<Rightarrow> cmem option" where
  "wrb m p v = (if p < length m then Some (m[p := v]) else None)"

text \<open>The NUL-terminated string a pointer denotes.\<close>

fun cstr_at :: "cmem \<Rightarrow> nat \<Rightarrow> cstr \<Rightarrow> bool" where
  "cstr_at m p [] = (rdb m p = Some 0)"
| "cstr_at m p (c # s) = (c \<noteq> 0 \<and> rdb m p = Some c \<and> cstr_at m (Suc p) s)"

text \<open>The bytes of a string literal.\<close>

definition lit :: "string \<Rightarrow> cstr" where
  "lit s = map (\<lambda>c. of_nat (of_char c)) s"

section \<open>The routines\<close>

text \<open>\<^verbatim>\<open>repne scasb\<close>: the pointer just past the first NUL byte.\<close>

function scasb :: "cmem \<Rightarrow> nat \<Rightarrow> nat option" where
  "scasb m p = (case rdb m p of None \<Rightarrow> None
     | Some b \<Rightarrow> if b = 0 then Some (Suc p) else scasb m (Suc p))"
  by pat_completeness auto
termination
  by (relation "measure (\<lambda>(m, p). length m - p)") (auto simp: rdb_def split: if_splits)

declare scasb.simps [simp del]

definition strlen :: "cmem \<Rightarrow> nat \<Rightarrow> nat option" where
  "strlen m str = (case scasb m str of None \<Rightarrow> None | Some q \<Rightarrow> Some (q - str - 1))"

text \<open>The comparison loop shared by \<^verbatim>\<open>streq\<close> and \<^verbatim>\<open>strneq\<close>; the last
  argument counts the iterations left.\<close>

fun eq_loop :: "cmem \<Rightarrow> nat \<Rightarrow> nat \<Rightarrow> nat \<Rightarrow> bool option" where
  "eq_loop m s1 s2 0 = Some True"
| "eq_loop m s1 s2 (Suc n) = (case (rdb m s1, rdb m s2) of
     (Some a, Some b) \<Rightarrow> if a \<noteq> b then Some False else eq_loop m (Suc s1) (Suc s2) n
   | _ \<Rightarrow> None)"

definition streq :: "cmem \<Rightarrow> nat \<Rightarrow> nat \<Rightarrow> bool option" where
  "streq m s1 s2 = (case (strlen m s1, strlen m s2) of
     (Some s1sz, Some s2sz) \<Rightarrow> if s1sz \<noteq> s2sz then Some False else eq_loop m s1 s2 s1sz
   | _ \<Rightarrow> None)"

definition strneq :: "cmem \<Rightarrow> nat \<Rightarrow> nat \<Rightarrow> nat \<Rightarrow> bool option" where
  "strneq m s1 s2 n = eq_loop m s1 s2 n"

function skip_blanks :: "cmem \<Rightarrow> nat \<Rightarrow> nat option" where
  "skip_blanks m p = (case rdb m p of None \<Rightarrow> None
     | Some b \<Rightarrow> if b = 32 \<or> b = 9 \<or> b = 10 \<or> b = 13 then skip_blanks m (Suc p) else Some p)"
  by pat_completeness auto
termination
  by (relation "measure (\<lambda>(m, p). length m - p)") (auto simp: rdb_def split: if_splits)

declare skip_blanks.simps [simp del]

function digits_loop :: "cmem \<Rightarrow> nat \<Rightarrow> u32 \<Rightarrow> u32 option" where
  "digits_loop m p res = (case rdb m p of None \<Rightarrow> None
     | Some b \<Rightarrow> if 48 \<le> sint b \<and> sint b \<le> 57
                then digits_loop m (Suc p) (res * 10 + (ucast b - 48)) else Some res)"
  by pat_completeness auto
termination
  by (relation "measure (\<lambda>(m, p, res). length m - p)") (auto simp: rdb_def split: if_splits)

declare digits_loop.simps [simp del]

definition atoi :: "cmem \<Rightarrow> nat \<Rightarrow> u32 option" where
  "atoi m str = (case skip_blanks m str of None \<Rightarrow> None | Some p \<Rightarrow>
     (case rdb m p of None \<Rightarrow> None | Some b \<Rightarrow>
       if b = 45 then map_option (\<lambda>res. - 1 * res) (digits_loop m (Suc p) 0)
       else if b = 43 then map_option (\<lambda>res. 1 * res) (digits_loop m (Suc p) 0)
       else map_option (\<lambda>res. 1 * res) (digits_loop m p 0)))"

fun stosb :: "cmem \<Rightarrow> nat \<Rightarrow> u8 \<Rightarrow> nat \<Rightarrow> cmem option" where
  "stosb m p v 0 = Some m"
| "stosb m p v (Suc n) = (case wrb m p v of None \<Rightarrow> None | Some m' \<Rightarrow> stosb m' (Suc p) v n)"

definition memset :: "cmem \<Rightarrow> nat \<Rightarrow> u32 \<Rightarrow> nat \<Rightarrow> cmem option" where
  "memset m dest c n = stosb m dest (ucast c) n"

text \<open>One byte copied; the forward loop is also \<^verbatim>\<open>rep movsb\<close>.\<close>

definition copy1 :: "cmem \<Rightarrow> nat \<Rightarrow> nat \<Rightarrow> cmem option" where
  "copy1 m d s = (case rdb m s of None \<Rightarrow> None | Some v \<Rightarrow> wrb m d v)"

fun copy_fwd :: "cmem \<Rightarrow> nat \<Rightarrow> nat \<Rightarrow> nat \<Rightarrow> cmem option" where
  "copy_fwd m d s 0 = Some m"
| "copy_fwd m d s (Suc n) =
     (case copy1 m d s of None \<Rightarrow> None | Some m' \<Rightarrow> copy_fwd m' (Suc d) (Suc s) n)"

fun copy_bwd :: "cmem \<Rightarrow> nat \<Rightarrow> nat \<Rightarrow> nat \<Rightarrow> cmem option" where
  "copy_bwd m d s 0 = Some m"
| "copy_bwd m d s (Suc n) =
     (case copy1 m d s of None \<Rightarrow> None | Some m' \<Rightarrow> copy_bwd m' (d - 1) (s - 1) n)"

definition memcpy :: "cmem \<Rightarrow> nat \<Rightarrow> nat \<Rightarrow> nat \<Rightarrow> cmem option" where
  "memcpy m dest src count = copy_fwd m dest src count"

fun memcmp :: "cmem \<Rightarrow> nat \<Rightarrow> nat \<Rightarrow> nat \<Rightarrow> int option" where
  "memcmp m s1 s2 0 = Some 0"
| "memcmp m s1 s2 (Suc n) = (case (rdb m s1, rdb m s2) of
     (Some a, Some b) \<Rightarrow> if a \<noteq> b then Some (uint a - uint b) else memcmp m (Suc s1) (Suc s2) n
   | _ \<Rightarrow> None)"

definition memmove :: "cmem \<Rightarrow> nat \<Rightarrow> nat \<Rightarrow> nat \<Rightarrow> cmem option" where
  "memmove m d s n =
     (if d = s \<or> n = 0 then Some m
      else if d < s then copy_fwd m d s n
      else copy_bwd m (d + (n - 1)) (s + (n - 1)) n)"

function strchr :: "cmem \<Rightarrow> nat \<Rightarrow> u8 \<Rightarrow> nat option option" where
  "strchr m str c = (case rdb m str of None \<Rightarrow> None
     | Some b \<Rightarrow> if b \<noteq> 0 then (if b = c then Some (Some str) else strchr m (Suc str) c)
                else if c = 0 then Some (Some str) else Some None)"
  by pat_completeness auto
termination
  by (relation "measure (\<lambda>(m, p, c). length m - p)") (auto simp: rdb_def split: if_splits)

declare strchr.simps [simp del]

function strcmp :: "cmem \<Rightarrow> nat \<Rightarrow> nat \<Rightarrow> int option" where
  "strcmp m s1 s2 = (case (rdb m s1, rdb m s2) of
     (Some a, Some b) \<Rightarrow>
       if a \<noteq> 0 \<and> a = b then strcmp m (Suc s1) (Suc s2) else Some (sint a - sint b)
   | _ \<Rightarrow> None)"
  by pat_completeness auto
termination
  by (relation "measure (\<lambda>(m, p, q). length m - p)") (auto simp: rdb_def split: if_splits)

declare strcmp.simps [simp del]

fun strncmp :: "cmem \<Rightarrow> nat \<Rightarrow> nat \<Rightarrow> nat \<Rightarrow> int option" where
  "strncmp m s1 s2 0 = Some 0"
| "strncmp m s1 s2 (Suc n) = (case (rdb m s1, rdb m s2) of
     (Some a, Some b) \<Rightarrow>
       if a \<noteq> b then Some (sint a - sint b)
       else if a = 0 then Some 0
       else strncmp m (Suc s1) (Suc s2) n
   | _ \<Rightarrow> None)"

text \<open>The block \<^verbatim>\<open>malloc\<close> returned, or \<^term>\<open>None\<close> when it failed.\<close>

definition strdup :: "cmem \<Rightarrow> nat option \<Rightarrow> nat \<Rightarrow> (cmem \<times> nat option) option" where
  "strdup m nstr str = (case strlen m str of None \<Rightarrow> None | Some l \<Rightarrow>
     (case nstr of None \<Rightarrow> Some (m, None)
      | Some q \<Rightarrow> (case memcpy m q str (l + 1) of None \<Rightarrow> None | Some m' \<Rightarrow> Some (m', Some q))))"

definition strcpy :: "cmem \<Rightarrow> nat \<Rightarrow> nat \<Rightarrow> cmem option" where
  "strcpy m dst str = (case strlen m str of None \<Rightarrow> None | Some l \<Rightarrow> memcpy m dst str (l + 1))"

section \<open>Specifications\<close>

text \<open>The simultaneous copy of a range, the specification of \<^verbatim>\<open>memmove\<close>.\<close>

definition range_copy :: "cmem \<Rightarrow> nat \<Rightarrow> nat \<Rightarrow> nat \<Rightarrow> cmem" where
  "range_copy m d s n = take d m @ take n (drop s m) @ drop (d + n) m"

definition is_digit :: "u8 \<Rightarrow> bool" where
  "is_digit b \<longleftrightarrow> 48 \<le> sint b \<and> sint b \<le> 57"

definition dec_value :: "cstr \<Rightarrow> nat" where
  "dec_value ds = foldl (\<lambda>n d. n * 10 + (unat d - 48)) 0 ds"

definition is_blank :: "u8 \<Rightarrow> bool" where
  "is_blank b \<longleftrightarrow> b = 32 \<or> b = 9 \<or> b = 10 \<or> b = 13"

section \<open>Strings\<close>

lemma rdb_Some [simp]: "rdb m p = Some v \<longleftrightarrow> p < length m \<and> m ! p = v"
  by (auto simp: rdb_def)

lemma rdb_in [simp]: "p < length m \<Longrightarrow> rdb m p = Some (m ! p)"
  by (simp add: rdb_def)

lemma sint_inject [simp]: "sint (a :: 'a::len word) = sint b \<longleftrightarrow> a = b"
  by (metis signed_word_eqI)

lemma sint_zero [simp]: "sint (a :: 'a::len word) = 0 \<longleftrightarrow> a = 0"
  using sint_inject [of a 0] by simp

lemma cstr_at_nonzero: "cstr_at m p s \<Longrightarrow> 0 \<notin> set s"
  by (induction s arbitrary: p) auto

lemma cstr_at_bound: "cstr_at m p s \<Longrightarrow> p + length s < length m"
  by (induction s arbitrary: p) fastforce+

lemma cstr_at_append:
  "cstr_at m p (a @ b) \<longleftrightarrow> 0 \<notin> set a \<and> p + length a \<le> length m \<and> take (length a) (drop p m) = a
     \<and> cstr_at m (p + length a) b"
proof (induction a arbitrary: p)
  case Nil
  then show ?case using cstr_at_bound by fastforce
next
  case (Cons c a)
  then show ?case
    by (cases "p < length m") (auto simp: Cons_nth_drop_Suc [symmetric])
qed

lemma cstr_at_unique: "cstr_at m p s \<Longrightarrow> cstr_at m p t \<Longrightarrow> s = t"
proof (induction s arbitrary: p t)
  case Nil
  then show ?case by (cases t) auto
next
  case (Cons c s)
  then show ?case by (cases t) auto
qed

lemma scasb_cstr: "cstr_at m p s \<Longrightarrow> scasb m p = Some (p + length s + 1)"
proof (induction s arbitrary: p)
  case Nil
  then show ?case by (subst scasb.simps) simp
next
  case (Cons c s)
  then show ?case by (subst scasb.simps) auto
qed

lemma strlen_cstr [simp]: "cstr_at m p s \<Longrightarrow> strlen m p = Some (length s)"
  by (simp add: strlen_def scasb_cstr)

lemma eq_loop_take:
  assumes "p + n \<le> length m" and "q + n \<le> length m"
  shows "eq_loop m p q n = Some (take n (drop p m) = take n (drop q m))"
  using assms
proof (induction n arbitrary: p q)
  case 0
  then show ?case by simp
next
  case (Suc n)
  have "take (Suc n) (drop p m) = m ! p # take n (drop (Suc p) m)"
    and "take (Suc n) (drop q m) = m ! q # take n (drop (Suc q) m)"
    using Suc.prems by (simp_all add: Cons_nth_drop_Suc [symmetric])
  then show ?case using Suc by simp
qed

lemma cstr_at_take: "cstr_at m p s \<Longrightarrow> take (length s) (drop p m) = s"
  using cstr_at_append [of m p s "[]"] by simp

lemma streq_cstr:
  assumes a: "cstr_at m p a" and b: "cstr_at m q b"
  shows "streq m p q = Some (a = b)"
proof (cases "length a = length b")
  case True
  have "eq_loop m p q (length a) = Some (a = b)"
    using eq_loop_take [of p "length a" m q] cstr_at_bound [OF a] cstr_at_bound [OF b]
      cstr_at_take [OF a] cstr_at_take [OF b] True by simp
  then show ?thesis using a b True by (simp add: streq_def)
next
  case False
  then show ?thesis using a b by (auto simp: streq_def)
qed

lemma strneq_cstr:
  assumes "cstr_at m p a" and "cstr_at m q b" and "length a = length b"
  shows "strneq m p q (Suc (length a)) = Some (a = b)"
proof -
  have "take (Suc (length a)) (drop p m) = a @ [0]" and "take (Suc (length b)) (drop q m) = b @ [0]"
    using assms cstr_at_append [of m p a "[]"] cstr_at_append [of m q b "[]"]
    by (auto simp: take_Suc_conv_app_nth)
  then show ?thesis
    using assms cstr_at_bound [of m p a] cstr_at_bound [of m q b]
    by (simp add: strneq_def eq_loop_take del: eq_loop.simps)
qed

lemma strcmp_cstr:
  assumes "cstr_at m p a" and "cstr_at m q b"
  shows "\<exists>r. strcmp m p q = Some r \<and> (r = 0 \<longleftrightarrow> a = b)"
  using assms
proof (induction a arbitrary: p q b)
  case Nil
  then show ?case by (subst strcmp.simps) (cases b; auto)
next
  case (Cons c a)
  then show ?case by (subst strcmp.simps) (cases b; auto)
qed

lemma strncmp_cstr:
  assumes "cstr_at m p a" and "cstr_at m q b"
  shows "\<exists>r. strncmp m p q n = Some r \<and> (r = 0 \<longleftrightarrow> take n a = take n b)"
  using assms
proof (induction n arbitrary: p q a b)
  case 0
  then show ?case by simp
next
  case (Suc n)
  then show ?case by (cases a; cases b; auto)
qed

lemma strchr_cstr:
  assumes "cstr_at m p s"
  shows "strchr m p c = Some (if c \<in> set s \<or> c = 0 then Some (p + length (takeWhile (\<lambda>x. x \<noteq> c) s)) else None)"
  using assms
proof (induction s arbitrary: p)
  case Nil
  then show ?case by (subst strchr.simps) auto
next
  case (Cons a s)
  then show ?case by (subst strchr.simps) auto
qed

lemma memcmp_zero:
  assumes "p + n \<le> length m" and "q + n \<le> length m"
  shows "\<exists>r. memcmp m p q n = Some r \<and> (r = 0 \<longleftrightarrow> take n (drop p m) = take n (drop q m))"
  using assms
proof (induction n arbitrary: p q)
  case 0
  then show ?case by simp
next
  case (Suc n)
  have "take (Suc n) (drop p m) = m ! p # take n (drop (Suc p) m)"
    and "take (Suc n) (drop q m) = m ! q # take n (drop (Suc q) m)"
    using Suc.prems by (simp_all add: Cons_nth_drop_Suc [symmetric])
  then show ?case using Suc.prems Suc.IH [of "Suc p" "Suc q"] by (auto simp: unsigned_word_eqI)
qed

lemma range_copy_length: "d + n \<le> length m \<Longrightarrow> s + n \<le> length m \<Longrightarrow> length (range_copy m d s n) = length m"
  by (simp add: range_copy_def)

lemma range_copy_nth:
  assumes "d + n \<le> length m" and "s + n \<le> length m" and "i < length m"
  shows "range_copy m d s n ! i = (if d \<le> i \<and> i < d + n then m ! (s + (i - d)) else m ! i)"
  using assms by (auto simp: range_copy_def nth_append not_less)

lemma range_copyI:
  assumes "d + n \<le> length m" and "s + n \<le> length m" and "length m' = length m"
    and "\<And>i. i < length m \<Longrightarrow> m' ! i = (if d \<le> i \<and> i < d + n then m ! (s + (i - d)) else m ! i)"
  shows "m' = range_copy m d s n"
  using assms by (intro nth_equalityI) (simp_all add: range_copy_length range_copy_nth)

lemma copy1_in: "d < length m \<Longrightarrow> s < length m \<Longrightarrow> copy1 m d s = Some (m[d := m ! s])"
  by (simp add: copy1_def wrb_def)

lemma copy_fwd_correct:
  assumes "d + n \<le> length m" and "s + n \<le> length m" and "d \<le> s \<or> s + n \<le> d"
  shows "copy_fwd m d s n = Some (range_copy m d s n)"
  using assms
proof (induction n arbitrary: m d s)
  case 0
  then show ?case by (simp add: range_copy_def)
next
  case (Suc n)
  let ?m = "m[d := m ! s]"
  have "range_copy ?m (Suc d) (Suc s) n = range_copy m d s (Suc n)"
    using Suc.prems
    by (intro range_copyI) (auto simp: range_copy_length range_copy_nth nth_list_update Suc_diff_Suc)
  then show ?case
    using Suc.prems Suc.IH [where m = ?m and d = "Suc d" and s = "Suc s"] by (auto simp: copy1_in)
qed

lemma copy_bwd_correct:
  assumes "d + n \<le> length m" and "s + n \<le> length m" and "s \<le> d"
  shows "copy_bwd m (d + (n - 1)) (s + (n - 1)) n = Some (range_copy m d s n)"
  using assms
proof (induction n arbitrary: m)
  case 0
  then show ?case by (simp add: range_copy_def)
next
  case (Suc n)
  let ?m = "m[d + n := m ! (s + n)]"
  have "range_copy ?m d s n = range_copy m d s (Suc n)"
    using Suc.prems
    by (intro range_copyI) (auto simp: range_copy_length range_copy_nth nth_list_update less_Suc_eq)
  moreover have "copy_bwd ?m (d + n - 1) (s + n - 1) n = copy_bwd ?m (d + (n - 1)) (s + (n - 1)) n"
    by (cases n) simp_all
  ultimately show ?case using Suc.prems Suc.IH [where m = ?m] by (simp add: copy1_in)
qed

text \<open>
  C19. \<^verbatim>\<open>memmove\<close> copies a range of bytes as if through a temporary buffer, whether or
  not source and destination overlap: the destination holds the old source bytes and all
  other bytes are unchanged.
\<close>

theorem memmove_correct:
  assumes "d + n \<le> length m" and "s + n \<le> length m"
  shows "memmove m d s n = Some (range_copy m d s n)"
proof (cases "d = s \<or> n = 0")
  case True
  then have "range_copy m d s n = m"
    using assms by (auto simp: range_copy_def) (metis append_assoc append_take_drop_id take_add)
  then show ?thesis using True by (simp add: memmove_def)
next
  case False
  show ?thesis
  proof (cases "d < s")
    case True
    then show ?thesis using False copy_fwd_correct [OF assms] by (simp add: memmove_def)
  next
    case ge: False
    then have "s \<le> d" by simp
    then show ?thesis
      using False ge copy_bwd_correct [OF assms] by (simp only: memmove_def if_False)
  qed
qed

theorem memmove_correct_witness:
  "(1::nat) + 3 \<le> length [10, 20, 30, 40, 50 :: u8] \<and> (0::nat) + 3 \<le> length [10, 20, 30, 40, 50 :: u8]
   \<and> memmove [10, 20, 30, 40, 50] 1 0 3 = Some [10, 10, 20, 30, 50]"
  using memmove_correct [of 1 3 "[10, 20, 30, 40, 50]" 0] by (simp add: range_copy_def eval_num)

section \<open>Decimal numbers\<close>

lemma signed_byte:
  fixes x :: int
  assumes "0 \<le> x" and "x < 256"
  shows "(x + 128) mod 256 - 128 = (if x < 128 then x else x - 256)"
proof (cases "x < 128")
  case True
  then show ?thesis using assms by (simp add: mod_pos_pos_trivial)
next
  case False
  have "(x + 128) mod 256 = (x - 128 + 256) mod 256" by (simp add: add.commute)
  also have "\<dots> = x - 128" using False assms by (simp only: mod_add_self2) simp
  finally show ?thesis using False by simp
qed

lemma sint_u8: "sint (b :: u8) = (int (unat b) + 128) mod 256 - 128"
  by (simp add: sint_uint signed_take_bit_eq_take_bit_shift take_bit_eq_mod)

lemma is_digit_unat: "is_digit b \<longleftrightarrow> 48 \<le> unat b \<and> unat b \<le> 57"
proof -
  have "unat b < 256" using unsigned_less [of b] by simp
  then have lt: "int (unat b) < 256" by linarith
  have "sint b = (if int (unat b) < 128 then int (unat b) else int (unat b) - 256)"
    unfolding sint_u8 by (rule signed_byte [OF _ lt]) simp
  then show ?thesis using lt unfolding is_digit_def by (simp only: split: if_split) linarith
qed

lemma digits_loop_value:
  assumes "cstr_at m p (ds @ rest)" and "\<forall>d \<in> set ds. is_digit d"
    and "rest = [] \<or> \<not> is_digit (hd rest)"
  shows "digits_loop m p (of_nat n) = Some (of_nat (foldl (\<lambda>n d. n * 10 + (unat d - 48)) n ds))"
  using assms
proof (induction ds arbitrary: p n)
  case Nil
  have "\<not> is_digit (m ! p) \<and> p < length m"
  proof (cases rest)
    case Nil
    then show ?thesis using Nil.prems by (simp add: is_digit_unat)
  next
    case (Cons c r)
    then show ?thesis using Nil.prems by auto
  qed
  then show ?case by (subst digits_loop.simps) (auto simp: is_digit_def)
next
  case (Cons d ds)
  then have "is_digit d" and d: "p < length m" "m ! p = d" by auto
  then have "ucast d - 48 = (of_nat (unat d - 48) :: u32)"
    by (simp add: is_digit_unat of_nat_diff)
  then have "of_nat n * 10 + (ucast d - 48) = (of_nat (n * 10 + (unat d - 48)) :: u32)"
    by simp
  then show ?case
    using Cons.IH [of "Suc p" "n * 10 + (unat d - 48)"] Cons.prems d
    by (subst digits_loop.simps) (simp add: is_digit_def)
qed

lemma skip_blanks_app:
  assumes "cstr_at m p (ws @ s)" and "\<forall>b \<in> set ws. is_blank b" and "s = [] \<or> \<not> is_blank (hd s)"
  shows "skip_blanks m p = Some (p + length ws)"
  using assms
proof (induction ws arbitrary: p)
  case Nil
  have "\<not> is_blank (m ! p) \<and> p < length m"
    using Nil.prems by (cases s) (auto simp: is_blank_def)
  then show ?case by (subst skip_blanks.simps) (auto simp: is_blank_def)
next
  case (Cons b ws)
  then show ?case by (subst skip_blanks.simps) (auto simp: is_blank_def)
qed

text \<open>
  \<^verbatim>\<open>atoi\<close> of blanks, an optional sign, decimal digits and any text that does not
  start with a digit is the signed decimal value of the digits, reduced modulo 2 to the power 32.
\<close>

theorem atoi_decimal:
  assumes at: "cstr_at m p (ws @ sg @ ds @ rest)"
    and ws: "\<forall>b \<in> set ws. is_blank b" and sg: "sg \<in> {[], [43], [45]}"
    and ds: "\<forall>d \<in> set ds. is_digit d" and ne: "ds \<noteq> []"
    and rest: "rest = [] \<or> \<not> is_digit (hd rest)"
  shows "atoi m p = Some (if sg = [45] then - of_nat (dec_value ds) else of_nat (dec_value ds))"
proof -
  have nb: "\<not> is_blank (hd (sg @ ds @ rest))"
    using sg ds ne by (cases ds) (auto simp: is_blank_def is_digit_def)
  have sk: "skip_blanks m p = Some (p + length ws)"
    using at ws nb ne by (intro skip_blanks_app) auto
  have at': "cstr_at m (p + length ws) (sg @ ds @ rest)"
    using at cstr_at_append [of m p ws] by blast
  have at'': "cstr_at m (p + length ws + length sg) (ds @ rest)"
    using at' cstr_at_append [of m "p + length ws" sg] by blast
  have val: "digits_loop m (p + length ws + length sg) 0 = Some (of_nat (dec_value ds))"
    using digits_loop_value [OF at'' ds rest, of 0] by (simp add: dec_value_def)
  consider (none) "sg = []" | (plus) "sg = [43]" | (minus) "sg = [45]" using sg by auto
  then show ?thesis
  proof cases
    case none
    obtain d ds' where "ds = d # ds'" using ne by (cases ds) auto
    then have "p + length ws < length m" "m ! (p + length ws) = d" "is_digit d"
      using at' none ds by auto
    then show ?thesis using none val sk by (auto simp: atoi_def is_digit_def)
  next
    case plus
    then show ?thesis using at' val sk by (auto simp: atoi_def)
  next
    case minus
    then show ?thesis using at' val sk by (auto simp: atoi_def)
  qed
qed

theorem atoi_decimal_witness:
  "cstr_at (lit ''  -42x'' @ [0]) 0 (lit ''  '' @ [45] @ lit ''42'' @ lit ''x'')
   \<and> atoi (lit ''  -42x'' @ [0]) 0 = Some (- 42)"
proof -
  have at: "cstr_at (lit ''  -42x'' @ [0]) 0 (lit ''  '' @ [45] @ lit ''42'' @ lit ''x'')"
    by (simp add: lit_def)
  moreover have "dec_value (lit ''42'') = 42" by (simp add: dec_value_def lit_def)
  moreover have "\<forall>b \<in> set (lit ''  ''). is_blank b" by (simp add: lit_def is_blank_def)
  moreover have "\<forall>d \<in> set (lit ''42''). is_digit d" by (simp add: lit_def is_digit_def)
  moreover have "\<not> is_digit (hd (lit ''x''))" by (simp add: lit_def is_digit_def)
  moreover have "lit ''42'' \<noteq> []" by (simp add: lit_def)
  ultimately show ?thesis using atoi_decimal [OF at] by simp
qed

end
