(* ===== verification/Memblk.thy ===== *)
theory Memblk
  imports Cstring "HOL-Library.Monad_Syntax"
begin

text \<open>
  Heap blocks of the kernel allocator.  A block is a list of cells; a cell is not yet
  initialised, a byte, or one byte of a pointer to a heap string.  The last case keeps
  pointers symbolic: a structure that holds a \<^verbatim>\<open>char*\<close> is stored in eight such cells.
  Loads and stores check the bounds of the block, and a load of a number needs byte cells;
  \<^term>\<open>None\<close> stands for an access whose behaviour the C source leaves undefined.

  The lemmas are the load-after-store laws for disjoint and equal positions and the
  little-endian round trip of 32-bit numbers.
\<close>

section \<open>Cells and blocks\<close>

datatype memval = Undef | Byte u8 | PtrByte cstr nat

type_synonym memblk = "memval list"

definition load_cells :: "memblk \<Rightarrow> nat \<Rightarrow> nat \<Rightarrow> memval list option" where
  "load_cells b off n = (if off + n \<le> length b then Some (take n (drop off b)) else None)"

definition store_cells :: "memblk \<Rightarrow> nat \<Rightarrow> memval list \<Rightarrow> memblk option" where
  "store_cells b off cs =
     (if off + length cs \<le> length b then Some (take off b @ cs @ drop (off + length cs) b) else None)"

text \<open>A fresh block, and \<^verbatim>\<open>realloc\<close>: the old contents are kept as far as they fit, the rest
  is not initialised.\<close>

definition fresh_blk :: "nat \<Rightarrow> memblk" where
  "fresh_blk n = replicate n Undef"

definition realloc_blk :: "memblk option \<Rightarrow> nat \<Rightarrow> memblk" where
  "realloc_blk p n = (let old = (case p of None \<Rightarrow> [] | Some b \<Rightarrow> b)
     in take n old @ fresh_blk (n - length old))"

section \<open>Numbers and pointers in cells\<close>

fun byte_of :: "memval \<Rightarrow> u8 option" where
  "byte_of (Byte b) = Some b"
| "byte_of Undef = None"
| "byte_of (PtrByte s i) = None"

definition u32_cells :: "u32 \<Rightarrow> memval list" where
  "u32_cells x = [Byte (ucast x), Byte (ucast (drop_bit 8 x)), Byte (ucast (drop_bit 16 x)),
                  Byte (ucast (drop_bit 24 x))]"

fun u32_of_cells :: "memval list \<Rightarrow> u32 option" where
  "u32_of_cells [Byte a, Byte b, Byte c, Byte d] =
     Some (ucast a OR push_bit 8 (ucast b) OR push_bit 16 (ucast c) OR push_bit 24 (ucast d))"
| "u32_of_cells _ = None"

definition ptr_cells :: "cstr option \<Rightarrow> memval list" where
  "ptr_cells p = (case p of None \<Rightarrow> replicate 8 (Byte 0) | Some s \<Rightarrow> map (PtrByte s) [0..<8])"

definition ptr_of_cells :: "memval list \<Rightarrow> cstr option option" where
  "ptr_of_cells cs =
     (if cs = ptr_cells None then Some None
      else case cs of PtrByte s i # _ \<Rightarrow> if cs = ptr_cells (Some s) then Some (Some s) else None
           | _ \<Rightarrow> None)"

definition load_u8 :: "memblk \<Rightarrow> nat \<Rightarrow> u8 option" where
  "load_u8 b off = do { cs \<leftarrow> load_cells b off 1; byte_of (hd cs) }"

definition load_u32 :: "memblk \<Rightarrow> nat \<Rightarrow> u32 option" where
  "load_u32 b off = do { cs \<leftarrow> load_cells b off 4; u32_of_cells cs }"

definition load_ptr :: "memblk \<Rightarrow> nat \<Rightarrow> cstr option option" where
  "load_ptr b off = do { cs \<leftarrow> load_cells b off 8; ptr_of_cells cs }"

text \<open>The bytes of a string with its terminator.\<close>

definition cstr_cells :: "cstr \<Rightarrow> memval list" where
  "cstr_cells s = map Byte s @ [Byte 0]"

section \<open>Laws\<close>

lemma u32_round_trip [simp]: "u32_of_cells (u32_cells x) = Some x"
proof -
  have "ucast (ucast x :: u8) OR push_bit 8 (ucast (ucast (drop_bit 8 x) :: u8))
     OR push_bit 16 (ucast (ucast (drop_bit 16 x) :: u8))
     OR push_bit 24 (ucast (ucast (drop_bit 24 x) :: u8)) = x"
    by (rule bit_word_eqI, auto simp: bit_simps less_diff_conv2) (rule ccontr, simp)
  then show ?thesis by (simp add: u32_cells_def)
qed

lemma ptr_round_trip [simp]: "ptr_of_cells (ptr_cells p) = Some p"
  by (cases p) (simp_all add: ptr_of_cells_def ptr_cells_def eval_num)

lemma cells_length [simp]:
  "length (u32_cells x) = 4" "length (ptr_cells p) = 8" "length (cstr_cells s) = length s + 1"
  "length (fresh_blk n) = n" "length (realloc_blk q n) = n"
  by (auto simp: u32_cells_def ptr_cells_def cstr_cells_def fresh_blk_def realloc_blk_def Let_def
      split: option.splits)

lemma store_cells_length: "store_cells b off cs = Some b' \<Longrightarrow> length b' = length b"
  by (auto simp: store_cells_def split: if_splits)

lemma store_cells_Some:
  "off + length cs \<le> length b \<Longrightarrow> \<exists>b'. store_cells b off cs = Some b'"
  by (simp add: store_cells_def)

lemma load_store_same:
  "store_cells b off cs = Some b' \<Longrightarrow> load_cells b' off (length cs) = Some cs"
  by (auto simp: store_cells_def load_cells_def split: if_splits)

lemma load_store_part:
  assumes "store_cells b off cs = Some b'" and "i + n \<le> length cs"
  shows "load_cells b' (off + i) n = Some (take n (drop i cs))"
  using assms by (auto simp: store_cells_def load_cells_def split: if_splits)

lemma load_store_other:
  assumes st: "store_cells b off cs = Some b'" and dis: "i + n \<le> off \<or> off + length cs \<le> i"
  shows "load_cells b' i n = load_cells b i n"
  using dis
proof
  assume "i + n \<le> off"
  then show ?thesis using st
    by (auto simp: store_cells_def load_cells_def min_def drop_take split: if_splits)
next
  assume *: "off + length cs \<le> i"
  then have "drop i (take off b @ cs @ drop (off + length cs) b) = drop i b"
    if "off + length cs \<le> length b" using that by simp
  then show ?thesis using st *
    by (auto simp: store_cells_def load_cells_def split: if_splits)
qed

lemma load_realloc:
  assumes "load_cells b off k = Some cs" and "length b \<le> n"
  shows "load_cells (realloc_blk (Some b) n) off k = Some cs"
  using assms by (auto simp: load_cells_def realloc_blk_def fresh_blk_def split: if_splits)

end
