(* ===== verification/Vfs_Types.thy ===== *)
theory Vfs_Types
  imports Memblk
begin

text \<open>
  The types shared by the file systems and the virtual file system layer
  (\<^verbatim>\<open>include/drivers/storage/fs/vfs.h\<close>, \<^verbatim>\<open>include/drivers/storage/fs.h\<close>): the
  inode as the layer sees it, file types in a mode, open and seek flags, \<^verbatim>\<open>struct stat\<close>,
  and the table of file-system operations.

  An operation of the table takes the private state of the mount and returns its result
  (an inode number or a count, or a negated error number) with the new state; read-only
  operations return no state.  \<^term>\<open>None\<close> is a call that does not return (undefined
  behaviour or a loop without end).
\<close>

section \<open>Modes and flags\<close>

abbreviation (input) S_IFLNK :: u16 where "S_IFLNK \<equiv> 0xA000"
abbreviation (input) S_IFREG :: u16 where "S_IFREG \<equiv> 0x8000"
abbreviation (input) S_IFBLK :: u16 where "S_IFBLK \<equiv> 0x6000"
abbreviation (input) S_IFDIR :: u16 where "S_IFDIR \<equiv> 0x4000"
abbreviation (input) S_IFCHR :: u16 where "S_IFCHR \<equiv> 0x2000"
abbreviation (input) S_ISUID :: u16 where "S_ISUID \<equiv> 0x0800"
abbreviation (input) S_ISGID :: u16 where "S_ISGID \<equiv> 0x0400"

definition S_TYPE :: "u16 \<Rightarrow> u16" where
  "S_TYPE m = m AND 0xF000"

abbreviation (input) O_CREAT :: u32 where "O_CREAT \<equiv> 0x04"
abbreviation (input) O_APPEND :: u32 where "O_APPEND \<equiv> 0x08"
abbreviation (input) O_TRUNC :: u32 where "O_TRUNC \<equiv> 0x10"

abbreviation (input) SEEK_SET :: int where "SEEK_SET \<equiv> 0"
abbreviation (input) SEEK_CUR :: int where "SEEK_CUR \<equiv> 1"
abbreviation (input) SEEK_END :: int where "SEEK_END \<equiv> 2"

section \<open>Structures\<close>

record vinode =
  vi_mode :: u16
  vi_uid :: u16
  vi_atime :: u32
  vi_ctime :: u32
  vi_mtime :: u32
  vi_rdev :: u32
  vi_gid :: u16
  vi_lnkcnt :: u16
  vi_size :: u64
  vi_priv :: u64

record stat =
  st_name :: cstr
  st_uid :: u16
  st_atime :: u32
  st_ctime :: u32
  st_mtime :: u32
  st_gid :: u16
  st_mode :: u16
  st_size :: u64
  st_ino :: u64

text \<open>What \<^verbatim>\<open>readdir\<close> leaves in its output arguments: the position, and the name bytes and
  the inode when it succeeds.\<close>

type_synonym dir_out = "int \<times> u64 \<times> (memval list \<times> vinode) option"

record 's vfsops =
  op_umount :: "'s \<Rightarrow> int option"
  op_lookup :: "'s \<Rightarrow> u32 \<Rightarrow> cstr \<Rightarrow> int option"
  op_readdir :: "'s \<Rightarrow> u32 \<Rightarrow> u64 \<Rightarrow> u64 \<Rightarrow> dir_out option"
  op_symlink :: "'s \<Rightarrow> u16 \<Rightarrow> u16 \<Rightarrow> u16 \<Rightarrow> cstr \<Rightarrow> (int \<times> 's) option"
  op_mknod :: "'s \<Rightarrow> u16 \<Rightarrow> u16 \<Rightarrow> u16 \<Rightarrow> u32 \<Rightarrow> (int \<times> 's) option"
  op_mkino :: "'s \<Rightarrow> u16 \<Rightarrow> u16 \<Rightarrow> u16 \<Rightarrow> (int \<times> 's) option"
  op_rmino :: "'s \<Rightarrow> u32 \<Rightarrow> (int \<times> 's) option"
  op_getino :: "'s \<Rightarrow> u32 \<Rightarrow> (int \<times> vinode option) option"
  op_setino :: "'s \<Rightarrow> u32 \<Rightarrow> vinode \<Rightarrow> (int \<times> 's) option"
  op_mklink :: "'s \<Rightarrow> u32 \<Rightarrow> u16 \<Rightarrow> u32 \<Rightarrow> cstr \<Rightarrow> (int \<times> 's) option"
  op_rmlink :: "'s \<Rightarrow> u32 \<Rightarrow> cstr \<Rightarrow> (int \<times> 's) option"
  op_trunc :: "'s \<Rightarrow> u32 \<Rightarrow> (int \<times> 's) option"
  op_readsym :: "'s \<Rightarrow> u32 \<Rightarrow> u64 \<Rightarrow> (int \<times> memval list) option"
  op_read :: "'s \<Rightarrow> u32 \<Rightarrow> u64 \<Rightarrow> u64 \<Rightarrow> (int \<times> memval list) option"
  op_write :: "'s \<Rightarrow> u32 \<Rightarrow> u64 \<Rightarrow> u64 \<Rightarrow> memval list \<Rightarrow> (int \<times> 's) option"

end
