(* ===== verification/Vfs_Path.thy ===== *)
theory Vfs_Path
  imports Vfs_Types
begin

text \<open>
  Path handling of the virtual file system (\<^verbatim>\<open>drivers/storage/fs/vfs.c\<close>):
  \<^verbatim>\<open>vfs_canonicalize\<close>, \<^verbatim>\<open>vfs_abspath\<close>, \<^verbatim>\<open>vfs_dirname\<close>, \<^verbatim>\<open>vfs_basename\<close>.
  A path is the list of its bytes before the terminator; 47 is the slash and 46 the dot.  The
  result is the error number or the string left in the output buffer, whose length the caller
  passes; \<^term>\<open>None\<close> is a write outside that buffer.  The part of the output buffer that
  \<^verbatim>\<open>opos\<close> delimits is the list \<open>out\<close>.

  The specification is the list of components of a path and its normal form
  (\<open>comps\<close>, \<open>norm_comps\<close>); the lemmas show that the output buffer always represents the
  normal form of the input read so far (\<open>out_rep\<close>) and that it never outgrows the input.
\<close>

section \<open>Canonical paths\<close>

text \<open>\<^verbatim>\<open>while (opos > 0 && out[opos - 1] != '/') opos--\<close>.\<close>

function pop_loop :: "cstr \<Rightarrow> cstr" where
  "pop_loop out = (if out \<noteq> [] \<and> last out \<noteq> 47 then pop_loop (butlast out) else out)"
  by pat_completeness auto
termination
  by (relation "measure length") auto

declare pop_loop.simps [simp del]

definition canon_pop :: "cstr \<Rightarrow> cstr" where
  "canon_pop out = (if length out > 1 then pop_loop (butlast out) else out)"

text \<open>One component appended, after a separator when the output does not end in one.\<close>

definition canon_push :: "cstr \<Rightarrow> cstr \<Rightarrow> nat \<Rightarrow> int + cstr" where
  "canon_push nm out outlen =
     (if out \<noteq> [] \<and> last out \<noteq> 47 \<and> length out + 1 \<ge> outlen then Inl (- ETOOSMALL)
      else let out = (if out \<noteq> [] \<and> last out \<noteq> 47 then out @ [47] else out)
           in if length out + length nm \<ge> outlen then Inl (- ETOOSMALL)
              else Inr (out @ nm))"

lemma canon_rest_shorter:
  assumes "dropWhile (\<lambda>c. c = 47) path \<noteq> []"
  shows "length (dropWhile (\<lambda>c. c \<noteq> 47) (dropWhile (\<lambda>c. c = (47 :: u8)) path)) < length path"
proof -
  let ?p = "dropWhile (\<lambda>c. c = 47) path"
  obtain c q where p: "?p = c # q" using assms by (cases ?p) auto
  then have "c \<noteq> 47" using hd_dropWhile [of "\<lambda>c. c = 47" path] by auto
  then have "dropWhile (\<lambda>c. c \<noteq> 47) ?p = dropWhile (\<lambda>c. c \<noteq> 47) q" using p by simp
  also have "length \<dots> \<le> length q" by (rule length_dropWhile_le)
  also have "\<dots> < length ?p" using p by simp
  also have "\<dots> \<le> length path" by (rule length_dropWhile_le)
  finally show ?thesis .
qed

function canon_loop :: "cstr \<Rightarrow> cstr \<Rightarrow> nat \<Rightarrow> int + cstr" where
  "canon_loop path out outlen =
     (let p = dropWhile (\<lambda>c. c = 47) path in
      if p = [] then Inr out
      else let nm = takeWhile (\<lambda>c. c \<noteq> 47) p; rest = dropWhile (\<lambda>c. c \<noteq> 47) p in
        if nm = [46] then canon_loop rest out outlen
        else if nm = [46, 46] then canon_loop rest (canon_pop out) outlen
        else case canon_push nm out outlen of Inl e \<Rightarrow> Inl e
             | Inr out \<Rightarrow> canon_loop rest out outlen)"
  by pat_completeness auto

termination
  by (relation "measure (\<lambda>(path, out, outlen). length path)") (auto simp: canon_rest_shorter)

declare canon_loop.simps [simp del]

definition vfs_canonicalize :: "cstr option \<Rightarrow> nat \<Rightarrow> (int + cstr) option" where
  "vfs_canonicalize path outlen = (case path of None \<Rightarrow> Some (Inl (- EINVAL))
   | Some path \<Rightarrow>
       if outlen = 0 \<or> path = [] then Some (Inl (- EINVAL))
       else case canon_loop path [47] outlen of Inl e \<Rightarrow> Some (Inl e)
            | Inr out \<Rightarrow>
                let out = (if out = [] then [47] else out)
                in if length out < outlen then Some (Inr out) else None)"

definition vfs_abspath :: "cstr \<Rightarrow> cstr option \<Rightarrow> nat \<Rightarrow> (int + cstr) option" where
  "vfs_abspath cwd path outlen = (case path of None \<Rightarrow> Some (Inl (- EINVAL))
   | Some path \<Rightarrow>
       if outlen = 0 \<or> path = [] then Some (Inl (- EINVAL))
       else if hd path = 47
       then if length path + 1 > 1024 then Some (Inl (- ETOOSMALL))
            else vfs_canonicalize (Some path) outlen
       else if length cwd + 1 + length path + 1 > 1024 then Some (Inl (- ETOOSMALL))
       else vfs_canonicalize
         (Some (cwd @ (if cwd \<noteq> [] \<and> last cwd \<noteq> 47 then [47] else []) @ path)) outlen)"

section \<open>Directory and base name\<close>

text \<open>\<^verbatim>\<open>while (len > 0 && path[len-1] == '/') len--\<close>.\<close>

fun trim_slashes :: "cstr \<Rightarrow> nat \<Rightarrow> nat" where
  "trim_slashes path 0 = 0"
| "trim_slashes path (Suc len) = (if path ! len = 47 then trim_slashes path len else Suc len)"

text \<open>\<^verbatim>\<open>while (slash > 0 && path[slash-1] != '/') slash--\<close>.\<close>

fun find_slash :: "cstr \<Rightarrow> nat \<Rightarrow> nat" where
  "find_slash path 0 = 0"
| "find_slash path (Suc slash) = (if path ! slash \<noteq> 47 then find_slash path slash else Suc slash)"

definition vfs_dirname :: "cstr option \<Rightarrow> nat \<Rightarrow> int + cstr" where
  "vfs_dirname path dirlen = (case path of None \<Rightarrow> Inl (- EINVAL)
   | Some path \<Rightarrow>
       if dirlen = 0 then Inl (- EINVAL)
       else let len = trim_slashes path (length path) in
         if len = 0 then if dirlen < 2 then Inl (- ETOOSMALL) else Inr [47]
         else let slash = find_slash path len in
           if slash = 0 then if dirlen < 2 then Inl (- ETOOSMALL) else Inr [46]
           else if slash = 1 \<and> path ! 0 = 47
           then if dirlen < 2 then Inl (- ETOOSMALL) else Inr [47]
           else let dlen = slash - 1 in
             if dirlen \<le> dlen then Inl (- ETOOSMALL) else Inr (take dlen path))"

definition vfs_basename :: "cstr option \<Rightarrow> nat \<Rightarrow> int + cstr" where
  "vfs_basename path baselen = (case path of None \<Rightarrow> Inl (- EINVAL)
   | Some path \<Rightarrow>
       if baselen = 0 then Inl (- EINVAL)
       else let len = trim_slashes path (length path) in
         if len = 0 then if baselen < 1 then Inl (- ETOOSMALL) else Inr []
         else let slash = find_slash path len;
                  bnamlen = len - slash
              in if baselen \<le> bnamlen then Inl (- ETOOSMALL)
                 else Inr (take bnamlen (drop slash path)))"

section \<open>Specification\<close>

text \<open>The components of a path and their normal form.\<close>

function comps :: "cstr \<Rightarrow> cstr list" where
  "comps path =
     (let p = dropWhile (\<lambda>c. c = 47) path in
      if p = [] then [] else takeWhile (\<lambda>c. c \<noteq> 47) p # comps (dropWhile (\<lambda>c. c \<noteq> 47) p))"
  by pat_completeness auto
termination
  by (relation "measure length") (auto simp: canon_rest_shorter)

declare comps.simps [simp del]

definition norm_comp :: "cstr list \<Rightarrow> cstr \<Rightarrow> cstr list" where
  "norm_comp stk c = (if c = [46] then stk else if c = [46, 46] then butlast stk else stk @ [c])"

definition norm_comps :: "cstr list \<Rightarrow> cstr list" where
  "norm_comps cs = foldl norm_comp [] cs"

definition join :: "cstr list \<Rightarrow> cstr" where
  "join stk = concat (map (\<lambda>c. 47 # c) stk)"

definition proper :: "cstr \<Rightarrow> bool" where
  "proper c \<longleftrightarrow> c \<noteq> [] \<and> 47 \<notin> set c \<and> c \<noteq> [46] \<and> c \<noteq> [46, 46]"

text \<open>The output buffer that represents a stack of components, with or without a final slash.\<close>

definition out_rep :: "cstr \<Rightarrow> cstr list \<Rightarrow> bool" where
  "out_rep out stk \<longleftrightarrow> (\<forall>c \<in> set stk. proper c) \<and>
     (out = join stk @ [47] \<or> (stk \<noteq> [] \<and> out = join stk))"

lemma join_snoc [simp]: "join (stk @ [c]) = join stk @ 47 # c"
  by (simp add: join_def)

lemma join_Nil [simp]: "join [] = []"
  by (simp add: join_def)

lemma join_Cons [simp]: "join (c # stk) = 47 # c @ join stk"
  by (simp add: join_def)

lemma pop_loop_comp: "47 \<notin> set c \<Longrightarrow> pop_loop (xs @ 47 # c) = xs @ [47]"
proof (induction c rule: rev_induct)
  case Nil
  then show ?case by (subst pop_loop.simps) simp
next
  case (snoc x c)
  then have "pop_loop (xs @ 47 # c @ [x]) = pop_loop (butlast (xs @ 47 # c @ [x]))"
    by (subst pop_loop.simps) simp
  also have "butlast (xs @ 47 # c @ [x]) = xs @ 47 # c" by (simp add: butlast_append)
  finally show ?case using snoc by simp
qed

lemma canon_pop_rep:
  assumes "out_rep out stk"
  shows "out_rep (canon_pop out) (butlast stk) \<and> last (canon_pop out) = 47 \<and> length (canon_pop out) \<le> length out"
proof (cases stk rule: rev_cases)
  case Nil
  then have "out = [47]" using assms by (simp add: out_rep_def)
  then show ?thesis using assms Nil by (simp add: canon_pop_def)
next
  case (snoc st c)
  then have c: "47 \<notin> set c" "c \<noteq> []" using assms by (auto simp: out_rep_def proper_def)
  consider "out = join st @ 47 # c @ [47]" | "out = join st @ 47 # c"
    using assms snoc by (auto simp: out_rep_def)
  then have "canon_pop out = join st @ [47]"
  proof cases
    case 1
    then have "butlast out = join st @ 47 # c" by (simp add: butlast_append)
    then show ?thesis using 1 c pop_loop_comp by (simp add: canon_pop_def)
  next
    case 2
    obtain d x where d: "c = d @ [x]" using c by (cases c rule: rev_cases) auto
    then have "butlast out = join st @ 47 # d" using 2 by (simp add: butlast_append)
    then show ?thesis using 2 c d pop_loop_comp by (simp add: canon_pop_def)
  qed
  then show ?thesis using assms snoc by (auto simp: out_rep_def)
qed

lemma proper_last: "proper c \<Longrightarrow> last (xs @ c) \<noteq> 47"
  by (cases c rule: rev_cases) (auto simp: proper_def)

lemma out_rep_last: "out_rep out stk \<Longrightarrow> out \<noteq> [] \<and> (last out = 47 \<longleftrightarrow> out = join stk @ [47])"
proof (cases stk rule: rev_cases)
  case (snoc st c)
  assume r: "out_rep out stk"
  have "proper c" using r snoc by (auto simp: out_rep_def)
  then have "last (join st @ 47 # c) \<noteq> 47" using proper_last [of c "join st @ [47]"] by simp
  then show ?thesis using r snoc by (auto simp: out_rep_def)
qed (auto simp: out_rep_def)

lemma canon_push_rep:
  assumes "out_rep out stk" and "proper c" and "canon_push c out outlen = Inr out'"
  shows "out_rep out' (stk @ [c]) \<and> out' = join stk @ 47 # c"
proof (cases "last out = 47")
  case True
  then show ?thesis using assms out_rep_last [OF assms(1)]
    by (auto simp: canon_push_def out_rep_def Let_def split: if_splits)
next
  case False
  then have "out = join stk" using assms(1) by (auto simp: out_rep_def)
  then show ?thesis using assms False out_rep_last [OF assms(1)]
    by (auto simp: canon_push_def out_rep_def Let_def split: if_splits)
qed

lemma comp_proper:
  assumes "dropWhile (\<lambda>c. c = 47) path = p" and "p \<noteq> []" and "takeWhile (\<lambda>c. c \<noteq> 47) p = c"
  shows "c \<noteq> [] \<and> 47 \<notin> set c"
proof -
  have "hd p \<noteq> 47" using assms hd_dropWhile [of "\<lambda>c. c = 47" path] by auto
  then have "c \<noteq> []" using assms by (cases p) auto
  moreover have "47 \<notin> set c" using assms(3) by (auto dest: set_takeWhileD)
  ultimately show ?thesis ..
qed

lemma canon_loop_step:
  assumes "dropWhile (\<lambda>c. c = 47) path \<noteq> []"
    and "takeWhile (\<lambda>c. c \<noteq> 47) (dropWhile (\<lambda>c. c = 47) path) = c"
    and "dropWhile (\<lambda>c. c \<noteq> 47) (dropWhile (\<lambda>c. c = 47) path) = rest"
  shows "canon_loop path out outlen =
    (if c = [46] then canon_loop rest out outlen
     else if c = [46, 46] then canon_loop rest (canon_pop out) outlen
     else case canon_push c out outlen of Inl e \<Rightarrow> Inl e | Inr out \<Rightarrow> canon_loop rest out outlen)"
  using assms by (subst canon_loop.simps) (simp only: Let_def if_False)

lemma canon_loop_rep:
  assumes "canon_loop path out outlen = Inr r" and "out_rep out stk"
  shows "out_rep r (foldl norm_comp stk (comps path))"
  using assms
proof (induction path out outlen arbitrary: stk rule: canon_loop.induct)
  case (1 path out outlen)
  let ?p = "dropWhile (\<lambda>c. c = 47) path"
  let ?c = "takeWhile (\<lambda>c. c \<noteq> 47) ?p" and ?rest = "dropWhile (\<lambda>c. c \<noteq> 47) ?p"
  show ?case
  proof (cases "?p = []")
    case True
    then show ?thesis using "1.prems" by (simp add: canon_loop.simps [of path] comps.simps [of path])
  next
    case False
    then have cs: "comps path = ?c # comps ?rest" by (simp add: comps.simps [of path] Let_def)
    have pr: "?c \<noteq> [] \<and> 47 \<notin> set ?c" using comp_proper [OF refl False refl] .
    consider (dot) "?c = [46]" | (dd) "?c = [46, 46]" | (nm) "?c \<noteq> [46]" "?c \<noteq> [46, 46]" by blast
    then show ?thesis
    proof cases
      case dot
      then have "canon_loop ?rest out outlen = Inr r"
        using "1.prems" canon_loop_step [OF False refl refl] by simp
      then show ?thesis using "1.IH"(1) [OF refl False refl refl dot] "1.prems"(2) cs dot
        by (simp add: norm_comp_def)
    next
      case dd
      then have "canon_loop ?rest (canon_pop out) outlen = Inr r"
        using "1.prems" canon_loop_step [OF False refl refl] by simp
      then show ?thesis
        using "1.IH"(2) [OF refl False refl refl _ dd] canon_pop_rep [OF "1.prems"(2)] cs dd
        by (simp add: norm_comp_def)
    next
      case nm
      then obtain out' where o: "canon_push ?c out outlen = Inr out'" and l: "canon_loop ?rest out' outlen = Inr r"
        using "1.prems" canon_loop_step [OF False refl refl] by (auto split: sum.splits)
      have "proper ?c" using pr nm by (simp add: proper_def)
      then have "out_rep out' (stk @ [?c])" using canon_push_rep "1.prems"(2) o by blast
      then show ?thesis using "1.IH"(3) [OF refl False refl refl nm o l] cs nm by (simp add: norm_comp_def)
    qed
  qed
qed


lemma split_comp:
  assumes "47 \<notin> set c" and "r = [] \<or> hd r = (47 :: u8)"
  shows "takeWhile (\<lambda>x. x \<noteq> 47) (c @ r) = c" and "dropWhile (\<lambda>x. x \<noteq> 47) (c @ r) = r"
  using assms by (induction c) (cases r; auto)+

lemma join_hd: "join stk = [] \<or> hd (join stk) = 47"
  by (cases stk) simp_all

lemma comps_join:
  assumes "\<forall>c \<in> set stk. c \<noteq> [] \<and> 47 \<notin> set c" and "t = [] \<or> t = [47]"
  shows "comps (join stk @ t) = stk"
  using assms(1)
proof (induction stk)
  case Nil
  then show ?case using assms(2) by (auto simp: comps.simps)
next
  case (Cons c stk)
  then have c: "c \<noteq> []" "47 \<notin> set c" by auto
  have d: "dropWhile (\<lambda>x. x = 47) (join (c # stk) @ t) = c @ join stk @ t"
    using c by (cases c) auto
  have h: "join stk @ t = [] \<or> hd (join stk @ t) = 47"
    using join_hd [of stk] assms(2) by (cases "join stk") auto
  show ?case
    using Cons c d split_comp [OF c(2) h] by (subst comps.simps) (simp only: Let_def, simp)
qed

lemma out_rep_comps: "out_rep out stk \<Longrightarrow> comps out = stk"
  using comps_join [of stk "[47]"] comps_join [of stk "[]"]
  by (auto simp: out_rep_def proper_def)

lemma norm_comps_proper: "\<forall>c \<in> set cs. c \<noteq> [] \<and> 47 \<notin> set c \<Longrightarrow> \<forall>c \<in> set stk. proper c \<Longrightarrow>
    \<forall>c \<in> set (foldl norm_comp stk cs). proper c"
proof (induction cs arbitrary: stk)
  case Nil
  then show ?case by simp
next
  case (Cons c cs)
  have "\<forall>x \<in> set (norm_comp stk c). proper x"
    using Cons.prems by (auto simp: norm_comp_def proper_def dest: in_set_butlastD)
  then show ?case using Cons by simp
qed

text \<open>The length the output can reach: its own, without a final slash, and that of the input.\<close>

definition weight :: "cstr \<Rightarrow> cstr \<Rightarrow> nat" where
  "weight path out = length path + (if last out = 47 then length out - 1 else length out)"

lemma rest_slash: "dropWhile (\<lambda>c. c \<noteq> (47 :: u8)) p = [] \<or> hd (dropWhile (\<lambda>c. c \<noteq> 47) p) = 47"
  using hd_dropWhile [of "\<lambda>c. c \<noteq> (47 :: u8)" p] by blast

lemma canon_push_fits:
  assumes r: "out_rep out stk" and c: "proper c" and w: "length c + 1 + length rest \<le> length path"
    and fit: "weight path out < outlen"
  shows "\<exists>out'. canon_push c out outlen = Inr out' \<and> weight rest out' \<le> weight path out"
proof -
  have o: "out \<noteq> []" using out_rep_last [OF r] by simp
  show ?thesis
  proof (cases "last out = 47")
    case True
    then have "canon_push c out outlen = Inr (out @ c)"
      using o w fit by (simp add: canon_push_def weight_def)
    moreover have "last (out @ c) \<noteq> 47" using proper_last [OF c] .
    ultimately show ?thesis using True o w by (simp add: weight_def)
  next
    case False
    then have "canon_push c out outlen = Inr (out @ 47 # c)"
      using o w fit c by (auto simp: canon_push_def weight_def Let_def proper_def)
    moreover have "last (out @ 47 # c) \<noteq> 47" using proper_last [OF c, of "out @ [47]"] by simp
    ultimately show ?thesis using False o w by (simp add: weight_def)
  qed
qed

lemma split_length:
  assumes "path = [] \<or> hd path = (47 :: u8)" and "dropWhile (\<lambda>c. c = 47) path = p" and "p \<noteq> []"
  shows "length (takeWhile (\<lambda>c. c \<noteq> 47) p) + 1 + length (dropWhile (\<lambda>c. c \<noteq> 47) p) \<le> length path"
proof -
  have "path \<noteq> []" using assms by auto
  then obtain q where q: "path = 47 # q" using assms(1) by (cases path) auto
  then have "length p \<le> length q" using assms(2) length_dropWhile_le [of "\<lambda>c. c = 47" q] by auto
  moreover have "length p = length (takeWhile (\<lambda>c. c \<noteq> 47) p) + length (dropWhile (\<lambda>c. c \<noteq> 47) p)"
    by (metis length_append takeWhile_dropWhile_id)
  ultimately show ?thesis using q by simp
qed

lemma canon_loop_fits:
  assumes "out_rep out stk" and "path = [] \<or> hd path = 47" and "weight path out < outlen"
  shows "\<exists>r. canon_loop path out outlen = Inr r \<and> (length r \<le> weight path out \<or> path = [] \<and> r = out)"
  using assms
proof (induction path out outlen arbitrary: stk rule: canon_loop.induct)
  case (1 path out outlen)
  let ?p = "dropWhile (\<lambda>c. c = 47) path"
  let ?c = "takeWhile (\<lambda>c. c \<noteq> 47) ?p" and ?rest = "dropWhile (\<lambda>c. c \<noteq> 47) ?p"
  show ?case
  proof (cases "?p = []")
    case True
    have "canon_loop path out outlen = Inr out" using True by (subst canon_loop.simps) (simp add: Let_def)
    moreover have "length out \<le> weight path out" if "path \<noteq> []"
      using that by (cases path) (auto simp: weight_def)
    ultimately show ?thesis by auto
  next
    case False
    define c where "c = ?c"
    define rest where "rest = ?rest"
    note step = canon_loop_step [OF False c_def [symmetric] rest_def [symmetric], of out outlen]
    note IH = "1.IH" [OF refl False refl refl, folded c_def rest_def]
    have pr: "c \<noteq> [] \<and> 47 \<notin> set c" unfolding c_def using comp_proper [OF refl False refl] .
    have len: "length c + 1 + length rest \<le> length path"
      unfolding c_def rest_def using split_length [OF "1.prems"(2) refl False] .
    have rs: "rest = [] \<or> hd rest = 47" unfolding rest_def by (rule rest_slash)
    have lw: "length o1 \<le> weight rest o1 + 1" for o1 by (auto simp: weight_def)
    consider (dot) "c = [46]" | (dd) "c = [46, 46]" | (nm) "c \<noteq> [46]" "c \<noteq> [46, 46]" by blast
    then show ?thesis
    proof cases
      case dot
      have w: "weight rest out + 2 \<le> weight path out" using len dot by (simp add: weight_def)
      then have "weight rest out < outlen" using "1.prems"(3) by simp
      then obtain r where "canon_loop rest out outlen = Inr r"
        and "length r \<le> weight rest out \<or> rest = [] \<and> r = out"
        using IH(1) [OF dot "1.prems"(1) rs] by blast
      then show ?thesis using step dot w lw [of out] by auto
    next
      case dd
      let ?o = "canon_pop out"
      have o: "out_rep ?o (butlast stk)" "last ?o = 47" "length ?o \<le> length out"
        using canon_pop_rep [OF "1.prems"(1)] by auto
      have w: "weight rest ?o + 2 \<le> weight path out"
        using len dd o by (auto simp: weight_def)
      then have "weight rest ?o < outlen" using "1.prems"(3) by simp
      then obtain r where "canon_loop rest ?o outlen = Inr r"
        and "length r \<le> weight rest ?o \<or> rest = [] \<and> r = ?o"
        using IH(2) [OF _ dd o(1) rs] dd by auto
      then show ?thesis using step dd w lw [of ?o] by auto
    next
      case nm
      have p: "proper c" using pr nm by (simp add: proper_def)
      obtain o' where o': "canon_push c out outlen = Inr o'" and w: "weight rest o' \<le> weight path out"
        using canon_push_fits [OF "1.prems"(1) p len "1.prems"(3)] by blast
      have r': "out_rep o' (stk @ [c])" "o' = join stk @ 47 # c"
        using canon_push_rep [OF "1.prems"(1) p o'] by auto
      have lo: "length o' = weight [] o'"
        using proper_last [OF p, of "join stk @ [47]"] r'(2) by (simp add: weight_def)
      have "weight rest o' < outlen" using w "1.prems"(3) by simp
      then obtain r where "canon_loop rest o' outlen = Inr r"
        and "length r \<le> weight rest o' \<or> rest = [] \<and> r = o'"
        using IH(3) [OF nm o' r'(1) rs] by blast
      then show ?thesis using step nm o' w lo by auto
    qed
  qed
qed

lemma comps_in: "\<forall>c \<in> set (comps path). c \<noteq> [] \<and> 47 \<notin> set c"
proof (induction path rule: comps.induct)
  case (1 path)
  let ?p = "dropWhile (\<lambda>c. c = 47) path"
  show ?case
  proof (cases "?p = []")
    case True
    then show ?thesis by (subst comps.simps) (simp only: Let_def if_True, simp)
  next
    case False
    then show ?thesis using "1.IH" [OF refl False] comp_proper [OF refl False refl]
      by (subst comps.simps) (simp only: Let_def if_False, simp)
  qed
qed

lemma canonicalize_correct:
  assumes "hd path = 47" and "path \<noteq> []" and "length path < outlen"
  shows "\<exists>out. vfs_canonicalize (Some path) outlen = Some (Inr out) \<and> length out \<le> length path
    \<and> hd out = 47 \<and> out_rep out (norm_comps (comps path))"
proof -
  have r0: "out_rep [47] []" by (simp add: out_rep_def)
  have "weight path [47] < outlen" using assms by (simp add: weight_def)
  then obtain r where r: "canon_loop path [47] outlen = Inr r" and l: "length r \<le> weight path [47]"
    using canon_loop_fits [OF r0, of path outlen] assms by auto
  have rep: "out_rep r (norm_comps (comps path))"
    using canon_loop_rep [OF r r0] by (simp add: norm_comps_def)
  then have "r \<noteq> []" using out_rep_last by blast
  have "hd r = 47" using rep by (cases "norm_comps (comps path)") (auto simp: out_rep_def)
  then show ?thesis using r l rep assms \<open>r \<noteq> []\<close>
    by (auto simp: vfs_canonicalize_def weight_def)
qed

lemma comps_slashes: "dropWhile (\<lambda>c. c = 47) a = [] \<Longrightarrow> comps (a @ b) = comps b"
proof -
  assume "dropWhile (\<lambda>c. c = 47) a = []"
  then have "dropWhile (\<lambda>c. c = 47) (a @ b) = dropWhile (\<lambda>c. c = 47) b"
    by (simp add: dropWhile_append)
  then show ?thesis by (subst (1 2) comps.simps) (simp only:)
qed

lemma comps_step:
  assumes "dropWhile (\<lambda>c. c = 47) path = c @ r" and "c \<noteq> []" and "47 \<notin> set c" and "r = [] \<or> hd r = 47"
  shows "comps path = c # comps r"
  using assms split_comp [OF assms(3,4)] by (subst comps.simps) (simp only: Let_def, simp)

lemma comps_append: "comps (a @ 47 # b) = comps a @ comps b"
proof (induction a rule: comps.induct)
  case (1 a)
  let ?p = "dropWhile (\<lambda>c. c = 47) a"
  show ?case
  proof (cases "?p = []")
    case True
    have "comps (a @ 47 # b) = comps ([47] @ b)" using comps_slashes [OF True] by simp
    also have "\<dots> = comps b" by (rule comps_slashes) simp
    finally show ?thesis using comps_slashes [OF True, of "[]"] by (simp add: comps.simps [of "[]"])
  next
    case False
    define c where "c = takeWhile (\<lambda>c. c \<noteq> 47) ?p"
    define r where "r = dropWhile (\<lambda>c. c \<noteq> 47) ?p"
    have p: "?p = c @ r" unfolding c_def r_def by simp
    have c: "c \<noteq> []" "47 \<notin> set c" using comp_proper [OF refl False c_def [symmetric]] by auto
    have r: "r = [] \<or> hd r = 47" unfolding r_def by (rule rest_slash)
    have "dropWhile (\<lambda>c. c = 47) (a @ 47 # b) = ?p @ 47 # b"
      using False by (auto simp: dropWhile_append)
    then have "dropWhile (\<lambda>c. c = 47) (a @ 47 # b) = c @ (r @ 47 # b)" using p by simp
    moreover have "r @ 47 # b = [] \<or> hd (r @ 47 # b) = 47" using r by (cases r) auto
    ultimately have "comps (a @ 47 # b) = c # comps (r @ 47 # b)" using comps_step c by blast
    also have "comps (r @ 47 # b) = comps r @ comps b"
      using "1.IH" [OF refl False] unfolding r_def .
    finally show ?thesis using comps_step [OF p c r] by simp
  qed
qed

lemma trim_slashes_none: "0 < n \<Longrightarrow> p ! (n - 1) \<noteq> 47 \<Longrightarrow> trim_slashes p n = n"
  by (cases n) simp_all

lemma find_slash_comp:
  assumes "47 \<notin> set c" and "k \<le> length c"
  shows "find_slash (xs @ 47 # c @ t) (length xs + 1 + k) = length xs + 1"
  using assms(2)
proof (induction k)
  case 0
  then show ?case by simp
next
  case (Suc k)
  then have "c ! k \<noteq> 47" using assms(1) by (metis Suc_le_lessD nth_mem)
  then have "(xs @ 47 # c @ t) ! (length xs + 1 + k) \<noteq> 47"
    using Suc.prems by (simp add: nth_append)
  then show ?case using Suc by simp
qed

lemma split_last:
  assumes "proper c" and "t = [] \<or> t = [47]" and p_def: "p = xs @ 47 # c @ t"
  shows "trim_slashes p (length p) = length xs + 1 + length c"
    and "find_slash p (length xs + 1 + length c) = length xs + 1"
proof -
  obtain d x where d: "c = d @ [x]" and x: "x \<noteq> 47" using assms(1) by (cases c rule: rev_cases) (auto simp: proper_def)
  have "trim_slashes p (length xs + 1 + length c) = length xs + 1 + length c"
    by (rule trim_slashes_none) (use d x in \<open>simp_all add: p_def nth_append\<close>)
  then show "trim_slashes p (length p) = length xs + 1 + length c"
    using assms(2) by (auto simp: p_def nth_append)
  show "find_slash p (length xs + 1 + length c) = length xs + 1"
    unfolding p_def using assms(1) by (intro find_slash_comp) (simp_all add: proper_def)
qed

lemma dirname_basename_snoc:
  assumes r: "out_rep out (st @ [c])" and len: "length out < n"
  shows "vfs_dirname (Some out) n = Inr (if st = [] then [47] else join st) \<and> vfs_basename (Some out) n = Inr c"
proof -
  obtain t where t: "t = [] \<or> t = [47]" and o: "out = join st @ 47 # c @ t"
    using r by (auto simp: out_rep_def)
  have c: "proper c" using r by (simp add: out_rep_def)
  note sp = split_last [OF c t o]
  have "0 < length c" using c by (auto simp: proper_def)
  have js: "join st = [] \<longleftrightarrow> st = []" by (cases st) auto
  have "vfs_basename (Some out) n = Inr (take (length c) (drop (length (join st) + 1) out))"
    using sp len o by (auto simp: vfs_basename_def Let_def)
  then have b: "vfs_basename (Some out) n = Inr c" by (simp add: o)
  have "vfs_dirname (Some out) n = (if st = [] then Inr [47] else Inr (take (length (join st)) out))"
    using sp len js o \<open>0 < length c\<close> by (auto simp: vfs_dirname_def Let_def)
  then show ?thesis using b o by simp
qed

lemma dirname_basename_root:
  assumes "out_rep out []" and "1 < n"
  shows "vfs_dirname (Some out) n = Inr [47] \<and> vfs_basename (Some out) n = Inr []"
proof -
  have "out = [47]" using assms by (simp add: out_rep_def)
  then show ?thesis using assms by (simp add: vfs_dirname_def vfs_basename_def)
qed


text \<open>The absolute path that \<^verbatim>\<open>vfs_abspath\<close> canonicalises, and its components.\<close>

definition path_comps :: "cstr \<Rightarrow> cstr \<Rightarrow> cstr list" where
  "path_comps cwd path = norm_comps (if hd path = 47 then comps path else comps cwd @ comps path)"

definition path_fits :: "cstr \<Rightarrow> cstr \<Rightarrow> bool" where
  "path_fits cwd path \<longleftrightarrow> path \<noteq> [] \<and> cwd \<noteq> [] \<and> hd cwd = 47 \<and>
     (if hd path = 47 then length path < 1024 else length cwd + length path < 1023)"

lemma abspath_correct:
  assumes "path_fits cwd path"
  shows "\<exists>out. vfs_abspath cwd (Some path) 1024 = Some (Inr out) \<and> length out < 1024
    \<and> hd out = 47 \<and> out_rep out (path_comps cwd path)"
proof (cases "hd path = 47")
  case True
  then show ?thesis
    using assms canonicalize_correct [of path 1024] by (auto simp: vfs_abspath_def path_fits_def path_comps_def)
next
  case False
  let ?q = "cwd @ (if cwd \<noteq> [] \<and> last cwd \<noteq> 47 then [47] else []) @ path"
  have cwd: "cwd \<noteq> []" "hd cwd = 47" using assms by (auto simp: path_fits_def)
  have len: "length ?q < 1024" using assms False by (simp add: path_fits_def)
  have "comps ?q = comps cwd @ comps path"
  proof (cases "last cwd = 47")
    case True
    then obtain x where "cwd = x @ [47]" using cwd by (cases cwd rule: rev_cases) auto
    then show ?thesis using comps_append [of x path] comps_append [of x "[]"]
      by (simp add: comps.simps [of "[]"])
  next
    case False
    then show ?thesis using cwd comps_append [of cwd path] by simp
  qed
  moreover have "hd ?q = 47" "?q \<noteq> []" using cwd by simp_all
  ultimately show ?thesis
    using canonicalize_correct [of ?q 1024] len assms False
    by (auto simp: vfs_abspath_def path_fits_def path_comps_def)
qed

section \<open>Properties\<close>

text \<open>
  C24. For every path that fits the 1024-byte buffers, \<^verbatim>\<open>vfs_abspath\<close> succeeds and its
  result has exactly the components of the path (after those of the working directory when the
  path is relative) with empty and dot components removed and every dot-dot taking back one
  component; \<^verbatim>\<open>vfs_dirname\<close> and \<^verbatim>\<open>vfs_basename\<close> split the result into all components
  but the last and the last.
\<close>

theorem vfs_abspath_split:
  assumes "path_fits cwd path"
  shows "\<exists>out d b. vfs_abspath cwd (Some path) 1024 = Some (Inr out) \<and> hd out = 47
    \<and> comps out = path_comps cwd path \<and> (\<forall>c \<in> set (comps out). proper c)
    \<and> vfs_dirname (Some out) 1024 = Inr d \<and> comps d = butlast (path_comps cwd path)
    \<and> vfs_basename (Some out) 1024 = Inr b
    \<and> b = (if path_comps cwd path = [] then [] else last (path_comps cwd path))"
proof -
  obtain out where o: "vfs_abspath cwd (Some path) 1024 = Some (Inr out)" "length out < 1024" "hd out = 47"
    and r: "out_rep out (path_comps cwd path)" using abspath_correct [OF assms] by blast
  have pr: "\<forall>c \<in> set (path_comps cwd path). proper c" using r by (simp add: out_rep_def)
  have "comps [47] = []" by (simp add: comps.simps)
  show ?thesis
  proof (cases "path_comps cwd path" rule: rev_cases)
    case Nil
    then show ?thesis using o r out_rep_comps [OF r] dirname_basename_root [of out 1024] \<open>comps [47] = []\<close> by simp
  next
    case (snoc st c)
    have "comps (join st) = st" using comps_join [of st "[]"] pr snoc by (simp add: proper_def)
    then have "comps (if st = [] then [47] else join st) = st" using \<open>comps [47] = []\<close> by simp
    then show ?thesis
      using o r out_rep_comps [OF r] pr snoc dirname_basename_snoc [of out st c 1024] by auto
  qed
qed

theorem vfs_abspath_split_witness:
  "path_fits (lit ''/home'') (lit ''a/./../b'') \<and>
   path_comps (lit ''/home'') (lit ''a/./../b'') = [lit ''home'', lit ''b''] \<and>
   (\<exists>out. vfs_abspath (lit ''/home'') (Some (lit ''a/./../b'')) 1024 = Some (Inr out)
     \<and> comps out = [lit ''home'', lit ''b''] \<and> vfs_basename (Some out) 1024 = Inr (lit ''b''))"
proof -
  have f: "path_fits (lit ''/home'') (lit ''a/./../b'')" by (simp add: path_fits_def lit_def)
  have c: "path_comps (lit ''/home'') (lit ''a/./../b'') = [lit ''home'', lit ''b'']"
    by (simp add: path_comps_def norm_comps_def norm_comp_def comps.simps lit_def)
  show ?thesis using vfs_abspath_split [OF f] f c by auto
qed

text \<open>A dot-dot at the end leaves a slash at the end of the result.\<close>

lemma canonicalize_trailing_slash:
  "vfs_canonicalize (Some (lit ''/a/b/..'')) 1024 = Some (Inr (lit ''/a/''))"
  "vfs_canonicalize (Some (lit ''/a'')) 1024 = Some (Inr (lit ''/a''))"
  by (simp_all add: vfs_canonicalize_def canon_loop.simps canon_push_def canon_pop_def pop_loop.simps lit_def)

end
