(* ===== verification/Fd.thy ===== *)
theory Fd
  imports Vfs_Types
begin

text \<open>
  Processes and file descriptors: the process table entry
  (\<^verbatim>\<open>include/scheduler/process.h\<close>), the descriptor structures
  (\<^verbatim>\<open>include/core/fd.h\<close>) and the descriptor table operations \<^verbatim>\<open>getnewfd\<close>,
  \<^verbatim>\<open>getfd\<close> and \<^verbatim>\<open>closefd\<close> of \<^verbatim>\<open>drivers/storage/fd/fd.c\<close>.  They work on the entry of the current
  process.  A slot of the descriptor table that \<^verbatim>\<open>malloc\<close> or \<^verbatim>\<open>realloc\<close> supplied and
  nothing has written is \<^term>\<open>None\<close>; reading it is undefined.

  The lemmas show that a descriptor obtained from an initialised table with a free slot can
  be used and closed and that no other descriptor changes, and that growing the table leaves
  it in a state where the next allocation is undefined.
\<close>

section \<open>Structures\<close>

text \<open>A pointer to a mount: the generation of the mount array it was taken from and the index.\<close>

type_synonym mptr = "nat \<times> nat"

datatype iofn = Stdin_read | Stdout_write

record iofd =
  io_in :: bool
  io_out :: bool
  io_write :: "iofn option"
  io_read :: "iofn option"

record file_t =
  f_mnt :: mptr
  f_inod :: vinode
  f_ino :: u64
  f_pos :: u64
  f_mnt_pos :: u64
  f_path :: cstr

record device =
  dev_mode :: u16
  dev_rdev :: u16

text \<open>The union of \<^verbatim>\<open>struct fdinfo\<close> with its type tag.\<close>

datatype fddata = FdFile file_t | FdDir file_t | FdSock int | FdFb u64 | FdFbw u64 | FdIo iofd | FdDev device

record fdinfo =
  fi_fd :: int
  fi_inuse :: bool
  fi_data :: fddata

text \<open>The registers of a process; the entry and the saved context hold the same ones.\<close>

record procctx =
  x_rip :: u64
  x_rsp :: u64
  x_rflags :: u64
  x_rax :: u64
  x_rbx :: u64
  x_rcx :: u64
  x_rdx :: u64
  x_rsi :: u64
  x_rdi :: u64
  x_rbp :: u64
  x_r8 :: u64
  x_r9 :: u64
  x_r10 :: u64
  x_r11 :: u64
  x_r12 :: u64
  x_r13 :: u64
  x_r14 :: u64
  x_r15 :: u64
  x_cs :: u16
  x_ss :: u16
  x_fs :: u16
  x_gs :: u16
  x_fsb :: u64
  x_gsb :: u64
  x_cr3 :: u64

record process_state =
  p_regs :: procctx
  p_pid :: u8
  p_is_dead :: bool
  p_ppid :: u8
  p_is_blocked :: bool
  p_wait_pid :: u8
  p_wake_ms :: u64
  p_pwd :: "cstr option"
  p_code :: u16
  p_codeptr :: u64
  p_uid :: u32
  p_gid :: u32
  p_euid :: u32
  p_egid :: u32
  p_perms :: u8
  p_currfb :: int
  p_fds :: "fdinfo option list option"
  p_nfds :: nat
  p_used :: bool

section \<open>The descriptor table\<close>

text \<open>The loop that looks for a free slot.\<close>

fun scan_fd :: "fdinfo option list \<Rightarrow> nat \<Rightarrow> nat \<Rightarrow> nat option option" where
  "scan_fd t i 0 = Some None"
| "scan_fd t i (Suc k) =
     (if i < length t then do {
        f \<leftarrow> t ! i;
        if \<not> fi_inuse f then Some (Some i) else scan_fd t (Suc i) k }
      else None)"

text \<open>The index of the new descriptor, or \<^term>\<open>None\<close> for NULL; the flags are the outcomes of
  \<^verbatim>\<open>malloc\<close> and \<^verbatim>\<open>realloc\<close>.\<close>

definition getnewfd ::
    "bool \<Rightarrow> bool \<Rightarrow> process_state \<Rightarrow> fdinfo \<Rightarrow> (nat option \<times> process_state) option" where
  "getnewfd ok1 ok2 p info =
     (let n = p_nfds p in
      if p_fds p = None \<and> \<not> ok1 then Some (None, p)
      else let t = (case p_fds p of None \<Rightarrow> replicate 10 None | Some t \<Rightarrow> t);
               p = (case p_fds p of None \<Rightarrow> p\<lparr>p_fds := Some t, p_nfds := p_nfds p + 10\<rparr> | Some _ \<Rightarrow> p)
      in do {
        slot \<leftarrow> scan_fd t 0 n;
        case slot of
          Some i \<Rightarrow>
            Some (Some i, p\<lparr>p_fds := Some (t[i := Some (info\<lparr>fi_inuse := True, fi_fd := int i\<rparr>)])\<rparr>)
        | None \<Rightarrow>
            if \<not> ok2 then Some (None, p)
            else let t = take (n + 10) t @ replicate (n + 10 - length t) None
                 in Some (Some n, p\<lparr>p_fds := Some (t[n := Some (info\<lparr>fi_inuse := True, fi_fd := int n\<rparr>)]),
                                    p_nfds := p_nfds p + 10\<rparr>) })"

text \<open>A descriptor is a 32-bit signed number.\<close>

definition getfd :: "process_state \<Rightarrow> int \<Rightarrow> (int + nat) option" where
  "getfd p fd =
     (if fd \<ge> int (p_nfds p) then Some (Inl (- EBADF))
      else if fd < 0 then Some (Inl (- EBADF))
      else do {
        t \<leftarrow> p_fds p;
        f \<leftarrow> (if nat fd < length t then t ! nat fd else None);
        if \<not> fi_inuse f then Some (Inl (- EBADF)) else Some (Inr (nat fd)) })"

text \<open>The descriptor a table index refers to, and an update of it.\<close>

definition fd_at :: "process_state \<Rightarrow> nat \<Rightarrow> fdinfo option" where
  "fd_at p i = do { t \<leftarrow> p_fds p; if i < length t then t ! i else None }"

definition set_fd :: "process_state \<Rightarrow> nat \<Rightarrow> fdinfo \<Rightarrow> process_state" where
  "set_fd p i f = p\<lparr>p_fds := map_option (\<lambda>t. t[i := Some f]) (p_fds p)\<rparr>"

text \<open>Of a slot that nothing has written only the flag is known after closing; as long as it is
  clear, nothing else of the slot is read.\<close>

definition closed_fd :: fdinfo where
  "closed_fd = \<lparr>fi_fd = 0, fi_inuse = False, fi_data = FdSock 0\<rparr>"

definition closefd :: "process_state \<Rightarrow> int \<Rightarrow> (int \<times> process_state) option" where
  "closefd p fd =
     (if fd \<ge> int (p_nfds p) then Some (- EBADF, p)
      else if fd < 0 then Some (- EBADF, p)
      else do {
        t \<leftarrow> p_fds p;
        if nat fd < length t
        then Some (0, p\<lparr>p_fds := Some (t[nat fd := Some (case t ! nat fd of None \<Rightarrow> closed_fd
               | Some f \<Rightarrow> f\<lparr>fi_inuse := False\<rparr>)])\<rparr>)
        else None })"

section \<open>Properties\<close>

text \<open>A table whose slots are all initialised.\<close>

definition fd_ok :: "process_state \<Rightarrow> fdinfo list \<Rightarrow> bool" where
  "fd_ok p fl \<longleftrightarrow> p_fds p = Some (map Some fl) \<and> p_nfds p = length fl"

lemma scan_fd_find:
  "i + k \<le> length fl \<Longrightarrow> scan_fd (map Some fl) i k = Some (find (\<lambda>j. \<not> fi_inuse (fl ! j)) [i..<i + k])"
proof (induction k arbitrary: i)
  case 0
  then show ?case by simp
next
  case (Suc k)
  have "[i..<i + Suc k] = i # [Suc i..<Suc i + k]" by (simp add: upt_conv_Cons)
  then show ?case using Suc by simp
qed

lemma getnewfd_free:
  assumes "fd_ok p fl" and "i < length fl" and "\<not> fi_inuse (fl ! i)" and "\<forall>j < i. fi_inuse (fl ! j)"
  shows "getnewfd ok1 ok2 p info =
    Some (Some i, set_fd p i (info\<lparr>fi_inuse := True, fi_fd := int i\<rparr>))"
proof -
  have "find (\<lambda>j. \<not> fi_inuse (fl ! j)) [0..<length fl] = Some i"
    using assms by (simp add: find_upt_iff)
  then show ?thesis using assms(1) scan_fd_find [of 0 "length fl" fl]
    by (simp add: getnewfd_def fd_ok_def set_fd_def)
qed

lemma set_fd_ok: "fd_ok p fl \<Longrightarrow> fd_ok (set_fd p i f) (fl[i := f])"
  by (simp add: fd_ok_def set_fd_def map_update)

lemma getfd_ok:
  "fd_ok p fl \<Longrightarrow> i < length fl \<Longrightarrow>
     getfd p (int i) = Some (if fi_inuse (fl ! i) then Inr i else Inl (- EBADF))"
  by (simp add: getfd_def fd_ok_def)

lemma closefd_ok:
  "fd_ok p fl \<Longrightarrow> i < length fl \<Longrightarrow>
     closefd p (int i) = Some (0, set_fd p i ((fl ! i)\<lparr>fi_inuse := False\<rparr>))"
  by (simp add: closefd_def fd_ok_def set_fd_def)

text \<open>
  On a descriptor table whose slots are initialised, \<^verbatim>\<open>getnewfd\<close> takes the lowest free
  descriptor, which \<^verbatim>\<open>getfd\<close> then finds with the given contents until \<^verbatim>\<open>closefd\<close> frees
  it again; no other descriptor changes.
\<close>

theorem fd_open_close:
  assumes "fd_ok p fl" and "i < length fl" and "\<not> fi_inuse (fl ! i)" and "\<forall>j < i. fi_inuse (fl ! j)"
  shows "\<exists>p1 p2. getnewfd ok1 ok2 p info = Some (Some i, p1)
    \<and> getfd p1 (int i) = Some (Inr i) \<and> fd_at p1 i = Some (info\<lparr>fi_inuse := True, fi_fd := int i\<rparr>)
    \<and> closefd p1 (int i) = Some (0, p2) \<and> getfd p2 (int i) = Some (Inl (- EBADF))
    \<and> (\<forall>j. j \<noteq> i \<longrightarrow> fd_at p1 j = fd_at p j \<and> fd_at p2 j = fd_at p j)"
proof -
  let ?f = "info\<lparr>fi_inuse := True, fi_fd := int i\<rparr>"
  let ?p1 = "set_fd p i ?f"
  let ?p2 = "set_fd ?p1 i (?f\<lparr>fi_inuse := False\<rparr>)"
  have o1: "fd_ok ?p1 (fl[i := ?f])" using assms(1) by (rule set_fd_ok)
  have o2: "fd_ok ?p2 (fl[i := ?f, i := ?f\<lparr>fi_inuse := False\<rparr>])" using o1 by (rule set_fd_ok)
  have "getnewfd ok1 ok2 p info = Some (Some i, ?p1)" using assms by (rule getnewfd_free)
  moreover have "getfd ?p1 (int i) = Some (Inr i)" using getfd_ok [OF o1, of i] assms(2) by simp
  moreover have "closefd ?p1 (int i) = Some (0, ?p2)" using closefd_ok [OF o1, of i] assms(2) by simp
  moreover have "getfd ?p2 (int i) = Some (Inl (- EBADF))" using getfd_ok [OF o2, of i] assms(2) by simp
  moreover have "fd_at ?p1 i = Some ?f" using assms(1,2) by (simp add: fd_at_def set_fd_def fd_ok_def)
  moreover have "fd_at ?p1 j = fd_at p j \<and> fd_at ?p2 j = fd_at p j" if "j \<noteq> i" for j
    using that assms(1) by (simp add: fd_at_def set_fd_def fd_ok_def)
  ultimately show ?thesis by blast
qed

definition io_fd :: "bool \<Rightarrow> fdinfo" where
  "io_fd u = \<lparr>fi_fd = 0, fi_inuse = u,
     fi_data = FdIo \<lparr>io_in = True, io_out = False, io_write = None, io_read = Some Stdin_read\<rparr>\<rparr>"

definition zero_ctx :: procctx where
  "zero_ctx = \<lparr>x_rip = 0, x_rsp = 0, x_rflags = 0, x_rax = 0, x_rbx = 0, x_rcx = 0, x_rdx = 0,
     x_rsi = 0, x_rdi = 0, x_rbp = 0, x_r8 = 0, x_r9 = 0, x_r10 = 0, x_r11 = 0, x_r12 = 0, x_r13 = 0,
     x_r14 = 0, x_r15 = 0, x_cs = 0, x_ss = 0, x_fs = 0, x_gs = 0, x_fsb = 0, x_gsb = 0, x_cr3 = 0\<rparr>"

text \<open>An entry of the zero-initialised process table.\<close>

definition zero_proc :: process_state where
  "zero_proc = \<lparr>p_regs = zero_ctx, p_pid = 0, p_is_dead = False, p_ppid = 0, p_is_blocked = False,
     p_wait_pid = 0, p_wake_ms = 0, p_pwd = None, p_code = 0, p_codeptr = 0, p_uid = 0, p_gid = 0,
     p_euid = 0, p_egid = 0, p_perms = 0, p_currfb = 0, p_fds = None, p_nfds = 0, p_used = False\<rparr>"

theorem fd_open_close_witness:
  "\<exists>p1 p2. getnewfd True True (zero_proc\<lparr>p_fds := Some [Some (io_fd True), Some (io_fd False)], p_nfds := 2\<rparr>)
       (io_fd False) = Some (Some 1, p1)
     \<and> getfd p1 1 = Some (Inr 1) \<and> closefd p1 1 = Some (0, p2) \<and> getfd p2 1 = Some (Inl (- EBADF))"
proof -
  have "fd_ok (zero_proc\<lparr>p_fds := Some [Some (io_fd True), Some (io_fd False)], p_nfds := 2\<rparr>)
    [io_fd True, io_fd False]" by (simp add: fd_ok_def)
  from fd_open_close [OF this, of 1 True True "io_fd False"] show ?thesis
    by (auto simp: io_fd_def)
qed

text \<open>Growing the table leaves nine slots that nobody has initialised; the next allocation
  reads the first of them.\<close>

lemma getnewfd_growth_stale:
  assumes "fd_ok p fl" and "\<forall>j < length fl. fi_inuse (fl ! j)"
  shows "\<exists>p'. getnewfd ok1 True p info = Some (Some (length fl), p')
    \<and> getnewfd ok1' ok2' p' info' = None"
proof -
  let ?n = "length fl"
  let ?f = "info\<lparr>fi_inuse := True, fi_fd := int ?n\<rparr>"
  have none: "find (\<lambda>j. \<not> fi_inuse (fl ! j)) [0..<?n] = None"
    using assms(2) by (auto simp: find_None_iff)
  let ?t = "map Some fl @ Some ?f # replicate 9 None"
  let ?p = "p\<lparr>p_fds := Some ?t, p_nfds := ?n + 10\<rparr>"
  have t: "(map Some fl @ replicate 10 None)[?n := Some ?f] = ?t"
    by (simp add: list_update_append numeral_eq_Suc)
  have "getnewfd ok1 True p info = Some (Some ?n, ?p)"
    using assms(1) none scan_fd_find [of 0 ?n fl] t by (simp add: getnewfd_def fd_ok_def Let_def)
  moreover have "scan_fd ?t 0 (?n + 10) = None"
  proof -
    have "scan_fd ?t i (?n + 10 - i) = None" if "i \<le> ?n + 1" for i
      using that
    proof (induction "?n + 1 - i" arbitrary: i)
      case 0
      then have "i = ?n + 1" by simp
      then show ?case by (simp add: nth_append numeral_eq_Suc)
    next
      case (Suc d)
      then have i: "i \<le> ?n" by simp
      have "scan_fd ?t (Suc i) (?n + 10 - Suc i) = None" using Suc.prems Suc.hyps(2) by (intro Suc.hyps(1)) simp_all
      moreover have "?n + 10 - i = Suc (?n + 10 - Suc i)" using i by simp
      moreover have "?t ! i = Some (if i < ?n then fl ! i else ?f)" using i by (auto simp: nth_append)
      moreover have "fi_inuse (if i < ?n then fl ! i else ?f)" using assms(2) by simp
      ultimately show ?case using i by simp
    qed
    from this [of 0] show ?thesis by simp
  qed
  ultimately show ?thesis by (intro exI [of _ ?p]) (simp add: getnewfd_def)
qed

end
