(* ===== verification/Vfs_Resolve.thy ===== *)
theory Vfs_Resolve
  imports Vfs_Path Fd
begin

text \<open>
  Mounts and path resolution of the virtual file system
  (\<^verbatim>\<open>drivers/storage/fs/vfs.c\<close>): the path stack, the tokenizer and \<^verbatim>\<open>vfs_resolve\<close>.

  The two buffers of the resolver are heap blocks.  A stack item is an offset into the path
  buffer or into the link buffer; the link buffer is overwritten by every symbolic link that is
  followed while items of earlier links still point into it.  The path stack is a list in array
  order: its last element is the top.  The contents of the stack \<^verbatim>\<open>done\<close> are never read, so
  only its height is kept.  The outcomes of the allocations are numbered in program order.
\<close>

section \<open>Mounts\<close>

record 's mnt =
  m_path :: cstr
  m_root_ino :: u32
  m_ops :: "'s vfsops option"
  m_blkid :: u32
  m_mntno :: nat
  m_priv :: "'s option"
  m_inuse :: bool

text \<open>Calls through the operation table of a mount; both the table and the private state must
  be there.\<close>

definition mnt_call :: "'s mnt \<Rightarrow> ('s vfsops \<Rightarrow> 's \<Rightarrow> 'a option) \<Rightarrow> 'a option" where
  "mnt_call m f = do { ops \<leftarrow> m_ops m; s \<leftarrow> m_priv m; f ops s }"

section \<open>Tokenizer\<close>

lemma load_u8_bound: "load_u8 b p = Some c \<Longrightarrow> p < length b"
  by (auto simp: load_u8_def load_cells_def split: if_splits)

text \<open>The bytes at an offset that satisfy a test are skipped.\<close>

function skip_while :: "(u8 \<Rightarrow> bool) \<Rightarrow> memblk \<Rightarrow> nat \<Rightarrow> nat option" where
  "skip_while P b p = do { c \<leftarrow> load_u8 b p; if P c then skip_while P b (Suc p) else Some p }"
  by pat_completeness auto

termination
  by (relation "measure (\<lambda>(P, b, p). length b - p)") (auto dest: load_u8_bound)

declare skip_while.simps [simp del]

text \<open>The NUL-terminated string at an offset of a block.\<close>

function blk_str :: "memblk \<Rightarrow> nat \<Rightarrow> cstr option" where
  "blk_str b p = do { c \<leftarrow> load_u8 b p;
     if c = 0 then Some [] else do { r \<leftarrow> blk_str b (Suc p); Some (c # r) } }"
  by pat_completeness auto
termination
  by (relation "measure (\<lambda>(b, p). length b - p)") (auto dest: load_u8_bound)

declare blk_str.simps [simp del]

text \<open>One component starting at \<^verbatim>\<open>st\<close>: its end, found by the caller, is turned into a
  terminator; the result is the block and the position after it.\<close>

definition cut_comp :: "memblk \<Rightarrow> nat \<Rightarrow> (memblk \<times> nat) option" where
  "cut_comp b q = do { c \<leftarrow> load_u8 b q;
     if c \<noteq> 0 then do { b' \<leftarrow> store_cells b q [Byte 0]; Some (b', Suc q) } else Some (b, q) }"

lemma skip_while_mono: "skip_while P b p = Some q \<Longrightarrow> p \<le> q"
proof (induction P b p rule: skip_while.induct)
  case (1 P b p)
  then show ?case
    by (subst (asm) skip_while.simps) (fastforce simp: bind_eq_Some_conv split: if_splits)
qed

lemma skip_while_moves:
  "load_u8 b p = Some c \<Longrightarrow> P c \<Longrightarrow> skip_while P b p = Some q \<Longrightarrow> p < q"
  by (subst (asm) skip_while.simps) (auto dest: skip_while_mono)

lemma skip_while_stop: "skip_while P b p = Some q \<Longrightarrow> \<exists>c. load_u8 b q = Some c \<and> \<not> P c"
proof (induction P b p rule: skip_while.induct)
  case (1 P b p)
  then show ?case
    by (subst (asm) (2) skip_while.simps) (auto simp: bind_eq_Some_conv split: if_splits)
qed

lemma cut_comp_props: "cut_comp b q = Some (b', q') \<Longrightarrow> length b' = length b \<and> q \<le> q' \<and> q < length b"
  by (auto simp: cut_comp_def bind_eq_Some_conv split: if_splits
      dest: store_cells_length load_u8_bound)

text \<open>\<^verbatim>\<open>pathstk_push\<close> on a stack of the given height.\<close>

definition pathstk_push :: "'a list \<Rightarrow> 'a \<Rightarrow> int + 'a list" where
  "pathstk_push stk x = (if length stk \<ge> 2048 then Inl (- EINVAL) else Inr (stk @ [x]))"

lemma tok_progress:
  assumes "skip_while (\<lambda>c. c = 47) b p = Some st" and "load_u8 b st = Some c" and "c \<noteq> 0"
    and "skip_while (\<lambda>c. c \<noteq> 47 \<and> c \<noteq> 0) b st = Some q" and "cut_comp b q = Some (b', q')"
  shows "length b' - q' < length b - p"
proof -
  have "p \<le> st" using assms(1) by (rule skip_while_mono)
  moreover have "c \<noteq> 47" using skip_while_stop [OF assms(1)] assms(2) by auto
  then have "st < q" using skip_while_moves [OF assms(2) _ assms(4)] assms(3) by simp
  ultimately show ?thesis using cut_comp_props [OF assms(5)] by auto
qed

function tok_loop :: "memblk \<Rightarrow> nat \<Rightarrow> nat list \<Rightarrow> (int + memblk \<times> nat list) option" where
  "tok_loop b p cs = do {
     c \<leftarrow> load_u8 b p;
     if c = 0 then Some (Inr (b, cs))
     else do {
       st \<leftarrow> skip_while (\<lambda>c. c = 47) b p;
       c \<leftarrow> load_u8 b st;
       if c = 0 then Some (Inr (b, cs))
       else do {
         q \<leftarrow> skip_while (\<lambda>c. c \<noteq> 47 \<and> c \<noteq> 0) b st;
         if q - st > 255 then Some (Inl (- ENAMETOOLONG))
         else do {
           (b', q') \<leftarrow> cut_comp b q;
           case pathstk_push cs st of Inl e \<Rightarrow> Some (Inl (- ENAMETOOLONG))
           | Inr cs' \<Rightarrow> tok_loop b' q' cs' } } } }"
  by pat_completeness auto

termination
  by (relation "measure (\<lambda>(b, p, cs). length b - p)") (auto intro: tok_progress)

declare tok_loop.simps [simp del]

section \<open>Resolution\<close>

datatype pitem = InPath nat | InLnk nat

fun item_str :: "memblk \<Rightarrow> memblk \<Rightarrow> pitem \<Rightarrow> cstr option" where
  "item_str pbuf lnkbuf (InPath p) = blk_str pbuf p"
| "item_str pbuf lnkbuf (InLnk p) = blk_str lnkbuf p"

text \<open>The state of the main loop.\<close>

record rstate =
  rs_lnkbuf :: memblk
  rs_stk :: "pitem list"
  rs_ino :: u32
  rs_symlnks :: nat
  rs_depth :: nat
  rs_done :: nat

text \<open>Following the link \<^verbatim>\<open>nxt\<close>: the target is read into the link buffer, cut into components
  and put under the remaining items of the stack.  The item count of the stack is not updated,
  so that only as many items as remained before are visible afterwards.\<close>

fun link_push :: "rstate \<Rightarrow> nat \<Rightarrow> int + memblk \<times> nat list \<Rightarrow> int + rstate" where
  "link_push r n (Inl e) = Inl e"
| "link_push r n (Inr (lnkbuf, tgt)) =
     (if length (rs_stk r) + length tgt > 2048 then Inl (- ENAMETOOLONG)
      else Inr (r\<lparr>rs_lnkbuf := lnkbuf, rs_symlnks := n,
        rs_stk := take (length (rs_stk r)) (map InLnk (rev tgt) @ rs_stk r)\<rparr>))"

definition expand_link :: "(nat \<Rightarrow> bool) \<Rightarrow> 's mnt \<Rightarrow> u32 \<Rightarrow> rstate \<Rightarrow> (int + rstate) option" where
  "expand_link al m nxt r =
     (let n = rs_symlnks r + 1 in
      if n > 40 then Some (Inl (- ELOOP))
      else do {
        (ret, cs) \<leftarrow> mnt_call m (\<lambda>ops s. op_readsym ops s nxt 4096);
        if ret < 0 then Some (Inl ret)
        else do {
          lnkbuf \<leftarrow> store_cells (rs_lnkbuf r) 0 cs;
          c \<leftarrow> load_u8 lnkbuf 0;
          if c = 47 \<and> \<not> al (3 + 2 * n) then Some (Inl (- ENOMEM))
          else if \<not> al (4 + 2 * n) then Some (Inl (- ENOMEM))
          else let r = (if c = 47 then r\<lparr>rs_ino := m_root_ino m, rs_depth := 0, rs_done := 0\<rparr> else r)
          in map_option (link_push r n) (tok_loop lnkbuf 0 []) } })"

text \<open>The component dot-dot.\<close>

definition resolve_up :: "'s mnt \<Rightarrow> rstate \<Rightarrow> (int + rstate) option" where
  "resolve_up m r =
     (if rs_depth r = 0 then Some (Inr (r\<lparr>rs_ino := m_root_ino m\<rparr>))
      else do {
        ret \<leftarrow> mnt_call m (\<lambda>ops s. op_lookup ops s (rs_ino r) [46, 46]);
        if ret < 0 then Some (Inl ret)
        else Some (Inr (r\<lparr>rs_ino := of_int ret, rs_depth := rs_depth r - 1, rs_done := rs_done r - 1\<rparr>)) })"

text \<open>What a component that was found leads to, by the type of its inode.\<close>

definition resolve_found :: "(nat \<Rightarrow> bool) \<Rightarrow> 's mnt \<Rightarrow> u32 \<Rightarrow> u32 \<Rightarrow> vinode \<Rightarrow> rstate \<Rightarrow> (int + rstate) option" where
  "resolve_found al m flags nxt inod r =
     (if S_TYPE (vi_mode inod) = S_IFLNK then
        if flags AND 0x01 \<noteq> 0 then Some (Inl (- ELOOP))
        else if rs_stk r = [] \<and> flags AND 0x04 = 0
        then if flags AND 0x02 \<noteq> 0 then Some (Inl (- ENOTDIR)) else Some (Inl (uint nxt))
        else expand_link al m nxt r
      else if rs_done r \<ge> 2048 then Some (Inl (- ENAMETOOLONG))
      else Some (Inr (r\<lparr>rs_ino := nxt, rs_depth := rs_depth r + 1, rs_done := rs_done r + 1\<rparr>)))"

definition resolve_name :: "(nat \<Rightarrow> bool) \<Rightarrow> 's mnt \<Rightarrow> u32 \<Rightarrow> cstr \<Rightarrow> rstate \<Rightarrow> (int + rstate) option" where
  "resolve_name al m flags nm r = do {
     ret \<leftarrow> mnt_call m (\<lambda>ops s. op_lookup ops s (rs_ino r) nm);
     if ret < 0 then Some (Inl ret)
     else let nxt = of_int ret in do {
       (ret, inod) \<leftarrow> mnt_call m (\<lambda>ops s. op_getino ops s nxt);
       if ret < 0 then Some (Inl ret)
       else do { inod \<leftarrow> inod; resolve_found al m flags nxt inod r } } }"

text \<open>One iteration of the loop: \<^term>\<open>Inl\<close> is a return from the function, \<^term>\<open>Inr\<close> the
  state of the next iteration.\<close>

definition resolve_step :: "(nat \<Rightarrow> bool) \<Rightarrow> 's mnt \<Rightarrow> u32 \<Rightarrow> memblk \<Rightarrow> rstate \<Rightarrow> (int + rstate) option" where
  "resolve_step al m flags pbuf r0 = do {
     nm \<leftarrow> item_str pbuf (rs_lnkbuf r0) (last (rs_stk r0));
     let r = r0\<lparr>rs_stk := butlast (rs_stk r0)\<rparr> in
     if nm = [46] then Some (Inr r)
     else if nm = [46, 46] then resolve_up m r
     else resolve_name al m flags nm r }"

lemma link_push_len: "link_push r n t = Inr r' \<Longrightarrow> length (rs_stk r') = length (rs_stk r)"
  by (cases "(r, n, t)" rule: link_push.cases) (auto split: if_splits)

lemma expand_link_len: "expand_link al m nxt r = Some (Inr r') \<Longrightarrow> length (rs_stk r') = length (rs_stk r)"
  by (auto simp: expand_link_def Let_def bind_eq_Some_conv dest!: link_push_len split: if_splits)

lemma resolve_found_len:
  "resolve_found al m flags nxt inod r = Some (Inr r') \<Longrightarrow> length (rs_stk r') = length (rs_stk r)"
  by (auto simp: resolve_found_def split: if_splits dest!: expand_link_len)

lemma resolve_name_len:
  "resolve_name al m flags nm r = Some (Inr r') \<Longrightarrow> length (rs_stk r') = length (rs_stk r)"
  by (auto simp: resolve_name_def Let_def bind_eq_Some_conv split: if_splits dest!: resolve_found_len)

lemma resolve_up_len: "resolve_up m r = Some (Inr r') \<Longrightarrow> length (rs_stk r') = length (rs_stk r)"
  by (auto simp: resolve_up_def bind_eq_Some_conv split: if_splits)

lemma resolve_step_progress:
  assumes "resolve_step al m flags pbuf r = Some (Inr r')" and "rs_stk r \<noteq> []"
  shows "length (rs_stk r') < length (rs_stk r)"
proof -
  have "length (rs_stk r') = length (butlast (rs_stk r))"
    using assms(1) by (auto simp: resolve_step_def bind_eq_Some_conv Let_def
        dest!: resolve_up_len resolve_name_len split: if_splits)
  then show ?thesis using assms(2) by simp
qed

function resolve_loop :: "(nat \<Rightarrow> bool) \<Rightarrow> 's mnt \<Rightarrow> u32 \<Rightarrow> memblk \<Rightarrow> rstate \<Rightarrow> (int + u32) option" where
  "resolve_loop al m flags pbuf r =
     (if rs_stk r = [] then Some (Inr (rs_ino r))
      else do {
        t \<leftarrow> resolve_step al m flags pbuf r;
        case t of Inl e \<Rightarrow> Some (Inl e) | Inr r' \<Rightarrow> resolve_loop al m flags pbuf r' })"
  by pat_completeness auto
termination
  by (relation "measure (\<lambda>(al, m, flags, pbuf, r). length (rs_stk r))")
    (auto dest!: resolve_step_progress)

declare resolve_loop.simps [simp del]

text \<open>The part of the path below the mount point.\<close>

definition rel_path :: "cstr \<Rightarrow> cstr \<Rightarrow> cstr" where
  "rel_path mpath path =
     (if take (length mpath) path = mpath
      then let p = drop (length mpath) path in if p \<noteq> [] \<and> hd p = 47 then tl p else p
      else path)"

definition vfs_resolve :: "(nat \<Rightarrow> bool) \<Rightarrow> 's mnt option \<Rightarrow> cstr option \<Rightarrow> u32 \<Rightarrow> int option" where
  "vfs_resolve al mnt path flags = (case (mnt, path) of
     (Some m, Some path) \<Rightarrow>
       if path = [] then Some (- EINVAL)
       else if \<not> al 0 \<or> \<not> al 1 \<or> \<not> al 2 then Some (- ENOMEM)
       else let rel = rel_path (m_path m) path in
         if length rel \<ge> 4096 then Some (- ENAMETOOLONG)
         else if \<not> al 3 then Some (- ENOMEM)
         else do {
           t \<leftarrow> tok_loop (cstr_cells rel @ fresh_blk (4095 - length rel)) 0 [];
           case t of Inl e \<Rightarrow> Some e
           | Inr (pbuf, cs) \<Rightarrow>
               if \<not> al 4 then Some (- ENOMEM)
               else do {
                 res \<leftarrow> resolve_loop al m flags pbuf
                   \<lparr>rs_lnkbuf = fresh_blk 4096, rs_stk = map InPath (rev cs), rs_ino = m_root_ino m,
                    rs_symlnks = 0, rs_depth = 0, rs_done = 0\<rparr>;
                 case res of Inl ret \<Rightarrow> Some ret
                 | Inr ino \<Rightarrow>
                     if flags AND 0x02 \<noteq> 0 then do {
                       (ret, inod) \<leftarrow> mnt_call m (\<lambda>ops s. op_getino ops s ino);
                       if ret < 0 then Some ret
                       else do {
                         inod \<leftarrow> inod;
                         if S_TYPE (vi_mode inod) \<noteq> S_IFDIR then Some (- ENOTDIR) else Some (uint ino) } }
                     else Some (uint ino) } }
   | _ \<Rightarrow> Some (- EINVAL))"

end
