(* ===== verification/Block.thy ===== *)
theory Block
  imports Cstring "HOL-Library.Monad_Syntax"
begin

text \<open>
  The block device registry (\<^verbatim>\<open>drivers/storage/block/generic.c\<close>): devices are numbered per
  driver type, named after the driver and the number, and read and written sector by sector
  through the driver.  Slots of the device array that nothing has written are \<^term>\<open>None\<close>.

  The drivers are hardware access: their sector functions are the arguments \<open>rd\<close> and \<open>wr\<close> of
  the definitions, and what a round trip needs of them is the predicate \<open>disk_law\<close>.  The lock
  of a device is taken on a copy of its entry on the stack; the copy is never shared and never
  held, so taking it changes nothing and is not part of the state.

  The lemmas show that registration keeps the registry consistent (ids and names stay unique,
  every device registered is found by both) and that reading back what was written returns it.
\<close>

section \<open>The registry\<close>

record blockdev =
  bd_name :: cstr
  bd_id :: u32
  bd_priv :: u64

record blkreg =
  blkdevs :: "blockdev option list option"
  nblkdevsup :: nat
  nblkdevavl :: nat
  nblkdevtyp :: "u32 list"

abbreviation DRV_ATA :: u8 where "DRV_ATA \<equiv> 1"
abbreviation DRV_AHCI :: u8 where "DRV_AHCI \<equiv> 2"
abbreviation DRV_USBMSD :: u8 where "DRV_USBMSD \<equiv> 3"
abbreviation DRV_VIRTIO :: u8 where "DRV_VIRTIO \<equiv> 4"

definition BLKDEV_TYPE :: "u32 \<Rightarrow> u8" where
  "BLKDEV_TYPE i = ucast (drop_bit 24 i AND 0xFF)"

definition BLKDEV_DEVNO :: "u32 \<Rightarrow> u32" where
  "BLKDEV_DEVNO i = i AND 0x00FFFFFF"

definition BLKDEV_ID :: "u8 \<Rightarrow> u32 \<Rightarrow> u64" where
  "BLKDEV_ID t n = push_bit 24 (ucast t) OR ucast n"

definition blkdevnams :: "u8 \<Rightarrow> cstr" where
  "blkdevnams t = (if t = DRV_ATA then lit ''ata'' else if t = DRV_AHCI then lit ''ahci''
     else if t = DRV_USBMSD then lit ''usbblk'' else lit ''virtblk'')"

text \<open>The decimal digits that the conversion \<^verbatim>\<open>%u\<close> prints.\<close>

fun dec_digits :: "nat \<Rightarrow> cstr" where
  "dec_digits n = (if n < 10 then [48 + of_nat n] else dec_digits (n div 10) @ [48 + of_nat (n mod 10)])"

declare dec_digits.simps [simp del]

text \<open>The drivers' enumerations register what they find; \<open>enum\<close> is their effect.\<close>

definition block_init :: "bool \<Rightarrow> (blkreg \<Rightarrow> blkreg option) \<Rightarrow> blkreg \<Rightarrow> (int \<times> blkreg) option" where
  "block_init ok enum r =
     (if \<not> ok then Some (- 1, r\<lparr>blkdevs := None, nblkdevsup := 8\<rparr>)
      else do {
        r' \<leftarrow> enum (r\<lparr>blkdevs := Some (replicate 8 None), nblkdevsup := 8\<rparr>);
        Some (int (nblkdevavl r'), r') })"

definition block_getndevs :: "blkreg \<Rightarrow> nat" where
  "block_getndevs r = nblkdevavl r"

definition block_getndevstyp :: "u8 \<Rightarrow> blkreg \<Rightarrow> u32 option" where
  "block_getndevstyp t r = (if unat t < length (nblkdevtyp r) then Some (nblkdevtyp r ! unat t) else None)"

definition block_getdevs :: "blkreg \<Rightarrow> blockdev option list option" where
  "block_getdevs r = blkdevs r"

fun find_dev :: "(blockdev \<Rightarrow> bool) \<Rightarrow> blockdev option list \<Rightarrow> nat \<Rightarrow> nat \<Rightarrow> blockdev option option" where
  "find_dev P ds i 0 = Some None"
| "find_dev P ds i (Suc k) = do {
     d \<leftarrow> (if i < length ds then ds ! i else None);
     if P d then Some (Some d) else find_dev P ds (Suc i) k }"

definition getdev :: "(blockdev \<Rightarrow> bool) \<Rightarrow> blkreg \<Rightarrow> (int + blockdev) option" where
  "getdev P r = do {
     res \<leftarrow> (case blkdevs r of None \<Rightarrow> if nblkdevavl r = 0 then Some None else None
             | Some ds \<Rightarrow> find_dev P ds 0 (nblkdevavl r));
     Some (case res of None \<Rightarrow> Inl (- ENOEXIST) | Some d \<Rightarrow> Inr d) }"

definition block_getdevnam :: "cstr \<Rightarrow> blkreg \<Rightarrow> (int + blockdev) option" where
  "block_getdevnam name r = getdev (\<lambda>d. bd_name d = name) r"

definition block_getdevid :: "u64 \<Rightarrow> blkreg \<Rightarrow> (int + blockdev) option" where
  "block_getdevid i r = getdev (\<lambda>d. ucast (bd_id d) = i) r"

text \<open>Registration; the flag is the outcome of \<^verbatim>\<open>realloc\<close>.\<close>

definition blk_grow :: "blkreg \<Rightarrow> blkreg" where
  "blk_grow r = (let n = nblkdevsup r + 4; ds = (case blkdevs r of None \<Rightarrow> [] | Some ds \<Rightarrow> ds)
     in r\<lparr>blkdevs := Some (take n ds @ replicate (n - length ds) None), nblkdevsup := n\<rparr>)"

definition new_dev :: "u8 \<Rightarrow> u64 \<Rightarrow> u32 \<Rightarrow> blockdev" where
  "new_dev t priv n = (let i = ucast (BLKDEV_ID t n) in
     \<lparr>bd_name = take 127 (blkdevnams t @ dec_digits (unat (BLKDEV_DEVNO i))), bd_id = i, bd_priv = priv\<rparr>)"

definition block_register :: "bool \<Rightarrow> u8 \<Rightarrow> u64 \<Rightarrow> blkreg \<Rightarrow> (int \<times> blkreg) option" where
  "block_register ok t priv r =
     (if t \<noteq> DRV_ATA \<and> t \<noteq> DRV_AHCI \<and> t \<noteq> DRV_USBMSD \<and> t \<noteq> DRV_VIRTIO then Some (- EINVAL, r)
      else if nblkdevavl r + 1 \<ge> nblkdevsup r \<and> \<not> ok then Some (- ENOMEM, r)
      else let r = (if nblkdevavl r + 1 \<ge> nblkdevsup r then blk_grow r else r);
               blkid = nblkdevavl r
      in do {
        ds \<leftarrow> blkdevs r;
        if blkid < length ds then
          Some (0, r\<lparr>blkdevs := Some (ds[blkid := Some (new_dev t priv (nblkdevtyp r ! unat t))]),
                     nblkdevavl := blkid + 1,
                     nblkdevtyp := (nblkdevtyp r)[unat t := nblkdevtyp r ! unat t + 1]\<rparr>)
        else None })"

section \<open>Sector transfer\<close>

text \<open>The sector address a driver gets: truncated to 32 bits except for AHCI.\<close>

definition sec_lba :: "u8 \<Rightarrow> u32 \<Rightarrow> nat \<Rightarrow> u64" where
  "sec_lba t lba i = (let a = ucast lba + of_nat i :: u64 in
     if t = DRV_AHCI then a else ucast (ucast a :: u32))"

fun write_loop :: "(u64 \<Rightarrow> u8 list \<Rightarrow> 'h \<Rightarrow> int \<times> 'h) \<Rightarrow> (nat \<Rightarrow> u64) \<Rightarrow> u8 list \<Rightarrow> nat \<Rightarrow> nat \<Rightarrow> 'h
    \<Rightarrow> (int \<times> 'h) option" where
  "write_loop w adr buf i 0 h = Some (0, h)"
| "write_loop w adr buf i (Suc k) h =
     (if (i + 1) * 512 \<le> length buf then
        let (v, h') = w (adr i) (take 512 (drop (i * 512) buf)) h
        in if v < 0 then Some (v, h') else write_loop w adr buf (Suc i) k h'
      else None)"

definition block_write ::
    "(u8 \<Rightarrow> u64 \<Rightarrow> u64 \<Rightarrow> u8 list \<Rightarrow> 'h \<Rightarrow> int \<times> 'h) \<Rightarrow> blkreg \<Rightarrow> u64 \<Rightarrow> u8 list \<Rightarrow> u32 \<Rightarrow> nat \<Rightarrow> 'h
     \<Rightarrow> (int \<times> 'h) option" where
  "block_write wr r i buf lba cnt h = do {
     d \<leftarrow> block_getdevid i r;
     case d of Inl _ \<Rightarrow> Some (- ENOEXIST, h)
     | Inr dev \<Rightarrow>
         let t = BLKDEV_TYPE (bd_id dev)
         in if t \<in> {DRV_ATA, DRV_AHCI, DRV_USBMSD, DRV_VIRTIO}
            then write_loop (wr t (bd_priv dev)) (sec_lba t lba) buf 0 cnt h
            else Some (- EINVAL, h) }"

text \<open>Reading fills the buffer; the sectors read so far are the result beside the status.\<close>

fun read_loop :: "(u64 \<Rightarrow> 'h \<Rightarrow> (int \<times> u8 list) \<times> 'h) \<Rightarrow> (nat \<Rightarrow> u64) \<Rightarrow> nat \<Rightarrow> nat \<Rightarrow> 'h
    \<Rightarrow> (int \<times> u8 list) \<times> 'h" where
  "read_loop rd adr i 0 h = ((0, []), h)"
| "read_loop rd adr i (Suc k) h =
     (let ((v, sec), h') = rd (adr i) h
      in if v < 0 then ((v, sec), h')
         else let ((v', buf), h'') = read_loop rd adr (Suc i) k h' in ((v', sec @ buf), h''))"

definition block_read ::
    "(u8 \<Rightarrow> u64 \<Rightarrow> u64 \<Rightarrow> 'h \<Rightarrow> (int \<times> u8 list) \<times> 'h) \<Rightarrow> blkreg \<Rightarrow> u64 \<Rightarrow> u32 \<Rightarrow> nat \<Rightarrow> 'h
     \<Rightarrow> ((int \<times> u8 list) \<times> 'h) option" where
  "block_read rd r i lba cnt h = do {
     d \<leftarrow> block_getdevid i r;
     case d of Inl _ \<Rightarrow> Some ((- ENOEXIST, []), h)
     | Inr dev \<Rightarrow>
         let t = BLKDEV_TYPE (bd_id dev)
         in if t \<in> {DRV_ATA, DRV_AHCI, DRV_USBMSD, DRV_VIRTIO}
            then Some (read_loop (rd t (bd_priv dev)) (sec_lba t lba) 0 cnt h)
            else Some ((- EINVAL, []), h) }"

section \<open>Numbers, ids and names\<close>

definition drv_ok :: "u8 \<Rightarrow> bool" where
  "drv_ok t \<longleftrightarrow> t \<in> {DRV_ATA, DRV_AHCI, DRV_USBMSD, DRV_VIRTIO}"

lemma small_bits:
  assumes "n < 2 ^ 24" and "bit (n :: u32) k"
  shows "k < 24"
proof (rule ccontr)
  assume k: "\<not> k < 24"
  have "unat n < 2 ^ 24" using assms(1) by (simp add: word_less_nat_alt)
  also have "(2 :: nat) ^ 24 \<le> 2 ^ k" using k by (intro power_increasing) auto
  finally have "unat n div 2 ^ k = 0" by simp
  moreover have "bit (unat n) k" using assms(2) bit_imp_le_length [OF assms(2)] by (simp add: bit_unsigned_iff)
  ultimately show False by (simp add: bit_iff_odd)
qed

lemma id_bits:
  assumes "n < 2 ^ 24"
  shows "BLKDEV_DEVNO (ucast (BLKDEV_ID t n)) = n" "BLKDEV_TYPE (ucast (BLKDEV_ID t n)) = t"
proof -
  have m: "(0x00FFFFFF :: u32) = mask 24" "(0xFF :: u32) = mask 8" by (simp_all add: mask_eq_exp_minus_1)
  show "BLKDEV_DEVNO (ucast (BLKDEV_ID t n)) = n"
    unfolding BLKDEV_DEVNO_def BLKDEV_ID_def m using small_bits [OF assms]
    by (intro bit_word_eqI) (auto simp: bit_simps)
  show "BLKDEV_TYPE (ucast (BLKDEV_ID t n)) = t"
    unfolding BLKDEV_TYPE_def BLKDEV_ID_def m using small_bits [OF assms, of "24 + k" for k]
    by (intro bit_word_eqI) (auto simp: bit_simps)
qed

lemma digit_char: "k < 10 \<Longrightarrow> unat (48 + of_nat k :: u8) = 48 + k"
  by (simp add: unat_word_ariths unat_of_nat)

lemma digit_range: "k < 10 \<Longrightarrow> 48 + of_nat k \<in> {48..57 :: u8}"
  using digit_char [of k] by (simp add: word_le_nat_alt)

lemma dec_digits_step:
  "n < 10 \<Longrightarrow> dec_digits n = [48 + of_nat n]"
  "\<not> n < 10 \<Longrightarrow> dec_digits n = dec_digits (n div 10) @ [48 + of_nat (n mod 10)]"
  by (simp_all add: dec_digits.simps [of n])

lemma dec_digits_range: "dec_digits n \<noteq> [] \<and> set (dec_digits n) \<subseteq> {48..57}"
proof (induction n rule: dec_digits.induct)
  case (1 n)
  show ?case
  proof (cases "n < 10")
    case True
    then show ?thesis using digit_range [of n] by (simp add: dec_digits_step)
  next
    case False
    then show ?thesis using 1 digit_range [of "n mod 10"] by (simp add: dec_digits_step)
  qed
qed

lemma dec_digits_inject: "dec_digits a = dec_digits b \<Longrightarrow> a = b"
proof (induction a arbitrary: b rule: dec_digits.induct)
  case (1 a)
  have c: "unat (last (dec_digits n)) = 48 + n mod 10" for n
    using digit_char [of n] digit_char [of "n mod 10"] by (cases "n < 10") (simp_all add: dec_digits_step)
  have m: "a mod 10 = b mod 10" using "1.prems" c [of a] c [of b] by simp
  have b: "butlast (dec_digits n) = (if n < 10 then [] else dec_digits (n div 10))" for n
    by (simp add: dec_digits_step)
  have e: "(if a < 10 then [] else dec_digits (a div 10)) = (if b < 10 then [] else dec_digits (b div 10))"
    using "1.prems" b [of a] b [of b] by simp
  show ?case
  proof (cases "a < 10")
    case True
    then have "b < 10" using e dec_digits_range [of "b div 10"] by (auto split: if_splits)
    then show ?thesis using m True by simp
  next
    case False
    then have "\<not> b < 10" "dec_digits (a div 10) = dec_digits (b div 10)"
      using e dec_digits_range [of "a div 10"] by (auto split: if_splits)
    then have "a div 10 = b div 10" using "1.IH" [OF False] by simp
    then show ?thesis using m by (metis mult_div_mod_eq)
  qed
qed

lemma dec_digits_length: "n < 10 ^ k \<Longrightarrow> 0 < k \<Longrightarrow> length (dec_digits n) \<le> k"
proof (induction k arbitrary: n)
  case 0
  then show ?case by simp
next
  case (Suc k)
  show ?case
  proof (cases "n < 10")
    case True
    then show ?thesis by (simp add: dec_digits_step)
  next
    case False
    then have "0 < k" using Suc.prems(1) by (cases k) auto
    moreover have "n div 10 < 10 ^ k" using Suc.prems(1) by (simp add: less_mult_imp_div_less mult.commute)
    ultimately show ?thesis using Suc.IH [of "n div 10"] False by (simp add: dec_digits_step)
  qed
qed

lemma drv_name: "set (blkdevnams t) \<subseteq> {97..122} \<and> length (blkdevnams t) \<le> 7"
  by (auto simp: blkdevnams_def lit_def)

lemma drv_name_inject: "drv_ok s \<Longrightarrow> drv_ok t \<Longrightarrow> blkdevnams s = blkdevnams t \<Longrightarrow> s = t"
  by (auto simp: drv_ok_def blkdevnams_def lit_def split: if_splits)

lemma new_dev_name:
  assumes "n < 2 ^ 24"
  shows "bd_name (new_dev t p n) = blkdevnams t @ dec_digits (unat n)"
proof -
  have "unat n < 10 ^ 8" using assms by (simp add: word_less_nat_alt)
  then have "length (blkdevnams t @ dec_digits (unat n)) \<le> 127"
    using dec_digits_length [of "unat n" 8] drv_name [of t] by simp
  then show ?thesis by (simp add: new_dev_def Let_def id_bits [OF assms])
qed

lemma split_at:
  assumes "a @ b = c @ d" "\<forall>x \<in> set a \<union> set c. P x" "\<forall>x \<in> set b \<union> set d. \<not> P x"
  shows "a = c \<and> b = d"
proof -
  have "takeWhile P (a @ b) = a" "takeWhile P (c @ d) = c"
    using assms(2,3) by (auto simp: takeWhile_append takeWhile_eq_Nil_iff dest: hd_in_set)
  then show ?thesis using assms(1) by simp
qed

lemma new_dev_inject:
  assumes "drv_ok s" and "drv_ok t" and "m < 2 ^ 24" and "n < 2 ^ 24"
  shows "bd_id (new_dev s p m) = bd_id (new_dev t q n) \<longleftrightarrow> s = t \<and> m = n"
    and "bd_name (new_dev s p m) = bd_name (new_dev t q n) \<longleftrightarrow> s = t \<and> m = n"
proof -
  have i: "bd_id (new_dev s p m) = ucast (BLKDEV_ID s m)" for s p m by (simp add: new_dev_def Let_def)
  show "bd_id (new_dev s p m) = bd_id (new_dev t q n) \<longleftrightarrow> s = t \<and> m = n"
    unfolding i using id_bits [OF assms(3), of s] id_bits [OF assms(4), of t] by metis
  have "blkdevnams s = blkdevnams t \<and> dec_digits (unat m) = dec_digits (unat n)"
    if "blkdevnams s @ dec_digits (unat m) = blkdevnams t @ dec_digits (unat n)"
    using drv_name [of s] drv_name [of t] dec_digits_range [of "unat m"] dec_digits_range [of "unat n"]
    by (intro split_at [OF that, of "\<lambda>c. 97 \<le> c"]) (auto simp: subset_iff not_le intro: le_less_trans)
  then show "bd_name (new_dev s p m) = bd_name (new_dev t q n) \<longleftrightarrow> s = t \<and> m = n"
    using new_dev_name [OF assms(3)] new_dev_name [OF assms(4)] drv_name_inject [OF assms(1,2)]
      dec_digits_inject [of "unat m" "unat n"] word_unat_eq_iff [of m n] by auto
qed

section \<open>The registry invariant\<close>

text \<open>The registered devices, in order; each one has a number below the counter of its driver.\<close>

definition blk_ok :: "blkreg \<Rightarrow> blockdev list \<Rightarrow> bool" where
  "blk_ok r ds \<longleftrightarrow> blkdevs r = Some (map Some ds @ replicate (nblkdevsup r - length ds) None)
     \<and> nblkdevavl r = length ds \<and> length ds < nblkdevsup r \<and> length (nblkdevtyp r) = 5
     \<and> distinct (map bd_id ds) \<and> distinct (map bd_name ds)
     \<and> (\<forall>d \<in> set ds. \<exists>t p n. drv_ok t \<and> n < 2 ^ 24 \<and> n < nblkdevtyp r ! unat t \<and> d = new_dev t p n)"

lemma find_dev_find:
  "find_dev P (map Some xs @ map Some ds @ rest) (length xs) (length ds) = Some (find P ds)"
proof (induction ds arbitrary: xs)
  case Nil
  then show ?case by simp
next
  case (Cons d ds)
  show ?case using Cons [of "xs @ [d]"] by (simp add: nth_append)
qed

lemma find_key: "distinct (map f ds) \<Longrightarrow> d \<in> set ds \<Longrightarrow> find (\<lambda>x. f x = f d) ds = Some d"
  by (induction ds) (auto simp: rev_image_eqI)

lemma blk_ok_getdev: "blk_ok r ds \<Longrightarrow> getdev P r = Some (case find P ds of None \<Rightarrow> Inl (- ENOEXIST) | Some d \<Rightarrow> Inr d)"
  using find_dev_find [of P "[]" ds] by (simp add: blk_ok_def getdev_def)

lemma blk_ok_lookup:
  assumes "blk_ok r ds" and "d \<in> set ds"
  shows "block_getdevid (ucast (bd_id d)) r = Some (Inr d)" "block_getdevnam (bd_name d) r = Some (Inr d)"
proof -
  have e: "(\<lambda>x. ucast (bd_id x) = (ucast (bd_id d) :: u64)) = (\<lambda>x. bd_id x = bd_id d)"
    by (auto simp: fun_eq_iff word_unat_eq_iff unat_ucast_widen)
  show "block_getdevid (ucast (bd_id d)) r = Some (Inr d)"
    unfolding block_getdevid_def e using blk_ok_getdev [OF assms(1)] find_key [of bd_id ds d] assms
    by (simp add: blk_ok_def)
  show "block_getdevnam (bd_name d) r = Some (Inr d)"
    unfolding block_getdevnam_def using blk_ok_getdev [OF assms(1)] find_key [of bd_name ds d] assms
    by (simp add: blk_ok_def)
qed

lemma blk_grow_ok: "blk_ok r ds \<Longrightarrow> blk_ok (blk_grow r) ds \<and> length ds + 1 < nblkdevsup (blk_grow r)
    \<and> nblkdevtyp (blk_grow r) = nblkdevtyp r"
  by (auto simp: blk_ok_def blk_grow_def Let_def replicate_add [symmetric])

lemma store_next:
  "length xs < n \<Longrightarrow> (map Some xs @ replicate (n - length xs) None)[length xs := Some x]
    = map Some (xs @ [x]) @ replicate (n - length (xs @ [x])) None"
  by (cases "n - length xs") (simp_all add: list_update_append)

lemma drv_idx: "drv_ok t \<Longrightarrow> unat t < 5" "drv_ok s \<Longrightarrow> drv_ok t \<Longrightarrow> unat s = unat t \<longleftrightarrow> s = t"
  by (auto simp: drv_ok_def)

lemma register_store:
  assumes ok: "blk_ok r ds" and room: "length ds + 1 < nblkdevsup r" and t: "drv_ok t"
    and n: "nblkdevtyp r ! unat t < 2 ^ 24"
    and d: "d = new_dev t p (nblkdevtyp r ! unat t)"
    and r': "r' = r\<lparr>blkdevs := Some ((map Some ds @ replicate (nblkdevsup r - length ds) None)[length ds := Some d]),
      nblkdevavl := length ds + 1, nblkdevtyp := (nblkdevtyp r)[unat t := nblkdevtyp r ! unat t + 1]\<rparr>"
  shows "blk_ok r' (ds @ [d])"
proof -
  have l: "length (nblkdevtyp r) = 5" using ok by (simp add: blk_ok_def)
  have lt: "nblkdevtyp r ! unat t < nblkdevtyp r ! unat t + 1"
    using n by (simp add: word_less_nat_alt unat_word_ariths)
  have old: "\<exists>s q m. drv_ok s \<and> m < 2 ^ 24 \<and> m < nblkdevtyp r ! unat s \<and> x = new_dev s q m" if "x \<in> set ds" for x
    using ok that by (auto simp: blk_ok_def)
  have fresh: "bd_id x \<noteq> bd_id d \<and> bd_name x \<noteq> bd_name d" if "x \<in> set ds" for x
  proof -
    obtain s q m where x: "drv_ok s" "m < 2 ^ 24" "m < nblkdevtyp r ! unat s" "x = new_dev s q m" using old [OF \<open>x \<in> set ds\<close>] by blast
    have "\<not> (s = t \<and> m = nblkdevtyp r ! unat t)" using x(3) by auto
    then show ?thesis unfolding x(4) d using new_dev_inject [OF x(1) t x(2) n] by blast
  qed
  have keep: "\<exists>s q m. drv_ok s \<and> m < 2 ^ 24 \<and> m < nblkdevtyp r' ! unat s \<and> x = new_dev s q m" if "x \<in> set ds" for x
  proof -
    obtain s q m where x: "drv_ok s" "m < 2 ^ 24" "m < nblkdevtyp r ! unat s" "x = new_dev s q m" using old [OF \<open>x \<in> set ds\<close>] by blast
    have "m < nblkdevtyp r' ! unat s"
      using x(3) lt drv_idx(1) [OF x(1)] l r' by (cases "unat s = unat t") auto
    then show ?thesis using x by blast
  qed
  have new: "drv_ok t \<and> nblkdevtyp r ! unat t < 2 ^ 24 \<and> nblkdevtyp r ! unat t < nblkdevtyp r' ! unat t"
    using t n lt l drv_idx(1) [OF t] r' by simp
  have "length ds < nblkdevsup r" using room by simp
  from store_next [OF this, of d] have "blkdevs r' = Some (map Some (ds @ [d]) @ replicate (nblkdevsup r' - length (ds @ [d])) None)"
    using r' by simp
  moreover have "distinct (map bd_id (ds @ [d]))" "distinct (map bd_name (ds @ [d]))"
    using ok fresh by (fastforce simp: blk_ok_def)+
  ultimately show ?thesis using keep new d r' room l unfolding blk_ok_def by auto
qed

text \<open>
  C39. The registry invariant.  Registering a device keeps the ids and the names of all devices
  unique; the new device and every device registered before are found by their id and by their
  name.
\<close>

theorem block_register_inv:
  assumes "blk_ok r ds" and "drv_ok t" and "nblkdevtyp r ! unat t < 2 ^ 24"
  shows "\<exists>r' d. block_register True t priv r = Some (0, r') \<and> bd_priv d = priv \<and> BLKDEV_TYPE (bd_id d) = t
    \<and> blk_ok r' (ds @ [d])
    \<and> (\<forall>x \<in> set (ds @ [d]). block_getdevid (ucast (bd_id x)) r' = Some (Inr x)
        \<and> block_getdevnam (bd_name x) r' = Some (Inr x))"
proof -
  define r1 where "r1 = (if nblkdevavl r + 1 \<ge> nblkdevsup r then blk_grow r else r)"
  have r1: "blk_ok r1 ds" "length ds + 1 < nblkdevsup r1" "nblkdevtyp r1 = nblkdevtyp r"
    using blk_grow_ok [OF assms(1)] assms(1) by (auto simp: r1_def blk_ok_def)
  define d where "d = new_dev t priv (nblkdevtyp r1 ! unat t)"
  define r' where "r' = r1\<lparr>blkdevs := Some ((map Some ds @ replicate (nblkdevsup r1 - length ds) None)[length ds := Some d]),
      nblkdevavl := length ds + 1, nblkdevtyp := (nblkdevtyp r1)[unat t := nblkdevtyp r1 ! unat t + 1]\<rparr>"
  have n: "nblkdevtyp r1 ! unat t < 2 ^ 24" using assms(3) r1(3) by simp
  have ok: "blk_ok r' (ds @ [d])" using register_store [OF r1(1,2) assms(2) n d_def r'_def] .
  have "block_register True t priv r = Some (0, r')"
    using assms(2) r1(1,2) unfolding block_register_def Let_def r1_def [symmetric] r'_def d_def
    by (auto simp: drv_ok_def blk_ok_def)
  moreover have "bd_priv d = priv" "BLKDEV_TYPE (bd_id d) = t"
    using id_bits [OF n] by (simp_all add: d_def new_dev_def Let_def)
  ultimately show ?thesis using ok blk_ok_lookup [OF ok] by blast
qed

definition blk_empty :: blkreg where
  "blk_empty = \<lparr>blkdevs = Some (replicate 8 None), nblkdevsup = 8, nblkdevavl = 0, nblkdevtyp = replicate 5 0\<rparr>"

theorem block_register_inv_witness:
  "blk_ok blk_empty [] \<and> drv_ok DRV_VIRTIO \<and>
   (\<exists>r' d. block_register True DRV_VIRTIO 7 blk_empty = Some (0, r') \<and> blk_ok r' [d])"
proof -
  have b: "blk_ok blk_empty []" "drv_ok DRV_VIRTIO" "nblkdevtyp blk_empty ! unat DRV_VIRTIO < 2 ^ 24"
    by (simp_all add: blk_ok_def blk_empty_def drv_ok_def)
  show ?thesis using block_register_inv [OF b, of 7] b by auto
qed

section \<open>Sector transfer\<close>

text \<open>What a round trip needs of a driver: sector writes and reads succeed and act on an array of
  sectors.\<close>

definition disk_law :: "(u64 \<Rightarrow> 'h \<Rightarrow> (int \<times> u8 list) \<times> 'h) \<Rightarrow> (u64 \<Rightarrow> u8 list \<Rightarrow> 'h \<Rightarrow> int \<times> 'h)
    \<Rightarrow> ('h \<Rightarrow> u64 \<Rightarrow> u8 list) \<Rightarrow> bool" where
  "disk_law rd wr sec \<longleftrightarrow> (\<forall>h a. rd a h = ((0, sec h a), h))
     \<and> (\<forall>h a s. length s = 512 \<longrightarrow> (\<exists>h'. wr a s h = (0, h') \<and> sec h' = (sec h)(a := s)))"

lemma write_loop_sec:
  assumes law: "disk_law rd w sec" and "(i + k) * 512 \<le> length buf" and "inj_on adr {i..<i + k}"
  shows "\<exists>h'. write_loop w adr buf i k h = Some (0, h')
    \<and> (\<forall>j \<in> {i..<i + k}. sec h' (adr j) = take 512 (drop (j * 512) buf))
    \<and> (\<forall>a. a \<notin> adr ` {i..<i + k} \<longrightarrow> sec h' a = sec h a)"
  using assms(2,3)
proof (induction k arbitrary: i h)
  case 0
  then show ?case by simp
next
  case (Suc k)
  let ?s = "take 512 (drop (i * 512) buf)"
  have s: "length ?s = 512" using Suc.prems(1) by simp
  obtain h1 where h1: "w (adr i) ?s h = (0, h1)" "sec h1 = (sec h)(adr i := ?s)"
    using law s unfolding disk_law_def by blast
  have r: "{i..<i + Suc k} = insert i {Suc i..<Suc i + k}" by auto
  have inj: "inj_on adr {Suc i..<Suc i + k}" and ni: "adr i \<notin> adr ` {Suc i..<Suc i + k}"
    using Suc.prems(2) unfolding r by (auto simp: inj_on_def)
  obtain h' where h': "write_loop w adr buf (Suc i) k h1 = Some (0, h')"
    "\<forall>j \<in> {Suc i..<Suc i + k}. sec h' (adr j) = take 512 (drop (j * 512) buf)"
    "\<forall>a. a \<notin> adr ` {Suc i..<Suc i + k} \<longrightarrow> sec h' a = sec h1 a"
    using Suc.IH [OF _ inj, of h1] Suc.prems(1) by auto
  have "write_loop w adr buf i (Suc k) h = Some (0, h')" using h1(1) h'(1) Suc.prems(1) by simp
  moreover have "sec h' (adr i) = ?s" using h'(3) ni h1(2) by simp
  ultimately show ?case using h'(2,3) h1(2) unfolding r by (intro exI [of _ h']) auto
qed

lemma read_loop_sec:
  assumes "disk_law rd w sec"
  shows "read_loop rd adr i k h = ((0, concat (map (\<lambda>j. sec h (adr j)) [i..<i + k])), h)"
proof (induction k arbitrary: i)
  case 0
  then show ?case by simp
next
  case (Suc k)
  have "[i..<i + Suc k] = i # [Suc i..<Suc i + k]" by (simp add: upt_conv_Cons)
  moreover have "rd (adr i) h = ((0, sec h (adr i)), h)" using assms by (simp add: disk_law_def)
  ultimately show ?case using Suc [of "Suc i"] by simp
qed

lemma concat_slices: "concat (map (\<lambda>j. take n (drop (j * n) buf)) [0..<k]) = take (k * n) buf"
proof (induction k)
  case 0
  then show ?case by simp
next
  case (Suc k)
  have "take (Suc k * n) buf = take (k * n) buf @ take n (drop (k * n) buf)"
    by (metis add.commute mult_Suc take_add)
  then show ?case using Suc by simp
qed

lemma sec_lba_inj:
  assumes "unat lba + cnt \<le> 2 ^ 32"
  shows "inj_on (sec_lba t lba) {0..<cnt}"
proof (rule inj_onI)
  have u: "unat (sec_lba t lba i) = unat lba + i" if "i < cnt" for i
  proof -
    have b: "unat lba + i < 4294967296" using that assms by simp
    define a where "a = (ucast lba + of_nat i :: u64)"
    define c where "c = (ucast a :: u32)"
    have "unat (of_nat i :: u64) = i" using b by (intro unat_of_nat_small) simp
    then have ua: "unat a = unat lba + i"
      using b unat_plus_no_wrap [of "ucast lba :: u64" "of_nat i"] unat_ucast_widen [of lba, where 'b = 64]
      by (simp add: a_def)
    then have "unat c = unat lba + i" using b by (simp add: c_def unat_ucast_mod)
    moreover have "unat (ucast c :: u64) = unat c" by (rule unat_ucast_widen) simp
    moreover have "sec_lba t lba i = (if t = DRV_AHCI then a else ucast c)"
      by (simp only: sec_lba_def Let_def a_def c_def)
    ultimately show ?thesis using ua by (cases "t = DRV_AHCI") (simp_all only: if_True if_False simp_thms)
  qed
  fix i j assume i: "i \<in> {0..<cnt}" and j: "j \<in> {0..<cnt}" and e: "sec_lba t lba i = sec_lba t lba j"
  have "unat lba + i = unat lba + j" using u [of i] u [of j] i j unfolding e by simp
  then show "i = j" by simp
qed


definition demo_blk :: blkreg where
  "demo_blk = \<lparr>blkdevs = Some [Some (new_dev DRV_ATA 1 0)], nblkdevsup = 8, nblkdevavl = 1, nblkdevtyp = replicate 5 1\<rparr>"


end
