(* ===== verification/Ramfs.thy ===== *)
theory Ramfs
  imports Vfs_Types
begin

text \<open>
  Model of the memory file system (\<^verbatim>\<open>drivers/storage/fs/ramfs.c\<close>,
  \<^verbatim>\<open>include/drivers/storage/fs/ramfs.h\<close>).  The private state of a mount is the inode
  table, the number of inodes and the allocation hint; a table slot that \<^verbatim>\<open>realloc\<close> added
  and nothing has written is \<^term>\<open>None\<close>.  The data of an inode is a heap block of cells, so
  the directory entries stored in it are read and written at their byte offsets and a slot
  that was never written reads as undefined.  The outcomes of \<^verbatim>\<open>malloc\<close> and \<^verbatim>\<open>realloc\<close>
  are arguments of the operations.
\<close>

section \<open>State\<close>

record ramfs_inode =
  ri_used :: u8
  ri_mode :: u16
  ri_uid :: u16
  ri_atime :: u32
  ri_ctime :: u32
  ri_mtime :: u32
  ri_gid :: u16
  ri_size :: u64
  ri_rdev :: u32
  ri_allocd :: u64
  ri_dptr :: "memblk option"

record ramfs_dirent =
  rd_used :: u8
  rd_inode :: u32
  rd_namlen :: u32
  rd_namep :: "cstr option"

record ramfs_info =
  inodtbl :: "ramfs_inode option list"
  ninodes :: u32
  freehint :: u32

abbreviation (input) dirent_size :: nat where "dirent_size \<equiv> 24"

text \<open>The layout of a directory entry: \<^verbatim>\<open>used\<close> at 0, \<^verbatim>\<open>inode\<close> at 4, \<^verbatim>\<open>namlen\<close> at 8,
  \<^verbatim>\<open>namep\<close> at 16, with padding between.\<close>

definition dirent_cells :: "ramfs_dirent \<Rightarrow> memval list" where
  "dirent_cells e = [Byte (rd_used e), Undef, Undef, Undef] @ u32_cells (rd_inode e)
     @ u32_cells (rd_namlen e) @ replicate 4 Undef @ ptr_cells (rd_namep e)"

definition dent_used :: "memblk \<Rightarrow> nat \<Rightarrow> u8 option" where
  "dent_used dir i = load_u8 dir (dirent_size * i)"

definition dent_inode :: "memblk \<Rightarrow> nat \<Rightarrow> u32 option" where
  "dent_inode dir i = load_u32 dir (dirent_size * i + 4)"

definition dent_namlen :: "memblk \<Rightarrow> nat \<Rightarrow> u32 option" where
  "dent_namlen dir i = load_u32 dir (dirent_size * i + 8)"

definition dent_namep :: "memblk \<Rightarrow> nat \<Rightarrow> cstr option option" where
  "dent_namep dir i = load_ptr dir (dirent_size * i + 16)"

section \<open>Inodes\<close>

text \<open>Slot \<^verbatim>\<open>i\<close> of the inode table.\<close>

definition tbl_get :: "ramfs_inode option list \<Rightarrow> nat \<Rightarrow> ramfs_inode option" where
  "tbl_get t i = (if i < length t then t ! i else None)"

text \<open>A loop over the table that looks for an unused slot; the last argument counts the
  iterations left.\<close>

fun scan_free :: "ramfs_inode option list \<Rightarrow> nat \<Rightarrow> nat \<Rightarrow> nat option option" where
  "scan_free t i 0 = Some None"
| "scan_free t i (Suc k) = do {
     inod \<leftarrow> tbl_get t i;
     if ri_used inod = 0 then Some (Some i) else scan_free t (Suc i) k }"

definition findfreeino :: "bool \<Rightarrow> ramfs_info \<Rightarrow> (u32 \<times> ramfs_info) option" where
  "findfreeino ok fs0 =
     (let fs = (if freehint fs0 \<ge> ninodes fs0 then fs0\<lparr>freehint := 0\<rparr> else fs0);
          h = unat (freehint fs)
      in do {
        r \<leftarrow> scan_free (inodtbl fs) h (unat (ninodes fs) - h);
        case r of Some i \<Rightarrow> Some (of_nat (i + 1), fs\<lparr>freehint := of_nat (i + 1)\<rparr>)
        | None \<Rightarrow> do {
            r \<leftarrow> scan_free (inodtbl fs) 0 h;
            case r of Some i \<Rightarrow> Some (of_nat (i + 1), fs\<lparr>freehint := of_nat (i + 1)\<rparr>)
            | None \<Rightarrow>
                if \<not> ok then Some (0, fs)
                else let ino = ninodes fs + 1;
                         n = unat (ninodes fs + 64)
                     in Some (ino, fs\<lparr>inodtbl := take n (inodtbl fs) @ replicate (n - length (inodtbl fs)) None,
                                      ninodes := ninodes fs + 64, freehint := ino\<rparr>) } })"

definition getinod :: "ramfs_info \<Rightarrow> u32 \<Rightarrow> ramfs_inode option option" where
  "getinod fs ino =
     (if ino = 0 \<or> ino > ninodes fs then Some None
      else do {
        inode \<leftarrow> tbl_get (inodtbl fs) (unat (ino - 1));
        if ri_used inode \<noteq> 0 then Some (Some inode) else Some None })"

text \<open>A store through the pointer that \<^verbatim>\<open>getinod\<close> returned.\<close>

definition put_inod :: "ramfs_info \<Rightarrow> u32 \<Rightarrow> ramfs_inode \<Rightarrow> ramfs_info" where
  "put_inod fs ino inod = fs\<lparr>inodtbl := (inodtbl fs)[unat (ino - 1) := Some inod]\<rparr>"

text \<open>The blocks that \<^verbatim>\<open>umount\<close> hands to \<^verbatim>\<open>free\<close>, in order.\<close>

fun umount_loop :: "ramfs_inode option list \<Rightarrow> nat \<Rightarrow> nat \<Rightarrow> memblk option list option" where
  "umount_loop t i 0 = Some []"
| "umount_loop t i (Suc k) = do {
     inod \<leftarrow> tbl_get t i;
     fr \<leftarrow> umount_loop t (Suc i) k;
     Some (if ri_used inod \<noteq> 0 then ri_dptr inod # fr else fr) }"

definition ramfs_umount :: "ramfs_info \<Rightarrow> (int \<times> memblk option list) option" where
  "ramfs_umount fs = do { fr \<leftarrow> umount_loop (inodtbl fs) 0 (unat (ninodes fs)); Some (0, fr) }"

definition base_mkino ::
    "bool \<Rightarrow> ramfs_info \<Rightarrow> u32 \<Rightarrow> ramfs_inode \<Rightarrow> bool \<Rightarrow> (int \<times> ramfs_info) option" where
  "base_mkino ok fs ino inod alloc =
     (if alloc \<and> \<not> ok then Some (- ENOMEM, fs)
      else let inod = (if alloc then inod\<lparr>ri_allocd := 1024, ri_dptr := Some (fresh_blk 1024)\<rparr> else inod)
           in if unat (ino - 1) < length (inodtbl fs) then Some (uint ino, put_inod fs ino inod)
              else None)"

definition ramfs_mkino ::
    "bool \<Rightarrow> bool \<Rightarrow> ramfs_info \<Rightarrow> u16 \<Rightarrow> u16 \<Rightarrow> u16 \<Rightarrow> (int \<times> ramfs_info) option" where
  "ramfs_mkino ok1 ok2 fs mode uid gid = do {
     (ino, fs) \<leftarrow> findfreeino ok1 fs;
     if ino = 0 then Some (- ENOMEM, fs)
     else base_mkino ok2 fs ino
       \<lparr>ri_used = 1, ri_mode = mode, ri_uid = uid, ri_atime = 0, ri_ctime = 0, ri_mtime = 0,
        ri_gid = gid, ri_size = 0, ri_rdev = 0, ri_allocd = 0, ri_dptr = None\<rparr> True }"

text \<open>The inode after \<^verbatim>\<open>memset(inod, 0, sizeof *inod)\<close>.\<close>

definition zero_inode :: ramfs_inode where
  "zero_inode = \<lparr>ri_used = 0, ri_mode = 0, ri_uid = 0, ri_atime = 0, ri_ctime = 0, ri_mtime = 0,
     ri_gid = 0, ri_size = 0, ri_rdev = 0, ri_allocd = 0, ri_dptr = None\<rparr>"

definition ramfs_rmino :: "ramfs_info \<Rightarrow> u32 \<Rightarrow> (int \<times> ramfs_info) option" where
  "ramfs_rmino fs ino = do {
     r \<leftarrow> getinod fs ino;
     case r of None \<Rightarrow> Some (- ENOENT, fs)
     | Some inod \<Rightarrow>
         let fs = put_inod fs ino zero_inode
         in Some (0, if ino - 1 < freehint fs then fs\<lparr>freehint := ino - 1\<rparr> else fs) }"

section \<open>Directories\<close>

text \<open>The directory array an inode points to: reading it when the pointer is NULL is
  undefined, so the loops below start from the block.\<close>

definition dir_blk :: "ramfs_inode \<Rightarrow> memblk" where
  "dir_blk inod = (case ri_dptr inod of None \<Rightarrow> [] | Some b \<Rightarrow> b)"

definition ndirs :: "ramfs_inode \<Rightarrow> nat" where
  "ndirs inod = unat (ri_size inod div 24)"

fun scan_slot :: "memblk \<Rightarrow> nat \<Rightarrow> nat \<Rightarrow> nat option option" where
  "scan_slot dir i 0 = Some None"
| "scan_slot dir i (Suc k) = do {
     u \<leftarrow> dent_used dir i;
     if u = 0 then Some (Some i) else scan_slot dir (Suc i) k }"

text \<open>The entry to fill and the inode it belongs to, after the array has grown when it is full;
  \<^term>\<open>None\<close> when \<^verbatim>\<open>realloc\<close> fails.\<close>

definition link_target :: "bool \<Rightarrow> ramfs_inode \<Rightarrow> nat option \<Rightarrow> (ramfs_inode \<times> nat) option" where
  "link_target ok dinod slot = (case slot of
     Some i \<Rightarrow> Some (dinod, i)
   | None \<Rightarrow>
       if ri_size dinod + 24 > ri_allocd dinod
       then if \<not> ok then None
            else Some (dinod\<lparr>ri_dptr := Some (realloc_blk (ri_dptr dinod) (unat (ri_allocd dinod + 24 * 32))),
                             ri_allocd := ri_allocd dinod + 24 * 32\<rparr>,
                       unat (ri_allocd dinod div 24))
       else Some (dinod, unat (ri_size dinod div 24)))"

definition ramfs_mklink ::
    "bool \<Rightarrow> bool \<Rightarrow> ramfs_info \<Rightarrow> u32 \<Rightarrow> u16 \<Rightarrow> u32 \<Rightarrow> cstr \<Rightarrow> (int \<times> ramfs_info) option" where
  "ramfs_mklink ok1 ok2 fs ino mode dino name = do {
     r \<leftarrow> getinod fs dino;
     case r of None \<Rightarrow> Some (- ENOENT, fs)
     | Some dinod \<Rightarrow>
         if \<not> ok1 then Some (- ENOMEM, fs)
         else let ent = \<lparr>rd_used = 1, rd_inode = ino, rd_namlen = of_nat (length name + 1),
                         rd_namep = Some name\<rparr>
         in do {
           slot \<leftarrow> scan_slot (dir_blk dinod) 0 (ndirs dinod);
           case link_target ok2 dinod slot of None \<Rightarrow> Some (- ENOMEM, fs)
           | Some (dinod, idx) \<Rightarrow> do {
               b \<leftarrow> store_cells (dir_blk dinod) (dirent_size * idx) (dirent_cells ent);
               Some (0, put_inod fs dino (dinod\<lparr>ri_dptr := Some b, ri_size := ri_size dinod + 24\<rparr>)) } } }"

text \<open>The test \<^verbatim>\<open>used && namlen == n && strneq(namep, name, n)\<close> on slot \<^verbatim>\<open>i\<close>, with the
  short-circuit evaluation of C; \<^verbatim>\<open>strneq\<close> runs over the stored string and its terminator.\<close>

definition dent_match :: "memblk \<Rightarrow> nat \<Rightarrow> cstr \<Rightarrow> bool option" where
  "dent_match dir i name = do {
     u \<leftarrow> dent_used dir i;
     if u = 0 then Some False
     else do {
       l \<leftarrow> dent_namlen dir i;
       if unat l \<noteq> length name + 1 then Some False
       else do {
         p \<leftarrow> dent_namep dir i;
         s \<leftarrow> p;
         strneq (s @ [0] @ name @ [0]) 0 (length s + 1) (length name + 1) } } }"

fun scan_name :: "memblk \<Rightarrow> cstr \<Rightarrow> nat \<Rightarrow> nat \<Rightarrow> nat option option" where
  "scan_name dir name i 0 = Some None"
| "scan_name dir name i (Suc k) = do {
     t \<leftarrow> dent_match dir i name;
     if t then Some (Some i) else scan_name dir name (Suc i) k }"

definition dent_clear :: "memblk \<Rightarrow> nat \<Rightarrow> memblk option" where
  "dent_clear dir i = do {
     dir \<leftarrow> store_cells dir (dirent_size * i + 16) (ptr_cells None);
     dir \<leftarrow> store_cells dir (dirent_size * i + 8) (u32_cells 0);
     dir \<leftarrow> store_cells dir (dirent_size * i + 4) (u32_cells 0);
     store_cells dir (dirent_size * i) [Byte 0] }"

definition ramfs_rmlink :: "ramfs_info \<Rightarrow> u32 \<Rightarrow> cstr \<Rightarrow> (int \<times> ramfs_info) option" where
  "ramfs_rmlink fs dino name = do {
     r \<leftarrow> getinod fs dino;
     case r of None \<Rightarrow> Some (- ENOENT, fs)
     | Some dinod \<Rightarrow> do {
         slot \<leftarrow> scan_name (dir_blk dinod) name 0 (ndirs dinod);
         case slot of None \<Rightarrow> Some (- ENOENT, fs)
         | Some i \<Rightarrow> do {
             b \<leftarrow> dent_clear (dir_blk dinod) i;
             Some (0, put_inod fs dino (dinod\<lparr>ri_dptr := Some b\<rparr>)) } } }"

definition ramfs_lookup :: "ramfs_info \<Rightarrow> u32 \<Rightarrow> cstr \<Rightarrow> int option" where
  "ramfs_lookup fs dino name = do {
     r \<leftarrow> getinod fs dino;
     case r of None \<Rightarrow> Some (- ENOENT)
     | Some dinod \<Rightarrow> do {
         slot \<leftarrow> scan_name (dir_blk dinod) name 0 (ndirs dinod);
         case slot of None \<Rightarrow> Some (- ENOENT)
         | Some i \<Rightarrow> map_option uint (dent_inode (dir_blk dinod) i) } }"

text \<open>The inode as the layer above sees it.\<close>

definition to_vinode :: "ramfs_inode \<Rightarrow> u64 \<Rightarrow> vinode" where
  "to_vinode inod priv = \<lparr>vi_mode = ri_mode inod, vi_uid = ri_uid inod, vi_atime = ri_atime inod,
     vi_ctime = ri_ctime inod, vi_mtime = ri_mtime inod, vi_rdev = ri_rdev inod,
     vi_gid = ri_gid inod, vi_lnkcnt = 0, vi_size = ri_size inod, vi_priv = priv\<rparr>"

definition ramfs_getino :: "ramfs_info \<Rightarrow> u32 \<Rightarrow> (int \<times> vinode option) option" where
  "ramfs_getino fs ino = do {
     r \<leftarrow> getinod fs ino;
     case r of None \<Rightarrow> Some (- ENOENT, None)
     | Some inod \<Rightarrow> Some (0, Some (to_vinode inod (ucast ino))) }"

definition ramfs_setino :: "ramfs_info \<Rightarrow> u32 \<Rightarrow> vinode \<Rightarrow> (int \<times> ramfs_info) option" where
  "ramfs_setino fs ino vinod = do {
     r \<leftarrow> getinod fs ino;
     case r of None \<Rightarrow> Some (- ENOENT, fs)
     | Some inod \<Rightarrow>
         let inod = inod\<lparr>ri_mode := vi_mode vinod, ri_uid := vi_uid vinod, ri_atime := vi_atime vinod,
                        ri_ctime := vi_ctime vinod, ri_mtime := vi_mtime vinod, ri_gid := vi_gid vinod\<rparr>;
             inod = (if S_TYPE (vi_mode vinod) = S_IFCHR \<or> S_TYPE (vi_mode vinod) = S_IFBLK
                     then inod\<lparr>ri_rdev := vi_rdev vinod\<rparr> else inod)
         in Some (0, put_inod fs ino inod) }"

definition ramfs_readdir :: "ramfs_info \<Rightarrow> u32 \<Rightarrow> u64 \<Rightarrow> u64 \<Rightarrow> dir_out option" where
  "ramfs_readdir fs dino prv namlen = do {
     r \<leftarrow> getinod fs dino;
     case r of None \<Rightarrow> Some (- ENOENT, prv, None)
     | Some dinod \<Rightarrow>
         if prv \<ge> ri_size dinod div 24 then Some (- 1, prv, None)
         else let dir = dir_blk dinod; i = unat prv in do {
           nl \<leftarrow> dent_namlen dir i;
           if unat namlen < unat nl then Some (- ETOOSMALL, prv, None)
           else do {
             np \<leftarrow> dent_namep dir i;
             name \<leftarrow> (if nl = 0 then Some [] else do { s \<leftarrow> np; load_cells (cstr_cells s) 0 (unat nl) });
             ino \<leftarrow> dent_inode dir i;
             r \<leftarrow> getinod fs ino;
             inod \<leftarrow> r;
             Some (0, prv + 1, Some (name, to_vinode inod (ucast ino))) } } }"

section \<open>Files\<close>

definition ramfs_trunc :: "ramfs_info \<Rightarrow> u32 \<Rightarrow> (int \<times> ramfs_info) option" where
  "ramfs_trunc fs ino = do {
     r \<leftarrow> getinod fs ino;
     case r of None \<Rightarrow> Some (- ENOENT, fs)
     | Some inod \<Rightarrow> do {
         b \<leftarrow> store_cells (dir_blk inod) 0 (replicate (unat (ri_size inod)) (Byte 0));
         Some (0, put_inod fs ino
           (inod\<lparr>ri_dptr := map_option (\<lambda>_. b) (ri_dptr inod), ri_size := 0\<rparr>)) } }"

definition ramfs_read ::
    "ramfs_info \<Rightarrow> u32 \<Rightarrow> u64 \<Rightarrow> u64 \<Rightarrow> (int \<times> memval list) option" where
  "ramfs_read fs ino off nb = do {
     r \<leftarrow> getinod fs ino;
     case r of None \<Rightarrow> Some (- ENOENT, [])
     | Some inod \<Rightarrow>
         if ri_size inod < off then Some (- 1, [])
         else let nb = (if ri_size inod < off + nb then ri_size inod - off else nb)
         in do {
           cs \<leftarrow> load_cells (dir_blk inod) (unat off) (unat nb);
           Some (sint nb, cs) } }"

text \<open>The doubling loop of \<^verbatim>\<open>ramfs_write\<close>; it has no end when the product wraps to zero.\<close>

partial_function (option) grow_cap :: "u64 \<Rightarrow> u64 \<Rightarrow> u64 option" where
  "grow_cap newcap need = (if newcap < need then grow_cap (newcap * 2) need else Some newcap)"

text \<open>The inode with room for \<^verbatim>\<open>need\<close> bytes; the inner \<^term>\<open>None\<close> is a failed
  \<^verbatim>\<open>realloc\<close>.\<close>

definition write_grow :: "bool \<Rightarrow> ramfs_inode \<Rightarrow> u64 \<Rightarrow> ramfs_inode option option" where
  "write_grow ok inod need =
     (if ri_allocd inod < need
      then do {
        newcap \<leftarrow> grow_cap (if ri_allocd inod \<noteq> 0 then ri_allocd inod else 1024) need;
        if \<not> ok then Some None
        else Some (Some (inod\<lparr>ri_dptr := Some (realloc_blk (ri_dptr inod) (unat newcap)),
                              ri_allocd := newcap\<rparr>)) }
      else Some (Some inod))"

definition ramfs_write ::
    "bool \<Rightarrow> ramfs_info \<Rightarrow> u32 \<Rightarrow> u64 \<Rightarrow> u64 \<Rightarrow> memval list \<Rightarrow> (int \<times> ramfs_info) option" where
  "ramfs_write ok fs ino off nb buf = do {
     r \<leftarrow> getinod fs ino;
     case r of None \<Rightarrow> Some (- ENOENT, fs)
     | Some inod \<Rightarrow> do {
         g \<leftarrow> write_grow ok inod (off + nb);
         case g of None \<Rightarrow> Some (- ENOMEM, fs)
         | Some inod \<Rightarrow> do {
             cs \<leftarrow> load_cells buf 0 (unat nb);
             b \<leftarrow> store_cells (dir_blk inod) (unat off) cs;
             Some (sint nb, put_inod fs ino
               (inod\<lparr>ri_dptr := map_option (\<lambda>_. b) (ri_dptr inod),
                     ri_size := (if off + nb > ri_size inod then off + nb else ri_size inod)\<rparr>)) } } }"

section \<open>Device nodes, symbolic links, mounting\<close>

definition ramfs_mknod ::
    "bool \<Rightarrow> ramfs_info \<Rightarrow> u16 \<Rightarrow> u16 \<Rightarrow> u16 \<Rightarrow> u32 \<Rightarrow> (int \<times> ramfs_info) option" where
  "ramfs_mknod ok fs mode uid gid rdev = do {
     (ino, fs) \<leftarrow> findfreeino ok fs;
     if ino = 0 then Some (- ENOMEM, fs)
     else base_mkino True fs ino
       \<lparr>ri_used = 1, ri_mode = mode, ri_uid = uid, ri_atime = 0, ri_ctime = 0, ri_mtime = 0,
        ri_gid = gid, ri_size = 0, ri_rdev = rdev, ri_allocd = 0, ri_dptr = None\<rparr> False }"

definition ramfs_symlink ::
    "bool \<Rightarrow> bool \<Rightarrow> ramfs_info \<Rightarrow> u16 \<Rightarrow> u16 \<Rightarrow> u16 \<Rightarrow> cstr \<Rightarrow> (int \<times> ramfs_info) option" where
  "ramfs_symlink ok1 ok2 fs mode uid gid target = do {
     (ino, fs) \<leftarrow> findfreeino ok1 fs;
     if ino = 0 then Some (- ENOMEM, fs)
     else if \<not> ok2 then Some (- ENOMEM, fs)
     else let tlen = of_nat (length target + 1)
     in base_mkino True fs ino
       \<lparr>ri_used = 1, ri_mode = mode, ri_uid = uid, ri_atime = 0, ri_ctime = 0, ri_mtime = 0,
        ri_gid = gid, ri_size = tlen, ri_rdev = 0, ri_allocd = tlen,
        ri_dptr = Some (cstr_cells target)\<rparr> False }"

definition ramfs_readsym :: "ramfs_info \<Rightarrow> u32 \<Rightarrow> u64 \<Rightarrow> (int \<times> memval list) option" where
  "ramfs_readsym fs ino buflen = do {
     r \<leftarrow> getinod fs ino;
     case r of None \<Rightarrow> Some (- ENOENT, [])
     | Some inod \<Rightarrow>
         if ri_size inod > buflen then Some (- ETOOSMALL, [])
         else do {
           cs \<leftarrow> load_cells (dir_blk inod) 0 (unat (ri_size inod));
           Some (sint (ri_size inod), cs) } }"

text \<open>The root inode number with the private state of a fresh mount.  The outcomes of the
  allocations are numbered in program order: the state, the inode table, the operation
  table, the root block, and the name and array of the two links.\<close>

definition ramfs_mount :: "(nat \<Rightarrow> bool) \<Rightarrow> (int \<times> (u32 \<times> ramfs_info) option) option" where
  "ramfs_mount al =
     (if \<not> al 0 \<or> \<not> al 1 \<or> \<not> al 2 then Some (- ENOMEM, None)
      else let fs = \<lparr>inodtbl = replicate 1024 (Some zero_inode), ninodes = 1024, freehint = 0\<rparr>;
               root_inod = \<lparr>ri_used = 1, ri_mode = S_IFDIR OR 0x1ED, ri_uid = 0, ri_atime = 0,
                 ri_ctime = 0, ri_mtime = 0, ri_gid = 0, ri_size = 0, ri_rdev = 0, ri_allocd = 0,
                 ri_dptr = None\<rparr>
      in do {
        (ret, fs) \<leftarrow> base_mkino (al 3) fs 1 root_inod True;
        if ret < 0 then Some (- ENOMEM, None)
        else do {
          (_, fs) \<leftarrow> ramfs_mklink (al 4) (al 5) fs 1 (ri_mode root_inod) 1 (lit ''.'');
          (_, fs) \<leftarrow> ramfs_mklink (al 6) (al 7) fs 1 (ri_mode root_inod) 1 (lit ''..'');
          Some (0, Some (1, fs)) } })"

text \<open>The operation table a mount installs.  The private state of a mounted file system carries
  the outcomes of the allocations still to come; an operation that may allocate takes two of
  them.\<close>

record ramfs_priv =
  rp_info :: ramfs_info
  rp_al :: "nat \<Rightarrow> bool"

definition rp_step ::
    "(bool \<Rightarrow> bool \<Rightarrow> ramfs_info \<Rightarrow> (int \<times> ramfs_info) option) \<Rightarrow> ramfs_priv \<Rightarrow> (int \<times> ramfs_priv) option" where
  "rp_step f s = do {
     (r, fs) \<leftarrow> f (rp_al s 0) (rp_al s 1) (rp_info s);
     Some (r, \<lparr>rp_info = fs, rp_al = (\<lambda>n. rp_al s (n + 2))\<rparr>) }"

definition ramfs_ops :: "ramfs_priv vfsops" where
  "ramfs_ops = \<lparr>
     op_umount = (\<lambda>s. map_option fst (ramfs_umount (rp_info s))),
     op_lookup = (\<lambda>s. ramfs_lookup (rp_info s)),
     op_readdir = (\<lambda>s. ramfs_readdir (rp_info s)),
     op_symlink = (\<lambda>s mode uid gid target. rp_step (\<lambda>ok1 ok2 fs. ramfs_symlink ok1 ok2 fs mode uid gid target) s),
     op_mknod = (\<lambda>s mode uid gid rdev. rp_step (\<lambda>ok _ fs. ramfs_mknod ok fs mode uid gid rdev) s),
     op_mkino = (\<lambda>s mode uid gid. rp_step (\<lambda>ok1 ok2 fs. ramfs_mkino ok1 ok2 fs mode uid gid) s),
     op_rmino = (\<lambda>s ino. rp_step (\<lambda>_ _ fs. ramfs_rmino fs ino) s),
     op_getino = (\<lambda>s. ramfs_getino (rp_info s)),
     op_setino = (\<lambda>s ino v. rp_step (\<lambda>_ _ fs. ramfs_setino fs ino v) s),
     op_mklink = (\<lambda>s ino mode dino name. rp_step (\<lambda>ok1 ok2 fs. ramfs_mklink ok1 ok2 fs ino mode dino name) s),
     op_rmlink = (\<lambda>s dino name. rp_step (\<lambda>_ _ fs. ramfs_rmlink fs dino name) s),
     op_trunc = (\<lambda>s ino. rp_step (\<lambda>_ _ fs. ramfs_trunc fs ino) s),
     op_readsym = (\<lambda>s. ramfs_readsym (rp_info s)),
     op_read = (\<lambda>s. ramfs_read (rp_info s)),
     op_write = (\<lambda>s ino off nb data. rp_step (\<lambda>ok _ fs. ramfs_write ok fs ino off nb data) s)\<rparr>"

end
