(* ===== verification/Vfs.thy ===== *)
theory Vfs
  imports Vfs_Resolve Block Ramfs
begin

text \<open>
  The virtual file system calls of \<^verbatim>\<open>drivers/storage/fs/vfs.c\<close>: the mount table, mounting,
  creating, opening, reading and writing files.  (Directories, links and removal are in
  \<^verbatim>\<open>Vfs_Dir\<close>.)

  The state holds the mount array with a generation number (a descriptor keeps a pointer into
  the array, which is stale once \<^verbatim>\<open>realloc\<close> has moved the array), the working directory, the
  entry of the current process, and the outcomes of the allocations still to come; every call
  that may allocate takes a block of outcomes of its own.  A mount is referred to by its index;
  calling an operation of a mount that is not there (a NULL mount, or one that is not mounted)
  is undefined, \<^term>\<open>None\<close>.

  The mount functions of the file systems are the argument \<open>fm\<close> of \<open>mount\<close>, by their index in
  the table \<open>availfs\<close>; for the memory file system it is \<open>ramfs_fs_mount\<close>.
\<close>

section \<open>State\<close>

record 's kfs =
  k_mounts :: "'s mnt list"
  k_mgen :: nat
  k_cwd :: cstr
  k_proc :: process_state
  k_al :: "nat \<Rightarrow> bool"

definition kal :: "nat \<Rightarrow> 's kfs \<Rightarrow> 's kfs" where
  "kal n k = k\<lparr>k_al := (\<lambda>i. k_al k (i + n))\<rparr>"

text \<open>Conversion of a 64-bit result to \<^verbatim>\<open>int\<close>.\<close>

definition c_int :: "int \<Rightarrow> int" where
  "c_int x = sint (word_of_int x :: u32)"

text \<open>Early return with an error.\<close>

fun or_ret :: "(int \<Rightarrow> 'r) \<Rightarrow> int + 'a \<Rightarrow> ('a \<Rightarrow> 'r option) \<Rightarrow> 'r option" where
  "or_ret e (Inl x) f = Some (e x)"
| "or_ret e (Inr a) f = f a"

text \<open>An operation of the file system mounted at an index, without and with a new state.\<close>

fun mcall :: "'s kfs \<Rightarrow> nat option \<Rightarrow> ('s vfsops \<Rightarrow> 's \<Rightarrow> 'a option) \<Rightarrow> 'a option" where
  "mcall k None f = None"
| "mcall k (Some i) f = (if i < length (k_mounts k) then mnt_call (k_mounts k ! i) f else None)"

fun set_priv :: "'s kfs \<Rightarrow> nat option \<Rightarrow> 's \<Rightarrow> 's kfs" where
  "set_priv k None s = k"
| "set_priv k (Some i) s = k\<lparr>k_mounts := (k_mounts k)[i := (k_mounts k ! i)\<lparr>m_priv := Some s\<rparr>]\<rparr>"

definition mcall_upd :: "'s kfs \<Rightarrow> nat option \<Rightarrow> ('s vfsops \<Rightarrow> 's \<Rightarrow> ('a \<times> 's) option) \<Rightarrow> ('a \<times> 's kfs) option" where
  "mcall_upd k mi f = do { (r, s) \<leftarrow> mcall k mi f; Some (r, set_priv k mi s) }"

definition k_resolve :: "'s kfs \<Rightarrow> nat option \<Rightarrow> cstr \<Rightarrow> u32 \<Rightarrow> (int \<times> 's kfs) option" where
  "k_resolve k mi path flags = do {
     r \<leftarrow> vfs_resolve (k_al k) (map_option ((!) (k_mounts k)) mi) (Some path) flags;
     Some (r, kal 128 k) }"

definition k_getino :: "'s kfs \<Rightarrow> nat option \<Rightarrow> u32 \<Rightarrow> (int \<times> vinode option) option" where
  "k_getino k mi ino = do { (r, v) \<leftarrow> mcall k mi (\<lambda>ops s. op_getino ops s ino); Some (c_int r, v) }"

definition k_newfd :: "'s kfs \<Rightarrow> fdinfo \<Rightarrow> (nat option \<times> 's kfs) option" where
  "k_newfd k info = do {
     (r, p) \<leftarrow> getnewfd (k_al k 0) (k_al k 1) (k_proc k) info;
     Some (r, (kal 2 k)\<lparr>k_proc := p\<rparr>) }"

section \<open>Mount table\<close>

definition zero_mnt :: "'s mnt" where
  "zero_mnt = \<lparr>m_path = [], m_root_ino = 0, m_ops = None, m_blkid = 0, m_mntno = 0, m_priv = None,
     m_inuse = False\<rparr>"

definition vfs_init :: "bool \<Rightarrow> 's kfs \<Rightarrow> int \<times> 's kfs" where
  "vfs_init ok k = (if \<not> ok then (- ENOMEM, k)
     else (0, k\<lparr>k_mounts := replicate 16 zero_mnt, k_cwd := [47]\<rparr>))"

fun getmnt_loop :: "'s mnt list \<Rightarrow> cstr \<Rightarrow> nat \<Rightarrow> nat option \<Rightarrow> nat \<Rightarrow> nat option" where
  "getmnt_loop [] abp i mnt mntlen = mnt"
| "getmnt_loop (m # ms) abp i mnt mntlen =
     (let len = length (m_path m) in
      if \<not> m_inuse m then getmnt_loop ms abp (Suc i) mnt mntlen
      else if len < mntlen then getmnt_loop ms abp (Suc i) mnt mntlen
      else if take len abp \<noteq> m_path m then getmnt_loop ms abp (Suc i) mnt mntlen
      else if len > 1 \<and> len \<noteq> length abp \<and> abp ! len \<noteq> 47 then getmnt_loop ms abp (Suc i) mnt mntlen
      else getmnt_loop ms abp (Suc i) (Some i) len)"

definition vfs_getmnt :: "'s kfs \<Rightarrow> cstr \<Rightarrow> nat option option" where
  "vfs_getmnt k path = do {
     abp \<leftarrow> vfs_abspath (k_cwd k) (Some path) 1024;
     or_ret (\<lambda>_. None) abp (\<lambda>abp. Some (getmnt_loop (k_mounts k) abp 0 None 0)) }"

fun free_mnt :: "'s mnt list \<Rightarrow> nat \<Rightarrow> nat option" where
  "free_mnt [] i = None"
| "free_mnt (m # ms) i = (if \<not> m_inuse m then Some i else free_mnt ms (Suc i))"

definition vfs_findfreemnt :: "'s kfs \<Rightarrow> int \<times> 's kfs" where
  "vfs_findfreemnt k = (case free_mnt (k_mounts k) 0 of
     Some i \<Rightarrow> (int i, k)
   | None \<Rightarrow>
       if \<not> k_al k 0 then (- ENOMEM, kal 1 k)
       else (int (length (k_mounts k) + 4) - 3,
             (kal 1 k)\<lparr>k_mounts := k_mounts k @ replicate 4 zero_mnt, k_mgen := k_mgen k + 1\<rparr>))"

definition upd_mnt :: "nat \<Rightarrow> ('s mnt \<Rightarrow> 's mnt) \<Rightarrow> 's kfs \<Rightarrow> 's kfs" where
  "upd_mnt i f k = k\<lparr>k_mounts := (k_mounts k)[i := f (k_mounts k ! i)]\<rparr>"

definition availfs :: "(cstr \<times> u32) list" where
  "availfs = [(lit ''ext2'', 0), (lit ''ramfs'', 1), (lit ''initramfs'', 1)]"

definition find_fs :: "cstr \<Rightarrow> nat option" where
  "find_fs ty = find (\<lambda>i. fst (availfs ! i) = ty) [2, 1, 0]"

text \<open>The device a mount uses: none, the one named, or the first of the registry.\<close>

definition mount_dev :: "blkreg \<Rightarrow> u32 \<Rightarrow> cstr option \<Rightarrow> (int + u32 option) option" where
  "mount_dev blk flags dev =
     (if flags AND 1 \<noteq> 0 then Some (Inr None)
      else case dev of
        Some d \<Rightarrow> do {
          r \<leftarrow> block_getdevnam d blk;
          Some (case r of Inl e \<Rightarrow> Inl e | Inr bd \<Rightarrow> Inr (Some (bd_id bd))) }
      | None \<Rightarrow> do {
          ds \<leftarrow> block_getdevs blk;
          bd \<leftarrow> (if ds = [] then None else hd ds);
          Some (Inr (Some (bd_id bd))) })"

text \<open>The memory file system in the mount table.\<close>

definition ramfs_fs_mount :: "(nat \<Rightarrow> bool) \<Rightarrow> ramfs_priv mnt \<Rightarrow> (int \<times> ramfs_priv mnt) option" where
  "ramfs_fs_mount al m = do {
     (ret, r) \<leftarrow> ramfs_mount al;
     Some (ret, case r of None \<Rightarrow> m\<lparr>m_root_ino := 1, m_ops := None, m_priv := None\<rparr>
       | Some (root, fs) \<Rightarrow> m\<lparr>m_root_ino := root, m_ops := Some ramfs_ops,
           m_priv := Some \<lparr>rp_info = fs, rp_al = (\<lambda>n. al (n + 8))\<rparr>\<rparr>) }"

definition mount ::
    "(nat \<Rightarrow> (nat \<Rightarrow> bool) \<Rightarrow> 's mnt \<Rightarrow> (int \<times> 's mnt) option) \<Rightarrow> blkreg \<Rightarrow> 's kfs
     \<Rightarrow> cstr option \<Rightarrow> cstr \<Rightarrow> cstr \<Rightarrow> (int \<times> 's kfs) option" where
  "mount fm blk k dev path ty = do {
     abp \<leftarrow> vfs_abspath (k_cwd k) (Some path) 1024;
     or_ret (\<lambda>e. (e, k)) abp (\<lambda>abp.
       let (mntid, k) = vfs_findfreemnt k in
       if mntid < 0 then Some (c_int mntid, k)
       else case find_fs ty of None \<Rightarrow> Some (- EINVAL, k)
       | Some fi \<Rightarrow>
           let i = nat mntid; k = upd_mnt i (\<lambda>m. m\<lparr>m_inuse := True\<rparr>) k in do {
             d \<leftarrow> mount_dev blk (snd (availfs ! fi)) dev;
             or_ret (\<lambda>e. (e, upd_mnt i (\<lambda>m. m\<lparr>m_inuse := False\<rparr>) k)) d (\<lambda>bid.
               let k = upd_mnt i (\<lambda>m. m\<lparr>m_blkid := (case bid of None \<Rightarrow> m_blkid m | Some b \<Rightarrow> b),
                                      m_mntno := i, m_path := abp\<rparr>) k
               in do {
                 (ret, m) \<leftarrow> fm fi (k_al k) (k_mounts k ! i);
                 let k = kal 1024 k;
                 Some (if ret < 0
                   then (ret, upd_mnt i (\<lambda>_. m\<lparr>m_blkid := 0, m_mntno := 0, m_path := [], m_inuse := False\<rparr>) k)
                   else (0, upd_mnt i (\<lambda>_. m) k)) }) }) }"

definition umount :: "'s kfs \<Rightarrow> cstr \<Rightarrow> (int \<times> 's kfs) option" where
  "umount k path = do {
     mi \<leftarrow> vfs_getmnt k path;
     _ \<leftarrow> mcall k mi op_umount;
     i \<leftarrow> mi;
     Some (0, upd_mnt i (\<lambda>m. m\<lparr>m_ops := None, m_blkid := 0, m_priv := None, m_mntno := 0,
       m_path := [], m_inuse := False\<rparr>) k) }"

section \<open>Creating\<close>

text \<open>The user and group of the current process, as the operations take them.\<close>

definition k_uid :: "'s kfs \<Rightarrow> u16" where "k_uid k = ucast (p_euid (k_proc k))"
definition k_gid :: "'s kfs \<Rightarrow> u16" where "k_gid k = ucast (p_egid (k_proc k))"

text \<open>The common part of \<^verbatim>\<open>vfs_basecreat\<close> and \<^verbatim>\<open>mknod\<close>: the parent directory exists, the name
  does not, an inode is made by \<open>mk\<close> and linked.  The result is the status and the inode.\<close>

definition create_with :: "('s vfsops \<Rightarrow> 's \<Rightarrow> (int \<times> 's) option) \<Rightarrow> 's kfs \<Rightarrow> cstr \<Rightarrow> u16
    \<Rightarrow> ((int \<times> u64) \<times> 's kfs) option" where
  "create_with mk k path mode = do {
     abp \<leftarrow> vfs_abspath (k_cwd k) (Some path) 1024;
     or_ret (\<lambda>e. ((e, 0), k)) abp (\<lambda>abp.
     or_ret (\<lambda>e. ((e, 0), k)) (vfs_dirname (Some abp) 1024) (\<lambda>dir.
     or_ret (\<lambda>e. ((- 1, 0), k)) (vfs_basename (Some abp) 1024) (\<lambda>base. do {
       mi \<leftarrow> vfs_getmnt k abp;
       (dino, k) \<leftarrow> k_resolve k mi dir 0x04;
       if dino < 0 then Some ((c_int dino, 0), k)
       else do {
         (fino, k) \<leftarrow> k_resolve k mi abp 0x04;
         if fino \<ge> 0 then Some ((- EEXISTS, 0), k)
         else do {
           (ino, k) \<leftarrow> mcall_upd k mi mk;
           if ino < 0 then Some ((c_int ino, 0), k)
           else do {
             (ret, k) \<leftarrow> mcall_upd k mi (\<lambda>ops s. op_mklink ops s (of_int ino) mode (of_int dino) base);
             Some (if c_int ret < 0 then ((c_int ret, 0), k) else ((0, of_int ino), k)) } } } }))) }"

definition vfs_basecreat :: "'s kfs \<Rightarrow> cstr \<Rightarrow> u32 \<Rightarrow> ((int \<times> u64) \<times> 's kfs) option" where
  "vfs_basecreat k path mode =
     create_with (\<lambda>ops s. op_mkino ops s (ucast mode) (k_uid k) (k_gid k)) k path (ucast mode)"

definition mknod :: "'s kfs \<Rightarrow> cstr \<Rightarrow> u32 \<Rightarrow> u32 \<Rightarrow> (int \<times> 's kfs) option" where
  "mknod k path dev mode = do {
     ((ret, _), k) \<leftarrow> create_with (\<lambda>ops s. op_mknod ops s (ucast mode) (k_uid k) (k_gid k) dev) k path (ucast mode);
     Some (ret, k) }"

definition creat :: "'s kfs \<Rightarrow> cstr \<Rightarrow> u32 \<Rightarrow> (int \<times> 's kfs) option" where
  "creat k path mode = do {
     ((ret, _), k) \<leftarrow> vfs_basecreat k path (mode OR 0x8000);
     Some (ret, k) }"

section \<open>Opening\<close>

text \<open>The descriptor of an inode that was found.\<close>

definition open_inode :: "'s kfs \<Rightarrow> nat option \<Rightarrow> u64 \<Rightarrow> u32 \<Rightarrow> (int \<times> 's kfs) option" where
  "open_inode k mi ino flags = do {
     (ret, inod) \<leftarrow> k_getino k mi (ucast ino);
     if ret < 0 then Some (ret, k)
     else do {
       inod \<leftarrow> inod;
       if S_TYPE (vi_mode inod) = S_IFBLK \<or> S_TYPE (vi_mode inod) = S_IFCHR
       then do {
         (fd, k) \<leftarrow> k_newfd k \<lparr>fi_fd = 0, fi_inuse = False,
           fi_data = FdDev \<lparr>dev_mode = vi_mode inod, dev_rdev = ucast (vi_rdev inod)\<rparr>\<rparr>;
         Some (case fd of None \<Rightarrow> (- ENOMEM, k) | Some i \<Rightarrow> (int i, k)) }
       else do {
         i \<leftarrow> mi;
         let f = \<lparr>f_mnt = (k_mgen k, i), f_inod = inod, f_ino = ino,
                  f_pos = (if flags AND O_APPEND \<noteq> 0 then vi_size inod else 0), f_mnt_pos = 0, f_path = []\<rparr>;
         (fd, k) \<leftarrow> k_newfd k \<lparr>fi_fd = 0, fi_inuse = False, fi_data = FdFile f\<rparr>;
         case fd of None \<Rightarrow> Some (- ENOMEM, k)
         | Some i \<Rightarrow>
             if flags AND O_TRUNC \<noteq> 0 then do {
               (ret, k) \<leftarrow> mcall_upd k mi (\<lambda>ops s. op_trunc ops s (ucast ino));
               if c_int ret < 0 then do {
                 (_, p) \<leftarrow> closefd (k_proc k) (int i);
                 Some (c_int ret, k\<lparr>k_proc := p\<rparr>) }
               else Some (int i, k\<lparr>k_proc := set_fd (k_proc k) i \<lparr>fi_fd = int i, fi_inuse = True,
                 fi_data = FdFile (f\<lparr>f_inod := inod\<lparr>vi_size := 0\<rparr>\<rparr>)\<rparr>\<rparr>) }
             else Some (int i, k) } } }"

definition vfs_open :: "'s kfs \<Rightarrow> cstr \<Rightarrow> u32 \<Rightarrow> u16 \<Rightarrow> (int \<times> 's kfs) option" where
  "vfs_open k path flags mode =
     (let mode = (if flags AND O_CREAT \<noteq> 0 then mode OR S_IFREG else mode) in do {
     abp \<leftarrow> vfs_abspath (k_cwd k) (Some path) 1024;
     or_ret (\<lambda>e. (e, k)) abp (\<lambda>abp. do {
       mi \<leftarrow> vfs_getmnt k abp;
       (ino, k) \<leftarrow> k_resolve k mi abp 0x04;
       if ino = - ENOENT then
         if flags AND O_CREAT \<noteq> 0 then do {
           ((ret, ino), k) \<leftarrow> vfs_basecreat k abp (ucast (mode OR S_IFREG));
           if ret < 0 then Some (ret, k) else open_inode k mi ino flags }
         else Some (- ENOENT, k)
       else if ino < 0 then Some (c_int ino, k)
       else open_inode k mi (of_int ino) flags }) })"

section \<open>Reading, writing, seeking\<close>

text \<open>The open file behind a descriptor, and the mount it points to.\<close>

fun fd_file :: "fddata \<Rightarrow> file_t option" where
  "fd_file (FdFile f) = Some f"
| "fd_file (FdDir f) = Some f"
| "fd_file _ = None"

definition deref_mnt :: "'s kfs \<Rightarrow> mptr \<Rightarrow> nat option option" where
  "deref_mnt k p = (if fst p = k_mgen k \<and> snd p < length (k_mounts k) then Some (Some (snd p)) else None)"

definition put_file :: "'s kfs \<Rightarrow> nat \<Rightarrow> file_t \<Rightarrow> 's kfs" where
  "put_file k i f = (case fd_at (k_proc k) i of None \<Rightarrow> k
     | Some info \<Rightarrow> k\<lparr>k_proc := set_fd (k_proc k) i (info\<lparr>fi_data :=
         (case fi_data info of FdDir _ \<Rightarrow> FdDir f | _ \<Rightarrow> FdFile f)\<rparr>)\<rparr>)"

definition fsread :: "'s kfs \<Rightarrow> int \<Rightarrow> u64 \<Rightarrow> ((int \<times> memval list) \<times> 's kfs) option" where
  "fsread k fd sz = do {
     r \<leftarrow> getfd (k_proc k) fd;
     or_ret (\<lambda>e. ((e, []), k)) r (\<lambda>i. do {
       info \<leftarrow> fd_at (k_proc k) i;
       f \<leftarrow> fd_file (fi_data info);
       mi \<leftarrow> deref_mnt k (f_mnt f);
       (nread, buf) \<leftarrow> mcall k mi (\<lambda>ops s. op_read ops s (ucast (f_ino f)) (f_pos f) sz);
       Some (if nread < 0 then ((nread, buf), k)
             else ((nread, buf), put_file k i (f\<lparr>f_pos := f_pos f + of_int nread\<rparr>))) }) }"

definition fswrite :: "'s kfs \<Rightarrow> int \<Rightarrow> memval list \<Rightarrow> u64 \<Rightarrow> (int \<times> 's kfs) option" where
  "fswrite k fd buf sz = do {
     r \<leftarrow> getfd (k_proc k) fd;
     or_ret (\<lambda>e. (e, k)) r (\<lambda>i. do {
       info \<leftarrow> fd_at (k_proc k) i;
       f \<leftarrow> fd_file (fi_data info);
       mi \<leftarrow> deref_mnt k (f_mnt f);
       (nw, k) \<leftarrow> mcall_upd k mi (\<lambda>ops s. op_write ops s (ucast (f_ino f)) (f_pos f) sz buf);
       if nw < 0 then Some (nw, k)
       else let pos = f_pos f + of_int nw;
                inod = (if pos > vi_size (f_inod f) then (f_inod f)\<lparr>vi_size := pos\<rparr> else f_inod f)
            in Some (nw, put_file k i (f\<lparr>f_pos := pos, f_inod := inod\<rparr>)) }) }"

text \<open>Signed 64-bit addition; overflow is undefined.\<close>

definition s64_add :: "int \<Rightarrow> int \<Rightarrow> int option" where
  "s64_add x y = (if - (2 ^ 63) \<le> x + y \<and> x + y < 2 ^ 63 then Some (x + y) else None)"

text \<open>The new position relative to a base.\<close>

definition seek_from :: "int \<Rightarrow> int \<Rightarrow> (int + int) option" where
  "seek_from base off = do {
     neg \<leftarrow> (if off < 0 then do { s \<leftarrow> s64_add base off; Some (s < 0) } else Some False);
     if neg then Some (Inl (- EINVAL))
     else if off > 0 \<and> base > 2 ^ 63 - 1 - off then Some (Inl (- ERANGE))
     else do { n \<leftarrow> s64_add base off; Some (Inr n) } }"

definition seek_pos :: "int \<Rightarrow> int \<Rightarrow> int \<Rightarrow> int \<Rightarrow> (int + int) option" where
  "seek_pos pos sz off whence =
     (if whence = SEEK_SET then Some (if off < 0 then Inl (- EINVAL) else Inr off)
      else if whence = SEEK_CUR then seek_from pos off
      else if whence = SEEK_END then seek_from sz off
      else Some (Inl (- EINVAL)))"

definition lseek :: "'s kfs \<Rightarrow> int \<Rightarrow> int \<Rightarrow> int \<Rightarrow> (int \<times> 's kfs) option" where
  "lseek k fd off whence = do {
     r \<leftarrow> getfd (k_proc k) fd;
     or_ret (\<lambda>e. (e, k)) r (\<lambda>i. do {
       info \<leftarrow> fd_at (k_proc k) i;
       case fi_data info of
         FdFile f \<Rightarrow> do {
           mi \<leftarrow> deref_mnt k (f_mnt f);
           (g, cur) \<leftarrow> mcall k mi (\<lambda>ops s. op_getino ops s (ucast (f_ino f)));
           f \<leftarrow> (if g = 0 then do { cur \<leftarrow> cur;
                   Some (f\<lparr>f_inod := (f_inod f)\<lparr>vi_size := vi_size cur, vi_mode := vi_mode cur\<rparr>\<rparr>) }
                else Some f);
           let k = put_file k i f;
           n \<leftarrow> seek_pos (sint (f_pos f)) (sint (vi_size (f_inod f))) off whence;
           or_ret (\<lambda>e. (e, k)) n (\<lambda>npos. Some (npos, put_file k i (f\<lparr>f_pos := of_int npos\<rparr>))) }
       | _ \<Rightarrow> Some (- EBADF, k) }) }"

definition trunc :: "'s kfs \<Rightarrow> int \<Rightarrow> (int \<times> 's kfs) option" where
  "trunc k fd = do {
     r \<leftarrow> getfd (k_proc k) fd;
     or_ret (\<lambda>e. (e, k)) r (\<lambda>i. do {
       info \<leftarrow> fd_at (k_proc k) i;
       case fi_data info of
         FdFile f \<Rightarrow> do {
           mi \<leftarrow> deref_mnt k (f_mnt f);
           (ret, k) \<leftarrow> mcall_upd k mi (\<lambda>ops s. op_trunc ops s (ucast (f_ino f)));
           Some (if c_int ret < 0 then (c_int ret, k)
                 else (0, put_file k i (f\<lparr>f_inod := (f_inod f)\<lparr>vi_size := 0\<rparr>, f_pos := 0\<rparr>))) }
       | _ \<Rightarrow> Some (- EBADF, k) }) }"

definition sync :: "int \<Rightarrow> int" where
  "sync fd = 0"

end
