(* ===== verification/Vfs_Dir.thy ===== *)
theory Vfs_Dir
  imports Vfs
begin

text \<open>
  Directories, status, removal, renaming and links of the virtual file system
  (\<^verbatim>\<open>drivers/storage/fs/vfs.c\<close>, from \<^verbatim>\<open>opendir\<close> to the end, with \<^verbatim>\<open>vfs_getdino\<close> and
  \<^verbatim>\<open>vfs_baseunlink\<close>).  A listing shows the entries of the directory, with a mount point
  replaced by the root of what is mounted there, and then the mount points below the directory
  that are not entries of it.

  \<^verbatim>\<open>unlink\<close> and \<^verbatim>\<open>rmdir\<close> assign the inode they resolve to the wrong variable and go on with
  inode number zero, as the definitions do.
\<close>

section \<open>Opening and listing directories\<close>

definition opendir :: "'s kfs \<Rightarrow> cstr \<Rightarrow> (int \<times> 's kfs) option" where
  "opendir k path = do {
     abp \<leftarrow> vfs_abspath (k_cwd k) (Some path) 1024;
     or_ret (\<lambda>e. (e, k)) abp (\<lambda>abp. do {
       mi \<leftarrow> vfs_getmnt k abp;
       (ino, k) \<leftarrow> k_resolve k mi abp 0x06;
       if ino < 0 then Some (c_int ino, k)
       else do {
         (ret, inod) \<leftarrow> k_getino k mi (of_int ino);
         if ret < 0 then Some (ret, k)
         else do {
           inod \<leftarrow> inod;
           if S_TYPE (vi_mode inod) \<noteq> S_IFDIR then Some (- ENOTDIR, k)
           else do {
             i \<leftarrow> mi;
             (fd, k) \<leftarrow> k_newfd k \<lparr>fi_fd = 0, fi_inuse = False, fi_data = FdDir \<lparr>f_mnt = (k_mgen k, i),
               f_inod = inod, f_ino = of_int ino, f_pos = 0, f_mnt_pos = 0, f_path = abp\<rparr>\<rparr>;
             Some (case fd of None \<Rightarrow> (- ENOMEM, k) | Some j \<Rightarrow> (int j, k)) } } } }) }"

definition closedir :: "'s kfs \<Rightarrow> int \<Rightarrow> (int \<times> 's kfs) option" where
  "closedir k dd = do { (r, p) \<leftarrow> closefd (k_proc k) dd; Some (r, k\<lparr>k_proc := p\<rparr>) }"

definition mk_stat :: "cstr \<Rightarrow> vinode \<Rightarrow> u16 \<Rightarrow> u64 \<Rightarrow> stat" where
  "mk_stat name inod mode ino = \<lparr>st_name = name, st_uid = vi_uid inod, st_atime = vi_atime inod,
     st_ctime = vi_ctime inod, st_mtime = vi_mtime inod, st_gid = vi_gid inod, st_mode = mode,
     st_size = vi_size inod, st_ino = ino\<rparr>"

definition zero_vinode :: vinode where
  "zero_vinode = \<lparr>vi_mode = 0, vi_uid = 0, vi_atime = 0, vi_ctime = 0, vi_mtime = 0, vi_rdev = 0,
     vi_gid = 0, vi_lnkcnt = 0, vi_size = 0, vi_priv = 0\<rparr>"

text \<open>The path of an entry, in a buffer of 1024 bytes.\<close>

definition child_path :: "cstr \<Rightarrow> cstr \<Rightarrow> cstr" where
  "child_path dir name = take 1023 (if dir = [47] then [47] @ name else dir @ [47] @ name)"

text \<open>An entry that is a mount point shows the root inode of the mount.\<close>

definition mnt_override :: "'s kfs \<Rightarrow> cstr \<Rightarrow> vinode \<Rightarrow> u64 \<Rightarrow> (vinode \<times> u64) option" where
  "mnt_override k cpath inod fsino =
     (case find (\<lambda>i. m_inuse (k_mounts k ! i) \<and> m_path (k_mounts k ! i) = cpath) [0..<length (k_mounts k)] of
        None \<Rightarrow> Some (inod, fsino)
      | Some i \<Rightarrow>
          let m = k_mounts k ! i in
          if m_ops m = None then Some (inod, fsino)
          else do {
            (r, minod) \<leftarrow> mcall k (Some i) (\<lambda>ops s. op_getino ops s (m_root_ino m));
            if r \<ge> 0 then do { minod \<leftarrow> minod; Some (minod, ucast (m_root_ino m)) }
            else Some (inod, fsino) })"

text \<open>Whether a mount is below the directory, and its name there.\<close>

definition mnt_child :: "cstr \<Rightarrow> 's mnt \<Rightarrow> cstr option" where
  "mnt_child dir m = (if \<not> m_inuse m then None
     else case vfs_dirname (Some (m_path m)) 1024 of Inl _ \<Rightarrow> None
     | Inr parent \<Rightarrow>
         if parent \<noteq> dir then None
         else case vfs_basename (Some (m_path m)) 1024 of Inl _ \<Rightarrow> None | Inr name \<Rightarrow> Some name)"

definition mnt_duplicate :: "'s kfs \<Rightarrow> cstr \<Rightarrow> cstr \<Rightarrow> nat \<Rightarrow> bool" where
  "mnt_duplicate k dir name idx \<longleftrightarrow> (\<exists>p \<in> set [0..<idx]. mnt_child dir (k_mounts k ! p) = Some name)"

text \<open>The second phase of a listing, from the mount position on; the result is the next position
  and the entry found.\<close>

fun list_mnts :: "'s kfs \<Rightarrow> nat option \<Rightarrow> file_t \<Rightarrow> nat \<Rightarrow> nat \<Rightarrow> (nat \<times> stat option) option" where
  "list_mnts k mi ent pos 0 = Some (pos, None)"
| "list_mnts k mi ent pos (Suc n) =
     (let m = k_mounts k ! pos in
      if m_path m = [47] then list_mnts k mi ent (Suc pos) n
      else case mnt_child (f_path ent) m of None \<Rightarrow> list_mnts k mi ent (Suc pos) n
      | Some name \<Rightarrow> do {
          r \<leftarrow> mcall k mi (\<lambda>ops s. op_lookup ops s (ucast (f_ino ent)) name);
          if r \<ge> 0 then list_mnts k mi ent (Suc pos) n
          else if mnt_duplicate k (f_path ent) name pos then list_mnts k mi ent (Suc pos) n
          else do {
            minod \<leftarrow> (if m_ops m = None then Some zero_vinode
              else do {
                (_, v) \<leftarrow> mcall k (Some pos) (\<lambda>ops s. op_getino ops s (m_root_ino m));
                Some (case v of None \<Rightarrow> zero_vinode | Some v \<Rightarrow> v) });
            Some (Suc pos, Some (mk_stat name minod
              (if vi_mode minod \<noteq> 0 then vi_mode minod else S_IFDIR OR 0x1ED) (ucast (m_root_ino m)))) } })"

definition readdir :: "'s kfs \<Rightarrow> int \<Rightarrow> ((int \<times> stat option) \<times> 's kfs) option" where
  "readdir k dd = do {
     r \<leftarrow> getfd (k_proc k) dd;
     or_ret (\<lambda>e. ((e, None), k)) r (\<lambda>i. do {
       info \<leftarrow> fd_at (k_proc k) i;
       case fi_data info of
         FdDir ent \<Rightarrow> do {
           mi \<leftarrow> deref_mnt k (f_mnt ent);
           (fsino, pos, out) \<leftarrow> mcall k mi (\<lambda>ops s. op_readdir ops s (ucast (f_ino ent)) (f_pos ent) 1024);
           let ent = ent\<lparr>f_pos := pos\<rparr>;
           if fsino \<ge> 0 then do {
             (cells, inod) \<leftarrow> out;
             name \<leftarrow> blk_str cells 0;
             (inod, ino) \<leftarrow> mnt_override k (child_path (f_path ent) name) inod (of_int fsino);
             Some ((0, Some (mk_stat name inod (vi_mode inod) ino)), put_file k i ent) }
           else do {
             (p, st) \<leftarrow> list_mnts k mi ent (unat (f_mnt_pos ent)) (length (k_mounts k) - unat (f_mnt_pos ent));
             Some ((if st = None then - 1 else 0, st), put_file k i (ent\<lparr>f_mnt_pos := of_nat p\<rparr>)) } }
       | _ \<Rightarrow> Some ((- ENOTDIR, None), k) }) }"

definition vfs_stat :: "'s kfs \<Rightarrow> cstr \<Rightarrow> ((int \<times> stat option) \<times> 's kfs) option" where
  "vfs_stat k path = do {
     abp \<leftarrow> vfs_abspath (k_cwd k) (Some path) 1024;
     or_ret (\<lambda>e. ((e, None), k)) abp (\<lambda>abp.
     or_ret (\<lambda>e. ((- 1, None), k)) (vfs_basename (Some abp) 1024) (\<lambda>base. do {
       mi \<leftarrow> vfs_getmnt k abp;
       (ino, k) \<leftarrow> k_resolve k mi abp 0x04;
       if ino < 0 then Some ((c_int ino, None), k)
       else do {
         (ret, inod) \<leftarrow> k_getino k mi (of_int ino);
         if ret < 0 then Some ((ret, None), k)
         else do {
           inod \<leftarrow> inod;
           Some ((0, Some (mk_stat base inod (vi_mode inod) (of_int ino))), k) } } })) }"

section \<open>Removing\<close>

definition vfs_getdino :: "'s kfs \<Rightarrow> nat option \<Rightarrow> cstr \<Rightarrow> (int \<times> 's kfs) option" where
  "vfs_getdino k mi path =
     or_ret (\<lambda>e. (e, k)) (vfs_dirname (Some path) 1024) (\<lambda>dir. k_resolve k mi dir 0x06)"

definition vfs_baseunlink :: "'s kfs \<Rightarrow> nat option \<Rightarrow> u64 \<Rightarrow> cstr \<Rightarrow> (int \<times> 's kfs) option" where
  "vfs_baseunlink k mi ino path = do {
     (dino, k) \<leftarrow> vfs_getdino k mi path;
     if dino < 0 then Some (c_int dino, k)
     else or_ret (\<lambda>e. (e, k)) (vfs_basename (Some path) 1024) (\<lambda>base. do {
       (ret, inod) \<leftarrow> k_getino k mi (ucast ino);
       if ret < 0 then Some (ret, k)
       else do {
         inod \<leftarrow> inod;
         (ret, k) \<leftarrow> mcall_upd k mi (\<lambda>ops s. op_rmlink ops s (of_int dino) base);
         if c_int ret < 0 then Some (c_int ret, k)
         else if vi_lnkcnt inod > 1 then Some (0, k)
         else do {
           (ret, k) \<leftarrow> mcall_upd k mi (\<lambda>ops s. op_rmino ops s (ucast ino));
           Some (if c_int ret < 0 then c_int ret else 0, k) } } }) }"

definition unlink :: "'s kfs \<Rightarrow> cstr \<Rightarrow> (int \<times> 's kfs) option" where
  "unlink k path = do {
     abp \<leftarrow> vfs_abspath (k_cwd k) (Some path) 1024;
     or_ret (\<lambda>e. (e, k)) abp (\<lambda>abp. do {
       mi \<leftarrow> vfs_getmnt k abp;
       let ino = 0;
       (ret, k) \<leftarrow> k_resolve k mi abp 0x04;
       if c_int ret < 0 then Some (c_int ret, k)
       else do {
         (ret, inod) \<leftarrow> k_getino k mi ino;
         if ret < 0 then Some (ret, k)
         else do {
           inod \<leftarrow> inod;
           if S_TYPE (vi_mode inod) = S_IFDIR then Some (- EISDIR, k)
           else vfs_baseunlink k mi (ucast ino) abp } } }) }"

text \<open>The loop of \<^verbatim>\<open>rmdir\<close> over the entries; it ends when the file system reports an error or an
  entry is neither dot nor dot-dot.\<close>

partial_function (option) rmdir_loop :: "('s \<Rightarrow> u64 \<Rightarrow> dir_out option) \<Rightarrow> 's \<Rightarrow> u64 \<Rightarrow> bool option" where
  "rmdir_loop rd s pos = do {
     (ret, pos', out) \<leftarrow> rd s pos;
     if c_int ret < 0 then Some True
     else do {
       (cells, inod) \<leftarrow> out;
       name \<leftarrow> blk_str (cells @ [Byte 0]) 0;
       if name = [46] \<or> name = [46, 46] then rmdir_loop rd s pos' else Some False } }"

definition rmdir :: "'s kfs \<Rightarrow> cstr \<Rightarrow> (int \<times> 's kfs) option" where
  "rmdir k path = do {
     abp \<leftarrow> vfs_abspath (k_cwd k) (Some path) 1024;
     or_ret (\<lambda>e. (e, k)) abp (\<lambda>abp. do {
       mi \<leftarrow> vfs_getmnt k abp;
       let ino = 0;
       (ret, k) \<leftarrow> k_resolve k mi abp 0x06;
       if c_int ret < 0 then Some (c_int ret, k)
       else do {
         empty \<leftarrow> mcall k mi (\<lambda>ops s. rmdir_loop (\<lambda>s pos. op_readdir ops s ino pos 1024) s 0);
         if \<not> empty then Some (- ENOTEMPTY, k)
         else do {
           (_, k) \<leftarrow> mcall_upd k mi (\<lambda>ops s. op_rmlink ops s ino [46]);
           (_, k) \<leftarrow> mcall_upd k mi (\<lambda>ops s. op_rmlink ops s ino [46, 46]);
           vfs_baseunlink k mi (ucast ino) path } } }) }"

section \<open>Renaming, making directories and links\<close>

definition rename :: "'s kfs \<Rightarrow> cstr \<Rightarrow> cstr \<Rightarrow> (int \<times> 's kfs) option" where
  "rename k oname nname = do {
     oabs \<leftarrow> vfs_abspath (k_cwd k) (Some oname) 1024;
     or_ret (\<lambda>e. (e, k)) oabs (\<lambda>oabs. do {
       nabs \<leftarrow> vfs_abspath (k_cwd k) (Some nname) 1024;
       or_ret (\<lambda>e. (e, k)) nabs (\<lambda>nabs.
       or_ret (\<lambda>e. (e, k)) (vfs_basename (Some nabs) 1024) (\<lambda>nbase.
       or_ret (\<lambda>e. (e, k)) (vfs_basename (Some oabs) 1024) (\<lambda>obase. do {
         omi \<leftarrow> vfs_getmnt k oabs;
         nmi \<leftarrow> vfs_getmnt k nabs;
         oi \<leftarrow> omi;
         ni \<leftarrow> nmi;
         if m_mntno (k_mounts k ! oi) \<noteq> m_mntno (k_mounts k ! ni) then Some (- EINVAL, k)
         else do {
           (ino, k) \<leftarrow> k_resolve k omi oabs 0x04;
           if ino < 0 then Some (c_int ino, k)
           else do {
             (ret, inode) \<leftarrow> k_getino k omi (of_int ino);
             if ret < 0 then Some (ret, k)
             else do {
               inode \<leftarrow> inode;
               (odino, k) \<leftarrow> vfs_getdino k nmi nname;
               if odino < 0 then Some (c_int odino, k)
               else do {
                 (ndino, k) \<leftarrow> vfs_getdino k nmi nname;
                 if ndino < 0 then Some (c_int ndino, k)
                 else do {
                   (ret, k) \<leftarrow> mcall_upd k nmi
                     (\<lambda>ops s. op_mklink ops s (of_int ino) (vi_mode inode) (of_int ndino) nbase);
                   if c_int ret < 0 then Some (- 1, k)
                   else do {
                     (ret, k) \<leftarrow> mcall_upd k omi (\<lambda>ops s. op_rmlink ops s (of_int odino) obase);
                     Some (c_int ret, k) } } } } } } }))) }) }"

definition mkdir :: "'s kfs \<Rightarrow> cstr \<Rightarrow> u32 \<Rightarrow> (int \<times> 's kfs) option" where
  "mkdir k path mode = do {
     abp \<leftarrow> vfs_abspath (k_cwd k) (Some path) 1024;
     or_ret (\<lambda>e. (e, k)) abp (\<lambda>abp. do {
       mi \<leftarrow> vfs_getmnt k path;
       (dino, k) \<leftarrow> vfs_getdino k mi abp;
       (ret, dinod) \<leftarrow> k_getino k mi (of_int dino);
       if ret < 0 then Some (ret, k)
       else do {
         dinod \<leftarrow> dinod;
         ((ret, ino), k) \<leftarrow> vfs_basecreat k path (mode OR 0x4000);
         if ret < 0 then Some (ret, k)
         else do {
           (ret, k) \<leftarrow> mcall_upd k mi (\<lambda>ops s. op_mklink ops s (ucast ino) (ucast (mode OR 0x4000)) (ucast ino) [46]);
           if c_int ret < 0 then do { (_, k) \<leftarrow> rmdir k path; Some (c_int ret, k) }
           else do {
             (ret, k) \<leftarrow> mcall_upd k mi (\<lambda>ops s. op_mklink ops s (of_int dino) (vi_mode dinod) (ucast ino) [46, 46]);
             if c_int ret < 0 then do { (_, k) \<leftarrow> rmdir k path; Some (c_int ret, k) }
             else Some (0, k) } } } }) }"

definition symlink :: "'s kfs \<Rightarrow> cstr \<Rightarrow> cstr \<Rightarrow> u32 \<Rightarrow> (int \<times> 's kfs) option" where
  "symlink k path target mode = do {
     abp \<leftarrow> vfs_abspath (k_cwd k) (Some path) 1024;
     or_ret (\<lambda>e. (e, k)) abp (\<lambda>abp. do {
       abst \<leftarrow> vfs_abspath (k_cwd k) (Some target) 1024;
       or_ret (\<lambda>e. (e, k)) abst (\<lambda>abst.
       or_ret (\<lambda>e. (e, k)) (vfs_basename (Some path) 1024) (\<lambda>base. do {
         mi \<leftarrow> vfs_getmnt k path;
         (dino, k) \<leftarrow> vfs_getdino k mi abp;
         (ino, k) \<leftarrow> mcall_upd k mi (\<lambda>ops s. op_symlink ops s (ucast (mode OR 0xA000)) (k_uid k) (k_gid k) abst);
         if ino < 0 then Some (c_int ino, k)
         else do {
           (ret, k) \<leftarrow> mcall_upd k mi
             (\<lambda>ops s. op_mklink ops s (of_int ino) (ucast (mode OR 0xA000)) (of_int dino) base);
           if c_int ret < 0 then do {
             (_, k) \<leftarrow> mcall_upd k mi (\<lambda>ops s. op_rmino ops s (of_int ino));
             Some (c_int ret, k) }
           else Some (0, k) } })) }) }"

section \<open>Working directory\<close>

definition chdir :: "'s kfs \<Rightarrow> cstr \<Rightarrow> (int \<times> 's kfs) option" where
  "chdir k path = do {
     abp \<leftarrow> vfs_abspath (k_cwd k) (Some path) 1024;
     or_ret (\<lambda>e. (e, k)) abp (\<lambda>abp. Some (0, k\<lparr>k_cwd := abp\<rparr>)) }"

definition getcwd :: "'s kfs \<Rightarrow> nat \<Rightarrow> int + cstr" where
  "getcwd k len = (if length (k_cwd k) + 1 > len then Inl (- ETOOSMALL) else Inr (k_cwd k))"

definition canonicalize :: "'s kfs \<Rightarrow> cstr \<Rightarrow> nat \<Rightarrow> (int + cstr) option" where
  "canonicalize k path outlen = vfs_abspath (k_cwd k) (Some path) outlen"

end
