(* ===== verification/Dir_Spec.thy ===== *)
theory Dir_Spec
  imports Vfs_Types
begin

text \<open>
  The contract between a file system and the code that fills and searches its directories.
  A directory represents a finite map from names to inode numbers; \<open>lookup\<close> reads the map
  and \<open>link\<close> adds a name that is not there yet.  The client lemma is what unpacking and
  directory creation rely on: linking a list of distinct names one after the other leaves a
  directory in which every one of them is found.
\<close>

text \<open>A name as the C code can store it: no NUL byte, and a length that fits 32 bits.\<close>

definition name_ok :: "cstr \<Rightarrow> bool" where
  "name_ok nm \<longleftrightarrow> 0 \<notin> set nm \<and> length nm + 1 < 2 ^ 32"

locale name_directory =
  fixes lookup :: "'s \<Rightarrow> cstr \<Rightarrow> int option"
    and link :: "'s \<Rightarrow> cstr \<Rightarrow> u32 \<Rightarrow> (int \<times> 's) option"
    and repr :: "'s \<Rightarrow> (cstr \<Rightarrow> u32 option) \<Rightarrow> nat \<Rightarrow> bool"
    and cap :: nat
  assumes lookup_spec: "repr s m n \<Longrightarrow> name_ok nm \<Longrightarrow>
      lookup s nm = Some (case m nm of Some ino \<Rightarrow> uint ino | None \<Rightarrow> - ENOENT)"
    and link_spec: "repr s m n \<Longrightarrow> name_ok nm \<Longrightarrow> n < cap \<Longrightarrow> m nm = None \<Longrightarrow>
      \<exists>s'. link s nm ino = Some (0, s') \<and> repr s' (m(nm \<mapsto> ino)) (Suc n)"
begin

fun link_all :: "'s \<Rightarrow> (cstr \<times> u32) list \<Rightarrow> 's option" where
  "link_all s [] = Some s"
| "link_all s ((nm, ino) # xs) = do { (r, s') \<leftarrow> link s nm ino; if r < 0 then None else link_all s' xs }"

lemma link_all_repr:
  assumes "repr s m n" and "distinct (map fst xs)" and "\<forall>(nm, ino) \<in> set xs. name_ok nm \<and> m nm = None"
    and "n + length xs \<le> cap"
  shows "\<exists>s'. link_all s xs = Some s' \<and> repr s' (m ++ map_of xs) (n + length xs)"
  using assms
proof (induction xs arbitrary: s m n)
  case Nil
  then show ?case by simp
next
  case (Cons x xs)
  obtain nm ino where x: "x = (nm, ino)" by (cases x)
  obtain s1 where s1: "link s nm ino = Some (0, s1)" and r1: "repr s1 (m(nm \<mapsto> ino)) (Suc n)"
    using link_spec [OF Cons.prems(1), of nm ino] Cons.prems(3,4) x by auto
  have "nm \<notin> fst ` set xs" using Cons.prems(2) x by simp
  then have "\<forall>(b, i) \<in> set xs. name_ok b \<and> (m(nm \<mapsto> ino)) b = None"
    using Cons.prems(3) by force
  then obtain s2 where s2: "link_all s1 xs = Some s2"
    and r2: "repr s2 (m(nm \<mapsto> ino) ++ map_of xs) (Suc n + length xs)"
    using Cons.IH [OF r1 _ _] Cons.prems(2,4) by (auto simp del: fun_upd_apply)
  have "map_of xs nm = None" using \<open>nm \<notin> fst ` set xs\<close> by (simp add: map_of_eq_None_iff)
  then have e: "m(nm \<mapsto> ino) ++ map_of xs = m ++ map_of (x # xs)"
    unfolding map_add_def x by (auto simp: fun_eq_iff split: option.splits)
  have n: "Suc n + length xs = n + length (x # xs)" by simp
  have "repr s2 (m ++ map_of (x # xs)) (n + length (x # xs))" using r2 unfolding e n .
  moreover have "link_all s (x # xs) = Some s2" using s1 s2 x by simp
  ultimately show ?case by blast
qed

lemma link_all_lookup:
  assumes "repr s m n" and "distinct (map fst xs)" and "\<forall>(nm, ino) \<in> set xs. name_ok nm \<and> m nm = None"
    and "n + length xs \<le> cap"
  shows "\<exists>s'. link_all s xs = Some s' \<and> (\<forall>(nm, ino) \<in> set xs. lookup s' nm = Some (uint ino))
    \<and> (\<forall>nm. name_ok nm \<longrightarrow> nm \<notin> fst ` set xs \<longrightarrow> m nm = None \<longrightarrow> lookup s' nm = Some (- ENOENT))"
proof -
  obtain s' where s': "link_all s xs = Some s'" and r: "repr s' (m ++ map_of xs) (n + length xs)"
    using link_all_repr [OF assms] by blast
  have "lookup s' nm = Some (uint ino)" if "(nm, ino) \<in> set xs" for nm ino
  proof -
    have "name_ok nm" using assms(3) that by auto
    then show ?thesis using lookup_spec [OF r] assms(2) that by simp
  qed
  moreover have "lookup s' nm = Some (- ENOENT)"
    if "name_ok nm" and "nm \<notin> fst ` set xs" and "m nm = None" for nm
  proof -
    have "(m ++ map_of xs) nm = None" using that by (simp add: map_of_eq_None_iff)
    then show ?thesis using lookup_spec [OF r that(1)] by (simp del: map_add_None)
  qed
  ultimately show ?thesis using s' by (intro exI [of _ s']) auto
qed

end

end
