(* ===== verification/Ramfs_Proofs.thy ===== *)
theory Ramfs_Proofs
  imports Ramfs Dir_Spec
begin

text \<open>
  Correctness of the memory file system.  A directory inode represents a list of slots
  (\<open>dir_ok\<close>), each free or holding a name and an inode number, and through it a map from
  names to inode numbers; \<open>lookup\<close>, \<open>mklink\<close> into a directory without free slots and
  \<open>rmlink\<close> implement the operations of that map.  A file inode represents the cells up to
  its size (\<open>file_ok\<close>, \<open>file_cells\<close>); a write replaces a range of them.  Inode allocation
  never hands out an inode in use.  Three lemmas record where the code departs from this:
  filling a freed slot makes a slot that was never written part of the directory, growing
  the inode table leaves slots that the next allocation reads before they are written, and
  the growth loop of a write has no end for sizes above 2 to the power 63.
\<close>

section \<open>Directory contents\<close>

text \<open>A slot of a directory holds nothing, or a name and an inode number.\<close>

type_synonym slot = "(cstr \<times> u32) option"

definition slot_ok :: "memblk \<Rightarrow> nat \<Rightarrow> slot \<Rightarrow> bool" where
  "slot_ok b i e = (case e of
     None \<Rightarrow> dent_used b i = Some 0
   | Some (nm, ino) \<Rightarrow> (\<exists>u. dent_used b i = Some u \<and> u \<noteq> 0) \<and> dent_inode b i = Some ino
       \<and> dent_namlen b i = Some (of_nat (length nm + 1)) \<and> dent_namep b i = Some (Some nm)
       \<and> 0 \<notin> set nm \<and> length nm + 1 < 2 ^ 32)"

text \<open>The slots of a directory inode.\<close>

definition dir_ok :: "ramfs_inode \<Rightarrow> slot list \<Rightarrow> bool" where
  "dir_ok inod es \<longleftrightarrow> unat (ri_size inod) = 24 * length es \<and> 24 * length es \<le> unat (ri_allocd inod)
     \<and> length (dir_blk inod) = unat (ri_allocd inod) \<and> unat (ri_allocd inod) \<le> 24 * length es + 1024
     \<and> (\<forall>i < length es. slot_ok (dir_blk inod) i (es ! i))"

definition ramfs_dir :: "ramfs_info \<Rightarrow> u32 \<Rightarrow> slot list \<Rightarrow> bool" where
  "ramfs_dir fs dino es \<longleftrightarrow> (\<exists>inod. getinod fs dino = Some (Some inod) \<and> dir_ok inod es)"

definition ent_named :: "cstr \<Rightarrow> slot \<Rightarrow> bool" where
  "ent_named nm e = (case e of None \<Rightarrow> False | Some (n, _) \<Rightarrow> n = nm)"

text \<open>The abstract directory: a finite map from names to inode numbers, the first slot with
  the name counting.\<close>

fun dir_map :: "slot list \<Rightarrow> cstr \<Rightarrow> u32 option" where
  "dir_map [] nm = None"
| "dir_map (e # es) nm = (case e of Some (n, ino) \<Rightarrow> if n = nm then Some ino else dir_map es nm
     | None \<Rightarrow> dir_map es nm)"

fun ent_index :: "nat \<Rightarrow> cstr \<Rightarrow> slot list \<Rightarrow> nat option" where
  "ent_index i nm [] = None"
| "ent_index i nm (e # es) = (if ent_named nm e then Some i else ent_index (Suc i) nm es)"

fun free_index :: "nat \<Rightarrow> slot list \<Rightarrow> nat option" where
  "free_index i [] = None"
| "free_index i (e # es) = (if e = None then Some i else free_index (Suc i) es)"

lemma cstr_at_inside:
  "0 \<notin> set s \<Longrightarrow> cstr_at (xs @ s @ 0 # ys) (length xs) s"
proof (induction s arbitrary: xs)
  case Nil
  then show ?case by (simp add: nth_append)
next
  case (Cons c s)
  then show ?case using Cons.IH [of "xs @ [c]"] by (simp add: nth_append)
qed

lemma strneq_names:
  assumes "0 \<notin> set a" and "0 \<notin> set b" and "length a = length b"
  shows "strneq (a @ [0] @ b @ [0]) 0 (length a + 1) (length b + 1) = Some (a = b)"
proof -
  have "cstr_at (a @ [0] @ b @ [0]) 0 a" using cstr_at_inside [of a "[]" "b @ [0]"] assms by simp
  moreover have "cstr_at (a @ [0] @ b @ [0]) (length a + 1) b"
    using cstr_at_inside [of b "a @ [0]" "[]"] assms by simp
  ultimately show ?thesis using strneq_cstr [of _ 0 a "length a + 1" b] assms by simp
qed

lemma dirent_cells_length [simp]: "length (dirent_cells e) = 24"
  by (simp add: dirent_cells_def)

lemmas dent_defs = dent_used_def dent_inode_def dent_namlen_def dent_namep_def
  load_u8_def load_u32_def load_ptr_def

lemma dent_store_same:
  assumes "store_cells b (24 * i) (dirent_cells e) = Some b'"
  shows "dent_used b' i = Some (rd_used e)" "dent_inode b' i = Some (rd_inode e)"
    "dent_namlen b' i = Some (rd_namlen e)" "dent_namep b' i = Some (rd_namep e)"
  using load_store_part [OF assms, of 0 1] load_store_part [OF assms, of 4 4]
    load_store_part [OF assms, of 8 4] load_store_part [OF assms, of 16 8]
  by (simp_all add: dent_defs) (simp_all add: dirent_cells_def)

lemma dent_store_other:
  assumes "store_cells b (24 * i + o1) cs = Some b'" and "o1 + length cs \<le> 24" and "i \<noteq> j"
  shows "dent_used b' j = dent_used b j" "dent_inode b' j = dent_inode b j"
    "dent_namlen b' j = dent_namlen b j" "dent_namep b' j = dent_namep b j"
proof -
  have sep: "24 * j + k + n \<le> 24 * i + o1 \<or> 24 * i + o1 + length cs \<le> 24 * j + k"
    if "k + n \<le> 24" for k n using assms(2,3) that by arith
  have ld: "load_cells b' (24 * j + k) n = load_cells b (24 * j + k) n" if "k + n \<le> 24" for k n
    using load_store_other [OF assms(1)] sep [OF that] by simp
  show "dent_used b' j = dent_used b j" using ld [of 0 1] by (simp add: dent_defs)
  show "dent_inode b' j = dent_inode b j" using ld [of 4 4] by (simp add: dent_defs)
  show "dent_namlen b' j = dent_namlen b j" using ld [of 8 4] by (simp add: dent_defs)
  show "dent_namep b' j = dent_namep b j" using ld [of 16 8] by (simp add: dent_defs)
qed

lemmas dirent_store_other = dent_store_other [of b i 0 "dirent_cells e" b' j for b i e b' j, simplified]

lemma slot_ok_store_other:
  assumes "store_cells b (24 * i + o1) cs = Some b'" and "o1 + length cs \<le> 24" and "i \<noteq> j"
  shows "slot_ok b' j s = slot_ok b j s"
  unfolding slot_ok_def dent_store_other [OF assms] ..

lemma slot_ok_realloc:
  assumes "slot_ok b i s" and "length b \<le> n"
  shows "slot_ok (realloc_blk (Some b) n) i s"
  using assms by (auto simp: slot_ok_def dent_defs bind_eq_Some_conv load_realloc split: option.splits)


lemma dent_match_slot:
  assumes "slot_ok b i e" and "0 \<notin> set nm" and "length nm + 1 < 2 ^ 32"
  shows "dent_match b i nm = Some (ent_named nm e)"
proof (cases e)
  case None
  then show ?thesis using assms by (simp add: slot_ok_def dent_match_def ent_named_def)
next
  case (Some p)
  obtain n ino where p: "p = (n, ino)" by (cases p)
  then obtain u where u: "dent_used b i = Some u" "u \<noteq> 0"
    and l: "dent_namlen b i = Some (of_nat (length n + 1))" and np: "dent_namep b i = Some (Some n)"
    and nz: "0 \<notin> set n" and ln: "length n + 1 < 2 ^ 32"
    using assms Some by (auto simp: slot_ok_def)
  have "unat (of_nat (length n + 1) :: u32) = length n + 1"
    using ln by (intro unat_of_nat_small) simp
  then show ?thesis
    using Some p u l np strneq_names [OF nz assms(2)] unfolding dent_match_def ent_named_def
    by (cases "length n = length nm") auto
qed

lemma scan_name_slots:
  assumes "\<forall>j < length es. slot_ok b (i + j) (es ! j)" and "0 \<notin> set nm" and "length nm + 1 < 2 ^ 32"
  shows "scan_name b nm i (length es) = Some (ent_index i nm es)"
  using assms(1)
proof (induction es arbitrary: i)
  case Nil
  then show ?case by simp
next
  case (Cons e es)
  have "slot_ok b i e" using Cons.prems by fastforce
  then have "dent_match b i nm = Some (ent_named nm e)" using dent_match_slot assms by blast
  moreover have "\<forall>j < length es. slot_ok b (Suc i + j) (es ! j)"
    using Cons.prems by fastforce
  ultimately show ?case using Cons.IH by simp
qed

lemma scan_slot_slots:
  assumes "\<forall>j < length es. slot_ok b (i + j) (es ! j)"
  shows "scan_slot b i (length es) = Some (free_index i es)"
  using assms
proof (induction es arbitrary: i)
  case Nil
  then show ?case by simp
next
  case (Cons e es)
  have "slot_ok b i e" using Cons.prems by fastforce
  then have "\<exists>u. dent_used b i = Some u \<and> (u = 0 \<longleftrightarrow> e = None)"
    by (cases e) (auto simp: slot_ok_def)
  moreover have "\<forall>j < length es. slot_ok b (Suc i + j) (es ! j)"
    using Cons.prems by fastforce
  ultimately show ?case using Cons.IH [of "Suc i"] by auto
qed

lemma ent_index_map:
  "(case ent_index i nm es of None \<Rightarrow> dir_map es nm = None
    | Some k \<Rightarrow> i \<le> k \<and> k < i + length es \<and> (\<exists>ino. es ! (k - i) = Some (nm, ino) \<and> dir_map es nm = Some ino))"
proof (induction es arbitrary: i)
  case Nil
  then show ?case by simp
next
  case (Cons e es)
  show ?case
  proof (cases "ent_named nm e")
    case True
    then show ?thesis by (auto simp: ent_named_def split: option.splits)
  next
    case False
    then have "dir_map (e # es) nm = dir_map es nm" by (auto simp: ent_named_def split: option.splits)
    then show ?thesis using False Cons.IH [of "Suc i"]
      by (auto simp: nth_Cons' Suc_diff_le split: option.splits)
  qed
qed

lemma free_index_None: "free_index i es = None \<longleftrightarrow> None \<notin> set es"
  by (induction es arbitrary: i) auto

lemma free_index_Some: "free_index i es = Some k \<Longrightarrow> i \<le> k \<and> k < i + length es \<and> es ! (k - i) = None"
proof (induction es arbitrary: i)
  case Nil
  then show ?case by simp
next
  case (Cons e es)
  show ?case
  proof (cases "e = None")
    case True
    then show ?thesis using Cons.prems by simp
  next
    case False
    then have "Suc i \<le> k \<and> k < Suc i + length es \<and> es ! (k - Suc i) = None"
      using Cons.prems by (intro Cons.IH) (simp only: free_index.simps if_False)
    then show ?thesis by (auto simp: nth_Cons')
  qed
qed

lemma ndirs_slots: "dir_ok inod es \<Longrightarrow> ndirs inod = length es"
  by (simp add: dir_ok_def ndirs_def unat_div_distrib)

lemma ramfs_lookup_map:
  assumes "ramfs_dir fs dino es" and "0 \<notin> set nm" and "length nm + 1 < 2 ^ 32"
  shows "ramfs_lookup fs dino nm = Some (case dir_map es nm of Some ino \<Rightarrow> uint ino | None \<Rightarrow> - ENOENT)"
proof -
  obtain inod where g: "getinod fs dino = Some (Some inod)" and ok: "dir_ok inod es"
    using assms by (auto simp: ramfs_dir_def)
  have sl: "\<forall>j < length es. slot_ok (dir_blk inod) (0 + j) (es ! j)" using ok by (simp add: dir_ok_def)
  have sc: "scan_name (dir_blk inod) nm 0 (ndirs inod) = Some (ent_index 0 nm es)"
    using scan_name_slots [OF sl assms(2,3)] ok by (simp add: ndirs_slots)
  show ?thesis
  proof (cases "ent_index 0 nm es")
    case None
    then show ?thesis using g sc ent_index_map [where i = 0 and nm = nm and es = es] by (simp add: ramfs_lookup_def)
  next
    case (Some k)
    then obtain ino where k: "k < length es" "es ! k = Some (nm, ino)" "dir_map es nm = Some ino"
      using ent_index_map [where i = 0 and nm = nm and es = es] by auto
    then have "dent_inode (dir_blk inod) k = Some ino" using ok by (auto simp: dir_ok_def slot_ok_def)
    then show ?thesis using g sc Some k by (simp add: ramfs_lookup_def)
  qed
qed


lemma getinod_Some:
  "getinod fs ino = Some (Some inod) \<longleftrightarrow> ino \<noteq> 0 \<and> ino \<le> ninodes fs
     \<and> tbl_get (inodtbl fs) (unat (ino - 1)) = Some inod \<and> ri_used inod \<noteq> 0"
  by (auto simp: getinod_def bind_eq_Some_conv not_less split: if_splits)

lemma tbl_get_Some: "tbl_get t i = Some x \<longleftrightarrow> i < length t \<and> t ! i = Some x"
  by (simp add: tbl_get_def)

lemma getinod_put_same:
  assumes "getinod fs ino = Some (Some inod)" and "ri_used inod' \<noteq> 0"
  shows "getinod (put_inod fs ino inod') ino = Some (Some inod')"
  using assms by (auto simp: getinod_Some put_inod_def tbl_get_Some)

lemma unat_pred_inject: "unat (a - 1 :: 'a::len word) = unat (b - 1) \<longleftrightarrow> a = b"
  by (simp add: word_unat_eq_iff [symmetric])

lemma getinod_put_other:
  assumes "ino \<noteq> 0" and "j \<noteq> ino"
  shows "getinod (put_inod fs ino inod') j = getinod fs j"
  using assms unat_pred_inject [of ino j] by (auto simp: getinod_def put_inod_def tbl_get_def nth_list_update)

lemma dir_map_append:
  "dir_map (es @ fs) nm = (case dir_map es nm of Some i \<Rightarrow> Some i | None \<Rightarrow> dir_map fs nm)"
  by (induction es) (auto split: option.splits)

lemma unat_u64_plus:
  "unat a + n < 2 ^ 64 \<Longrightarrow> unat ((a :: u64) + of_nat n) = unat a + n"
  by (simp add: unat_word_ariths unat_of_nat)

lemma slots_store:
  assumes st: "store_cells b (24 * length es) (dirent_cells e) = Some b'"
    and sl: "\<forall>j < length es. slot_ok b j (es ! j)"
    and e: "e = \<lparr>rd_used = 1, rd_inode = ino, rd_namlen = of_nat (length nm + 1), rd_namep = Some nm\<rparr>"
    and nz: "0 \<notin> set nm" and ln: "length nm + 1 < 2 ^ 32"
  shows "\<forall>j < length (es @ [Some (nm, ino)]). slot_ok b' j ((es @ [Some (nm, ino)]) ! j)"
proof (intro allI impI)
  fix j assume "j < length (es @ [Some (nm, ino)])"
  then consider "j < length es" | "j = length es" by fastforce
  then show "slot_ok b' j ((es @ [Some (nm, ino)]) ! j)"
  proof cases
    case 1
    then have "slot_ok b' j (es ! j) = slot_ok b j (es ! j)"
      using st by (intro slot_ok_store_other [of b "length es" 0 "dirent_cells e"]) simp_all
    then show ?thesis using sl 1 by (simp add: nth_append)
  next
    case 2
    then show ?thesis using dent_store_same [OF st] nz ln by (simp add: slot_ok_def e)
  qed
qed

text \<open>The inode that receives the new entry: unchanged, or with a larger array.\<close>

lemma dir_room:
  assumes ok: "dir_ok d es" and small: "length es < 2 ^ 58"
  obtains d' where
    "link_target True d None = Some (d', length es)"
    and "dir_ok d' es" and "24 * length es + 24 \<le> unat (ri_allocd d')"
    and "ri_used d' = ri_used d" and "ri_size d' = ri_size d"
proof -
  let ?n = "length es"
  have sz: "unat (ri_size d) = 24 * ?n" and al: "24 * ?n \<le> unat (ri_allocd d)"
    and bl: "length (dir_blk d) = unat (ri_allocd d)" and mx: "unat (ri_allocd d) \<le> 24 * ?n + 1024"
    and sl: "\<forall>j < ?n. slot_ok (dir_blk d) j (es ! j)"
    using ok by (auto simp: dir_ok_def)
  have sz': "unat (ri_size d + 24) = 24 * ?n + 24"
    using unat_u64_plus [of "ri_size d" 24] sz small by simp
  have al': "unat (ri_allocd d + 768) = unat (ri_allocd d) + 768"
    using unat_u64_plus [of "ri_allocd d" 768] mx small by simp
  have grow: "ri_size d + 24 > ri_allocd d \<longleftrightarrow> unat (ri_allocd d) < 24 * ?n + 24"
    by (simp add: word_less_nat_alt sz')
  show ?thesis
  proof (cases "ri_size d + 24 > ri_allocd d")
    case True
    let ?d = "d\<lparr>ri_dptr := Some (realloc_blk (ri_dptr d) (unat (ri_allocd d + 768))),
                ri_allocd := ri_allocd d + 768\<rparr>"
    have lt: "unat (ri_allocd d) < 24 * ?n + 24" using True grow by simp
    have "unat (ri_allocd d) div 24 = ?n" using lt al by (intro div_nat_eqI) auto
    then have idx: "unat (ri_allocd d div 24) = ?n" by (simp add: unat_div_distrib)
    have blk: "dir_blk ?d = realloc_blk (Some (dir_blk d)) (unat (ri_allocd d + 768))"
      by (simp add: dir_blk_def realloc_blk_def split: option.splits)
    have "dir_ok ?d es"
      unfolding dir_ok_def blk using sz al mx lt al' bl sl by (simp add: slot_ok_realloc)
    then show ?thesis using that [of ?d] True idx al al' by (simp add: link_target_def)
  next
    case False
    have "unat (ri_size d div 24) = ?n" using sz by (simp add: unat_div_distrib)
    then show ?thesis using that [of d] False grow ok by (simp add: link_target_def)
  qed
qed

lemma mklink_full:
  assumes dir: "ramfs_dir fs dino es" and full: "None \<notin> set es" and small: "length es < 2 ^ 58"
    and nz: "0 \<notin> set nm" and ln: "length nm + 1 < 2 ^ 32"
  shows "\<exists>fs'. ramfs_mklink True True fs ino mode dino nm = Some (0, fs') \<and>
    ramfs_dir fs' dino (es @ [Some (nm, ino)]) \<and> (\<forall>j. j \<noteq> dino \<longrightarrow> getinod fs' j = getinod fs j)"
proof -
  obtain d where g: "getinod fs dino = Some (Some d)" and ok: "dir_ok d es"
    using dir by (auto simp: ramfs_dir_def)
  let ?ent = "\<lparr>rd_used = 1, rd_inode = ino, rd_namlen = of_nat (length nm + 1), rd_namep = Some nm\<rparr>"
  have "\<forall>j < length es. slot_ok (dir_blk d) (0 + j) (es ! j)" using ok by (simp add: dir_ok_def)
  then have free: "scan_slot (dir_blk d) 0 (ndirs d) = Some None"
    using scan_slot_slots ok full by (simp add: ndirs_slots free_index_None)
  obtain d' where d': "link_target True d None = Some (d', length es)"
    and ok': "dir_ok d' es" and room: "24 * length es + 24 \<le> unat (ri_allocd d')"
    and u: "ri_used d' = ri_used d" and s: "ri_size d' = ri_size d"
    using dir_room [OF ok small] by blast
  have sl': "\<forall>j < length es. slot_ok (dir_blk d') j (es ! j)"
    and bl': "length (dir_blk d') = unat (ri_allocd d')" using ok' by (simp_all add: dir_ok_def)
  obtain b where b: "store_cells (dir_blk d') (24 * length es) (dirent_cells ?ent) = Some b"
    using store_cells_Some [of "24 * length es" "dirent_cells ?ent" "dir_blk d'"] room bl' by auto
  let ?d = "d'\<lparr>ri_dptr := Some b, ri_size := ri_size d' + 24\<rparr>"
  have "unat (ri_size d' + 24) = 24 * length es + 24"
    using unat_u64_plus [of "ri_size d'" 24] ok' small by (simp add: dir_ok_def)
  moreover have "unat (ri_allocd d') \<le> 24 * length es + 1024" using ok' by (simp add: dir_ok_def)
  moreover have "dir_blk ?d = b" by (simp add: dir_blk_def)
  moreover have "length b = unat (ri_allocd d')" using store_cells_length [OF b] bl' by simp
  ultimately have okd: "dir_ok ?d (es @ [Some (nm, ino)])"
    using slots_store [OF b sl' refl nz ln] room by (simp add: dir_ok_def)
  have res: "ramfs_mklink True True fs ino mode dino nm = Some (0, put_inod fs dino ?d)"
    using b by (simp add: ramfs_mklink_def g free d')
  have "ri_used ?d \<noteq> 0" using g u by (simp add: getinod_Some)
  then have "getinod (put_inod fs dino ?d) dino = Some (Some ?d)" by (rule getinod_put_same [OF g])
  moreover have "dino \<noteq> 0" using g by (simp add: getinod_Some)
  ultimately show ?thesis using res okd getinod_put_other [of dino _ fs ?d] by (auto simp: ramfs_dir_def)
qed


subsection \<open>Removing entries\<close>

lemma dent_clear_slots:
  assumes "24 * i + 24 \<le> length b"
  obtains b' where "dent_clear b i = Some b'" and "length b' = length b" and "dent_used b' i = Some 0"
    and "\<And>j s. j \<noteq> i \<Longrightarrow> slot_ok b' j s = slot_ok b j s"
proof -
  obtain b1 where b1: "store_cells b (24 * i + 16) (ptr_cells None) = Some b1"
    using store_cells_Some [of "24 * i + 16" "ptr_cells None" b] assms by auto
  obtain b2 where b2: "store_cells b1 (24 * i + 8) (u32_cells 0) = Some b2"
    using store_cells_Some [of "24 * i + 8" "u32_cells 0" b1] store_cells_length [OF b1] assms by auto
  obtain b3 where b3: "store_cells b2 (24 * i + 4) (u32_cells 0) = Some b3"
    using store_cells_Some [of "24 * i + 4" "u32_cells 0" b2] store_cells_length [OF b1]
      store_cells_length [OF b2] assms by auto
  obtain b4 where b4: "store_cells b3 (24 * i + 0) [Byte 0] = Some b4"
    using store_cells_Some [of "24 * i + 0" "[Byte 0]" b3] store_cells_length [OF b1]
      store_cells_length [OF b2] store_cells_length [OF b3] assms by auto
  have len: "length b4 = length b"
    using b1 b2 b3 b4 by (auto dest!: store_cells_length)
  have "dent_used b4 i = Some 0" using load_store_same [OF b4] by (simp add: dent_defs)
  moreover have "slot_ok b4 j s = slot_ok b j s" if "j \<noteq> i" for j s
    using slot_ok_store_other [OF b1, of j s] slot_ok_store_other [OF b2, of j s]
      slot_ok_store_other [OF b3, of j s] slot_ok_store_other [OF b4, of j s] that by simp
  moreover have "dent_clear b i = Some b4" using b1 b2 b3 b4 by (simp add: dent_clear_def)
  ultimately show ?thesis using that len by blast
qed

lemma rmlink_slots:
  assumes dir: "ramfs_dir fs dino es" and nz: "0 \<notin> set nm" and ln: "length nm + 1 < 2 ^ 32"
    and i: "ent_index 0 nm es = Some i"
  shows "\<exists>fs'. ramfs_rmlink fs dino nm = Some (0, fs') \<and> ramfs_dir fs' dino (es[i := None])
    \<and> (\<forall>j. j \<noteq> dino \<longrightarrow> getinod fs' j = getinod fs j)"
proof -
  obtain d where g: "getinod fs dino = Some (Some d)" and ok: "dir_ok d es"
    using dir by (auto simp: ramfs_dir_def)
  have sl: "\<forall>j < length es. slot_ok (dir_blk d) (0 + j) (es ! j)" using ok by (simp add: dir_ok_def)
  have sc: "scan_name (dir_blk d) nm 0 (ndirs d) = Some (Some i)"
    using scan_name_slots [OF sl nz ln] ok i by (simp add: ndirs_slots)
  have il: "i < length es" using ent_index_map [where i = 0 and nm = nm and es = es] i by simp
  then have "24 * i + 24 \<le> length (dir_blk d)" using ok by (simp add: dir_ok_def)
  then obtain b where b: "dent_clear (dir_blk d) i = Some b" "length b = length (dir_blk d)"
    "dent_used b i = Some 0" and oth: "\<And>j s. j \<noteq> i \<Longrightarrow> slot_ok b j s = slot_ok (dir_blk d) j s"
    using dent_clear_slots by blast
  let ?d = "d\<lparr>ri_dptr := Some b\<rparr>"
  have "\<forall>j < length es. slot_ok b j (es[i := None] ! j)"
    using sl oth b(3) il by (auto simp: nth_list_update slot_ok_def [of b i None])
  then have okd: "dir_ok ?d (es[i := None])"
    using ok b by (simp add: dir_ok_def dir_blk_def [of ?d])
  have "getinod (put_inod fs dino ?d) dino = Some (Some ?d)"
    using g by (intro getinod_put_same [OF g]) (simp add: getinod_Some)
  moreover have "dino \<noteq> 0" using g by (simp add: getinod_Some)
  moreover have "ramfs_rmlink fs dino nm = Some (0, put_inod fs dino ?d)"
    by (simp add: ramfs_rmlink_def g sc b)
  ultimately show ?thesis using okd getinod_put_other [of dino _ fs ?d] by (auto simp: ramfs_dir_def)
qed


lemma dir_map_fill:
  "es ! i = None \<Longrightarrow> i < length es \<Longrightarrow> x \<noteq> nm \<Longrightarrow> dir_map (es[i := Some (nm, ino)]) x = dir_map es x"
proof (induction es arbitrary: i)
  case Nil
  then show ?case by simp
next
  case (Cons e es)
  then show ?case by (cases i) (auto split: option.splits)
qed

lemma scan_name_append:
  "scan_name b nm i (k + l) = do { r \<leftarrow> scan_name b nm i k;
     case r of Some x \<Rightarrow> Some (Some x) | None \<Rightarrow> scan_name b nm (i + k) l }"
  by (induction k arbitrary: i) (auto split: bind_splits)

lemma ent_index_None: "dir_map es x = None \<Longrightarrow> ent_index i x es = None"
  by (induction es arbitrary: i) (auto simp: ent_named_def split: option.splits if_splits)

lemma mklink_reuse:
  assumes g: "getinod fs dino = Some (Some d)" and ok: "dir_ok d es" and free: "None \<in> set es"
    and stale: "dent_used (dir_blk d) (length es) = None" and small: "length es < 2 ^ 58"
    and nz: "0 \<notin> set nm" and ln: "length nm + 1 < 2 ^ 32"
    and x: "x \<noteq> nm" "dir_map es x = None" "0 \<notin> set x" "length x + 1 < 2 ^ 32"
  shows "\<exists>fs'. ramfs_mklink True ok2 fs ino mode dino nm = Some (0, fs') \<and> ramfs_lookup fs' dino x = None"
proof -
  let ?ent = "\<lparr>rd_used = 1, rd_inode = ino, rd_namlen = of_nat (length nm + 1), rd_namep = Some nm\<rparr>"
  have sl: "\<forall>j < length es. slot_ok (dir_blk d) (0 + j) (es ! j)" using ok by (simp add: dir_ok_def)
  obtain i where i: "free_index 0 es = Some i" using free free_index_None [of 0 es] by auto
  then have il: "i < length es" and ei: "es ! i = None" using free_index_Some [of 0 es i] by auto
  have sc: "scan_slot (dir_blk d) 0 (ndirs d) = Some (Some i)"
    using scan_slot_slots [OF sl] ok i by (simp add: ndirs_slots)
  have "24 * i + 24 \<le> length (dir_blk d)" using il ok by (simp add: dir_ok_def)
  then obtain b where b: "store_cells (dir_blk d) (24 * i) (dirent_cells ?ent) = Some b"
    using store_cells_Some [of "24 * i" "dirent_cells ?ent"] by auto
  have b0: "store_cells (dir_blk d) (24 * i + 0) (dirent_cells ?ent) = Some b" using b by simp
  let ?es = "es[i := Some (nm, ino)]"
  let ?d = "d\<lparr>ri_dptr := Some b, ri_size := ri_size d + 24\<rparr>"
  have res: "ramfs_mklink True ok2 fs ino mode dino nm = Some (0, put_inod fs dino ?d)"
    using b by (simp add: ramfs_mklink_def g sc link_target_def)
  have sl': "slot_ok b (0 + j) (?es ! j)" if "j < length ?es" for j
  proof (cases "j = i")
    case True
    then show ?thesis using dent_store_same [OF b] nz ln il by (simp add: slot_ok_def)
  next
    case False
    then show ?thesis using sl that slot_ok_store_other [OF b0, of j] by simp
  qed
  have st: "dent_used b (length es) = None"
    using stale il dent_store_other(1) [OF b0, of "length es"] by simp
  have "scan_name b x 0 (length ?es) = Some (ent_index 0 x ?es)"
    using sl' by (intro scan_name_slots x) blast
  moreover have "ent_index 0 x ?es = None"
    using x dir_map_fill [OF ei il] by (intro ent_index_None) simp
  ultimately have "scan_name b x 0 (length es + 1) = None"
    using scan_name_append [of b x 0 "length es" 1] st by (simp add: dent_match_def)
  moreover have "ndirs ?d = length es + 1"
    using unat_u64_plus [of "ri_size d" 24] ok small by (simp add: ndirs_def unat_div_distrib dir_ok_def)
  moreover have "getinod (put_inod fs dino ?d) dino = Some (Some ?d)"
    using g by (intro getinod_put_same [OF g]) (simp add: getinod_Some)
  ultimately have "ramfs_lookup (put_inod fs dino ?d) dino x = None"
    by (simp add: ramfs_lookup_def dir_blk_def)
  then show ?thesis using res by blast
qed

subsection \<open>The growth loop of a write\<close>

definition pow2 :: "u64 \<Rightarrow> bool" where
  "pow2 w \<longleftrightarrow> w = 0 \<or> (\<exists>k < 64. w = 2 ^ k)"

lemma pow2_double: "pow2 w \<Longrightarrow> pow2 (w * 2)"
proof -
  assume "pow2 w"
  then consider "w = 0" | k where "k < 64" "w = 2 ^ k" by (auto simp: pow2_def)
  then show ?thesis
  proof cases
    case (2 k)
    then have w: "w * 2 = 2 ^ Suc k" by simp
    show ?thesis
    proof (cases "k = 63")
      case True
      then show ?thesis using w by (simp add: pow2_def)
    next
      case False
      then show ?thesis using 2 w unfolding pow2_def by (intro disjI2 exI [of _ "Suc k"]) simp
    qed
  qed (simp add: pow2_def)
qed

lemma pow2_le: "pow2 w \<Longrightarrow> w \<le> 2 ^ 63"
proof -
  assume "pow2 w"
  then consider "w = 0" | k where "k < 64" "w = 2 ^ k" by (auto simp: pow2_def)
  then show ?thesis
  proof cases
    case (2 k)
    have "(2::nat) ^ k < 2 ^ 64" using 2 by (intro power_strict_increasing) auto
    then have "unat w = 2 ^ k" using 2 unat_of_nat_small [where 'a = 64 and n = "2 ^ k"] by simp
    also have "\<dots> \<le> 2 ^ 63" using 2 by (intro power_increasing) auto
    finally show ?thesis by (simp add: word_le_nat_alt)
  qed simp
qed

lemma grow_cap_result:
  assumes "grow_cap c need = Some y"
  shows "need \<le> y \<and> (pow2 c \<longrightarrow> pow2 y)"
proof (rule grow_cap.raw_induct [OF _ assms, of "\<lambda>c need y. need \<le> y \<and> (pow2 c \<longrightarrow> pow2 y)"])
  fix f c need y
  assume "\<And>c need y. f c need = Some y \<Longrightarrow> need \<le> y \<and> (pow2 c \<longrightarrow> pow2 y)"
    and "(if c < need then f (c * 2) need else Some c) = Some y"
  then show "need \<le> y \<and> (pow2 c \<longrightarrow> pow2 y)"
    by (cases "c < need") (auto simp: pow2_double not_less)
qed

lemma grow_cap_returns:
  assumes "c \<noteq> 0" and "need \<le> 2 ^ 63"
  shows "\<exists>y. grow_cap c need = Some y \<and> c \<le> y"
  using assms
proof (induction "unat need - unat c" arbitrary: c rule: less_induct)
  case less
  show ?case
  proof (cases "c < need")
    case True
    have n: "unat need \<le> 2 ^ 63" using less.prems by (simp add: word_le_nat_alt)
    have c: "unat c < unat need" using True by (simp add: word_less_nat_alt)
    have "0 < unat c" using less.prems by (simp add: unat_gt_0)
    have d: "unat (c * 2) = 2 * unat c" using n c by (simp add: unat_word_ariths)
    have "unat need - unat (c * 2) < unat need - unat c" using d c \<open>0 < unat c\<close> by simp
    moreover have "c * 2 \<noteq> 0" using d \<open>0 < unat c\<close> by (metis mult_is_0 not_less0 unat_0 zero_neq_numeral)
    ultimately obtain y where "grow_cap (c * 2) need = Some y" "c * 2 \<le> y"
      using less.hyps less.prems by blast
    moreover have "c \<le> c * 2" using d by (simp add: word_le_nat_alt)
    ultimately show ?thesis using True by (subst grow_cap.simps) (auto intro: order_trans)
  next
    case False
    then show ?thesis by (subst grow_cap.simps) simp
  qed
qed

subsection \<open>Reading and writing\<close>

definition file_ok :: "ramfs_inode \<Rightarrow> bool" where
  "file_ok d \<longleftrightarrow> length (dir_blk d) = unat (ri_allocd d) \<and> ri_size d \<le> ri_allocd d"

text \<open>The contents of a file.\<close>

definition file_cells :: "ramfs_inode \<Rightarrow> memval list" where
  "file_cells d = take (unat (ri_size d)) (dir_blk d)"

lemma sint_small: "unat (w :: u64) < 2 ^ 63 \<Longrightarrow> sint w = int (unat w)"
proof -
  assume "unat w < 2 ^ 63"
  then have "(uint w + 2 ^ 63) mod 2 ^ 64 = uint w + 2 ^ 63"
    by (intro mod_pos_pos_trivial) (simp_all add: uint_nat del: of_nat_unat)
  then show ?thesis
    by (simp add: sint_uint signed_take_bit_eq_take_bit_shift take_bit_eq_mod)
qed

lemma ramfs_read_cells:
  assumes g: "getinod fs ino = Some (Some d)" and ok: "file_ok d"
    and b: "unat off + unat nb \<le> unat (ri_size d)"
  shows "ramfs_read fs ino off nb = Some (sint nb, take (unat nb) (drop (unat off) (file_cells d)))"
proof -
  have u: "unat (off + nb) = unat off + unat nb"
    using b unat_u64 [of "ri_size d"] by (intro unat_plus_no_wrap) simp
  have "\<not> ri_size d < off" and "\<not> ri_size d < off + nb"
    using b u by (simp_all add: word_less_nat_alt)
  moreover have "load_cells (dir_blk d) (unat off) (unat nb) = Some (take (unat nb) (drop (unat off) (file_cells d)))"
    using b ok by (simp add: load_cells_def file_cells_def file_ok_def word_le_nat_alt drop_take min_def)
  ultimately show ?thesis using g by (simp add: ramfs_read_def)
qed

lemma take_beyond:
  "length a = n \<Longrightarrow> n + length d \<le> S \<Longrightarrow> take S (a @ d @ r) = a @ d @ take (S - (n + length d)) r"
  by simp

text \<open>The block a write stores into: the old one, or a larger copy of it.\<close>

lemma write_room:
  assumes ok: "file_ok d" and need: "unat need \<le> 2 ^ 63"
  obtains d' where "write_grow True d need = Some (Some d')"
    and "file_ok d'" and "unat need \<le> length (dir_blk d')" and "ri_dptr d' = None \<longrightarrow> unat need = 0"
    and "\<exists>k. dir_blk d' = dir_blk d @ fresh_blk k"
    and "ri_size d' = ri_size d" and "ri_used d' = ri_used d"
proof (cases "ri_allocd d < need")
  case True
  let ?cap = "if ri_allocd d \<noteq> 0 then ri_allocd d else 1024"
  have "?cap \<noteq> 0" by simp
  moreover have "need \<le> 2 ^ 63" using need by (simp add: word_le_nat_alt)
  ultimately obtain c where c: "grow_cap ?cap need = Some c" "?cap \<le> c"
    using grow_cap_returns by blast
  have nc: "need \<le> c" using grow_cap_result [OF c(1)] by simp
  have "ri_allocd d \<le> c" using nc True by simp
  then have ac: "unat (ri_allocd d) \<le> unat c" by (simp add: word_le_nat_alt)
  let ?d = "d\<lparr>ri_dptr := Some (realloc_blk (ri_dptr d) (unat c)), ri_allocd := c\<rparr>"
  have blk: "dir_blk ?d = dir_blk d @ fresh_blk (unat c - length (dir_blk d))"
    using ok ac by (auto simp: dir_blk_def realloc_blk_def file_ok_def split: option.splits)
  have "file_ok ?d" using ok ac \<open>ri_allocd d \<le> c\<close>
    by (auto simp: file_ok_def blk simp del: ramfs_inode.simps)
  moreover have "unat need \<le> length (dir_blk ?d)"
    using ok ac nc by (simp add: blk file_ok_def word_le_nat_alt)
  ultimately show ?thesis using that [of ?d] c True blk by (auto simp: write_grow_def)
next
  case False
  have "unat need \<le> unat (ri_allocd d)" using False by (simp add: word_less_nat_alt)
  moreover have "ri_dptr d = None \<longrightarrow> unat need = 0"
    using ok \<open>unat need \<le> unat (ri_allocd d)\<close> by (auto simp: file_ok_def dir_blk_def)
  moreover have "\<exists>k. dir_blk d = dir_blk d @ fresh_blk k" by (rule exI [of _ 0]) (simp add: fresh_blk_def)
  ultimately show ?thesis using that [of d] False ok by (simp add: file_ok_def write_grow_def)
qed


lemma ramfs_write_cells:
  assumes g: "getinod fs ino = Some (Some d)" and ok: "file_ok d"
    and len: "unat off + length data < 2 ^ 63"
  shows "\<exists>fs' d'. ramfs_write True fs ino off (of_nat (length data)) data = Some (int (length data), fs')
    \<and> getinod fs' ino = Some (Some d') \<and> file_ok d'
    \<and> unat (ri_size d') = max (unat (ri_size d)) (unat off + length data)
    \<and> file_cells d' = take (unat off) (dir_blk d @ fresh_blk (unat off)) @ data
         @ drop (unat off + length data) (file_cells d)
    \<and> (\<forall>j. j \<noteq> ino \<longrightarrow> getinod fs' j = getinod fs j)"
proof -
  let ?nb = "of_nat (length data) :: u64" and ?e = "unat off + length data"
  have nb: "unat ?nb = length data" using len by (intro unat_of_nat_small) simp
  have need: "unat (off + ?nb) = ?e" using len nb by (subst unat_plus_no_wrap) simp_all
  have le: "unat (off + ?nb) \<le> 2 ^ 63" unfolding need using len by linarith
  obtain d1 where c: "write_grow True d (off + ?nb) = Some (Some d1)"
    and ok1: "file_ok d1" and room: "?e \<le> length (dir_blk d1)" and np: "ri_dptr d1 = None \<longrightarrow> ?e = 0"
    and ext: "\<exists>k. dir_blk d1 = dir_blk d @ fresh_blk k"
    and s1: "ri_size d1 = ri_size d" and u1: "ri_used d1 = ri_used d"
    using write_room [OF ok le, unfolded need] by blast
  obtain k where k: "dir_blk d1 = dir_blk d @ fresh_blk k" using ext ..
  obtain b where b: "store_cells (dir_blk d1) (unat off) data = Some b"
    using store_cells_Some room by blast
  have ld: "load_cells data 0 (unat ?nb) = Some data" by (simp add: load_cells_def nb)
  let ?d = "d1\<lparr>ri_dptr := map_option (\<lambda>_. b) (ri_dptr d1),
               ri_size := (if off + ?nb > ri_size d1 then off + ?nb else ri_size d1)\<rparr>"
  have res: "ramfs_write True fs ino off ?nb data = Some (int (length data), put_inod fs ino ?d)"
    using c b ld len nb by (simp add: ramfs_write_def g sint_small)
  have bl: "dir_blk ?d = b" using np b room by (cases "ri_dptr d1") (auto simp: dir_blk_def store_cells_def)
  have szd: "unat (ri_size ?d) = max (unat (ri_size d)) ?e"
    using need s1 by (auto simp: word_less_nat_alt max_def)
  have lb: "length b = unat (ri_allocd d1)" using store_cells_length [OF b] ok1 by (simp add: file_ok_def)
  have "ri_size d1 \<le> ri_allocd d1" using ok1 by (simp add: file_ok_def)
  then have okd: "file_ok ?d"
    using lb bl room ok1 need by (auto simp: file_ok_def word_le_nat_alt)
  have szb: "unat (ri_size d) \<le> length (dir_blk d)" using ok by (simp add: file_ok_def word_le_nat_alt)
  have t1: "take (unat off) (dir_blk d1) = take (unat off) (dir_blk d @ fresh_blk (unat off))"
    using room k by (auto simp: fresh_blk_def min_def)
  have t2: "take (unat (ri_size ?d) - ?e) (drop ?e (dir_blk d1)) = drop ?e (file_cells d)"
    using szd szb by (cases "?e \<le> unat (ri_size d)") (simp_all add: k file_cells_def drop_take)
  have beq: "b = take (unat off) (dir_blk d1) @ data @ drop ?e (dir_blk d1)"
    using b by (simp add: store_cells_def split: if_splits)
  have "take S b = take (unat off) (dir_blk d1) @ data @ take (S - ?e) (drop ?e (dir_blk d1))"
    if "?e \<le> S" for S unfolding beq using that room by (intro take_beyond) simp_all
  then have "take (unat (ri_size ?d)) b = take (unat off) (dir_blk d1) @ data
      @ take (unat (ri_size ?d) - ?e) (drop ?e (dir_blk d1))" using szd by simp
  then have fc: "file_cells ?d = take (unat off) (dir_blk d @ fresh_blk (unat off)) @ data
      @ drop ?e (file_cells d)"
    unfolding t1 t2 by (simp only: file_cells_def [of ?d] bl)
  have "getinod (put_inod fs ino ?d) ino = Some (Some ?d)"
    using g u1 by (intro getinod_put_same [OF g]) (simp add: getinod_Some)
  moreover have "ino \<noteq> 0" using g by (simp add: getinod_Some)
  ultimately show ?thesis using res okd szd fc getinod_put_other [of ino _ fs ?d] by blast
qed

subsection \<open>Allocating inodes\<close>

definition tbl_ok :: "ramfs_info \<Rightarrow> bool" where
  "tbl_ok fs \<longleftrightarrow> length (inodtbl fs) = unat (ninodes fs) \<and> None \<notin> set (inodtbl fs)"

definition slot_used :: "ramfs_inode option list \<Rightarrow> nat \<Rightarrow> bool" where
  "slot_used t i \<longleftrightarrow> (\<exists>x. t ! i = Some x \<and> ri_used x \<noteq> 0)"

lemma scan_free_find:
  assumes "i + k \<le> length t" and "None \<notin> set t"
  shows "scan_free t i k = Some (find (\<lambda>j. \<not> slot_used t j) [i..<i + k])"
  using assms(1)
proof (induction k arbitrary: i)
  case 0
  then show ?case by simp
next
  case (Suc k)
  then have "t ! i \<in> set t" by simp
  then have "t ! i \<noteq> None" using assms(2) by metis
  then obtain x where x: "t ! i = Some x" by blast
  have "[i..<i + Suc k] = i # [Suc i..<Suc i + k]" by (simp add: upt_conv_Cons)
  then show ?case using Suc.IH [of "Suc i"] Suc.prems x by (simp add: tbl_get_def slot_used_def)
qed

lemma find_Some_in: "find P xs = Some x \<Longrightarrow> x \<in> set xs \<and> P x"
  by (induction xs) (auto split: if_splits)

lemma find_None_all: "find P xs = None \<longleftrightarrow> (\<forall>x \<in> set xs. \<not> P x)"
  by (induction xs) auto

lemma unat_succ: "i < unat (n :: u32) \<Longrightarrow> unat (of_nat (i + 1) :: u32) = i + 1"
  using unat_u32 [of n] by (intro unat_of_nat_small) simp

lemma findfreeino_cases:
  assumes ok: "tbl_ok fs" and room: "unat (ninodes fs) + 64 < 2 ^ 32"
  obtains (free) i h where "i < unat (ninodes fs)" and "\<not> slot_used (inodtbl fs) i"
      and "findfreeino al fs = Some (of_nat (i + 1), fs\<lparr>freehint := h\<rparr>)"
  | (full) h where "\<forall>i < unat (ninodes fs). slot_used (inodtbl fs) i"
      and "findfreeino al fs = (if al
        then Some (ninodes fs + 1, fs\<lparr>inodtbl := inodtbl fs @ replicate 64 None,
               ninodes := ninodes fs + 64, freehint := ninodes fs + 1\<rparr>)
        else Some (0, fs\<lparr>freehint := h\<rparr>))"
proof -
  let ?t = "inodtbl fs" and ?n = "unat (ninodes fs)"
  define h where "h = (if freehint fs \<ge> ninodes fs then 0 else freehint fs)"
  have hn: "unat h \<le> ?n" by (simp add: h_def word_le_nat_alt not_le)
  have t: "length ?t = ?n" "None \<notin> set ?t" using ok by (auto simp: tbl_ok_def)
  have fs1: "(if freehint fs \<ge> ninodes fs then fs\<lparr>freehint := 0\<rparr> else fs) = fs\<lparr>freehint := h\<rparr>"
    by (simp add: h_def)
  have s1: "scan_free ?t (unat h) (?n - unat h) = Some (find (\<lambda>j. \<not> slot_used ?t j) [unat h..<?n])"
    using scan_free_find [of "unat h" "?n - unat h" ?t] hn t by simp
  have s2: "scan_free ?t 0 (unat h) = Some (find (\<lambda>j. \<not> slot_used ?t j) [0..<unat h])"
    using scan_free_find [of 0 "unat h" ?t] hn t by simp
  show ?thesis
  proof (cases "find (\<lambda>j. \<not> slot_used ?t j) [unat h..<?n]")
    case (Some i)
    then show ?thesis using free [of i "of_nat (i + 1)"] find_Some_in [OF Some] s1
      by (simp add: findfreeino_def fs1)
  next
    case n1: None
    show ?thesis
    proof (cases "find (\<lambda>j. \<not> slot_used ?t j) [0..<unat h]")
      case (Some i)
      then show ?thesis using free [of i "of_nat (i + 1)"] find_Some_in [OF Some] s1 s2 n1 hn
        by (simp add: findfreeino_def fs1)
    next
      case None
      have "slot_used ?t i" if "i < ?n" for i
        using None n1 that unfolding find_None_all by (cases "i < unat h") auto
      moreover have "unat (ninodes fs + 64) = ?n + 64" using room by (simp add: unat_word_ariths)
      ultimately show ?thesis using full [of h] s1 s2 n1 None t
        by (simp add: findfreeino_def fs1 Let_def)
    qed
  qed
qed

lemma getinod_tbl:
  assumes "tbl_ok fs"
  shows "getinod fs j = Some (if j \<noteq> 0 \<and> j \<le> ninodes fs \<and> slot_used (inodtbl fs) (unat (j - 1))
    then inodtbl fs ! unat (j - 1) else None)"
proof (cases "j = 0 \<or> ninodes fs < j")
  case True
  then show ?thesis by (auto simp: getinod_def)
next
  case False
  then have "unat (j - 1) < unat (ninodes fs)"
    using unat_minus_one [of j] unat_gt_0 [of j] by (auto simp: word_less_nat_alt)
  then have l: "unat (j - 1) < length (inodtbl fs)" using assms by (simp add: tbl_ok_def)
  then have "inodtbl fs ! unat (j - 1) \<in> set (inodtbl fs)" by simp
  then have "inodtbl fs ! unat (j - 1) \<noteq> None" using assms by (metis tbl_ok_def)
  then obtain x where "inodtbl fs ! unat (j - 1) = Some x" by blast
  then show ?thesis using False l by (auto simp: getinod_def tbl_get_def slot_used_def)
qed


definition new_inode :: "u16 \<Rightarrow> u16 \<Rightarrow> u16 \<Rightarrow> ramfs_inode" where
  "new_inode mode uid gid = \<lparr>ri_used = 1, ri_mode = mode, ri_uid = uid, ri_atime = 0, ri_ctime = 0,
     ri_mtime = 0, ri_gid = gid, ri_size = 0, ri_rdev = 0, ri_allocd = 1024,
     ri_dptr = Some (fresh_blk 1024)\<rparr>"

lemma new_inode_ok: "dir_ok (new_inode mode uid gid) []" "file_ok (new_inode mode uid gid)"
  "file_cells (new_inode mode uid gid) = []"
  by (simp_all add: dir_ok_def file_ok_def new_inode_def dir_blk_def file_cells_def)

lemma mkino_by_find:
  assumes "findfreeino True fs = Some (ino, fs1)" and "ino \<noteq> 0" and "unat (ino - 1) < length (inodtbl fs1)"
  shows "ramfs_mkino True True fs mode uid gid = Some (uint ino, put_inod fs1 ino (new_inode mode uid gid))"
  using assms by (simp add: ramfs_mkino_def base_mkino_def new_inode_def)

lemma mkino_fresh:
  assumes ok: "tbl_ok fs" and room: "unat (ninodes fs) + 64 < 2 ^ 32"
  shows "\<exists>ino fs'. ramfs_mkino True True fs mode uid gid = Some (uint ino, fs') \<and> ino \<noteq> 0
    \<and> getinod fs ino = Some None \<and> getinod fs' ino = Some (Some (new_inode mode uid gid))
    \<and> (\<forall>j x. getinod fs j = Some (Some x) \<longrightarrow> getinod fs' j = Some (Some x))"
  using ok room
proof (cases rule: findfreeino_cases [where al = True])
  case (free i h)
  define ino :: u32 where "ino = of_nat (i + 1)"
  have u: "unat ino = i + 1" unfolding ino_def using free(1) by (rule unat_succ)
  then have i0: "ino \<noteq> 0" by auto
  then have u1: "unat (ino - 1) = i" using u by (simp add: unat_minus_one)
  have l: "length (inodtbl fs) = unat (ninodes fs)" using ok by (simp add: tbl_ok_def)
  have le: "ino \<le> ninodes fs" using free(1) u by (simp add: word_le_nat_alt)
  have g0: "getinod fs ino = Some None" using getinod_tbl [OF ok, of ino] free(2) u1 by simp
  let ?fs = "put_inod (fs\<lparr>freehint := h\<rparr>) ino (new_inode mode uid gid)"
  have "ramfs_mkino True True fs mode uid gid = Some (uint ino, ?fs)"
    using free(1,3) i0 u1 l unfolding ino_def by (intro mkino_by_find) simp_all
  moreover have "getinod ?fs ino = Some (Some (new_inode mode uid gid))"
    using le i0 u1 free(1) l by (simp add: getinod_Some put_inod_def tbl_get_Some new_inode_def)
  moreover have "getinod ?fs j = getinod fs j" if "j \<noteq> ino" for j
    using getinod_put_other [OF i0 that] by (simp add: getinod_def)
  ultimately show ?thesis using i0 g0 by (metis option.inject option.distinct(1))
next
  case (full h)
  define ino where "ino = ninodes fs + 1"
  have u: "unat ino = unat (ninodes fs) + 1" using room by (simp add: ino_def unat_word_ariths)
  then have i0: "ino \<noteq> 0" by auto
  have l: "length (inodtbl fs) = unat (ninodes fs)" using ok by (simp add: tbl_ok_def)
  have n64: "unat (ninodes fs + 64) = unat (ninodes fs) + 64" using room by (simp add: unat_word_ariths)
  have le: "ino \<le> ninodes fs + 64" using u n64 by (simp add: word_le_nat_alt)
  have g0: "getinod fs ino = Some None" using u by (simp add: getinod_def word_less_nat_alt)
  let ?fs1 = "fs\<lparr>inodtbl := inodtbl fs @ replicate 64 None, ninodes := ninodes fs + 64, freehint := ino\<rparr>"
  let ?fs = "put_inod ?fs1 ino (new_inode mode uid gid)"
  have "ramfs_mkino True True fs mode uid gid = Some (uint ino, ?fs)"
    using full(2) i0 l by (intro mkino_by_find) (simp_all add: ino_def)
  moreover have "getinod ?fs ino = Some (Some (new_inode mode uid gid))"
    using le i0 l by (simp add: getinod_Some put_inod_def tbl_get_Some new_inode_def ino_def)
  moreover have "getinod ?fs j = Some (Some x)" if x: "getinod fs j = Some (Some x)" for j x
  proof -
    have "j \<noteq> ino" using x g0 by auto
    moreover have "j \<le> ninodes fs + 64" using x n64 by (simp add: getinod_Some word_le_nat_alt)
    ultimately show ?thesis
      using x getinod_put_other [OF i0, of j ?fs1] by (auto simp: getinod_Some tbl_get_Some nth_append)
  qed
  ultimately show ?thesis using i0 g0 by blast
qed

lemma scan_free_stale: "tbl_get t i = None \<Longrightarrow> 0 < k \<Longrightarrow> scan_free t i k = None"
  by (cases k) simp_all

lemma mkino_growth_stale:
  assumes ok: "tbl_ok fs" and room: "unat (ninodes fs) + 64 < 2 ^ 32"
    and all: "\<forall>i < unat (ninodes fs). slot_used (inodtbl fs) i"
  shows "\<exists>fs'. ramfs_mkino True True fs mode uid gid = Some (uint (ninodes fs + 1), fs')
    \<and> findfreeino al fs' = None"
  using ok room
proof (cases rule: findfreeino_cases [where al = True])
  case (free i h)
  then show ?thesis using all by blast
next
  case (full h)
  let ?n = "unat (ninodes fs)"
  have u: "unat (ninodes fs + 1) = ?n + 1" using room by (simp add: unat_word_ariths)
  have n64: "unat (ninodes fs + 64) = ?n + 64" using room by (simp add: unat_word_ariths)
  have i0: "ninodes fs + 1 \<noteq> 0" using u by (metis Suc_eq_plus1 nat.distinct(1) unat_0)
  have l: "length (inodtbl fs) = ?n" using ok by (simp add: tbl_ok_def)
  let ?fs1 = "fs\<lparr>inodtbl := inodtbl fs @ replicate 64 None, ninodes := ninodes fs + 64, freehint := ninodes fs + 1\<rparr>"
  let ?fs = "put_inod ?fs1 (ninodes fs + 1) (new_inode mode uid gid)"
  have "ramfs_mkino True True fs mode uid gid = Some (uint (ninodes fs + 1), ?fs)"
    using full(2) i0 l by (intro mkino_by_find) simp_all
  moreover have "findfreeino al ?fs = None"
  proof -
    have "tbl_get (inodtbl ?fs) (?n + 1) = None"
      using l by (simp add: put_inod_def tbl_get_def nth_append)
    then have "scan_free (inodtbl ?fs) (?n + 1) 63 = None" by (rule scan_free_stale) simp
    moreover have "\<not> ninodes fs + 64 \<le> ninodes fs + 1" using u n64 by (simp add: word_le_nat_alt)
    ultimately show ?thesis
      unfolding findfreeino_def put_inod_def by (simp add: u n64 del: not_le)
  qed
  ultimately show ?thesis by blast
qed

section \<open>Properties\<close>

lemma mklink_repr:
  assumes "ramfs_dir fs dino es" and "None \<notin> set es" and "length es < 2 ^ 58" and "name_ok nm"
    and "dir_map es nm = None"
  shows "\<exists>fs' es'. ramfs_mklink True True fs ino mode dino nm = Some (0, fs') \<and> ramfs_dir fs' dino es'
    \<and> None \<notin> set es' \<and> length es' = Suc (length es) \<and> dir_map es' = (dir_map es)(nm \<mapsto> ino)"
proof -
  have nz: "0 \<notin> set nm" and ln: "length nm + 1 < 2 ^ 32" using assms(4) by (simp_all add: name_ok_def)
  have "dir_map (es @ [Some (nm, ino)]) = (dir_map es)(nm \<mapsto> ino)"
    using assms(5) by (auto simp: dir_map_append fun_eq_iff split: option.splits)
  moreover obtain fs' where "ramfs_mklink True True fs ino mode dino nm = Some (0, fs')"
    and "ramfs_dir fs' dino (es @ [Some (nm, ino)])"
    using mklink_full [OF assms(1-3) nz ln, of ino mode] by blast
  ultimately show ?thesis
    using assms(2) by (intro exI [of _ fs'] exI [of _ "es @ [Some (nm, ino)]"]) simp
qed

interpretation rdir: name_directory
  "\<lambda>fs nm. ramfs_lookup fs dino nm"
  "\<lambda>fs nm ino. ramfs_mklink True True fs ino mode dino nm"
  "\<lambda>fs m n. \<exists>es. ramfs_dir fs dino es \<and> None \<notin> set es \<and> dir_map es = m \<and> length es = n"
  "2 ^ 58" for dino mode
proof
  fix fs m n nm
  assume "\<exists>es. ramfs_dir fs dino es \<and> None \<notin> set es \<and> dir_map es = m \<and> length es = n" and "name_ok nm"
  then show "ramfs_lookup fs dino nm = Some (case m nm of Some ino \<Rightarrow> uint ino | None \<Rightarrow> - ENOENT)"
    using ramfs_lookup_map by (auto simp: name_ok_def)
next
  fix fs m n nm ino
  assume "\<exists>es. ramfs_dir fs dino es \<and> None \<notin> set es \<and> dir_map es = m \<and> length es = n"
    and "name_ok nm" and "n < 2 ^ 58" and "m nm = None"
  then show "\<exists>fs'. ramfs_mklink True True fs ino mode dino nm = Some (0, fs') \<and>
      (\<exists>es. ramfs_dir fs' dino es \<and> None \<notin> set es \<and> dir_map es = m(nm \<mapsto> ino) \<and> length es = Suc n)"
    using mklink_repr [of fs dino _ nm ino mode] by blast
qed

text \<open>Linking a list of names, stopping at the first error.\<close>

fun ramfs_link_all :: "u16 \<Rightarrow> u32 \<Rightarrow> ramfs_info \<Rightarrow> (cstr \<times> u32) list \<Rightarrow> ramfs_info option" where
  "ramfs_link_all mode dino fs [] = Some fs"
| "ramfs_link_all mode dino fs ((nm, ino) # xs) = do {
     (r, fs') \<leftarrow> ramfs_mklink True True fs ino mode dino nm;
     if r < 0 then None else ramfs_link_all mode dino fs' xs }"

lemma link_all_eq: "rdir.link_all mode dino fs xs = ramfs_link_all mode dino fs xs"
  by (induction xs arbitrary: fs) (auto split: bind_splits)

lemma fresh_dir: "getinod fs d = Some (Some (new_inode mode uid gid)) \<Longrightarrow> ramfs_dir fs d []"
  by (auto simp: ramfs_dir_def new_inode_ok)

text \<open>
  C34. A directory created with \<^verbatim>\<open>ramfs_mkino\<close> and filled with \<^verbatim>\<open>ramfs_mklink\<close> implements
  the map of the linked names: every name is found with its inode number, and any other name
  gives \<^verbatim>\<open>-ENOENT\<close>, however often the entry array had to grow.
\<close>

theorem ramfs_populate:
  assumes "tbl_ok fs" and "unat (ninodes fs) + 64 < 2 ^ 32"
    and "distinct (map fst xs)" and "\<forall>(nm, ino) \<in> set xs. name_ok nm" and "length xs \<le> 2 ^ 58"
  shows "\<exists>d fs1 fs2. ramfs_mkino True True fs mode uid gid = Some (uint d, fs1)
    \<and> ramfs_link_all mode' d fs1 xs = Some fs2
    \<and> (\<forall>(nm, ino) \<in> set xs. ramfs_lookup fs2 d nm = Some (uint ino))
    \<and> (\<forall>nm. name_ok nm \<longrightarrow> nm \<notin> fst ` set xs \<longrightarrow> ramfs_lookup fs2 d nm = Some (- ENOENT))"
proof -
  obtain d fs1 where mk: "ramfs_mkino True True fs mode uid gid = Some (uint d, fs1)"
    and g: "getinod fs1 d = Some (Some (new_inode mode uid gid))"
    using mkino_fresh [OF assms(1,2)] by blast
  have r: "\<exists>es. ramfs_dir fs1 d es \<and> None \<notin> set es \<and> dir_map es = Map.empty \<and> length es = 0"
    using fresh_dir [OF g] by (intro exI [of _ "[]"]) auto
  obtain fs2 where "rdir.link_all mode' d fs1 xs = Some fs2"
    and "\<forall>(nm, ino) \<in> set xs. ramfs_lookup fs2 d nm = Some (uint ino)"
    and "\<forall>nm. name_ok nm \<longrightarrow> nm \<notin> fst ` set xs \<longrightarrow> ramfs_lookup fs2 d nm = Some (- ENOENT)"
    using rdir.link_all_lookup [OF r assms(3), of mode'] assms(4,5) by auto
  then show ?thesis using mk unfolding link_all_eq by blast
qed

definition small_fs :: ramfs_info where
  "small_fs = \<lparr>inodtbl = [Some zero_inode, Some zero_inode], ninodes = 2, freehint = 0\<rparr>"

lemma small_fs_ok: "tbl_ok small_fs" "unat (ninodes small_fs) + 64 < 2 ^ 32"
  by (simp_all add: small_fs_def tbl_ok_def)

theorem ramfs_populate_witness:
  "tbl_ok small_fs \<and> distinct [lit ''a'', lit ''bc''] \<and>
   (\<exists>d fs1 fs2. ramfs_mkino True True small_fs S_IFDIR 0 0 = Some (uint d, fs1)
    \<and> ramfs_link_all 0 d fs1 [(lit ''a'', 5), (lit ''bc'', 6)] = Some fs2
    \<and> ramfs_lookup fs2 d (lit ''bc'') = Some 6 \<and> ramfs_lookup fs2 d (lit ''x'') = Some (- ENOENT))"
proof -
  have d: "distinct (map fst [(lit ''a'', 5 :: u32), (lit ''bc'', 6)])" by (simp add: lit_def)
  have n: "\<forall>(nm, ino) \<in> set [(lit ''a'', 5 :: u32), (lit ''bc'', 6)]. name_ok nm"
    by (simp add: lit_def name_ok_def)
  have x: "name_ok (lit ''x'')" "lit ''x'' \<notin> fst ` set [(lit ''a'', 5 :: u32), (lit ''bc'', 6)]"
    by (simp_all add: lit_def name_ok_def)
  obtain dd fs1 fs2 where w: "ramfs_mkino True True small_fs S_IFDIR 0 0 = Some (uint dd, fs1)"
    "ramfs_link_all 0 dd fs1 [(lit ''a'', 5), (lit ''bc'', 6)] = Some fs2"
    "\<forall>(nm, ino) \<in> set [(lit ''a'', 5 :: u32), (lit ''bc'', 6)]. ramfs_lookup fs2 dd nm = Some (uint ino)"
    "\<forall>nm. name_ok nm \<longrightarrow> nm \<notin> fst ` set [(lit ''a'', 5 :: u32), (lit ''bc'', 6)] \<longrightarrow>
       ramfs_lookup fs2 dd nm = Some (- ENOENT)"
    using ramfs_populate [OF small_fs_ok d n, of S_IFDIR 0 0 0] by auto
  have "ramfs_lookup fs2 dd (lit ''x'') = Some (- ENOENT)" using w(4) x by blast
  moreover have "ramfs_lookup fs2 dd (lit ''bc'') = Some 6" using w(3) by simp
  ultimately show ?thesis using w(1,2) d small_fs_ok by auto
qed

text \<open>
  \<^verbatim>\<open>ramfs_mkino\<close> on a table whose slots are all initialised returns an inode number
  that was not in use, stores the new empty inode there, and leaves every inode in use as it
  was, whether the free slot is found after the hint, before it, or by growing the table.
\<close>

theorem ramfs_mkino_fresh:
  assumes "tbl_ok fs" and "unat (ninodes fs) + 64 < 2 ^ 32"
  shows "\<exists>ino fs'. ramfs_mkino True True fs mode uid gid = Some (uint ino, fs') \<and> ino \<noteq> 0
    \<and> getinod fs ino = Some None \<and> getinod fs' ino = Some (Some (new_inode mode uid gid))
    \<and> (\<forall>j x. getinod fs j = Some (Some x) \<longrightarrow> getinod fs' j = Some (Some x))"
  using assms by (rule mkino_fresh)

theorem ramfs_mkino_fresh_witness:
  "tbl_ok small_fs \<and> unat (ninodes small_fs) + 64 < 2 ^ 32 \<and>
   (\<exists>ino fs'. ramfs_mkino True True small_fs S_IFREG 7 8 = Some (uint ino, fs')
     \<and> getinod fs' ino = Some (Some (new_inode S_IFREG 7 8)))"
  using ramfs_mkino_fresh [OF small_fs_ok, of S_IFREG 7 8] small_fs_ok by blast

text \<open>
  C37. The doubling loop of \<^verbatim>\<open>ramfs_write\<close>, started on a power of two as every file has it,
  ends exactly when the size it has to reach is at most 2 to the power 63, and then with a
  capacity that is large enough; for a larger size the capacity wraps to zero and the loop has
  no end.
\<close>

theorem grow_cap_terminates_iff:
  assumes "pow2 c" and "c \<noteq> 0"
  shows "((\<exists>y. grow_cap c need = Some y) \<longleftrightarrow> need \<le> 2 ^ 63)
    \<and> (\<forall>y. grow_cap c need = Some y \<longrightarrow> need \<le> y \<and> pow2 y)"
proof
  show "(\<exists>y. grow_cap c need = Some y) \<longleftrightarrow> need \<le> 2 ^ 63"
  proof
    assume "\<exists>y. grow_cap c need = Some y"
    then obtain y where "need \<le> y" and "pow2 y" using grow_cap_result assms(1) by blast
    then show "need \<le> 2 ^ 63" using pow2_le order_trans by blast
  next
    assume "need \<le> 2 ^ 63"
    then show "\<exists>y. grow_cap c need = Some y" using grow_cap_returns [OF assms(2)] by blast
  qed
  show "\<forall>y. grow_cap c need = Some y \<longrightarrow> need \<le> y \<and> pow2 y"
    using grow_cap_result assms(1) by blast
qed

theorem grow_cap_terminates_iff_witness:
  "pow2 1024 \<and> (1024 :: u64) \<noteq> 0 \<and> (\<exists>y. grow_cap 1024 5000 = Some y)
   \<and> (\<nexists>y. grow_cap 1024 (2 ^ 63 + 1) = Some y)"
proof -
  have p: "pow2 1024" unfolding pow2_def by (intro disjI2 exI [of _ 10]) simp
  then show ?thesis
    using grow_cap_terminates_iff [OF p, of 5000] grow_cap_terminates_iff [OF p, of "2 ^ 63 + 1"]
    by simp
qed

text \<open>
  C36. Writing to a file and reading the same range back returns the data.  The write keeps
  the bytes before and after the range, extends the size to cover it, and leaves every other
  inode alone; a range that starts past the end of the file exposes what the block held there.
\<close>

theorem ramfs_write_read:
  assumes "getinod fs ino = Some (Some d)" and "file_ok d" and "unat off + length data < 2 ^ 63"
  shows "\<exists>fs' d'. ramfs_write True fs ino off (of_nat (length data)) data = Some (int (length data), fs')
    \<and> getinod fs' ino = Some (Some d') \<and> file_ok d'
    \<and> ramfs_read fs' ino off (of_nat (length data)) = Some (int (length data), data)
    \<and> file_cells d' = take (unat off) (dir_blk d @ fresh_blk (unat off)) @ data
         @ drop (unat off + length data) (file_cells d)
    \<and> (\<forall>j. j \<noteq> ino \<longrightarrow> getinod fs' j = getinod fs j)"
proof -
  obtain fs' d' where w: "ramfs_write True fs ino off (of_nat (length data)) data = Some (int (length data), fs')"
    and g: "getinod fs' ino = Some (Some d')" and ok: "file_ok d'"
    and sz: "unat (ri_size d') = max (unat (ri_size d)) (unat off + length data)"
    and fc: "file_cells d' = take (unat off) (dir_blk d @ fresh_blk (unat off)) @ data
         @ drop (unat off + length data) (file_cells d)"
    and oth: "\<forall>j. j \<noteq> ino \<longrightarrow> getinod fs' j = getinod fs j"
    using ramfs_write_cells [OF assms] by blast
  have nb: "unat (of_nat (length data) :: u64) = length data"
    using assms(3) by (intro unat_of_nat_small) simp
  then have si: "sint (of_nat (length data) :: u64) = int (length data)"
    using assms(3) by (simp add: sint_small)
  have "take (length data) (drop (unat off) (file_cells d')) = data"
    unfolding fc by (simp add: min_def)
  then have "ramfs_read fs' ino off (of_nat (length data)) = Some (int (length data), data)"
    using ramfs_read_cells [OF g ok, of off "of_nat (length data)"] sz nb si by simp
  then show ?thesis using w g ok fc oth by blast
qed

theorem ramfs_write_read_witness:
  "\<exists>fs' d'. ramfs_write True (put_inod small_fs 1 (new_inode S_IFREG 0 0)) 1 2 3 [Byte 7, Byte 8, Byte 9]
     = Some (3, fs') \<and> ramfs_read fs' 1 2 3 = Some (3, [Byte 7, Byte 8, Byte 9])
     \<and> getinod fs' 1 = Some (Some d') \<and> file_cells d' = [Undef, Undef, Byte 7, Byte 8, Byte 9]"
proof -
  have g: "getinod (put_inod small_fs 1 (new_inode S_IFREG 0 0)) 1 = Some (Some (new_inode S_IFREG 0 0))"
    by (simp add: getinod_def put_inod_def small_fs_def tbl_get_def new_inode_def)
  have "take 2 (dir_blk (new_inode S_IFREG 0 0) @ fresh_blk 2) = [Undef, Undef]"
    by (simp add: new_inode_def dir_blk_def fresh_blk_def numeral_eq_Suc)
  then show ?thesis
    using ramfs_write_read [OF g new_inode_ok(2), of 2 "[Byte 7, Byte 8, Byte 9]"]
    by (auto simp: new_inode_ok(3))
qed

text \<open>
  C38. When a directory has a freed slot, \<^verbatim>\<open>ramfs_mklink\<close> fills that slot and still adds
  one entry to the directory size.  The directory then counts a slot that nobody has written,
  and the next lookup of a name that is not there reads it: its behaviour is undefined where
  it should return \<^verbatim>\<open>-ENOENT\<close>.
\<close>

theorem ramfs_slot_reuse_undefined:
  assumes "getinod fs dino = Some (Some d)" and "dir_ok d es" and "None \<in> set es"
    and "dent_used (dir_blk d) (length es) = None" and "length es < 2 ^ 58"
    and "name_ok nm" and "name_ok x" and "x \<noteq> nm" and "dir_map es x = None"
  shows "ramfs_lookup fs dino x = Some (- ENOENT) \<and>
    (\<exists>fs'. ramfs_mklink True ok2 fs ino mode dino nm = Some (0, fs') \<and> ramfs_lookup fs' dino x = None)"
proof
  have "ramfs_dir fs dino es" using assms(1,2) by (auto simp: ramfs_dir_def)
  then show "ramfs_lookup fs dino x = Some (- ENOENT)"
    using ramfs_lookup_map [of fs dino es x] assms by (simp add: name_ok_def)
  show "\<exists>fs'. ramfs_mklink True ok2 fs ino mode dino nm = Some (0, fs') \<and> ramfs_lookup fs' dino x = None"
    using mklink_reuse [OF assms(1-5), of nm x] assms(6-9) by (simp add: name_ok_def)
qed

definition freed_dir :: ramfs_inode where
  "freed_dir = (new_inode S_IFDIR 0 0)\<lparr>ri_size := 24, ri_allocd := 48,
     ri_dptr := Some (Byte 0 # replicate 47 Undef)\<rparr>"

theorem ramfs_slot_reuse_undefined_witness:
  "ramfs_lookup (put_inod small_fs 1 freed_dir) 1 (lit ''x'') = Some (- ENOENT) \<and>
   (\<exists>fs'. ramfs_mklink True True (put_inod small_fs 1 freed_dir) 2 0 1 (lit ''a'') = Some (0, fs')
      \<and> ramfs_lookup fs' 1 (lit ''x'') = None)"
proof -
  have g: "getinod (put_inod small_fs 1 freed_dir) 1 = Some (Some freed_dir)"
    by (simp add: getinod_def put_inod_def small_fs_def tbl_get_def freed_dir_def new_inode_def)
  have blk: "dir_blk freed_dir = Byte 0 # replicate 47 Undef"
    by (simp add: dir_blk_def freed_dir_def)
  have ok: "dir_ok freed_dir [None]"
    unfolding dir_ok_def blk by (simp add: freed_dir_def slot_ok_def dent_defs load_cells_def)
  have st: "dent_used (dir_blk freed_dir) (length [None :: slot]) = None"
    unfolding blk by (simp add: dent_defs load_cells_def)
  have n: "name_ok (lit ''a'')" "name_ok (lit ''x'')" "lit ''x'' \<noteq> lit ''a''"
    by (simp_all add: name_ok_def lit_def)
  show ?thesis
    using ramfs_slot_reuse_undefined [OF g ok _ st _ n(1,2,3), of True 2 0] by simp
qed

end
