(* ===== verification/Vfs_Resolve_Proofs.thy ===== *)
theory Vfs_Resolve_Proofs
  imports Vfs_Resolve Ramfs_Proofs
begin

text \<open>
  Correctness of path resolution.  The tokenizer cuts a path into the components of the path
  specification.  On a mount whose directories form a tree without symbolic links on the way,
  \<^verbatim>\<open>vfs_resolve\<close> finds the inode at the normalised path, or reports that it does not exist.
  A symbolic link at the end of the path is not followed to its target.
\<close>

section \<open>The tokenizer\<close>

lemma load_u8_at: "load_u8 (xs @ Byte c # ys) (length xs) = Some c"
  by (simp add: load_u8_def load_cells_def)

lemma skip_while_at:
  assumes "\<forall>c \<in> set u. P c" and "\<not> P v"
  shows "skip_while P (xs @ map Byte u @ Byte v # ys) (length xs) = Some (length xs + length u)"
  using assms(1)
proof (induction u arbitrary: xs)
  case Nil
  then show ?case using assms(2) by (subst skip_while.simps) (simp add: load_u8_at)
next
  case (Cons c u)
  have "skip_while P ((xs @ [Byte c]) @ map Byte u @ Byte v # ys) (length (xs @ [Byte c]))
      = Some (length (xs @ [Byte c]) + length u)" using Cons by (intro Cons.IH) simp
  then show ?case using Cons.prems by (subst skip_while.simps) (simp add: load_u8_at)
qed

lemma blk_str_at:
  assumes "0 \<notin> set c"
  shows "blk_str (xs @ map Byte c @ Byte 0 # ys) (length xs) = Some c"
  using assms
proof (induction c arbitrary: xs)
  case Nil
  then show ?case by (subst blk_str.simps) (simp add: load_u8_at)
next
  case (Cons a c)
  have "blk_str ((xs @ [Byte a]) @ map Byte c @ Byte 0 # ys) (length (xs @ [Byte a])) = Some c"
    using Cons by (intro Cons.IH) simp
  then show ?case using Cons.prems by (subst blk_str.simps) (simp add: load_u8_at)
qed

text \<open>The component strings found at a list of offsets.\<close>

definition strs_at :: "memblk \<Rightarrow> nat list \<Rightarrow> cstr list \<Rightarrow> bool" where
  "strs_at b os ss \<longleftrightarrow> list_all2 (\<lambda>o1 s. blk_str b o1 = Some s) os ss"

lemma tok_step_slashes:
  assumes "\<forall>c \<in> set u. c = 47" and "v \<noteq> 47" and "b = xs @ map Byte u @ Byte v # ys"
  shows "skip_while (\<lambda>c. c = 47) b (length xs) = Some (length xs + length u)"
  unfolding assms(3) using assms(1,2) by (intro skip_while_at) auto

lemma takeWhile_slashes: "\<forall>c \<in> set (takeWhile (\<lambda>c. c = (47 :: u8)) w). c = 47"
  by (auto dest: set_takeWhileD)

lemma tok_loop_end:
  assumes "b = xs @ map Byte rest @ Byte 0 # ys" and "dropWhile (\<lambda>c. c = 47) rest = []"
  shows "tok_loop b (length xs) cs = Some (Inr (b, cs))"
proof (cases rest)
  case Nil
  then show ?thesis using assms load_u8_at [of xs 0 ys] by (subst tok_loop.simps) simp
next
  case (Cons c r)
  have all: "\<forall>c \<in> set rest. c = 47" using assms(2) by simp
  then have "c = 47" using Cons by simp
  have l: "load_u8 b (length xs) = Some 47" using assms(1) Cons \<open>c = 47\<close> load_u8_at [of xs 47] by simp
  have s: "skip_while (\<lambda>c. c = 47) b (length xs) = Some (length xs + length rest)"
    by (rule tok_step_slashes [OF all _ assms(1)]) simp
  have "load_u8 ((xs @ map Byte rest) @ Byte 0 # ys) (length (xs @ map Byte rest)) = Some 0"
    by (rule load_u8_at)
  then have "load_u8 b (length xs + length rest) = Some 0" using assms(1) by simp
  then show ?thesis using l s by (subst tok_loop.simps) simp
qed


lemma tok_loop_comp:
  assumes b: "b = xs @ map Byte (sl @ c) @ Byte v # ys" and sl: "\<forall>x \<in> set sl. x = 47"
    and c: "c \<noteq> []" "\<forall>x \<in> set c. x \<noteq> 47 \<and> x \<noteq> 0" "length c \<le> 255" and v: "v = 0 \<or> v = 47"
    and cs: "length cs < 2048"
  shows "tok_loop b (length xs) cs =
    (if v = 0 then tok_loop b (length xs + length (sl @ c)) (cs @ [length xs + length sl])
     else tok_loop (xs @ map Byte (sl @ c) @ Byte 0 # ys) (Suc (length xs + length (sl @ c)))
       (cs @ [length xs + length sl]))"
proof -
  let ?st = "length xs + length sl" and ?q = "length xs + length (sl @ c)"
  obtain c0 c' where c': "c = c0 # c'" using c(1) by (cases c) auto
  have c0: "c0 \<noteq> 47" "c0 \<noteq> 0" using c(2) c' by auto
  have b1: "b = xs @ map Byte sl @ Byte c0 # map Byte c' @ Byte v # ys" using b c' by simp
  have sk: "skip_while (\<lambda>c. c = 47) b (length xs) = Some ?st"
    using tok_step_slashes [OF sl c0(1) b1] .
  have b2: "b = (xs @ map Byte sl) @ map Byte c @ Byte v # ys" using b by simp
  have lst: "load_u8 b ?st = Some c0"
    using load_u8_at [of "xs @ map Byte sl" c0] b1 by simp
  have sn: "skip_while (\<lambda>c. c \<noteq> 47 \<and> c \<noteq> 0) b ?st = Some ?q"
    using skip_while_at [of c "\<lambda>c. c \<noteq> 47 \<and> c \<noteq> 0" v "xs @ map Byte sl" ys] c(2) v b2 by auto
  have lq: "load_u8 b ?q = Some v"
    using load_u8_at [of "xs @ map Byte (sl @ c)" v ys] b by simp
  obtain f where f: "load_u8 b (length xs) = Some f" and f0: "f \<noteq> 0"
  proof (cases sl)
    case Nil
    then show ?thesis using that [of c0] lst c0 by simp
  next
    case (Cons a sl')
    then have "load_u8 b (length xs) = Some a" using load_u8_at [of xs a] b by simp
    then show ?thesis using that [of a] sl Cons by simp
  qed
  have cut: "cut_comp b ?q = Some (if v = 0 then (b, ?q) else (xs @ map Byte (sl @ c) @ Byte 0 # ys, Suc ?q))"
    using lq b by (auto simp: cut_comp_def store_cells_def)
  show ?thesis
    using f f0 sk lst c0 sn cut cs c(3)
    by (subst tok_loop.simps) (simp add: pathstk_push_def)
qed

lemma comps_cases:
  fixes rest :: cstr
  obtains (none) "dropWhile (\<lambda>c. c = 47) rest = []" "comps rest = []"
  | (some) sl c r where "rest = sl @ c @ r" "\<forall>x \<in> set sl. x = 47" "c \<noteq> []" "47 \<notin> set c"
      "r = [] \<or> hd r = 47" "comps rest = c # comps r" "length r < length rest"
proof (cases "dropWhile (\<lambda>c. c = 47) rest = []")
  case True
  then have "comps rest = []" by (subst comps.simps) (simp only: Let_def if_True simp_thms)
  then show ?thesis using none True by blast
next
  case False
  let ?p = "dropWhile (\<lambda>c. c = 47) rest"
  let ?c = "takeWhile (\<lambda>c. c \<noteq> 47) ?p" and ?r = "dropWhile (\<lambda>c. c \<noteq> 47) ?p"
  have p: "rest = takeWhile (\<lambda>c. c = 47) rest @ ?c @ ?r" by simp
  have c: "?c \<noteq> []" "47 \<notin> set ?c" using comp_proper [OF refl False refl] by auto
  have r: "?r = [] \<or> hd ?r = 47" by (rule rest_slash)
  have "comps rest = ?c # comps ?r" using comps_step [OF _ c r] by simp
  moreover have "length ?r < length rest" by (rule canon_rest_shorter [OF False])
  ultimately show ?thesis using some [OF p takeWhile_slashes c r] by blast
qed

text \<open>A block cut into components: the offsets found and the strings there.\<close>

lemma tok_loop_correct:
  assumes "b = xs @ map Byte rest @ Byte 0 # ys" and "0 \<notin> set rest"
    and "\<forall>c \<in> set (comps rest). length c \<le> 255" and "length cs + length (comps rest) \<le> 2048"
  shows "\<exists>b' new. tok_loop b (length xs) cs = Some (Inr (b', cs @ new)) \<and> length b' = length b
    \<and> take (length xs) b' = xs \<and> strs_at b' new (comps rest)"
  using assms
proof (induction rest arbitrary: b xs cs rule: length_induct)
  case (1 rest)
  note prems = "1.prems"
  show ?case
  proof (cases rest rule: comps_cases)
    case none
    then show ?thesis using tok_loop_end [OF prems(1)] prems(1) by (simp add: strs_at_def)
  next
    case (some sl c r)
    have c: "c \<noteq> []" "\<forall>x \<in> set c. x \<noteq> 47 \<and> x \<noteq> 0" "length c \<le> 255"
      using some prems(2,3) by auto
    have cs: "length cs < 2048" using prems(4) some(6) by simp
    let ?st = "length xs + length sl"
    have st_str: "blk_str b' ?st = Some c"
      if "take (Suc (length xs + length (sl @ c))) b' = xs @ map Byte (sl @ c) @ [Byte 0]" for b'
    proof -
      let ?n = "Suc (length xs + length (sl @ c))"
      have "b' = (xs @ map Byte sl) @ map Byte c @ Byte 0 # drop ?n b'"
        using append_take_drop_id [of ?n b', symmetric] unfolding that by simp
      moreover have "0 \<notin> set c" using c(2) by auto
      ultimately show ?thesis using blk_str_at [of c "xs @ map Byte sl" "drop ?n b'"] by (metis length_append length_map)
    qed
    show ?thesis
    proof (cases r)
      case Nil
      have b: "b = xs @ map Byte (sl @ c) @ Byte 0 # ys" using prems(1) some(1) Nil by simp
      have "tok_loop b (length xs) cs = tok_loop b (length xs + length (sl @ c)) (cs @ [?st])"
        using tok_loop_comp [OF b some(2) c _ cs] by simp
      moreover have "tok_loop b (length (xs @ map Byte (sl @ c))) (cs @ [?st]) = Some (Inr (b, cs @ [?st]))"
        using b by (intro tok_loop_end [of _ _ "[]" ys]) simp_all
      moreover have "blk_str b ?st = Some c" using b by (intro st_str) simp
      moreover have "comps rest = [c]" using some(6) Nil by (simp add: comps.simps [of "[]"])
      ultimately show ?thesis using b by (intro exI [of _ b] exI [of _ "[?st]"]) (simp add: strs_at_def)
    next
      case (Cons v r')
      then have v: "v = 47" using some(5) by simp
      let ?b = "xs @ map Byte (sl @ c) @ Byte 0 # map Byte r' @ Byte 0 # ys"
      let ?xs = "xs @ map Byte (sl @ c) @ [Byte 0]"
      have b: "b = xs @ map Byte (sl @ c) @ Byte v # (map Byte r' @ Byte 0 # ys)"
        using prems(1) some(1) Cons by simp
      have t: "tok_loop b (length xs) cs = tok_loop ?b (length ?xs) (cs @ [?st])"
        using tok_loop_comp [OF b some(2) c _ cs] v by simp
      have cr: "comps r = comps r'" using Cons v comps_slashes [of "[47]" r'] by simp
      have "\<exists>b' new. tok_loop ?b (length ?xs) (cs @ [?st]) = Some (Inr (b', (cs @ [?st]) @ new))
          \<and> length b' = length ?b \<and> take (length ?xs) b' = ?xs \<and> strs_at b' new (comps r')"
        using some Cons prems cr by (intro "1.IH" [rule_format]) auto
      then obtain b' new where n: "tok_loop ?b (length ?xs) (cs @ [?st]) = Some (Inr (b', (cs @ [?st]) @ new))"
        "length b' = length ?b" "take (length ?xs) b' = ?xs" "strs_at b' new (comps r')" by blast
      have "blk_str b' ?st = Some c" using n(3) by (intro st_str) simp
      then have "strs_at b' (?st # new) (comps rest)" using n(4) some(6) cr by (simp add: strs_at_def)
      moreover have "take (length xs) b' = xs"
      proof -
        have "take (length xs) b' = take (length xs) (take (length ?xs) b')" by simp
        then show ?thesis unfolding n(3) by simp
      qed
      ultimately show ?thesis using t n b by (intro exI [of _ b'] exI [of _ "?st # new"]) simp
    qed
  qed
qed


section \<open>Resolution in a tree\<close>

abbreviation mnt_lookup :: "'s mnt \<Rightarrow> u32 \<Rightarrow> cstr \<Rightarrow> int option" where
  "mnt_lookup m i nm \<equiv> mnt_call m (\<lambda>ops s. op_lookup ops s i nm)"

abbreviation mnt_getino :: "'s mnt \<Rightarrow> u32 \<Rightarrow> (int \<times> vinode option) option" where
  "mnt_getino m i \<equiv> mnt_call m (\<lambda>ops s. op_getino ops s i)"

text \<open>The inode number and the kind at every normalised path below the root of a mount, as its
  lookup and getino operations show it.\<close>

datatype nkind = NDir | NFile | NLink

definition mnt_tree :: "'s mnt \<Rightarrow> (cstr list \<Rightarrow> (u32 \<times> nkind) option) \<Rightarrow> bool" where
  "mnt_tree m T \<longleftrightarrow> T [] = Some (m_root_ino m, NDir)
     \<and> (\<forall>p c j d. T (p @ [c]) = Some (j, d) \<longrightarrow> (\<exists>i v. T p = Some (i, NDir) \<and> mnt_lookup m i c = Some (uint j)
         \<and> mnt_getino m j = Some (0, Some v) \<and> (S_TYPE (vi_mode v) = S_IFLNK \<longleftrightarrow> d = NLink)
         \<and> (d = NDir \<longrightarrow> mnt_lookup m j [46, 46] = Some (uint i))))
     \<and> (\<forall>p c i. T p = Some (i, NDir) \<longrightarrow> T (p @ [c]) = None \<longrightarrow> proper c \<longrightarrow> 0 \<notin> set c \<longrightarrow> length c \<le> 255
         \<longrightarrow> mnt_lookup m i c = Some (- ENOENT))"

text \<open>The state of the loop at a path of the tree.\<close>

definition at_node :: "rstate \<Rightarrow> cstr list \<Rightarrow> u32 \<Rightarrow> rstate" where
  "at_node r p i = r\<lparr>rs_ino := i, rs_depth := length p, rs_done := length p\<rparr>"

lemma at_node_twice [simp]: "at_node (at_node r p i\<lparr>rs_stk := s\<rparr>) q j = at_node (r\<lparr>rs_stk := s\<rparr>) q j"
  by (simp add: at_node_def)

lemma at_node_stk [simp]: "rs_stk (at_node r p i) = rs_stk r"
  by (simp add: at_node_def)

lemma at_node_sel: "rs_ino (at_node r p i) = i" "at_node r p i\<lparr>rs_stk := s\<rparr> = at_node (r\<lparr>rs_stk := s\<rparr>) p i"
  by (simp_all add: at_node_def)

text \<open>A component as the tokenizer delivers it.\<close>

definition comp_ok :: "cstr \<Rightarrow> bool" where
  "comp_ok c \<longleftrightarrow> c \<noteq> [] \<and> 47 \<notin> set c \<and> 0 \<notin> set c \<and> length c \<le> 255"

lemma step_node:
  assumes t: "mnt_tree m T" and p: "T p = Some (i, NDir)" and c: "comp_ok c"
    and q: "T (norm_comp p c) = Some (j, d)" "d \<noteq> NLink" and o: "blk_str pbuf o1 = Some c"
    and l: "length p < 2048" and s: "rs_stk r = s @ [InPath o1]"
  shows "resolve_step al m flags pbuf (at_node r p i) = Some (Inr (at_node (r\<lparr>rs_stk := s\<rparr>) (norm_comp p c) j))"
proof -
  consider "c = [46]" | "c = [46, 46]" "p = []" | p' x where "c = [46, 46]" "p = p' @ [x]" | "proper c"
    using c by (cases p rule: rev_cases) (auto simp: comp_ok_def proper_def)
  then show ?thesis
  proof cases
    case 1
    then show ?thesis using o s p q by (simp add: resolve_step_def Let_def norm_comp_def at_node_def)
  next
    case 2
    then show ?thesis using o s p q t
      by (simp add: resolve_step_def resolve_up_def Let_def norm_comp_def at_node_def mnt_tree_def)
  next
    case 3
    then have "mnt_lookup m i [46, 46] = Some (uint j)"
      using t p q unfolding mnt_tree_def norm_comp_def by fastforce
    then show ?thesis using o s 3
      by (simp add: resolve_step_def resolve_up_def Let_def norm_comp_def at_node_def)
  next
    case 4
    then have n: "norm_comp p c = p @ [c]" by (simp add: norm_comp_def proper_def)
    then obtain v where v: "mnt_lookup m i c = Some (uint j)" "mnt_getino m j = Some (0, Some v)"
      "S_TYPE (vi_mode v) \<noteq> S_IFLNK" using t p q unfolding mnt_tree_def by fastforce
    have ne: "c \<noteq> [46]" "c \<noteq> [46, 46]" using 4 by (auto simp: proper_def)
    show ?thesis using o s v ne l
      by (simp add: resolve_step_def resolve_name_def resolve_found_def Let_def n at_node_def)
  qed
qed

lemma step_missing:
  assumes t: "mnt_tree m T" and p: "T p = Some (i, NDir)" and c: "comp_ok c"
    and q: "T (norm_comp p c) = None" and o: "blk_str pbuf o1 = Some c"
    and s: "rs_stk r = s @ [InPath o1]"
  shows "resolve_step al m flags pbuf (at_node r p i) = Some (Inl (- ENOENT))"
proof -
  have "c \<noteq> [46]" using p q by (auto simp: norm_comp_def)
  moreover have "c \<noteq> [46, 46]"
  proof
    assume "c = [46, 46]"
    then have "T (butlast p) = None" using q by (simp add: norm_comp_def)
    then show False using t p unfolding mnt_tree_def by (cases p rule: rev_cases) fastforce+
  qed
  ultimately have n: "norm_comp p c = p @ [c]" and pr: "proper c"
    using c by (simp_all add: norm_comp_def proper_def comp_ok_def)
  then have "mnt_lookup m i c = Some (- ENOENT)"
    using t p q c unfolding mnt_tree_def comp_ok_def by metis
  then show ?thesis using o s pr
    by (simp add: resolve_step_def resolve_name_def Let_def at_node_def proper_def)
qed

text \<open>The loop walks down directories.\<close>

lemma walk_dirs:
  assumes t: "mnt_tree m T" and "T p = Some (i, NDir)" and "strs_at pbuf offs cs" and "\<forall>c \<in> set cs. comp_ok c"
    and "\<forall>k \<le> length cs. \<exists>j. T (foldl norm_comp p (take k cs)) = Some (j, NDir)"
    and "length p + length cs \<le> 2048" and "rs_stk r = s @ map InPath (rev offs)"
  shows "\<exists>j. T (foldl norm_comp p cs) = Some (j, NDir)
    \<and> length (foldl norm_comp p cs) \<le> length p + length cs
    \<and> resolve_loop al m flags pbuf (at_node r p i)
      = resolve_loop al m flags pbuf (at_node (r\<lparr>rs_stk := s\<rparr>) (foldl norm_comp p cs) j)"
  using assms(2-)
proof (induction cs arbitrary: p i offs r)
  case Nil
  then have "r\<lparr>rs_stk := s\<rparr> = r" by (cases r) (simp add: strs_at_def)
  then have "at_node (r\<lparr>rs_stk := s\<rparr>) p i = at_node r p i" by (rule arg_cong)
  then show ?case using Nil.prems(1) by simp
next
  case (Cons c cs)
  obtain o1 offs' where o: "offs = o1 # offs'" "blk_str pbuf o1 = Some c" "strs_at pbuf offs' cs"
    using Cons.prems(2) by (auto simp: strs_at_def list_all2_Cons2)
  obtain j where j: "T (norm_comp p c) = Some (j, NDir)" using Cons.prems(4) [rule_format, of 1] by auto
  let ?s = "s @ map InPath (rev offs')"
  have st: "rs_stk r = ?s @ [InPath o1]" using Cons.prems(6) o by simp
  have step: "resolve_step al m flags pbuf (at_node r p i) = Some (Inr (at_node (r\<lparr>rs_stk := ?s\<rparr>) (norm_comp p c) j))"
    using Cons.prems by (intro step_node [OF t Cons.prems(1) _ j _ o(2) _ st]) auto
  have len: "length (norm_comp p c) \<le> Suc (length p)" by (auto simp: norm_comp_def)
  have "\<forall>k \<le> length cs. \<exists>j. T (foldl norm_comp (norm_comp p c) (take k cs)) = Some (j, NDir)"
    using Cons.prems(4) by (metis Suc_le_mono foldl_Cons length_Cons take_Suc_Cons)
  then obtain k where k: "T (foldl norm_comp (norm_comp p c) cs) = Some (k, NDir)"
    "length (foldl norm_comp (norm_comp p c) cs) \<le> length (norm_comp p c) + length cs"
    "resolve_loop al m flags pbuf (at_node (r\<lparr>rs_stk := ?s\<rparr>) (norm_comp p c) j)
      = resolve_loop al m flags pbuf (at_node (r\<lparr>rs_stk := s\<rparr>) (foldl norm_comp (norm_comp p c) cs) k)"
    using Cons.IH [OF j o(3), of "r\<lparr>rs_stk := ?s\<rparr>"] Cons.prems(3,5) len by auto
  have "resolve_loop al m flags pbuf (at_node r p i)
      = resolve_loop al m flags pbuf (at_node (r\<lparr>rs_stk := ?s\<rparr>) (norm_comp p c) j)"
    using st step by (subst resolve_loop.simps) simp
  then show ?case using k len by auto
qed

text \<open>The result of the function from the result of the loop.\<close>

definition loop_ret :: "(int + u32) option \<Rightarrow> int option" where
  "loop_ret = map_option (\<lambda>res. case res of Inl e \<Rightarrow> e | Inr ino \<Rightarrow> uint ino)"

lemma step_link:
  assumes t: "mnt_tree m T" and p: "T p = Some (i, NDir)" and c: "comp_ok c"
    and q: "T (norm_comp p c) = Some (j, NLink)" and o: "blk_str pbuf o1 = Some c"
    and s: "rs_stk r = s @ [InPath o1]"
  obtains v where "S_TYPE (vi_mode v) = S_IFLNK" and
    "resolve_step al m flags pbuf (at_node r p i) = resolve_found al m flags j v (at_node (r\<lparr>rs_stk := s\<rparr>) p i)"
proof -
  have "c \<noteq> [46]" using p q by (auto simp: norm_comp_def)
  moreover have "c \<noteq> [46, 46]"
  proof
    assume "c = [46, 46]"
    then have "T (butlast p) = Some (j, NLink)" using q by (simp add: norm_comp_def)
    then show False using t p unfolding mnt_tree_def by (cases p rule: rev_cases) fastforce+
  qed
  ultimately have n: "norm_comp p c = p @ [c]" and ne: "c \<noteq> [46]" "c \<noteq> [46, 46]"
    by (simp_all add: norm_comp_def)
  obtain v where v: "mnt_lookup m i c = Some (uint j)" "mnt_getino m j = Some (0, Some v)"
    "S_TYPE (vi_mode v) = S_IFLNK" using t p q n unfolding mnt_tree_def by fastforce
  show ?thesis using that [OF v(3)] o s v(1,2) ne
    by (simp add: resolve_step_def resolve_name_def Let_def at_node_sel)
qed

lemma walk_last:
  assumes t: "mnt_tree m T" and p: "T p = Some (i, NDir)" and c: "comp_ok c"
    and o: "blk_str pbuf o1 = Some c" and l: "length p < 2048" and s: "rs_stk r = [InPath o1]"
    and lnk: "\<forall>j. T (norm_comp p c) = Some (j, NLink) \<longrightarrow> flags AND 0x01 = 0 \<and> flags AND 0x04 = 0"
    and fl: "flags AND 0x02 = 0"
  shows "loop_ret (resolve_loop al m flags pbuf (at_node r p i))
    = Some (case T (norm_comp p c) of Some (j, d) \<Rightarrow> uint j | None \<Rightarrow> - ENOENT)"
proof -
  consider "T (norm_comp p c) = None" | j where "T (norm_comp p c) = Some (j, NLink)"
    | j d where "T (norm_comp p c) = Some (j, d)" "d \<noteq> NLink" by (cases "T (norm_comp p c)") auto
  then show ?thesis
  proof cases
    case 1
    then show ?thesis using step_missing [OF t p c 1 o, of r "[]"] s
      by (subst resolve_loop.simps) (simp add: loop_ret_def)
  next
    case 2
    obtain v where v: "S_TYPE (vi_mode v) = S_IFLNK"
      "resolve_step al m flags pbuf (at_node r p i) = resolve_found al m flags j v (at_node (r\<lparr>rs_stk := []\<rparr>) p i)"
      using step_link [OF t p c 2 o, of r "[]"] s by auto
    show ?thesis using v 2 s lnk fl
      by (subst resolve_loop.simps) (simp add: loop_ret_def resolve_found_def)
  next
    case 3
    have "resolve_step al m flags pbuf (at_node r p i) = Some (Inr (at_node (r\<lparr>rs_stk := []\<rparr>) (norm_comp p c) j))"
      using step_node [OF t p c 3 o l, of r "[]"] s by simp
    then show ?thesis using s 3
      by (subst resolve_loop.simps, simp) (subst resolve_loop.simps, simp add: at_node_def loop_ret_def)
  qed
qed

lemma comps_half: "2 * length (comps p) \<le> length p + 1"
proof (induction p rule: length_induct)
  case (1 p)
  show ?case
  proof (cases p rule: comps_cases)
    case none
    then show ?thesis by simp
  next
    case (some sl c r)
    show ?thesis
    proof (cases r)
      case Nil
      then show ?thesis using some by (cases c) (simp_all add: comps.simps [of "[]"])
    next
      case (Cons a r')
      then have "comps r = comps r'" using some(5) comps_slashes [of "[47]" r'] by simp
      moreover have "2 * length (comps r') \<le> length r' + 1" using "1.IH" some(1) Cons by simp
      ultimately show ?thesis using some Cons by (cases c) simp_all
    qed
  qed
qed

lemma comps_ok:
  assumes "0 \<notin> set p" and "\<forall>c \<in> set (comps p). length c \<le> 255"
  shows "\<forall>c \<in> set (comps p). comp_ok c"
  using assms
proof (induction p rule: length_induct)
  case (1 p)
  show ?case
  proof (cases p rule: comps_cases)
    case none
    then show ?thesis by simp
  next
    case (some sl c r)
    have "\<forall>c \<in> set (comps r). comp_ok c" using "1.IH" [rule_format, OF some(7)] "1.prems" some(1,6) by simp
    then show ?thesis using "1.prems" some by (simp add: comp_ok_def)
  qed
qed


text \<open>The path as the resolver sees it: below the mount point, it fits the buffer and its names
  are not too long.\<close>

definition rel_ok :: "cstr \<Rightarrow> bool" where
  "rel_ok rel \<longleftrightarrow> 0 \<notin> set rel \<and> length rel < 4096 \<and> (\<forall>c \<in> set (comps rel). length c \<le> 255)"

lemma resolve_enter:
  assumes "rel_ok (rel_path (m_path m) path)" and "path \<noteq> []" and "\<forall>k \<le> 4. al k"
    and "flags AND 0x02 = 0"
  obtains pbuf offs where "strs_at pbuf offs (comps (rel_path (m_path m) path))"
    "vfs_resolve al (Some m) (Some path) flags =
       loop_ret (resolve_loop al m flags pbuf (at_node \<lparr>rs_lnkbuf = fresh_blk 4096, rs_stk = map InPath (rev offs),
         rs_ino = m_root_ino m, rs_symlnks = 0, rs_depth = 0, rs_done = 0\<rparr> [] (m_root_ino m)))"
proof -
  let ?rel = "rel_path (m_path m) path"
  let ?b = "cstr_cells ?rel @ fresh_blk (4095 - length ?rel)"
  have b: "?b = [] @ map Byte ?rel @ Byte 0 # fresh_blk (4095 - length ?rel)" by (simp add: cstr_cells_def)
  obtain pbuf offs where t: "tok_loop ?b 0 [] = Some (Inr (pbuf, offs))" "strs_at pbuf offs (comps ?rel)"
    using tok_loop_correct [OF b, of "[]"] assms(1) comps_half [of ?rel] by (auto simp: rel_ok_def)
  have al: "al 0" "al 1" "al 2" "al 3" "al 4" using assms(3) by auto
  show ?thesis
    using that [OF t(2)] assms(1,2,4) al t(1)
    by (auto simp: vfs_resolve_def Let_def rel_ok_def at_node_def loop_ret_def map_option_case split: bind_splits option.splits sum.splits)
qed

text \<open>The walk up to the last component.\<close>

lemma resolve_upto:
  assumes t: "mnt_tree m T" and p: "path \<noteq> []" and al: "\<forall>k \<le> 4. al k" and fl: "flags AND 0x02 = 0"
    and ok: "rel_ok (rel_path (m_path m) path)" and cs: "comps (rel_path (m_path m) path) = cs @ [c]"
    and d: "\<forall>k \<le> length cs. \<exists>i. T (norm_comps (take k cs)) = Some (i, NDir)"
  obtains pbuf o1 r i where "T (norm_comps cs) = Some (i, NDir)" and "length (norm_comps cs) < 2048"
    and "comp_ok c" and "blk_str pbuf o1 = Some c" and "rs_stk r = [InPath o1]"
    and "rs_lnkbuf r = fresh_blk 4096" and "rs_symlnks r = 0"
    and "vfs_resolve al (Some m) (Some path) flags
      = loop_ret (resolve_loop al m flags pbuf (at_node r (norm_comps cs) i))"
proof -
  obtain pbuf offs where o: "strs_at pbuf offs (cs @ [c])"
    and r: "vfs_resolve al (Some m) (Some path) flags =
       loop_ret (resolve_loop al m flags pbuf (at_node \<lparr>rs_lnkbuf = fresh_blk 4096,
         rs_stk = map InPath (rev offs), rs_ino = m_root_ino m, rs_symlnks = 0, rs_depth = 0, rs_done = 0\<rparr>
         [] (m_root_ino m)))"
    using resolve_enter [OF ok p al fl] cs by metis
  let ?r = "\<lparr>rs_lnkbuf = fresh_blk 4096, rs_stk = map InPath (rev offs),
         rs_ino = m_root_ino m, rs_symlnks = 0, rs_depth = 0, rs_done = 0\<rparr>"
  have root: "T [] = Some (m_root_ino m, NDir)" using t by (simp add: mnt_tree_def)
  have okc: "\<forall>x \<in> set (cs @ [c]). comp_ok x" and len: "length cs < 2048"
    using comps_ok ok cs comps_half [of "rel_path (m_path m) path"] by (auto simp: rel_ok_def)
  obtain offs' o1 where o': "offs = offs' @ [o1]" "strs_at pbuf offs' cs" "blk_str pbuf o1 = Some c"
    using o by (auto simp: strs_at_def list_all2_append2 list_all2_Cons2)
  obtain j where j: "T (norm_comps cs) = Some (j, NDir)" "length (norm_comps cs) \<le> length cs"
    and w: "resolve_loop al m flags pbuf (at_node ?r [] (m_root_ino m))
      = resolve_loop al m flags pbuf (at_node (?r\<lparr>rs_stk := [InPath o1]\<rparr>) (norm_comps cs) j)"
    using walk_dirs [OF t root o'(2), of ?r "[InPath o1]" al flags] okc len o'(1) d
    by (auto simp: norm_comps_def)
  show ?thesis using that [OF j(1) _ _ o'(3), of "?r\<lparr>rs_stk := [InPath o1]\<rparr>"] j(2) len okc r w by simp
qed

lemma resolve_tree:
  assumes "mnt_tree m T" and "path \<noteq> []" and "\<forall>k \<le> 4. al k" and "flags AND 0x02 = 0"
    and "rel_ok (rel_path (m_path m) path)" and "cs = comps (rel_path (m_path m) path)"
    and "\<forall>k < length cs. \<exists>i. T (norm_comps (take k cs)) = Some (i, NDir)"
    and "\<forall>j. T (norm_comps cs) = Some (j, NLink) \<longrightarrow> flags AND 0x01 = 0 \<and> flags AND 0x04 = 0"
  shows "vfs_resolve al (Some m) (Some path) flags =
    Some (case T (norm_comps cs) of Some (ino, d) \<Rightarrow> uint ino | None \<Rightarrow> - ENOENT)"
proof (cases cs rule: rev_cases)
  case Nil
  have "T [] = Some (m_root_ino m, NDir)" using assms(1) by (simp add: mnt_tree_def)
  moreover obtain pbuf offs where "strs_at pbuf offs cs"
    and "vfs_resolve al (Some m) (Some path) flags =
       loop_ret (resolve_loop al m flags pbuf (at_node \<lparr>rs_lnkbuf = fresh_blk 4096,
         rs_stk = map InPath (rev offs), rs_ino = m_root_ino m, rs_symlnks = 0, rs_depth = 0, rs_done = 0\<rparr>
         [] (m_root_ino m)))"
    using resolve_enter [OF assms(5,2,3,4)] assms(6) by metis
  ultimately show ?thesis using Nil
    by (simp add: strs_at_def norm_comps_def resolve_loop.simps at_node_def loop_ret_def)
next
  case (snoc cs' c)
  have "\<forall>k \<le> length cs'. \<exists>j. T (norm_comps (take k cs')) = Some (j, NDir)"
    using assms(7) snoc by (auto dest!: spec)
  then obtain pbuf o1 r i where w: "T (norm_comps cs') = Some (i, NDir)" "length (norm_comps cs') < 2048"
    "comp_ok c" "blk_str pbuf o1 = Some c" "rs_stk r = [InPath o1]"
    and e: "vfs_resolve al (Some m) (Some path) flags
      = loop_ret (resolve_loop al m flags pbuf (at_node r (norm_comps cs') i))"
    using resolve_upto [OF assms(1-5)] assms(6) snoc by metis
  have n: "norm_comp (norm_comps cs') c = norm_comps cs" using snoc by (simp add: norm_comps_def)
  show ?thesis using walk_last [OF assms(1) w(1,3,4,2,5), of flags al, unfolded n] assms(4,8) e by simp
qed


text \<open>Expanding a link when nothing of the path remains leaves the stack empty.\<close>

lemma tok_loop_string:
  assumes "rel_ok t"
  obtains b' offs where "tok_loop (cstr_cells t @ ys) 0 [] = Some (Inr (b', offs))" and "length offs \<le> 2048"
proof -
  have b: "cstr_cells t @ ys = [] @ map Byte t @ Byte 0 # ys" by (simp add: cstr_cells_def)
  obtain b' offs where "tok_loop (cstr_cells t @ ys) 0 [] = Some (Inr (b', offs))" "strs_at b' offs (comps t)"
    using tok_loop_correct [OF b, of "[]"] assms comps_half [of t] by (auto simp: rel_ok_def)
  then show ?thesis using that assms comps_half [of t] by (auto simp: rel_ok_def strs_at_def dest!: list_all2_lengthD)
qed

lemma expand_last:
  assumes "mnt_call m (\<lambda>ops s. op_readsym ops s j 4096) = Some (ret, cstr_cells t)" and "0 \<le> ret" and "rel_ok t"
    and "\<forall>k. al k" and "rs_stk r = []" and "rs_lnkbuf r = fresh_blk 4096" and "rs_symlnks r = 0"
  shows "\<exists>r'. expand_link al m j r = Some (Inr r') \<and> rs_stk r' = []
    \<and> rs_ino r' = (if t \<noteq> [] \<and> hd t = 47 then m_root_ino m else rs_ino r)"
proof -
  let ?ys = "fresh_blk (4095 - length t)"
  have st: "store_cells (fresh_blk 4096) 0 (cstr_cells t) = Some (cstr_cells t @ ?ys)"
    using assms(3) by (auto simp: store_cells_def fresh_blk_def cstr_cells_def rel_ok_def)
  have c: "load_u8 (cstr_cells t @ ?ys) 0 = Some (if t = [] then 0 else hd t)"
    by (cases t) (simp_all add: load_u8_def load_cells_def cstr_cells_def)
  obtain b' offs where tk: "tok_loop (cstr_cells t @ ?ys) 0 [] = Some (Inr (b', offs))" "length offs \<le> 2048"
    using tok_loop_string [OF assms(3)] by blast
  show ?thesis using assms st c tk by (simp add: expand_link_def Let_def)
qed

text \<open>
  C23. Following a symbolic link at the end of a path.  The components of the target are put
  on the stack, but its count is not changed, so that none of them is ever looked up: the path
  resolves to the directory that holds the link (to the root for an absolute target), whether
  the target exists or not.
\<close>

theorem vfs_resolve_link_dropped:
  assumes "mnt_tree m T" and "path \<noteq> []" and "\<forall>k. al k"
    and "rel_ok (rel_path (m_path m) path)" and "comps (rel_path (m_path m) path) = cs @ [c]"
    and "\<forall>k \<le> length cs. \<exists>i. T (norm_comps (take k cs)) = Some (i, NDir)"
    and "T (norm_comps cs) = Some (i, NDir)" and "T (norm_comps (cs @ [c])) = Some (j, NLink)"
    and "mnt_call m (\<lambda>ops s. op_readsym ops s j 4096) = Some (ret, cstr_cells t)" and "0 \<le> ret" and "rel_ok t"
  shows "vfs_resolve al (Some m) (Some path) 0x04
    = Some (uint (if t \<noteq> [] \<and> hd t = 47 then m_root_ino m else i))"
proof -
  have al: "\<forall>k \<le> 4. al k" using assms(3) by simp
  have fl: "(0x04 :: u32) AND 0x02 = 0" "(0x04 :: u32) AND 0x01 = 0" "(0x04 :: u32) AND 0x04 \<noteq> 0" by simp_all
  obtain pbuf o1 r i' where w: "T (norm_comps cs) = Some (i', NDir)" "length (norm_comps cs) < 2048" "comp_ok c"
    "blk_str pbuf o1 = Some c" "rs_stk r = [InPath o1]" and lk: "rs_lnkbuf r = fresh_blk 4096" "rs_symlnks r = 0"
    and e: "vfs_resolve al (Some m) (Some path) 0x04
      = loop_ret (resolve_loop al m 0x04 pbuf (at_node r (norm_comps cs) i'))"
    by (rule resolve_upto [OF assms(1,2) al fl(1) assms(4,5,6)])
  have i: "i' = i" using w(1) assms(7) by simp
  have n: "norm_comp (norm_comps cs) c = norm_comps (cs @ [c])" by (simp add: norm_comps_def)
  let ?r = "at_node (r\<lparr>rs_stk := []\<rparr>) (norm_comps cs) i"
  obtain v where v: "S_TYPE (vi_mode v) = S_IFLNK"
    "resolve_step al m 0x04 pbuf (at_node r (norm_comps cs) i) = resolve_found al m 0x04 j v ?r"
    using step_link [OF assms(1,7) w(3) _ w(4), of j r "[]", unfolded n] assms(8) w(5) by auto
  obtain r' where r': "expand_link al m j ?r = Some (Inr r')" "rs_stk r' = []"
    "rs_ino r' = (if t \<noteq> [] \<and> hd t = 47 then m_root_ino m else i)"
    using expand_last [OF assms(9-11,3), of ?r] lk by (auto simp: at_node_def)
  have "resolve_step al m 0x04 pbuf (at_node r (norm_comps cs) i) = Some (Inr r')"
    using v r'(1) fl by (simp add: resolve_found_def)
  then have "resolve_loop al m 0x04 pbuf (at_node r (norm_comps cs) i) = resolve_loop al m 0x04 pbuf r'"
    using w(5) by (subst resolve_loop.simps) simp
  also have "\<dots> = Some (Inr (rs_ino r'))" using r'(2) by (subst resolve_loop.simps) simp
  finally show ?thesis using e i r'(3) by (simp add: loop_ret_def)
qed

section \<open>A small mounted ramfs\<close>

definition dir_cells :: "(cstr \<times> u32) list \<Rightarrow> memval list" where
  "dir_cells es = concat (map (\<lambda>(nm, ino). dirent_cells \<lparr>rd_used = 1, rd_inode = ino,
     rd_namlen = of_nat (length nm + 1), rd_namep = Some nm\<rparr>) es)"

definition demo_dir :: "u16 \<Rightarrow> (cstr \<times> u32) list \<Rightarrow> ramfs_inode" where
  "demo_dir mode es = \<lparr>ri_used = 1, ri_mode = mode, ri_uid = 0, ri_atime = 0, ri_ctime = 0, ri_mtime = 0,
     ri_gid = 0, ri_size = of_nat (24 * length es), ri_rdev = 0, ri_allocd = of_nat (24 * length es),
     ri_dptr = Some (dir_cells es)\<rparr>"

definition demo_link :: "cstr \<Rightarrow> ramfs_inode" where
  "demo_link t = \<lparr>ri_used = 1, ri_mode = S_IFLNK, ri_uid = 0, ri_atime = 0, ri_ctime = 0, ri_mtime = 0,
     ri_gid = 0, ri_size = of_nat (length t + 1), ri_rdev = 0, ri_allocd = of_nat (length t + 1),
     ri_dptr = Some (cstr_cells t)\<rparr>"

definition demo_fs :: ramfs_info where
  "demo_fs = \<lparr>inodtbl = [Some (demo_dir S_IFDIR [([97], 2), ([108], 3)]), Some (demo_dir S_IFDIR [([46, 46], 1)]),
     Some (demo_link [97])], ninodes = 3, freehint = 0\<rparr>"

definition demo_mnt :: "ramfs_priv mnt" where
  "demo_mnt = \<lparr>m_path = [47], m_root_ino = 1, m_ops = Some ramfs_ops, m_blkid = 0, m_mntno = 0,
     m_priv = Some \<lparr>rp_info = demo_fs, rp_al = (\<lambda>_. True)\<rparr>, m_inuse = True\<rparr>"

definition demo_tree :: "cstr list \<Rightarrow> (u32 \<times> nkind) option" where
  "demo_tree p = (if p = [] then Some (1, NDir) else if p = [[97]] then Some (2, NDir)
     else if p = [[108]] then Some (3, NLink) else None)"

lemma dir_cells_length: "length (dir_cells es) = 24 * length es"
  by (induction es) (auto simp: dir_cells_def)

lemma dir_cells_slot:
  assumes "i < length es" and "name_ok (fst (es ! i))"
  shows "slot_ok (dir_cells es) i (Some (es ! i))"
proof -
  obtain nm ino where e: "es ! i = (nm, ino)" by (cases "es ! i")
  let ?e = "\<lparr>rd_used = 1, rd_inode = ino, rd_namlen = of_nat (length nm + 1), rd_namep = Some nm\<rparr>"
  have "es = take i es @ es ! i # drop (Suc i) es" using assms(1) by (simp add: id_take_nth_drop)
  then have d: "dir_cells es = dir_cells (take i es) @ dirent_cells ?e @ dir_cells (drop (Suc i) es)"
    unfolding dir_cells_def using e by (metis (no_types, lifting) case_prod_conv concat.simps(2) concat_append list.simps(9) map_append)
  have "length (dir_cells (take i es)) = 24 * i" using assms(1) by (simp add: dir_cells_length)
  then have "store_cells (dir_cells es) (24 * i) (dirent_cells ?e) = Some (dir_cells es)"
    unfolding d by (simp add: store_cells_def)
  from dent_store_same [OF this] show ?thesis using assms(2) e by (simp add: slot_ok_def name_ok_def)
qed

lemma demo_dir_ok:
  assumes "\<forall>e \<in> set es. name_ok (fst e)" and "length es < 2 ^ 32"
  shows "dir_ok (demo_dir mode es) (map Some es)"
proof -
  have "unat (of_nat (24 * length es) :: u64) = 24 * length es" using assms(2) by (intro unat_of_nat_small) simp
  then show ?thesis using assms(1) dir_cells_slot [of _ es]
    by (simp add: dir_ok_def demo_dir_def dir_blk_def dir_cells_length)
qed

lemma demo_inodes:
  "getinod demo_fs 1 = Some (Some (demo_dir S_IFDIR [([97], 2), ([108], 3)]))"
  "getinod demo_fs 2 = Some (Some (demo_dir S_IFDIR [([46, 46], 1)]))"
  "getinod demo_fs 3 = Some (Some (demo_link [97]))"
  by (simp_all add: getinod_def tbl_get_def demo_fs_def demo_dir_def demo_link_def)

lemma demo_dirs:
  "ramfs_dir demo_fs 1 [Some ([97], 2), Some ([108], 3)]" "ramfs_dir demo_fs 2 [Some ([46, 46], 1)]"
  using demo_dir_ok [of "[([97], 2), ([108], 3)]"] demo_dir_ok [of "[([46, 46], 1)]"] demo_inodes
  by (auto simp: ramfs_dir_def name_ok_def)

lemma demo_calls:
  "mnt_lookup demo_mnt i nm = ramfs_lookup demo_fs i nm" "mnt_getino demo_mnt i = ramfs_getino demo_fs i"
  "mnt_call demo_mnt (\<lambda>ops s. op_readsym ops s i n) = ramfs_readsym demo_fs i n"
  by (simp_all add: mnt_call_def demo_mnt_def ramfs_ops_def)

lemma demo_lookup:
  assumes "name_ok nm"
  shows "ramfs_lookup demo_fs 1 nm = Some (if nm = [97] then 2 else if nm = [108] then 3 else - ENOENT)"
    "ramfs_lookup demo_fs 2 nm = Some (if nm = [46, 46] then 1 else - ENOENT)"
  using ramfs_lookup_map [OF demo_dirs(1), of nm] ramfs_lookup_map [OF demo_dirs(2), of nm] assms
  by (auto simp: name_ok_def)

lemma demo_mnt_tree: "mnt_tree demo_mnt demo_tree"
proof -
  have g: "ramfs_getino demo_fs 2 = Some (0, Some (to_vinode (demo_dir S_IFDIR [([46, 46], 1)]) 2))"
    "ramfs_getino demo_fs 3 = Some (0, Some (to_vinode (demo_link [97]) 3))"
    by (simp_all add: ramfs_getino_def demo_inodes)
  have m: "S_TYPE (vi_mode (to_vinode (demo_dir S_IFDIR es) p)) \<noteq> S_IFLNK"
    "S_TYPE (vi_mode (to_vinode (demo_link t) p)) = S_IFLNK" for es t p
    by (simp_all add: to_vinode_def demo_dir_def demo_link_def S_TYPE_def)
  have n: "name_ok [97]" "name_ok [108]" "name_ok [46, 46]" by (simp_all add: name_ok_def)
  have s: "name_ok c" if "0 \<notin> set c" "length c \<le> 255" for c using that by (simp add: name_ok_def)
  show ?thesis
    unfolding mnt_tree_def demo_calls demo_tree_def
    using g m n s by (auto simp: demo_lookup demo_mnt_def proper_def split: if_splits)
qed


lemma demo_comps:
  "comps [97, 47, 46, 46, 47, 97] = [[97], [46, 46], [97]]" "comps [108] = [[108]]"
  "rel_path (m_path demo_mnt) [47, 97, 47, 46, 46, 47, 97] = [97, 47, 46, 46, 47, 97]"
  "rel_path (m_path demo_mnt) [47, 108] = [108]"
  by (simp_all add: comps.simps rel_path_def demo_mnt_def)

lemma less3: "k < 3 \<longleftrightarrow> k = 0 \<or> k = 1 \<or> k = (2 :: nat)" by auto


theorem vfs_resolve_link_dropped_witness:
  "mnt_tree demo_mnt demo_tree \<and> ramfs_readsym demo_fs 3 4096 = Some (2, cstr_cells [97]) \<and>
   vfs_resolve (\<lambda>_. True) (Some demo_mnt) (Some [47, 108]) 0x04 = Some 1"
proof -
  have r: "ramfs_readsym demo_fs 3 4096 = Some (2, cstr_cells [97])"
    by (simp add: ramfs_readsym_def demo_inodes demo_link_def dir_blk_def load_cells_def cstr_cells_def)
  have "rel_ok [108]" "rel_ok [97]" by (simp_all add: rel_ok_def comps.simps)
  then have "vfs_resolve (\<lambda>_. True) (Some demo_mnt) (Some [47, 108]) 0x04 =
      Some (uint (if [97 :: u8] \<noteq> [] \<and> hd [97 :: u8] = 47 then m_root_ino demo_mnt else 1))"
    using r by (intro vfs_resolve_link_dropped [OF demo_mnt_tree, where cs = "[]" and c = "[108]" and j = 3 and ret = 2])
      (simp_all add: demo_comps demo_calls demo_tree_def norm_comps_def norm_comp_def)
  then show ?thesis using demo_mnt_tree r by simp
qed

end
