(* ===== verification/Vfs_Proofs.thy ===== *)
theory Vfs_Proofs
  imports Vfs_Dir Vfs_Resolve_Proofs
begin

text \<open>
  Properties of the virtual file system calls: the mount that serves a path is the longest that
  covers it, seeking computes the position of unbounded arithmetic or reports an error, writing
  and reading back through a descriptor of a mounted memory file system returns the data, and
  \<^verbatim>\<open>unlink\<close> of a file that exists fails.  A descriptor does not survive the growth of the
  mount table (\<open>findfreemnt_dangling\<close>).
\<close>

section \<open>The mount of a path\<close>

text \<open>A mount covers a path when its path is a prefix that ends at a component boundary; the
  root covers everything.\<close>

definition covers_path :: "'s mnt \<Rightarrow> cstr \<Rightarrow> bool" where
  "covers_path m p \<longleftrightarrow> m_inuse m \<and> (\<exists>rest. p = m_path m @ rest \<and> (length (m_path m) \<le> 1 \<or> rest = [] \<or> hd rest = 47))"

lemma covers_test:
  "covers_path m p \<longleftrightarrow> m_inuse m \<and> take (length (m_path m)) p = m_path m
    \<and> \<not> (length (m_path m) > 1 \<and> length (m_path m) \<noteq> length p \<and> p ! length (m_path m) \<noteq> 47)"
proof -
  define n where "n = length (m_path m)"
  have r: "(\<exists>rest. p = m_path m @ rest \<and> Q rest) \<longleftrightarrow> take n p = m_path m \<and> Q (drop n p)" for Q
    unfolding n_def by (metis append_eq_conv_conj append_take_drop_id)
  show ?thesis
  proof (cases "take n p = m_path m")
    case True
    then have "n \<le> length p" unfolding n_def by (metis length_take min.cobounded1)
    then have "drop n p = [] \<longleftrightarrow> n = length p" "n \<noteq> length p \<Longrightarrow> hd (drop n p) = p ! n"
      by (auto simp: hd_drop_conv_nth)
    then show ?thesis using True unfolding covers_path_def r n_def [symmetric] by auto
  next
    case False
    then show ?thesis unfolding covers_path_def r n_def [symmetric] by simp
  qed
qed

lemma getmnt_loop_step:
  "getmnt_loop (m # ms) p i mnt l = (if covers_path m p \<and> l \<le> length (m_path m)
     then getmnt_loop ms p (Suc i) (Some i) (length (m_path m)) else getmnt_loop ms p (Suc i) mnt l)"
  by (auto simp: covers_test Let_def)

text \<open>The best mount so far: nothing, or the index of the longest of the mounts passed.\<close>

definition best_mnt :: "'s mnt list \<Rightarrow> cstr \<Rightarrow> nat option \<Rightarrow> nat \<Rightarrow> bool" where
  "best_mnt ms p b l \<longleftrightarrow> (case b of
     None \<Rightarrow> l = 0 \<and> (\<forall>m \<in> set ms. \<not> covers_path m p)
   | Some j \<Rightarrow> j < length ms \<and> covers_path (ms ! j) p \<and> l = length (m_path (ms ! j))
       \<and> (\<forall>m \<in> set ms. covers_path m p \<longrightarrow> length (m_path m) \<le> l))"

lemma best_mnt_take:
  assumes "best_mnt ms p b l" and "covers_path m p" and "l \<le> length (m_path m)"
  shows "best_mnt (ms @ [m]) p (Some (length ms)) (length (m_path m))"
  using assms unfolding best_mnt_def by (cases b) fastforce+

lemma best_mnt_skip:
  assumes "best_mnt ms p b l" and "\<not> (covers_path m p \<and> l \<le> length (m_path m))"
  shows "best_mnt (ms @ [m]) p b l"
  using assms unfolding best_mnt_def by (cases b) (auto simp: nth_append)

lemma getmnt_loop_best:
  "best_mnt ms p b l \<Longrightarrow> \<exists>l'. best_mnt (ms @ ms') p (getmnt_loop ms' p (length ms) b l) l'"
proof (induction ms' arbitrary: ms b l)
  case Nil
  then show ?case by auto
next
  case (Cons m ms')
  have len: "length (ms @ [m]) = Suc (length ms)" by simp
  show ?case
  proof (cases "covers_path m p \<and> l \<le> length (m_path m)")
    case True
    then show ?thesis using Cons.IH [OF best_mnt_take [OF Cons.prems, of m]] len
      by (simp only: getmnt_loop_step if_True simp_thms append_assoc append_Cons append_Nil)
  next
    case False
    then show ?thesis using Cons.IH [OF best_mnt_skip [OF Cons.prems False]] len
      by (simp only: getmnt_loop_step if_False simp_thms append_assoc append_Cons append_Nil)
  qed
qed

text \<open>
  C25. The mount that serves a path is one that covers it, and no mount that covers it has a
  longer path; there is none exactly when no mount covers the path.
\<close>

theorem vfs_getmnt_longest:
  assumes "vfs_abspath (k_cwd k) (Some path) 1024 = Some (Inr p)"
  shows "\<exists>r. vfs_getmnt k path = Some r \<and> (case r of
      None \<Rightarrow> \<forall>m \<in> set (k_mounts k). \<not> covers_path m p
    | Some i \<Rightarrow> i < length (k_mounts k) \<and> covers_path (k_mounts k ! i) p
        \<and> (\<forall>m \<in> set (k_mounts k). covers_path m p \<longrightarrow> length (m_path m) \<le> length (m_path (k_mounts k ! i))))"
proof -
  obtain l where "best_mnt (k_mounts k) p (getmnt_loop (k_mounts k) p 0 None 0) l"
    using getmnt_loop_best [of "[]" p None 0 "k_mounts k"] by (auto simp: best_mnt_def)
  then show ?thesis using assms by (auto simp: vfs_getmnt_def best_mnt_def split: option.splits)
qed

definition demo_kfs :: "process_state \<Rightarrow> ramfs_priv kfs" where
  "demo_kfs p = \<lparr>k_mounts = [zero_mnt, demo_mnt], k_mgen = 0, k_cwd = [47], k_proc = p, k_al = (\<lambda>_. True)\<rparr>"

lemma demo_abspath: "vfs_abspath [47] (Some [47, 97]) 1024 = Some (Inr [47, 97])"
  by (simp add: vfs_abspath_def vfs_canonicalize_def canon_loop.simps canon_push_def)

theorem vfs_getmnt_longest_witness:
  "vfs_abspath (k_cwd (demo_kfs zero_proc)) (Some [47, 97]) 1024 = Some (Inr [47, 97]) \<and>
   (\<exists>r. vfs_getmnt (demo_kfs zero_proc) [47, 97] = Some (Some r) \<and> covers_path (k_mounts (demo_kfs zero_proc) ! r) [47, 97])"
proof -
  have a: "vfs_abspath (k_cwd (demo_kfs zero_proc)) (Some [47, 97]) 1024 = Some (Inr [47, 97])"
    using demo_abspath by (simp add: demo_kfs_def)
  have c: "covers_path demo_mnt [47, 97]" by (simp add: covers_path_def demo_mnt_def)
  show ?thesis using vfs_getmnt_longest [OF a] a c by (auto simp: demo_kfs_def split: option.splits)
qed

section \<open>Seeking\<close>

text \<open>A descriptor that refers to an open file of a mounted file system.\<close>

definition open_file :: "'s kfs \<Rightarrow> nat \<Rightarrow> file_t \<Rightarrow> nat \<Rightarrow> bool" where
  "open_file k i f mi \<longleftrightarrow> (\<exists>fl. fd_ok (k_proc k) fl \<and> i < length fl \<and> fi_inuse (fl ! i) \<and> fi_data (fl ! i) = FdFile f)
     \<and> f_mnt f = (k_mgen k, mi) \<and> mi < length (k_mounts k)"

lemma open_file_facts:
  assumes "open_file k i f mi"
  shows "getfd (k_proc k) (int i) = Some (Inr i)"
    and "\<exists>info. fd_at (k_proc k) i = Some info \<and> fi_data info = FdFile f"
    and "deref_mnt k (f_mnt f) = Some (Some mi)"
  using assms by (auto simp: open_file_def getfd_ok fd_at_def fd_ok_def deref_mnt_def)

lemma open_file_put:
  assumes "open_file k i f mi" and "f_mnt f' = f_mnt f"
  shows "open_file (put_file k i f') i f' mi"
proof -
  obtain fl where fl: "fd_ok (k_proc k) fl" "i < length fl" "fi_inuse (fl ! i)" "fi_data (fl ! i) = FdFile f"
    using assms(1) by (auto simp: open_file_def)
  have p: "k_proc (put_file k i f') = set_fd (k_proc k) i ((fl ! i)\<lparr>fi_data := FdFile f'\<rparr>)"
    "k_mgen (put_file k i f') = k_mgen k" "k_mounts (put_file k i f') = k_mounts k"
    using fl by (simp_all add: put_file_def fd_at_def fd_ok_def)
  show ?thesis using assms fl set_fd_ok [OF fl(1), of i "(fl ! i)\<lparr>fi_data := FdFile f'\<rparr>"]
    unfolding open_file_def p by (intro conjI exI [of _ "fl[i := (fl ! i)\<lparr>fi_data := FdFile f'\<rparr>]"]) auto
qed

lemma put_file_mounts [simp]: "k_mounts (put_file k i f) = k_mounts k" "k_mgen (put_file k i f) = k_mgen k"
  by (simp_all add: put_file_def split: option.splits)

lemma seek_from_cases:
  assumes "0 \<le> base" and "base < 2 ^ 63" and "- (2 ^ 63) \<le> off" and "off < 2 ^ 63"
  shows "seek_from base off = Some (if base + off < 0 then Inl (- EINVAL)
    else if base + off \<ge> 2 ^ 63 then Inl (- ERANGE) else Inr (base + off))"
  using assms by (auto simp: seek_from_def s64_add_def)

text \<open>The position a seek means, in unbounded integers.\<close>

definition seek_target :: "int \<Rightarrow> int \<Rightarrow> int \<Rightarrow> int \<Rightarrow> int option" where
  "seek_target pos sz off whence = (if whence = SEEK_SET then Some off
     else if whence = SEEK_CUR then Some (pos + off) else if whence = SEEK_END then Some (sz + off) else None)"

lemma seek_pos_cases:
  assumes "0 \<le> pos" "pos < 2 ^ 63" "0 \<le> sz" "sz < 2 ^ 63" "- (2 ^ 63) \<le> off" "off < 2 ^ 63"
  shows "seek_pos pos sz off whence = Some (case seek_target pos sz off whence of None \<Rightarrow> Inl (- EINVAL)
    | Some t \<Rightarrow> if t < 0 then Inl (- EINVAL) else if t \<ge> 2 ^ 63 then Inl (- ERANGE) else Inr t)"
  using assms seek_from_cases [of pos off] seek_from_cases [of sz off] by (auto simp: seek_pos_def seek_target_def)

lemma lseek_eval:
  assumes "open_file k i f mi" and "mcall k (Some mi) (\<lambda>ops s. op_getino ops s (ucast (f_ino f))) = Some (0, Some cur)"
    and "f1 = f\<lparr>f_inod := (f_inod f)\<lparr>vi_size := vi_size cur, vi_mode := vi_mode cur\<rparr>\<rparr>"
  shows "lseek k (int i) off whence = do {
      n \<leftarrow> seek_pos (sint (f_pos f)) (sint (vi_size cur)) off whence;
      or_ret (\<lambda>e. (e, put_file k i f1)) n
        (\<lambda>npos. Some (npos, put_file (put_file k i f1) i (f1\<lparr>f_pos := of_int npos\<rparr>))) }"
  using open_file_facts [OF assms(1)] assms(2,3) by (auto simp: lseek_def Let_def)

text \<open>
  Seeking.  On an open file with position and size below \<open>2\<^sup>6\<^sup>3\<close>, \<^verbatim>\<open>lseek\<close> moves to the
  position that offset and origin mean in unbounded arithmetic and returns it; a negative
  position, or an unknown origin, is \<^verbatim>\<open>-EINVAL\<close> and a position of \<open>2\<^sup>6\<^sup>3\<close> or more is
  \<^verbatim>\<open>-ERANGE\<close>, with the position of the file unchanged.
\<close>

theorem lseek_bounds:
  assumes "open_file k i f mi" and "mcall k (Some mi) (\<lambda>ops s. op_getino ops s (ucast (f_ino f))) = Some (0, Some cur)"
    and "unat (f_pos f) < 2 ^ 63" and "unat (vi_size cur) < 2 ^ 63" and "- (2 ^ 63) \<le> off" and "off < 2 ^ 63"
  shows "\<exists>k' f'. lseek k (int i) off whence = Some (case seek_target (int (unat (f_pos f))) (int (unat (vi_size cur))) off whence of
        None \<Rightarrow> (- EINVAL, k')
      | Some t \<Rightarrow> if t < 0 then (- EINVAL, k') else if t \<ge> 2 ^ 63 then (- ERANGE, k') else (t, k'))
    \<and> open_file k' i f' mi \<and> k_mounts k' = k_mounts k
    \<and> int (unat (f_pos f')) = (case seek_target (int (unat (f_pos f))) (int (unat (vi_size cur))) off whence of
        None \<Rightarrow> int (unat (f_pos f)) | Some t \<Rightarrow> if t < 0 \<or> t \<ge> 2 ^ 63 then int (unat (f_pos f)) else t)"
proof -
  let ?f = "f\<lparr>f_inod := (f_inod f)\<lparr>vi_size := vi_size cur, vi_mode := vi_mode cur\<rparr>\<rparr>"
  let ?k = "put_file k i ?f"
  let ?t = "seek_target (int (unat (f_pos f))) (int (unat (vi_size cur))) off whence"
  have si: "sint (f_pos f) = int (unat (f_pos f))" "sint (vi_size cur) = int (unat (vi_size cur))"
    using sint_small assms(3,4) by blast+
  have sp: "seek_pos (sint (f_pos f)) (sint (vi_size cur)) off whence =
    Some (case ?t of None \<Rightarrow> Inl (- EINVAL)
    | Some t \<Rightarrow> if t < 0 then Inl (- EINVAL) else if t \<ge> 2 ^ 63 then Inl (- ERANGE) else Inr t)"
    using assms(3-6) seek_pos_cases [of "int (unat (f_pos f))" "int (unat (vi_size cur))" off whence]
    by (simp add: si del: of_nat_unat)
  have ls: "lseek k (int i) off whence = or_ret (\<lambda>e. (e, ?k)) (case ?t of None \<Rightarrow> Inl (- EINVAL)
    | Some t \<Rightarrow> if t < 0 then Inl (- EINVAL) else if t \<ge> 2 ^ 63 then Inl (- ERANGE) else Inr t)
      (\<lambda>npos. Some (npos, put_file ?k i (?f\<lparr>f_pos := of_int npos\<rparr>)))"
    unfolding lseek_eval [OF assms(1,2) refl] sp by simp
  have ok: "open_file ?k i ?f mi" using open_file_put [OF assms(1), of ?f] by simp
  show ?thesis
  proof (cases "\<exists>t. ?t = Some t \<and> 0 \<le> t \<and> t < 2 ^ 63")
    case True
    then obtain t where t: "?t = Some t" "0 \<le> t" "t < 2 ^ 63" by blast
    have u: "uint (of_int t :: u64) = t" using t(2,3) by (simp add: unsigned_of_int take_bit_int_eq_self)
    have "open_file (put_file ?k i (?f\<lparr>f_pos := of_int t\<rparr>)) i (?f\<lparr>f_pos := of_int t\<rparr>) mi"
      using open_file_put [OF ok] by simp
    then show ?thesis using ls t u by (intro exI) auto
  next
    case False
    then show ?thesis using ls ok by (intro exI [of _ ?k] exI [of _ ?f]) (auto split: option.splits)
  qed
qed


definition demo_file :: file_t where
  "demo_file = \<lparr>f_mnt = (0, 1), f_inod = zero_vinode, f_ino = 3, f_pos = 1, f_mnt_pos = 0, f_path = []\<rparr>"

definition demo_proc :: process_state where
  "demo_proc = zero_proc\<lparr>p_fds := Some [Some \<lparr>fi_fd = 0, fi_inuse = True, fi_data = FdFile demo_file\<rparr>], p_nfds := 1\<rparr>"

lemma demo_open: "open_file (demo_kfs demo_proc) 0 demo_file 1"
  by (auto simp: open_file_def fd_ok_def demo_kfs_def demo_proc_def demo_file_def
      intro!: exI [of _ "[\<lparr>fi_fd = 0, fi_inuse = True, fi_data = FdFile demo_file\<rparr>]"])

lemma demo_getino:
  "mcall (demo_kfs p) (Some 1) (\<lambda>ops s. op_getino ops s 3) = Some (0, Some (to_vinode (demo_link [97]) 3))"
  using demo_calls(2) [of 3] by (simp add: demo_kfs_def ramfs_getino_def demo_inodes)

theorem lseek_bounds_witness:
  "open_file (demo_kfs demo_proc) 0 demo_file 1 \<and>
   (\<exists>k'. lseek (demo_kfs demo_proc) 0 5 SEEK_END = Some (7, k'))
   \<and> (\<exists>k'. lseek (demo_kfs demo_proc) 0 (- 2) SEEK_CUR = Some (- EINVAL, k'))"
proof -
  let ?c = "to_vinode (demo_link [97]) 3"
  have g: "mcall (demo_kfs demo_proc) (Some 1) (\<lambda>ops s. op_getino ops s (ucast (f_ino demo_file))) = Some (0, Some ?c)"
    using demo_getino by (simp add: demo_file_def)
  have b: "unat (f_pos demo_file) < 2 ^ 63" "unat (vi_size ?c) < 2 ^ 63"
    by (simp_all add: demo_file_def to_vinode_def demo_link_def)
  have v: "unat (f_pos demo_file) = 1" "unat (vi_size ?c) = 2"
    by (simp_all add: demo_file_def to_vinode_def demo_link_def)
  have "\<exists>k'. lseek (demo_kfs demo_proc) (int 0) 5 SEEK_END = Some (7, k')"
    using lseek_bounds [OF demo_open g b, of 5 SEEK_END] unfolding v by (auto simp: seek_target_def)
  moreover have "\<exists>k'. lseek (demo_kfs demo_proc) (int 0) (- 2) SEEK_CUR = Some (- EINVAL, k')"
    using lseek_bounds [OF demo_open g b, of "- 2" SEEK_CUR] unfolding v by (auto simp: seek_target_def)
  ultimately show ?thesis using demo_open by simp
qed

section \<open>Writing and reading back\<close>

lemma open_file_priv: "open_file k i f mi \<Longrightarrow> open_file (set_priv k j s) i f mi"
  by (cases j) (auto simp: open_file_def)

lemma ramfs_mcall:
  assumes "mi < length (k_mounts k)" and "m_ops (k_mounts k ! mi) = Some ramfs_ops" and "m_priv (k_mounts k ! mi) = Some s"
  shows "mcall k (Some mi) f = f ramfs_ops s"
  using assms by (simp add: mnt_call_def)

lemma ramfs_ops_sel:
  "op_lookup ramfs_ops s = ramfs_lookup (rp_info s)"
  "op_getino ramfs_ops s = ramfs_getino (rp_info s)"
  "op_read ramfs_ops s = ramfs_read (rp_info s)"
  "op_write ramfs_ops s ino off nb data = rp_step (\<lambda>ok _ fs. ramfs_write ok fs ino off nb data) s"
  by (simp_all add: ramfs_ops_def)

lemma set_priv_mnt:
  assumes "mi < length (k_mounts k)"
  shows "m_ops (k_mounts (set_priv k (Some mi) s) ! mi) = m_ops (k_mounts k ! mi)"
    "m_priv (k_mounts (set_priv k (Some mi) s) ! mi) = Some s"
    "length (k_mounts (set_priv k (Some mi) s)) = length (k_mounts k)"
  using assms by simp_all

text \<open>
  C27. Writing, seeking back and reading.  For an open file of a mounted memory file system,
  \<^verbatim>\<open>fswrite\<close> of a buffer, \<^verbatim>\<open>lseek\<close> to where it started and \<^verbatim>\<open>fsread\<close> of as many bytes
  return the buffer.
\<close>

theorem file_write_seek_read:
  assumes "open_file k i f mi" and "m_ops (k_mounts k ! mi) = Some ramfs_ops" and "m_priv (k_mounts k ! mi) = Some s"
    and "rp_al s 0" and "getinod (rp_info s) (ucast (f_ino f)) = Some (Some d)" and "file_ok d"
    and "unat (f_pos f) + length data < 2 ^ 63"
  shows "\<exists>k1 k2 k3. fswrite k (int i) data (of_nat (length data)) = Some (int (length data), k1)
    \<and> lseek k1 (int i) (int (unat (f_pos f))) SEEK_SET = Some (int (unat (f_pos f)), k2)
    \<and> fsread k2 (int i) (of_nat (length data)) = Some ((int (length data), data), k3)"
proof -
  let ?ino = "ucast (f_ino f) :: u32" and ?nb = "of_nat (length data) :: u64"
  have mi: "mi < length (k_mounts k)" using assms(1) by (simp add: open_file_def)
  note facts = open_file_facts [OF assms(1)]
  obtain info where info: "fd_at (k_proc k) i = Some info" "fi_data info = FdFile f" using facts(2) by blast
  obtain fs' d' where w: "ramfs_write True (rp_info s) ?ino (f_pos f) ?nb data = Some (int (length data), fs')"
    and d': "getinod fs' ?ino = Some (Some d')" "file_ok d'"
      "unat (ri_size d') = max (unat (ri_size d)) (unat (f_pos f) + length data)"
      "file_cells d' = take (unat (f_pos f)) (dir_blk d @ fresh_blk (unat (f_pos f))) @ data
         @ drop (unat (f_pos f) + length data) (file_cells d)"
    using ramfs_write_cells [OF assms(5,6,7)] by blast
  define s' where "s' = \<lparr>rp_info = fs', rp_al = (\<lambda>n. rp_al s (n + 2))\<rparr>"
  define kw where "kw = set_priv k (Some mi) s'"
  define fw where "fw = (let pos = f_pos f + of_int (int (length data));
     inod = (if pos > vi_size (f_inod f) then (f_inod f)\<lparr>vi_size := pos\<rparr> else f_inod f)
     in f\<lparr>f_pos := pos, f_inod := inod\<rparr>)"
  have "mcall_upd k (Some mi) (\<lambda>ops s. op_write ops s ?ino (f_pos f) ?nb data) = Some (int (length data), kw)"
    unfolding mcall_upd_def ramfs_mcall [OF mi assms(2,3)] ramfs_ops_sel rp_step_def kw_def s'_def
    using w assms(4) by simp
  then have fsw: "fswrite k (int i) data ?nb = Some (int (length data), put_file kw i fw)"
    using facts(1,3) info by (simp add: fswrite_def fw_def Let_def)
  have mc: "mcall k' (Some mi) g = g ramfs_ops s'" if "k_mounts k' = k_mounts kw" for k' and g :: "ramfs_priv vfsops \<Rightarrow> ramfs_priv \<Rightarrow> 'b option"
    using that mi assms(2) unfolding kw_def by (simp add: mnt_call_def)
  define f1 where "f1 = fw\<lparr>f_inod := (f_inod fw)\<lparr>vi_size := ri_size d', vi_mode := ri_mode d'\<rparr>\<rparr>"
  define f2 where "f2 = f1\<lparr>f_pos := f_pos f\<rparr>"
  have sel: "f_ino fw = f_ino f" "f_mnt fw = f_mnt f" "f_mnt f1 = f_mnt f" "f_mnt f2 = f_mnt f" "f_ino f2 = f_ino f"
    "f_pos f2 = f_pos f" by (simp_all add: fw_def f1_def f2_def Let_def)
  define k2 where "k2 = put_file (put_file (put_file kw i fw) i f1) i f2"
  have ow: "open_file (put_file kw i fw) i fw mi"
    unfolding kw_def by (rule open_file_put [OF open_file_priv [OF assms(1)] sel(2)])
  have m2: "k_mounts k2 = k_mounts kw" by (simp add: k2_def)
  have o2: "open_file k2 i f2 mi"
    unfolding k2_def by (rule open_file_put [OF open_file_put [OF ow]]) (simp_all add: sel)
  have "mcall (put_file kw i fw) (Some mi) (\<lambda>ops s. op_getino ops s (ucast (f_ino fw))) = Some (0, Some (to_vinode d' (ucast ?ino)))"
    unfolding mc [OF put_file_mounts(1)] sel ramfs_ops_sel using d'(1) by (simp add: ramfs_getino_def s'_def)
  from lseek_eval [OF ow this, of f1 "int (unat (f_pos f))" SEEK_SET]
  have ls: "lseek (put_file kw i fw) (int i) (int (unat (f_pos f))) SEEK_SET = Some (int (unat (f_pos f)), k2)"
    by (simp add: f1_def to_vinode_def seek_pos_def k2_def f2_def)
  have nb: "unat ?nb = length data" using assms(7) by (intro unat_of_nat_small) simp
  have "ramfs_read fs' ?ino (f_pos f) ?nb = Some (int (length data), data)"
    using ramfs_read_cells [OF d'(1,2), of "f_pos f" ?nb] nb d'(3,4) assms(7) sint_small [of ?nb] by simp
  then have "mcall k2 (Some mi) (\<lambda>ops s. op_read ops s (ucast (f_ino f2)) (f_pos f2) ?nb) = Some (int (length data), data)"
    unfolding mc [OF m2] sel ramfs_ops_sel by (simp add: s'_def)
  then have "\<exists>k3. fsread k2 (int i) ?nb = Some ((int (length data), data), k3)"
    using open_file_facts [OF o2] by (auto simp: fsread_def)
  then show ?thesis using fsw ls by blast
qed


theorem file_write_seek_read_witness:
  "open_file (demo_kfs demo_proc) 0 demo_file 1 \<and>
   (\<exists>k1 k2 k3. fswrite (demo_kfs demo_proc) 0 [Byte 120, Byte 121, Byte 122] 3 = Some (3, k1)
     \<and> lseek k1 0 1 SEEK_SET = Some (1, k2) \<and> fsread k2 0 3 = Some ((3, [Byte 120, Byte 121, Byte 122]), k3))"
proof -
  let ?s = "\<lparr>rp_info = demo_fs, rp_al = (\<lambda>_. True)\<rparr>"
  have m: "m_ops (k_mounts (demo_kfs demo_proc) ! 1) = Some ramfs_ops" "m_priv (k_mounts (demo_kfs demo_proc) ! 1) = Some ?s"
    by (simp_all add: demo_kfs_def demo_mnt_def)
  have d: "getinod (rp_info ?s) (ucast (f_ino demo_file)) = Some (Some (demo_link [97]))" "file_ok (demo_link [97])"
    using demo_inodes(3) by (simp_all add: demo_file_def file_ok_def demo_link_def dir_blk_def cstr_cells_def)
  have p: "rp_al ?s 0" "unat (f_pos demo_file) + length [Byte 120, Byte 121, Byte 122] < 2 ^ 63" "unat (f_pos demo_file) = 1"
    by (simp_all add: demo_file_def)
  show ?thesis using file_write_seek_read [OF demo_open m p(1) d p(2)] demo_open unfolding p(3) by simp
qed

section \<open>Removal\<close>

lemma getinod_zero: "getinod fs 0 = Some None"
  by (simp add: getinod_def)

lemma k_getino_zero:
  assumes "mi < length (k_mounts k)" and "m_ops (k_mounts k ! mi) = Some ramfs_ops" and "m_priv (k_mounts k ! mi) = Some s"
  shows "k_getino k (Some mi) 0 = Some (- ENOENT, None)"
  unfolding k_getino_def ramfs_mcall [OF assms] ramfs_ops_sel by (simp add: ramfs_getino_def getinod_zero c_int_def)

lemma k_resolve_state: "k_resolve k mi p fl = Some (r, k') \<Longrightarrow> k' = kal 128 k"
  by (auto simp: k_resolve_def bind_eq_Some_conv)

lemma kal_mounts [simp]: "k_mounts (kal n k) = k_mounts k"
  by (simp add: kal_def)

text \<open>
  C28. Removing a file that exists.  The inode that \<^verbatim>\<open>unlink\<close> resolves is stored in the wrong
  variable and inode zero is used instead: on a memory file system the call always fails with
  \<^verbatim>\<open>-ENOENT\<close> although the file was found, and nothing is removed.
\<close>

theorem unlink_found_enoent:
  assumes "vfs_abspath (k_cwd k) (Some path) 1024 = Some (Inr p)" and "vfs_getmnt k p = Some (Some mi)"
    and "mi < length (k_mounts k)" and "m_ops (k_mounts k ! mi) = Some ramfs_ops" and "m_priv (k_mounts k ! mi) = Some s"
    and "k_resolve k (Some mi) p 0x04 = Some (ino, k')" and "0 \<le> c_int ino"
  shows "unlink k path = Some (- ENOENT, k') \<and> k_mounts k' = k_mounts k"
proof -
  have k': "k' = kal 128 k" using k_resolve_state [OF assms(6)] .
  have "k_getino k' (Some mi) 0 = Some (- ENOENT, None)"
    using k_getino_zero [of mi k' s] assms(3-5) k' by simp
  then show ?thesis using assms(1,2,6,7) k' by (simp add: unlink_def Let_def)
qed

lemma demo_resolve: "k_resolve (demo_kfs p) (Some 1) [47, 97] 0x04 = Some (2, kal 128 (demo_kfs p))"
proof -
  have "rel_ok [97]" by (simp add: rel_ok_def comps.simps)
  moreover have "comps [97] = [[97]]" by (simp add: comps.simps)
  moreover have "rel_path (m_path demo_mnt) [47, 97] = [97]" by (simp add: rel_path_def demo_mnt_def)
  ultimately have "vfs_resolve (\<lambda>_. True) (Some demo_mnt) (Some [47, 97]) 0x04 =
      Some (case demo_tree (norm_comps [[97]]) of Some (ino, d) \<Rightarrow> uint ino | None \<Rightarrow> - ENOENT)"
    by (intro resolve_tree [OF demo_mnt_tree]) (simp_all add: demo_tree_def norm_comps_def norm_comp_def)
  then show ?thesis by (simp add: k_resolve_def demo_kfs_def demo_tree_def norm_comps_def norm_comp_def)
qed

theorem unlink_found_enoent_witness:
  "k_resolve (demo_kfs zero_proc) (Some 1) [47, 97] 0x04 = Some (2, kal 128 (demo_kfs zero_proc)) \<and>
   unlink (demo_kfs zero_proc) [47, 97] = Some (- ENOENT, kal 128 (demo_kfs zero_proc))"
proof -
  have a: "vfs_abspath (k_cwd (demo_kfs zero_proc)) (Some [47, 97]) 1024 = Some (Inr [47, 97])"
    using demo_abspath by (simp add: demo_kfs_def)
  have g: "vfs_getmnt (demo_kfs zero_proc) [47, 97] = Some (Some 1)"
    using a by (simp add: vfs_getmnt_def demo_kfs_def Let_def zero_mnt_def demo_mnt_def)
  show ?thesis
    using unlink_found_enoent [OF a g _ _ _ demo_resolve] demo_resolve
    by (simp add: demo_kfs_def demo_mnt_def c_int_def)
qed

text \<open>Growing the mount table moves it: every descriptor opened before refers to memory that has
  been freed.\<close>

lemma findfreemnt_dangling:
  assumes "open_file k i f mi" and "\<forall>m \<in> set (k_mounts k). m_inuse m" and "k_al k 0"
  shows "\<exists>k'. vfs_findfreemnt k = (int (length (k_mounts k)) + 1, k') \<and> fsread k' (int i) n = None"
proof -
  have "free_mnt ms j = None" if "\<forall>m \<in> set ms. m_inuse m" for ms :: "'a mnt list" and j
    using that by (induction ms arbitrary: j) auto
  then have v: "vfs_findfreemnt k = (int (length (k_mounts k)) + 1,
      (kal 1 k)\<lparr>k_mounts := k_mounts k @ replicate 4 zero_mnt, k_mgen := k_mgen k + 1\<rparr>)"
    using assms(2,3) by (simp add: vfs_findfreemnt_def)
  have "fst (f_mnt f) = k_mgen k" using assms(1) by (auto simp: open_file_def)
  then show ?thesis using v open_file_facts [OF assms(1)]
    by (auto simp: fsread_def deref_mnt_def kal_def)
qed

end
