(* ===== verification/Proc.thy ===== *)
theory Proc
  imports Fd Vmm_Region "HOL-Library.Monad_Syntax"
begin

text \<open>
  Processes and scheduling (\<^verbatim>\<open>scheduler/scheduler.c\<close>, \<^verbatim>\<open>scheduler/new_process.c\<close>, and the
  process calls of \<^verbatim>\<open>usr/syscalls/ssc_proc\<close> and \<^verbatim>\<open>usr/syscalls/time.c\<close>).

  The state is the process table, the number of the current process, the flags of the
  scheduler, what the cores run, the address ranges of the processes (\<open>vmm_regs\<close>), and the words
  that the kernel stores through pointers of user programs (by address space and address).  The
  clock \<^verbatim>\<open>getms\<close> is an argument,
  \<^term>\<open>None\<close> while it is not set up.  Loading a program and the status of its file are
  arguments, with the outcomes of allocations.  Timers, the address-space switch and the frame
  buffer are hardware; a switch returns what is loaded (\<open>switch_out\<close>).  The process table lock
  serialises the functions; a definition is one critical section.  Destroying the address space
  of a dead process and polling the drivers do not touch this state.
\<close>

section \<open>State\<close>

record kst =
  proctbl :: "process_state list"
  current_pid :: u8
  preempt_pending :: bool
  scheduler_execve :: bool
  smp_info :: "(u64 \<times> u8) list option"
  bsp_apicid :: u64
  umem :: "u64 \<Rightarrow> u64 \<Rightarrow> int option"
  vmr :: vmm_regs

abbreviation (input) WAIT_ANY :: u8 where "WAIT_ANY \<equiv> 0xFF"
abbreviation (input) PROC_SUID :: u8 where "PROC_SUID \<equiv> 0x01"
abbreviation (input) PROC_SGID :: u8 where "PROC_SGID \<equiv> 0x02"

definition proc :: "kst \<Rightarrow> nat \<Rightarrow> process_state" where
  "proc st i = proctbl st ! i"

definition cur :: "kst \<Rightarrow> process_state" where
  "cur st = proc st (unat (current_pid st))"

definition upd_proc :: "nat \<Rightarrow> (process_state \<Rightarrow> process_state) \<Rightarrow> kst \<Rightarrow> kst" where
  "upd_proc i f st = st\<lparr>proctbl := (proctbl st)[i := f (proctbl st ! i)]\<rparr>"

definition upd_cur :: "(process_state \<Rightarrow> process_state) \<Rightarrow> kst \<Rightarrow> kst" where
  "upd_cur f st = upd_proc (unat (current_pid st)) f st"

section \<open>Scheduling\<close>

definition init_scheduler :: "bool \<Rightarrow> int" where
  "init_scheduler hpet_active = (if \<not> hpet_active then - EINVAL else 0)"

definition proc2ctx :: "process_state \<Rightarrow> procctx" where
  "proc2ctx p = p_regs p"

text \<open>The saved registers of a process; the address space is not part of what is saved.\<close>

definition ctx2proc :: "process_state \<Rightarrow> procctx \<Rightarrow> process_state" where
  "ctx2proc p c = p\<lparr>p_regs := c\<lparr>x_cr3 := x_cr3 (p_regs p)\<rparr>\<rparr>"

datatype switch_out = Resume | SwitchTo procctx u64 "cstr option" int

definition start_scheduler :: "kst \<Rightarrow> switch_out" where
  "start_scheduler st = SwitchTo (proc2ctx (cur st)) (x_cr3 (p_regs (cur st))) None (p_currfb (cur st))"

text \<open>Whether another core runs the process.\<close>

definition in_use :: "kst \<Rightarrow> nat \<Rightarrow> bool" where
  "in_use st pid = (case smp_info st of None \<Rightarrow> False
     | Some cs \<Rightarrow> list_ex (\<lambda>(a, p). a \<noteq> bsp_apicid st \<and> p = of_nat pid) cs)"

text \<open>The process is taken when it is runnable, or when its sleep has ended.\<close>

definition try_proc :: "u64 option \<Rightarrow> kst \<Rightarrow> nat \<Rightarrow> kst option" where
  "try_proc now st pid =
     (let p = proc st pid in
      if p_used p \<and> \<not> p_is_dead p then
        if in_use st pid then None
        else if p_is_blocked p then
          if p_wake_ms p \<noteq> 0 \<and> (case now of None \<Rightarrow> False | Some t \<Rightarrow> t \<ge> p_wake_ms p)
          then Some (upd_proc pid (\<lambda>p. p\<lparr>p_is_blocked := False, p_wake_ms := 0\<rparr>) st)
          else None
        else Some st
      else None)"

partial_function (option) nextproc_loop :: "u64 option \<Rightarrow> kst \<Rightarrow> nat \<Rightarrow> nat \<Rightarrow> (int \<times> kst) option" where
  "nextproc_loop now st start pid =
     (let pid = (pid + 1) mod 255 in
      case try_proc now st pid of
        Some st' \<Rightarrow> Some (int pid, st')
      | None \<Rightarrow> if pid \<noteq> start then nextproc_loop now st start pid else Some (- ENOPROC, st))"

definition nextproc :: "u64 option \<Rightarrow> kst \<Rightarrow> (int \<times> kst) option" where
  "nextproc now st = nextproc_loop now st (unat (current_pid st)) (unat (current_pid st))"

text \<open>The clock is read at each attempt; the loop waits until there is a process to run.\<close>

partial_function (option) pick_proc :: "(nat \<Rightarrow> u64 option) \<Rightarrow> nat \<Rightarrow> kst \<Rightarrow> (nat \<times> kst) option" where
  "pick_proc clock i st = do {
     (r, st') \<leftarrow> nextproc (clock i) st;
     if r < 0 then pick_proc clock (Suc i) st' else Some (nat r, st') }"

text \<open>The entry of the boot core records what it runs.\<close>

fun set_bsp :: "u64 \<Rightarrow> u8 \<Rightarrow> (u64 \<times> u8) list \<Rightarrow> (u64 \<times> u8) list" where
  "set_bsp b pid [] = []"
| "set_bsp b pid ((a, p) # cs) = (if a = b then (a, pid) # cs else (a, p) # set_bsp b pid cs)"

definition scheduler_switch :: "(nat \<Rightarrow> u64 option) \<Rightarrow> procctx \<Rightarrow> kst \<Rightarrow> (switch_out \<times> kst) option" where
  "scheduler_switch clock ctx st = do {
     (tgt, st) \<leftarrow> pick_proc clock 0 (st\<lparr>preempt_pending := False\<rparr>);
     let same = (tgt = unat (current_pid st) \<and> \<not> p_is_dead (cur st));
     if same \<and> \<not> scheduler_execve st then Some (Resume, st)
     else let st = (if same then st\<lparr>scheduler_execve := False\<rparr> else st);
              st = upd_cur (\<lambda>p. ctx2proc p ctx) st;
              st = st\<lparr>current_pid := of_nat tgt,
                      smp_info := map_option (set_bsp (bsp_apicid st) (of_nat tgt)) (smp_info st)\<rparr>;
              p = proc st tgt
          in Some (SwitchTo (proc2ctx p) (x_cr3 (p_regs p)) (p_pwd p) (p_currfb p), st) }"

section \<open>Frame buffer of a process\<close>

text \<open>Whether the first word of the union of a descriptor is not zero.\<close>

fun fb_word :: "fddata \<Rightarrow> bool option" where
  "fb_word (FdFb a) = Some (a \<noteq> 0)"
| "fb_word (FdFbw a) = Some (a \<noteq> 0)"
| "fb_word (FdFile f) = Some True"
| "fb_word (FdDir f) = Some True"
| "fb_word (FdIo io) = Some (io_in io \<or> io_out io)"
| "fb_word (FdDev d) = (if dev_mode d \<noteq> 0 \<or> dev_rdev d \<noteq> 0 then Some True else None)"
| "fb_word (FdSock s) = (if s \<noteq> 0 then Some True else None)"

definition switch_fb :: "bool \<Rightarrow> int \<Rightarrow> kst \<Rightarrow> (int \<times> kst) option" where
  "switch_fb fbctx fb st = do {
     r \<leftarrow> getfd (cur st) fb;
     case r of Inl e \<Rightarrow> Some (e, st)
     | Inr i \<Rightarrow>
         if \<not> fbctx then Some (- EINVAL, st)
         else do {
           info \<leftarrow> fd_at (cur st) i;
           w \<leftarrow> fb_word (fi_data info);
           Some (if \<not> w then (- EINVAL, st) else (0, upd_cur (\<lambda>p. p\<lparr>p_currfb := fb\<rparr>) st)) } }"

definition get_currfb :: "kst \<Rightarrow> int" where
  "get_currfb st = p_currfb (cur st)"

section \<open>New processes\<close>

record loadprog_res =
  lr_status :: int
  lr_pgtbl :: u64
  lr_entry :: u64
  lr_rsp :: u64
  lr_load_high :: u64

text \<open>The size of a descriptor entry in bytes is \<open>fdsz\<close>; the copy keeps slots that nothing has
  written as such.\<close>

definition copy_fds :: "nat \<Rightarrow> bool \<Rightarrow> nat \<Rightarrow> nat \<Rightarrow> kst \<Rightarrow> (int \<times> kst) option" where
  "copy_fds fdsz ok dst src st =
     (case p_fds (proc st src) of None \<Rightarrow> Some (- EBADF, st)
      | Some t \<Rightarrow>
          if p_nfds (proc st src) = 0 then Some (- EBADF, st)
          else if \<not> ok then Some (- ENOMEM, st)
          else if p_nfds (proc st src) \<le> length t then
            Some (int (fdsz * p_nfds (proc st src)),
              upd_proc dst (\<lambda>p. p\<lparr>p_nfds := p_nfds (proc st src),
                                 p_fds := Some (take (p_nfds (proc st src)) t)\<rparr>) st)
          else None)"

text \<open>The registers a program starts with.\<close>

definition start_ctx :: "loadprog_res \<Rightarrow> procctx" where
  "start_ctx res = zero_ctx\<lparr>x_rip := lr_entry res, x_rsp := lr_rsp res, x_rflags := 0x202,
     x_cs := 0x1b, x_ss := 0x23, x_cr3 := lr_pgtbl res\<rparr>"

definition mode_perms :: "u16 \<Rightarrow> u8" where
  "mode_perms mode = (if mode AND S_ISUID \<noteq> 0 then PROC_SUID else 0)
     OR (if mode AND S_ISGID \<noteq> 0 then PROC_SGID else 0)"

definition run_fresh :: "loadprog_res \<Rightarrow> u16 \<Rightarrow> process_state \<Rightarrow> process_state" where
  "run_fresh res mode p = p\<lparr>p_regs := start_ctx res, p_is_dead := False, p_is_blocked := False,
     p_wait_pid := WAIT_ANY, p_wake_ms := 0, p_perms := mode_perms mode\<rparr>"

definition kexecve :: "loadprog_res \<Rightarrow> int \<times> u16 \<Rightarrow> nat \<Rightarrow> kst \<Rightarrow> int \<times> kst" where
  "kexecve res stt cpid st =
     (if lr_status res < 0 then (lr_status res, st)
      else if fst stt < 0 then (fst stt, st)
      else let st = upd_proc cpid (run_fresh res (snd stt)) st
           in (0, st\<lparr>vmr := vmm_setumapbase (p_pid (proc st cpid)) (lr_load_high res) (vmr st)\<rparr>))"

text \<open>The descriptors of the first process: standard input, output and error, and the terminal.\<close>

definition init_fds :: "u64 \<Rightarrow> fdinfo list" where
  "init_fds term_fb =
     [\<lparr>fi_fd = 0, fi_inuse = True,
       fi_data = FdIo \<lparr>io_in = True, io_out = False, io_write = None, io_read = Some Stdin_read\<rparr>\<rparr>,
      \<lparr>fi_fd = 1, fi_inuse = True,
       fi_data = FdIo \<lparr>io_in = False, io_out = True, io_write = Some Stdout_write, io_read = None\<rparr>\<rparr>,
      \<lparr>fi_fd = 2, fi_inuse = True,
       fi_data = FdIo \<lparr>io_in = False, io_out = True, io_write = Some Stdout_write, io_read = None\<rparr>\<rparr>,
      \<lparr>fi_fd = 3, fi_inuse = True, fi_data = FdFb term_fb\<rparr>]"

text \<open>Descriptors, frame buffer and working directory of a new process; \<open>al\<close> are the outcomes of
  the allocations.\<close>

definition inherit :: "nat \<Rightarrow> bool \<Rightarrow> u64 \<Rightarrow> (nat \<Rightarrow> bool) \<Rightarrow> nat \<Rightarrow> nat \<Rightarrow> kst \<Rightarrow> (int \<times> kst) option" where
  "inherit fdsz fbctx term_fb al pid ppid st =
     (if pid = 0 then
        if \<not> al 0 then Some (- ENOMEM, st)
        else do {
          (_, st) \<leftarrow> switch_fb fbctx 3 st;
          let st = upd_proc pid (\<lambda>p. p\<lparr>p_fds := Some (map Some (init_fds term_fb)), p_nfds := 4,
                     p_currfb := 3\<rparr>) st;
          Some (if \<not> al 1 then (- ENOMEM, upd_proc pid (\<lambda>p. p\<lparr>p_pwd := None\<rparr>) st)
                else (0, upd_proc pid (\<lambda>p. p\<lparr>p_pwd := Some [47]\<rparr>) st)) }
      else do {
        (_, st) \<leftarrow> copy_fds fdsz (al 0) pid ppid st;
        let st = upd_proc pid (\<lambda>p. p\<lparr>p_currfb := get_currfb st, p_ppid := of_nat ppid\<rparr>) st;
        pwd \<leftarrow> p_pwd (proc st ppid);
        Some (if \<not> al 1 then (- ENOMEM, upd_proc pid (\<lambda>p. p\<lparr>p_pwd := None\<rparr>) st)
              else (0, upd_proc pid (\<lambda>p. p\<lparr>p_pwd := Some pwd\<rparr>) st)) })"

definition set_ids :: "nat \<Rightarrow> nat \<Rightarrow> kst \<Rightarrow> kst" where
  "set_ids pid ppid st =
     (if ppid < 255 \<and> p_used (proc st ppid) \<and> pid \<noteq> 0
      then let q = proc st ppid in upd_proc pid (\<lambda>p. p\<lparr>p_uid := p_uid q, p_gid := p_gid q,
             p_euid := p_euid q, p_egid := p_egid q\<rparr>) st
      else upd_proc pid (\<lambda>p. p\<lparr>p_uid := 0, p_gid := 0, p_euid := 0, p_egid := 0\<rparr>) st)"

definition new_process :: "nat \<Rightarrow> bool \<Rightarrow> u64 \<Rightarrow> (nat \<Rightarrow> bool) \<Rightarrow> loadprog_res \<Rightarrow> int \<times> u16 \<Rightarrow> u8 \<Rightarrow> kst
    \<Rightarrow> (int \<times> kst) option" where
  "new_process fdsz fbctx term_fb al res stt ppid st =
     (case find (\<lambda>i. \<not> p_used (proc st i)) [0..<255] of
        None \<Rightarrow> Some (- EFULL, st)
      | Some pid \<Rightarrow>
          if lr_status res < 0 then Some (lr_status res, st)
          else if fst stt < 0 then Some (fst stt, st)
          else do {
            (r, st) \<leftarrow> inherit fdsz fbctx term_fb al pid (unat ppid) st;
            if r < 0 then Some (r, st)
            else let st = upd_proc pid (\<lambda>p. (run_fresh res (snd stt) p)\<lparr>p_pid := of_nat pid, p_ppid := ppid\<rparr>) st;
                     st = set_ids pid (unat ppid) st;
                     st = upd_proc pid (\<lambda>p. p\<lparr>p_used := True\<rparr>) st
                 in Some (int pid, st\<lparr>vmr := vmm_setumapbase (of_nat pid) (lr_load_high res) (vmr st)\<rparr>) })"

section \<open>The calls that start a program\<close>

text \<open>The arguments are copied to pages of the kernel: the two pointer arrays, then the strings.
  The result has the number of pages and the positions of the strings; a string placed beyond
  the pages is an overrun, \<^term>\<open>None\<close>.  At most 16 arguments are taken.\<close>

fun place :: "nat \<Rightarrow> cstr list \<Rightarrow> (nat \<times> cstr) list \<times> nat" where
  "place p [] = ([], p)"
| "place p (s # ss) = (let (xs, e) = place (p + length s + 1) ss in ((p, s) # xs, e))"

definition args_size :: "cstr \<Rightarrow> cstr list \<Rightarrow> cstr list \<Rightarrow> nat" where
  "args_size path argv envp = 8 + sum_list (map (\<lambda>s. 8 + length s + 1) (take 16 argv))
     + sum_list (map (\<lambda>s. 8 + length s + 1) envp) + length path + 1"

record npa_res =
  np_npgs :: nat
  np_path :: "nat \<times> cstr"
  np_argv :: "(nat \<times> cstr) list"
  np_envp :: "(nat \<times> cstr) list"

definition copy_newprocargs :: "bool \<Rightarrow> cstr \<Rightarrow> cstr list \<Rightarrow> cstr list \<Rightarrow> (int + npa_res) option" where
  "copy_newprocargs ok path argv envp =
     (let argv = take 16 argv;
          npgs = (args_size path argv envp + 4095) div 4096
      in if \<not> ok then Some (Inl (- ENOMEM))
         else let p = 8 * (length argv + 1) + 8 * (length envp + 1);
                  (xs, e1) = place (p + length path + 1) argv;
                  (ys, e2) = place e1 envp
              in if e2 \<le> npgs * 4096
                 then Some (Inr \<lparr>np_npgs = npgs, np_path = (p, path), np_argv = xs, np_envp = ys\<rparr>)
                 else None)"

text \<open>What the loader and the file status give for a program.\<close>

type_synonym loader = "cstr \<Rightarrow> cstr list \<Rightarrow> cstr list \<Rightarrow> loadprog_res \<times> int \<times> u16"

definition sys_newproc :: "loader \<Rightarrow> nat \<Rightarrow> bool \<Rightarrow> u64 \<Rightarrow> bool \<Rightarrow> (nat \<Rightarrow> bool) \<Rightarrow> cstr option \<Rightarrow> cstr list option
    \<Rightarrow> cstr list option \<Rightarrow> kst \<Rightarrow> (int \<times> kst) option" where
  "sys_newproc load fdsz fbctx term_fb ok al path argv envp st = (case (path, argv, envp) of
     (Some path, Some argv, Some envp) \<Rightarrow> do {
       r \<leftarrow> copy_newprocargs ok path argv envp;
       case r of Inl e \<Rightarrow> Some (e, st)
       | Inr a \<Rightarrow>
           let (res, stt) = load (snd (np_path a)) (map snd (np_argv a)) (map snd (np_envp a))
           in new_process fdsz fbctx term_fb al res stt (current_pid st) st }
   | _ \<Rightarrow> Some (- EINVAL, st))"

definition sys_execve :: "loader \<Rightarrow> (nat \<Rightarrow> u64 option) \<Rightarrow> bool \<Rightarrow> cstr option \<Rightarrow> cstr list option
    \<Rightarrow> cstr list option \<Rightarrow> kst \<Rightarrow> ((int + switch_out) \<times> kst) option" where
  "sys_execve load clock ok path argv envp st = (case (path, argv, envp) of
     (Some path, Some argv, Some envp) \<Rightarrow> do {
       r \<leftarrow> copy_newprocargs ok path argv envp;
       case r of Inl e \<Rightarrow> Some (Inl e, st)
       | Inr a \<Rightarrow>
           let (res, stt) = load (snd (np_path a)) (map snd (np_argv a)) (map snd (np_envp a));
               (ret, st) = kexecve res stt (unat (current_pid st)) st
           in if ret < 0 then Some (Inl ret, st)
              else do {
                (out, st) \<leftarrow> scheduler_switch clock (proc2ctx (cur st)) (st\<lparr>scheduler_execve := True\<rparr>);
                Some (Inr out, st) } }
   | _ \<Rightarrow> Some (Inl (- EINVAL), st))"

section \<open>Ending and waiting\<close>

definition wake_waiter :: "nat \<Rightarrow> kst \<Rightarrow> kst" where
  "wake_waiter pid st =
     (let pp = unat (p_ppid (proc st pid)); parent = proc st pp in
      if p_is_blocked parent \<and> (p_wait_pid parent = of_nat pid \<or> p_wait_pid parent = WAIT_ANY)
      then let st' = upd_proc pp (\<lambda>p. p\<lparr>p_is_blocked := False, p_regs := (p_regs p)\<lparr>x_rax := of_nat pid\<rparr>\<rparr>) st
           in if p_codeptr parent \<noteq> 0
              then st'\<lparr>umem := (umem st')(x_cr3 (p_regs parent) := (umem st' (x_cr3 (p_regs parent)))
                     (p_codeptr parent \<mapsto> uint (p_code (proc st' pid))))\<rparr>
              else st'
      else st)"

definition reparent_children :: "u8 \<Rightarrow> kst \<Rightarrow> kst" where
  "reparent_children old st = st\<lparr>proctbl := map (\<lambda>p. if p_used p \<and> \<not> p_is_dead p \<and> p_ppid p = old
     then p\<lparr>p_ppid := 0\<rparr> else p) (proctbl st)\<rparr>"

definition endproc_shared :: "nat \<Rightarrow> kst \<Rightarrow> kst" where
  "endproc_shared pid st =
     (let st = upd_proc pid (\<lambda>p. p\<lparr>p_is_blocked := False, p_is_dead := True\<rparr>) st;
          st = reparent_children (of_nat pid) st;
          st = wake_waiter pid st
      in upd_proc pid (\<lambda>p. p\<lparr>p_fds := None, p_pwd := None, p_used := False\<rparr>) st)"

definition sys_kill :: "int \<Rightarrow> kst \<Rightarrow> int \<times> kst" where
  "sys_kill pid st =
     (if pid = 0 then (- EINVAL, st)
      else if pid \<le> 0 \<or> pid \<ge> 255 \<or> pid = uint (current_pid st) \<or> \<not> p_used (proc st (nat pid))
           \<or> p_is_dead (proc st (nat pid)) then (- ENOPROC, st)
      else if p_euid (cur st) \<noteq> 0 \<and> p_euid (cur st) \<noteq> p_uid (proc st (nat pid))
           \<and> p_uid (cur st) \<noteq> p_uid (proc st (nat pid)) then (- EACCESS, st)
      else (0, endproc_shared (nat pid) st))"

definition sys_exit :: "(nat \<Rightarrow> u64 option) \<Rightarrow> u64 \<Rightarrow> kst \<Rightarrow> (switch_out \<times> kst) option" where
  "sys_exit clock a0 st =
     scheduler_switch clock zero_ctx
       (endproc_shared (unat (current_pid st)) (upd_cur (\<lambda>p. p\<lparr>p_code := ucast a0, p_is_dead := True\<rparr>) st))"

text \<open>A store through a pointer of the current process.\<close>

definition user_store :: "u64 \<Rightarrow> int \<Rightarrow> kst \<Rightarrow> kst" where
  "user_store a v st = (let c = x_cr3 (p_regs (cur st)) in st\<lparr>umem := (umem st)(c := (umem st c)(a \<mapsto> v))\<rparr>)"

definition sys_wait :: "int \<Rightarrow> u64 \<Rightarrow> kst \<Rightarrow> (int \<times> kst) option" where
  "sys_wait pid code st =
     (if pid \<ge> 0 then
        if pid \<ge> 255 \<or> \<not> p_used (proc st (nat pid)) \<or> pid = uint (current_pid st) then Some (- ENOPROC, st)
        else if \<not> p_is_dead (proc st (nat pid)) then
          let st = (upd_cur (\<lambda>p. p\<lparr>p_wait_pid := of_int pid, p_is_blocked := True, p_codeptr := code\<rparr>) st)
                     \<lparr>preempt_pending := True\<rparr>
          in Some (pid, if code \<noteq> 0 then user_store code (- EHANG) st else st)
        else
          let st = upd_proc (nat pid) (\<lambda>p. p\<lparr>p_used := False\<rparr>) st
          in Some (pid, if code \<noteq> 0 then user_store code (uint (p_code (proc st (nat pid)))) st else st)
      else case find (\<lambda>i. i \<noteq> unat (current_pid st) \<and> p_ppid (proc st i) = current_pid st
                          \<and> p_is_dead (proc st i)) [0..<255] of
        Some i \<Rightarrow>
          if code \<noteq> 0 then None
          else Some (int i, upd_proc i (\<lambda>p. p\<lparr>p_used := False\<rparr>) st)
      | None \<Rightarrow>
          Some (- EHANG, upd_cur (\<lambda>p. p\<lparr>p_wait_pid := WAIT_ANY, p_is_blocked := True, p_codeptr := code\<rparr>) st))"

definition sys_sleep :: "u64 option \<Rightarrow> u64 \<Rightarrow> kst \<Rightarrow> int \<times> kst" where
  "sys_sleep now a0 st =
     (if a0 = 0 then (0, st\<lparr>preempt_pending := True\<rparr>)
      else (0, (upd_cur (\<lambda>p. p\<lparr>p_wake_ms := (case now of None \<Rightarrow> 0 | Some t \<Rightarrow> t) + a0,
                              p_is_blocked := True\<rparr>) st)\<lparr>preempt_pending := True\<rparr>))"

section \<open>Users and groups\<close>

definition sys_getpid :: "kst \<Rightarrow> u64" where "sys_getpid st = ucast (current_pid st)"
definition sys_getuid :: "kst \<Rightarrow> u64" where "sys_getuid st = ucast (p_uid (cur st))"
definition sys_getgid :: "kst \<Rightarrow> u64" where "sys_getgid st = ucast (p_gid (cur st))"
definition sys_geteuid :: "kst \<Rightarrow> u64" where "sys_geteuid st = ucast (p_euid (cur st))"
definition sys_getegid :: "kst \<Rightarrow> u64" where "sys_getegid st = ucast (p_egid (cur st))"

definition sys_setuid :: "u64 \<Rightarrow> kst \<Rightarrow> int \<times> kst" where
  "sys_setuid a0 st = (let n = ucast a0; p = cur st in
     if p_perms p AND PROC_SUID \<noteq> 0 \<or> p_euid p = 0 \<or> n = p_uid p \<or> n = p_euid p
     then (0, upd_cur (\<lambda>p. p\<lparr>p_uid := n\<rparr>) st) else (- EACCESS, st))"

definition sys_setgid :: "u64 \<Rightarrow> kst \<Rightarrow> int \<times> kst" where
  "sys_setgid a0 st = (let n = ucast a0; p = cur st in
     if p_perms p AND PROC_SGID \<noteq> 0 \<or> p_euid p = 0 \<or> n = p_gid p \<or> n = p_egid p
     then (0, upd_cur (\<lambda>p. p\<lparr>p_gid := n\<rparr>) st) else (- EACCESS, st))"

definition sys_seteuid :: "u64 \<Rightarrow> kst \<Rightarrow> int \<times> kst" where
  "sys_seteuid a0 st = (let n = ucast a0; p = cur st in
     if p_perms p AND PROC_SUID \<noteq> 0 \<or> p_euid p = 0 \<or> n = p_uid p \<or> n = p_euid p
     then (0, upd_cur (\<lambda>p. p\<lparr>p_euid := n\<rparr>) st) else (- EACCESS, st))"

definition sys_setegid :: "u64 \<Rightarrow> kst \<Rightarrow> int \<times> kst" where
  "sys_setegid a0 st = (let n = ucast a0; p = cur st in
     if p_perms p AND PROC_SGID \<noteq> 0 \<or> p_euid p = 0 \<or> n = p_gid p \<or> n = p_egid p
     then (0, upd_cur (\<lambda>p. p\<lparr>p_egid := n\<rparr>) st) else (- EACCESS, st))"

end
