(* ===== verification/Proc_Proofs.thy ===== *)
theory Proc_Proofs
  imports Proc
begin

text \<open>
  Properties of the processes: the choice of \<^verbatim>\<open>nextproc\<close> is the nearest runnable process after
  the current one, so that no runnable process waits for ever; what the end of a process does
  to its parent and children, and what a later wait sees; the identity calls; and the size of
  the arguments of a new program.
\<close>

lemma proc_upd: "i < length (proctbl st) \<Longrightarrow> proc (upd_proc i f st) j = (if j = i then f (proc st j) else proc st j)"
  by (simp add: proc_def upd_proc_def)

lemma upd_proc_sel [simp]:
  "length (proctbl (upd_proc i f st)) = length (proctbl st)" "current_pid (upd_proc i f st) = current_pid st"
  "umem (upd_proc i f st) = umem st" "smp_info (upd_proc i f st) = smp_info st" "bsp_apicid (upd_proc i f st) = bsp_apicid st"
  by (simp_all add: upd_proc_def)

section \<open>Choice of the next process\<close>

definition runnable :: "u64 option \<Rightarrow> kst \<Rightarrow> nat \<Rightarrow> bool" where
  "runnable now st i \<longleftrightarrow> try_proc now st i \<noteq> None"

lemma nextproc_loop_find:
  assumes "start < 255" and "d \<le> 254"
  shows "nextproc_loop now st start ((start + (254 - d)) mod 255) =
    Some (case find (runnable now st) (map (\<lambda>k. (start + k) mod 255) [255 - d..<256]) of
      Some i \<Rightarrow> (int i, the (try_proc now st i)) | None \<Rightarrow> (- ENOPROC, st))"
  using assms(2)
proof (induction d)
  case 0
  have u: "[255..<256] = [255 :: nat]" by (simp add: upt_rec)
  have "((start + 254) mod 255 + 1) mod 255 = start" using assms(1) by (simp add: mod_Suc_eq)
  then show ?case using assms(1) u
    by (subst nextproc_loop.simps) (simp add: Let_def runnable_def split: option.splits)
next
  case (Suc d)
  define e where "e = 254 - Suc d"
  have e: "254 - Suc d = e" "255 - Suc d = Suc e" "254 - d = Suc e" "255 - d = Suc (Suc e)" "Suc e < 255"
    using Suc.prems by (auto simp: e_def)
  let ?q = "(start + Suc e) mod 255"
  have q: "((start + e) mod 255 + 1) mod 255 = ?q" by (simp add: mod_Suc_eq)
  have ne: "?q \<noteq> start"
    using assms(1) e(5) by (cases "start + Suc e < 255") (auto simp: mod_if)
  have u: "[Suc e..<256] = Suc e # [Suc (Suc e)..<256]" using e(5) by (simp add: upt_conv_Cons)
  have IH: "nextproc_loop now st start ?q =
    Some (case find (runnable now st) (map (\<lambda>k. (start + k) mod 255) [Suc (Suc e)..<256]) of
      Some i \<Rightarrow> (int i, the (try_proc now st i)) | None \<Rightarrow> (- ENOPROC, st))"
    using Suc e by simp
  show ?case unfolding e u using q ne IH
    by (subst nextproc_loop.simps) (simp add: Let_def runnable_def split: option.splits)
qed

lemma nextproc_find:
  assumes "unat (current_pid st) < 255"
  shows "nextproc now st = Some (case find (runnable now st) (map (\<lambda>k. (unat (current_pid st) + k) mod 255) [1..<256]) of
      Some i \<Rightarrow> (int i, the (try_proc now st i)) | None \<Rightarrow> (- ENOPROC, st))"
  using nextproc_loop_find [OF assms, of 254 now st] assms by (simp add: nextproc_def)

text \<open>The chosen process is the nearest runnable one after the current process.\<close>

lemma nextproc_nearest:
  assumes "unat (current_pid st) < 255" and "nextproc now st = Some (int q, st')"
    and "runnable now st p" and "p = (unat (current_pid st) + Suc d) mod 255" and "d < 255"
  shows "runnable now st q \<and> (\<exists>k. q = (unat (current_pid st) + Suc k) mod 255 \<and> k \<le> d)"
proof -
  let ?c = "unat (current_pid st)"
  let ?f = "\<lambda>k. (?c + k) mod 255"
  have "find (runnable now st) (map ?f [1..<256]) \<noteq> None"
    using assms(3-5) by (auto simp: find_None_iff intro!: bexI [of _ "Suc d"])
  then have "find (runnable now st) (map ?f [1..<256]) = Some q"
    using assms(1,2) nextproc_find [of st now] by (auto split: option.splits)
  then obtain i where i: "i < 255" "runnable now st q" "q = ?f (Suc i)"
    "\<forall>j < i. \<not> runnable now st (?f (Suc j))"
    by (auto simp: find_Some_iff)
  have "i \<le> d" using i(4) assms(3,4) by (metis not_le)
  then show ?thesis using i by blast
qed

lemma nextproc_none:
  assumes "unat (current_pid st) < 255" and "nextproc now st = Some (r, st')" and "r < 0"
  shows "\<forall>p < 255. \<not> runnable now st p"
proof (intro allI impI)
  fix p :: nat assume p: "p < 255"
  let ?c = "unat (current_pid st)"
  have n: "\<forall>k \<in> {1..<256}. \<not> runnable now st ((?c + k) mod 255)"
    using assms nextproc_find [of st now] by (auto simp: find_None_iff split: option.splits)
  have "\<exists>k \<in> {1..<256}. p = (?c + k) mod 255"
    using p assms(1) by (intro bexI [of _ "if ?c < p then p - ?c else p + 255 - ?c"]) (auto simp: mod_if)
  then show "\<not> runnable now st p" using n by blast
qed

text \<open>
  C14. Fairness of the scheduler.  In a sequence of switches, each to the process that
  \<^verbatim>\<open>nextproc\<close> chooses and with any change of the other processes in between, a process that
  stays runnable is chosen after at most 255 switches.
\<close>

theorem scheduler_fair:
  assumes "p < 255" and "\<forall>n. unat (current_pid (s n)) < 255"
    and "\<forall>n. \<exists>st'. nextproc (now n) (s n) = Some (int (unat (current_pid (s (Suc n)))), st')"
    and "\<forall>n. runnable (now n) (s n) p"
  shows "\<exists>n < 255. unat (current_pid (s (Suc n))) = p"
proof -
  let ?c = "\<lambda>n. unat (current_pid (s n))"
  have claim: "(\<exists>m < n. ?c (Suc m) = p) \<or> (\<exists>d. d + n < 255 \<and> p = (?c n + Suc d) mod 255)" for n
  proof (induction n)
    case 0
    have "?c 0 < 255" using assms(2) by blast
    then show ?case using assms(1)
      by (intro disjI2 exI [of _ "if ?c 0 < p then p - ?c 0 - 1 else p + 255 - ?c 0 - 1"]) (auto simp: mod_if)
  next
    case (Suc n)
    show ?case
    proof (cases "(\<exists>m < n. ?c (Suc m) = p) \<or> ?c (Suc n) = p")
      case True
      then show ?thesis using less_Suc_eq by blast
    next
      case False
      then obtain d where d: "d + n < 255" "p = (?c n + Suc d) mod 255" using Suc by blast
      obtain st' where np: "nextproc (now n) (s n) = Some (int (?c (Suc n)), st')" using assms(3) by blast
      obtain k where k: "?c (Suc n) = (?c n + Suc k) mod 255" "k \<le> d"
        using nextproc_nearest [OF _ np _ d(2)] assms(2,4) d(1) by auto
      have "k \<noteq> d" using k(1) d(2) False by auto
      then have "?c n + Suc d = ?c n + Suc k + Suc (d - k - 1)" using k(2) by simp
      then have "p = (?c (Suc n) + Suc (d - k - 1)) mod 255" using d(2) k(1) by (metis mod_add_left_eq)
      moreover have "d - k - 1 + Suc n < 255" using d(1) k(2) \<open>k \<noteq> d\<close> by simp
      ultimately show ?thesis by blast
    qed
  qed
  from claim [of 255] show ?thesis by auto
qed


definition ready_proc :: process_state where
  "ready_proc = zero_proc\<lparr>p_used := True, p_euid := 7, p_uid := 8, p_gid := 9, p_egid := 9\<rparr>"

definition demo_kst :: "u8 \<Rightarrow> kst" where
  "demo_kst c = \<lparr>proctbl = [ready_proc, ready_proc] @ replicate 253 zero_proc, current_pid = c,
     preempt_pending = False, scheduler_execve = False, smp_info = None, bsp_apicid = 0, umem = (\<lambda>_ _. None),
     vmr = \<lparr>vmmr_head = None, vmmr_nodes = [], vmm_umapr = []\<rparr>\<rparr>"

lemma demo_runnable: "i < 255 \<Longrightarrow> runnable now (demo_kst c) i \<longleftrightarrow> i = 0 \<or> i = 1"
  by (auto simp: runnable_def try_proc_def proc_def demo_kst_def ready_proc_def zero_proc_def in_use_def nth_Cons' Let_def)

lemma demo_next:
  "nextproc now (demo_kst 0) = Some (1, the (try_proc now (demo_kst 0) 1))"
  "nextproc now (demo_kst 1) = Some (0, the (try_proc now (demo_kst 1) 0))"
proof -
  have c: "current_pid (demo_kst c) = c" for c by (simp add: demo_kst_def)
  have "find (runnable now (demo_kst 0)) (map (\<lambda>k. (0 + k) mod 255) [1..<256]) = Some 1"
    by (subst find_Some_iff) (intro exI [of _ 0], simp add: demo_runnable)
  then show "nextproc now (demo_kst 0) = Some (1, the (try_proc now (demo_kst 0) 1))"
    using nextproc_find [of "demo_kst 0" now] by (simp add: c)
  have "find (runnable now (demo_kst 1)) (map (\<lambda>k. (1 + k) mod 255) [1..<256]) = Some 0"
    by (subst find_Some_iff) (intro exI [of _ 253], simp add: demo_runnable)
  then show "nextproc now (demo_kst 1) = Some (0, the (try_proc now (demo_kst 1) 0))"
    using nextproc_find [of "demo_kst 1" now] by (simp add: c)
qed

theorem scheduler_fair_witness:
  "runnable None (demo_kst 0) 1 \<and> runnable None (demo_kst 1) 1 \<and>
   (\<exists>n < 255. unat (current_pid (demo_kst (of_nat (Suc n mod 2)))) = 1)"
proof -
  have c: "unat (current_pid (demo_kst c)) = unat c" for c by (simp add: demo_kst_def)
  have m: "n mod 2 = 0 \<or> n mod 2 = (1 :: nat)" for n by auto
  have "\<exists>n < 255. unat (current_pid (demo_kst (of_nat (Suc n mod 2)))) = 1"
  proof (rule scheduler_fair [where now = "\<lambda>_. None"])
    show "\<forall>n. unat (current_pid (demo_kst (of_nat (n mod 2)))) < 255"
    proof
      fix n show "unat (current_pid (demo_kst (of_nat (n mod 2)))) < 255" using m [of n] by (auto simp: c)
    qed
    show "\<forall>n. \<exists>st'. nextproc None (demo_kst (of_nat (n mod 2)))
        = Some (int (unat (current_pid (demo_kst (of_nat (Suc n mod 2))))), st')"
    proof
      fix n show "\<exists>st'. nextproc None (demo_kst (of_nat (n mod 2)))
        = Some (int (unat (current_pid (demo_kst (of_nat (Suc n mod 2))))), st')"
        using m [of n] demo_next [of None] by (auto simp: c mod_Suc)
    qed
    show "\<forall>n. runnable None (demo_kst (of_nat (n mod 2))) 1" by (simp add: demo_runnable)
  qed simp
  then show ?thesis by (simp add: demo_runnable)
qed

section \<open>Ending a process\<close>

lemma reparent_sel [simp]:
  "length (proctbl (reparent_children o1 st)) = length (proctbl st)" "current_pid (reparent_children o1 st) = current_pid st"
  "umem (reparent_children o1 st) = umem st"
  by (simp_all add: reparent_children_def)

lemma proc_reparent: "i < length (proctbl st) \<Longrightarrow> proc (reparent_children o1 st) i =
    (if p_used (proc st i) \<and> \<not> p_is_dead (proc st i) \<and> p_ppid (proc st i) = o1 then (proc st i)\<lparr>p_ppid := 0\<rparr> else proc st i)"
  by (simp add: reparent_children_def proc_def)

lemma wake_waiter_blocked:
  assumes "pp = unat (p_ppid (proc st pid))" and "pp < length (proctbl st)" and "pp \<noteq> pid" and "p_is_blocked (proc st pp)"
    and "p_wait_pid (proc st pp) = of_nat pid \<or> p_wait_pid (proc st pp) = WAIT_ANY"
  shows "proc (wake_waiter pid st) = (proc st)(pp := (proc st pp)\<lparr>p_is_blocked := False,
      p_regs := (p_regs (proc st pp))\<lparr>x_rax := of_nat pid\<rparr>\<rparr>)"
    and "length (proctbl (wake_waiter pid st)) = length (proctbl st)"
    and "p_codeptr (proc st pp) \<noteq> 0 \<Longrightarrow> umem (wake_waiter pid st) (x_cr3 (p_regs (proc st pp))) (p_codeptr (proc st pp))
      = Some (uint (p_code (proc st pid)))"
proof -
  have p: "proc (st\<lparr>umem := u\<rparr>) = proc st" for st u by (simp add: fun_eq_iff proc_def)
  show "proc (wake_waiter pid st) = (proc st)(pp := (proc st pp)\<lparr>p_is_blocked := False,
      p_regs := (p_regs (proc st pp))\<lparr>x_rax := of_nat pid\<rparr>\<rparr>)"
    using assms unfolding wake_waiter_def Let_def by (auto simp: fun_eq_iff p proc_upd)
  show "length (proctbl (wake_waiter pid st)) = length (proctbl st)"
    by (simp add: wake_waiter_def Let_def)
  show "umem (wake_waiter pid st) (x_cr3 (p_regs (proc st pp))) (p_codeptr (proc st pp))
      = Some (uint (p_code (proc st pid)))" if "p_codeptr (proc st pp) \<noteq> 0"
    using assms that unfolding wake_waiter_def Let_def by (simp add: proc_upd)
qed

text \<open>
  C31. The end of a process whose parent waits for it: the parent is runnable again with the
  process id as the result of its call, the exit code is stored where it asked for it, the
  living children of the process belong to process 0, and its slot is free.
\<close>

theorem endproc_wakes_parent:
  assumes "length (proctbl st) = 255" and "pid < 255" and "pp = unat (p_ppid (proc st pid))" and "pp < 255" and "pp \<noteq> pid"
    and "p_is_blocked (proc st pp)" and "p_wait_pid (proc st pp) = of_nat pid \<or> p_wait_pid (proc st pp) = WAIT_ANY"
    and "st' = endproc_shared pid st"
  shows "\<not> p_is_blocked (proc st' pp) \<and> x_rax (p_regs (proc st' pp)) = of_nat pid
    \<and> (p_codeptr (proc st pp) \<noteq> 0 \<longrightarrow> umem st' (x_cr3 (p_regs (proc st pp))) (p_codeptr (proc st pp))
        = Some (uint (p_code (proc st pid))))
    \<and> (\<forall>i < 255. i \<noteq> pid \<longrightarrow> p_used (proc st i) \<longrightarrow> \<not> p_is_dead (proc st i) \<longrightarrow> p_ppid (proc st i) = of_nat pid
        \<longrightarrow> p_ppid (proc st' i) = 0)
    \<and> \<not> p_used (proc st' pid) \<and> p_fds (proc st' pid) = None"
proof -
  define s1 where "s1 = upd_proc pid (\<lambda>p. p\<lparr>p_is_blocked := False, p_is_dead := True\<rparr>) st"
  define s2 where "s2 = reparent_children (of_nat pid) s1"
  define s3 where "s3 = wake_waiter pid s2"
  have st': "st' = upd_proc pid (\<lambda>p. p\<lparr>p_fds := None, p_pwd := None, p_used := False\<rparr>) s3"
    unfolding assms(8) endproc_shared_def Let_def s3_def s2_def s1_def ..
  have l: "length (proctbl s1) = 255" "length (proctbl s2) = 255" using assms(1) by (simp_all add: s1_def s2_def)
  have p1: "proc s1 i = (if i = pid then (proc st i)\<lparr>p_is_blocked := False, p_is_dead := True\<rparr> else proc st i)" for i
    using proc_upd [of pid st] assms(1,2) by (simp add: s1_def)
  have p2: "proc s2 i = (if p_used (proc s1 i) \<and> \<not> p_is_dead (proc s1 i) \<and> p_ppid (proc s1 i) = of_nat pid
      then (proc s1 i)\<lparr>p_ppid := 0\<rparr> else proc s1 i)" if "i < 255" for i
    using proc_reparent [of i s1] l that by (simp add: s2_def)
  have sel: "p_ppid (proc s2 pid) = p_ppid (proc st pid)" "p_code (proc s2 pid) = p_code (proc st pid)"
    "p_is_blocked (proc s2 pp) = p_is_blocked (proc st pp)" "p_wait_pid (proc s2 pp) = p_wait_pid (proc st pp)"
    "p_codeptr (proc s2 pp) = p_codeptr (proc st pp)" "p_regs (proc s2 pp) = p_regs (proc st pp)"
    using p2 [OF assms(2)] p2 [OF assms(4)] p1 [of pid] p1 [of pp] assms(5) by simp_all
  note w = wake_waiter_blocked [of pp s2 pid, folded s3_def, unfolded sel l, OF assms(3,4,5,6,7)]
  have p4: "proc st' i = (if i = pid then (proc s3 i)\<lparr>p_fds := None, p_pwd := None, p_used := False\<rparr> else proc s3 i)" for i
    using proc_upd [of pid s3] w(2) assms(2) by (simp add: st')
  have "p_ppid (proc s3 i) = p_ppid (proc s2 i)" for i unfolding w(1) by simp
  then show ?thesis using p4 w(1,3) assms(5) p2 p1 st' by simp
qed

definition waiting_kst :: kst where
  "waiting_kst = (demo_kst 1)\<lparr>proctbl := [ready_proc\<lparr>p_is_blocked := True, p_wait_pid := 1, p_codeptr := 0x1000\<rparr>,
     ready_proc\<lparr>p_code := 5\<rparr>] @ replicate 253 zero_proc\<rparr>"

theorem endproc_wakes_parent_witness:
  "p_is_blocked (proc waiting_kst 0) \<and> \<not> p_is_blocked (proc (endproc_shared 1 waiting_kst) 0)
   \<and> umem (endproc_shared 1 waiting_kst) 0 0x1000 = Some 5 \<and> \<not> p_used (proc (endproc_shared 1 waiting_kst) 1)"
proof -
  have w: "length (proctbl waiting_kst) = 255" "(0 :: nat) = unat (p_ppid (proc waiting_kst 1))"
    "p_is_blocked (proc waiting_kst 0)"
    "p_wait_pid (proc waiting_kst 0) = of_nat 1 \<or> p_wait_pid (proc waiting_kst 0) = WAIT_ANY"
    "p_codeptr (proc waiting_kst 0) = 0x1000" "x_cr3 (p_regs (proc waiting_kst 0)) = 0" "p_code (proc waiting_kst 1) = 5"
    by (simp_all add: waiting_kst_def proc_def ready_proc_def zero_proc_def zero_ctx_def)
  show ?thesis using endproc_wakes_parent [OF w(1) _ w(2) _ _ w(3,4) refl] w by simp
qed

lemma proc_upd_keeps: "(\<And>p. g (f p) = g p) \<Longrightarrow> g (proc (upd_proc j f st) i) = g (proc st i)"
  by (cases "j < length (proctbl st)"; cases "i = j") (simp_all add: proc_def upd_proc_def list_update_beyond)

lemma wake_waiter_keeps:
  "length (proctbl (wake_waiter pid st)) = length (proctbl st)" "current_pid (wake_waiter pid st) = current_pid st"
  "p_ppid (proc (wake_waiter pid st) i) = p_ppid (proc st i)"
  "p_is_dead (proc (wake_waiter pid st) i) = p_is_dead (proc st i)"
proof -
  have p: "proc (st\<lparr>umem := u\<rparr>) = proc st" for st u by (simp add: fun_eq_iff proc_def)
  show "length (proctbl (wake_waiter pid st)) = length (proctbl st)" "current_pid (wake_waiter pid st) = current_pid st"
    by (simp_all add: wake_waiter_def Let_def)
  show "p_ppid (proc (wake_waiter pid st) i) = p_ppid (proc st i)"
    unfolding wake_waiter_def Let_def by (simp add: p proc_upd_keeps [of p_ppid])
  show "p_is_dead (proc (wake_waiter pid st) i) = p_is_dead (proc st i)"
    unfolding wake_waiter_def Let_def by (simp add: p proc_upd_keeps [of p_is_dead])
qed

lemma endproc_slot:
  assumes "length (proctbl st) = 255" and "pid < 255"
  shows "\<not> p_used (proc (endproc_shared pid st) pid)" "p_is_dead (proc (endproc_shared pid st) pid)"
    "p_ppid (proc (endproc_shared pid st) pid) = p_ppid (proc st pid)"
    "length (proctbl (endproc_shared pid st)) = 255" "current_pid (endproc_shared pid st) = current_pid st"
  using assms by (simp_all add: endproc_shared_def Let_def proc_upd wake_waiter_keeps proc_reparent)

lemma wait_any_found:
  assumes "i < length (proctbl st)" and "pid < 0"
    and "find (\<lambda>i. i \<noteq> unat (current_pid st) \<and> p_ppid (proc st i) = current_pid st \<and> p_is_dead (proc st i)) [0..<255] = Some i"
  shows "sys_wait pid 0 st = Some (int i, upd_proc i (\<lambda>p. p\<lparr>p_used := False\<rparr>) st)"
    and "sys_wait pid 0 (upd_proc i (\<lambda>p. p\<lparr>p_used := False\<rparr>) st) = Some (int i, upd_proc i (\<lambda>p. p\<lparr>p_used := False\<rparr>) st)"
proof -
  let ?s = "upd_proc i (\<lambda>p. p\<lparr>p_used := False\<rparr>) st"
  show "sys_wait pid 0 st = Some (int i, ?s)" using assms(2,3) by (simp add: sys_wait_def)
  have "p_ppid (proc ?s j) = p_ppid (proc st j)" "p_is_dead (proc ?s j) = p_is_dead (proc st j)" for j
    using assms(1) by (simp_all add: proc_upd)
  then have f: "find (\<lambda>i. i \<noteq> unat (current_pid ?s) \<and> p_ppid (proc ?s i) = current_pid ?s \<and> p_is_dead (proc ?s i)) [0..<255] = Some i"
    using assms(3) by simp
  have "upd_proc i (\<lambda>p. p\<lparr>p_used := False\<rparr>) ?s = ?s" using assms(1) by (simp add: upd_proc_def)
  then show "sys_wait pid 0 ?s = Some (int i, ?s)" using assms(2) f by (simp add: sys_wait_def)
qed

text \<open>
  Waiting for a child that has already ended.  The slot of a process is freed when it ends:
  a later wait for it by its parent fails with \<^verbatim>\<open>-ENOPROC\<close>, so its exit code is lost, while
  every wait for any child returns the same dead child again.
\<close>

theorem wait_after_exit:
  assumes "length (proctbl st) = 255" and "pid < 255" and "pid \<noteq> unat (current_pid st)"
    and "p_ppid (proc st pid) = current_pid st" and "st' = endproc_shared pid st"
  shows "sys_wait (int pid) code st' = Some (- ENOPROC, st')
    \<and> (\<exists>i st1. sys_wait (- 1) 0 st' = Some (int i, st1) \<and> sys_wait (- 1) 0 st1 = Some (int i, st1))"
proof -
  note e = endproc_slot [OF assms(1,2), folded assms(5)]
  have one: "sys_wait (int pid) code st' = Some (- ENOPROC, st')" using e(1) by (simp add: sys_wait_def)
  let ?P = "\<lambda>i. i \<noteq> unat (current_pid st') \<and> p_ppid (proc st' i) = current_pid st' \<and> p_is_dead (proc st' i)"
  have "?P pid" using e(2,3,5) assms(3,4) by simp
  then obtain i where i: "find ?P [0..<255] = Some i" "i < 255"
    using assms(2) by (cases "find ?P [0..<255]") (auto simp: find_None_iff find_Some_iff)
  show ?thesis using one wait_any_found [of i st' "- 1"] i e(4) by auto
qed

theorem wait_after_exit_witness:
  "sys_wait 1 0 (endproc_shared 1 (demo_kst 0)) = Some (- ENOPROC, endproc_shared 1 (demo_kst 0))
   \<and> (\<exists>i st1. sys_wait (- 1) 0 (endproc_shared 1 (demo_kst 0)) = Some (int i, st1) \<and> sys_wait (- 1) 0 st1 = Some (int i, st1))"
proof -
  have d: "length (proctbl (demo_kst 0)) = 255" "1 \<noteq> unat (current_pid (demo_kst 0))" "p_ppid (proc (demo_kst 0) 1) = current_pid (demo_kst 0)"
    by (simp_all add: demo_kst_def proc_def ready_proc_def zero_proc_def)
  show ?thesis using wait_after_exit [OF d(1) _ d(2,3) refl, of 0] by simp
qed

text \<open>A parent that sleeps is woken by the end of a child, before its time: the sleep does not
  change what the parent waits for, which is any child from its start.\<close>

lemma sleep_cut_short:
  assumes "length (proctbl st) = 255" and "c = unat (current_pid st)" and "c < 255" and "p_wait_pid (cur st) = WAIT_ANY"
    and "a0 \<noteq> 0" and "pid < 255" and "pid \<noteq> c" and "p_ppid (proc st pid) = current_pid st"
  shows "\<not> p_is_blocked (proc (endproc_shared pid (snd (sys_sleep now a0 st))) c)"
proof -
  define s where "s = snd (sys_sleep now a0 st)"
  have p: "proc (st\<lparr>preempt_pending := b\<rparr>) = proc st" for st b by (simp add: fun_eq_iff proc_def)
  have s: "length (proctbl s) = 255" "proc s i = (if i = c then (proc st i)\<lparr>p_wake_ms := (case now of None \<Rightarrow> 0 | Some t \<Rightarrow> t) + a0,
      p_is_blocked := True\<rparr> else proc st i)" for i
    using assms(1-3,5) by (simp_all add: s_def sys_sleep_def upd_cur_def p proc_upd)
  have e: "c = unat (p_ppid (proc s pid))" "p_is_blocked (proc s c)"
    "p_wait_pid (proc s c) = of_nat pid \<or> p_wait_pid (proc s c) = WAIT_ANY"
    using s(2) assms(2,4,7,8) by (simp_all add: cur_def)
  define s2 where "s2 = reparent_children (of_nat pid) (upd_proc pid (\<lambda>p. p\<lparr>p_is_blocked := False, p_is_dead := True\<rparr>) s)"
  have s2: "proc s2 c = (if p_used (proc s c) \<and> \<not> p_is_dead (proc s c) \<and> p_ppid (proc s c) = of_nat pid then (proc s c)\<lparr>p_ppid := 0\<rparr> else proc s c)"
    "p_ppid (proc s2 pid) = p_ppid (proc s pid)" "length (proctbl s2) = 255"
    using s(1) assms(3,6,7) by (simp_all add: s2_def proc_reparent proc_upd)
  have "proc (wake_waiter pid s2) = (proc s2)(c := (proc s2 c)\<lparr>p_is_blocked := False,
      p_regs := (p_regs (proc s2 c))\<lparr>x_rax := of_nat pid\<rparr>\<rparr>)"
    using e s2 assms(3,7) by (intro wake_waiter_blocked(1)) simp_all
  then show ?thesis unfolding s_def [symmetric] endproc_shared_def Let_def s2_def [symmetric]
    using assms(3,6,7) s2(3) by (simp add: proc_upd wake_waiter_keeps)
qed

section \<open>Users and groups\<close>

datatype id_call = SetUid u64 | SetGid u64 | SetEuid u64 | SetEgid u64

fun id_step :: "kst \<Rightarrow> id_call \<Rightarrow> kst" where
  "id_step st (SetUid n) = snd (sys_setuid n st)"
| "id_step st (SetGid n) = snd (sys_setgid n st)"
| "id_step st (SetEuid n) = snd (sys_seteuid n st)"
| "id_step st (SetEgid n) = snd (sys_setegid n st)"

lemma cur_upd: "unat (current_pid st) < length (proctbl st) \<Longrightarrow> cur (upd_cur f st) = f (cur st)"
  by (simp add: cur_def upd_cur_def proc_upd)

lemma upd_cur_sel [simp]: "length (proctbl (upd_cur f st)) = length (proctbl st)" "current_pid (upd_cur f st) = current_pid st"
  by (simp_all add: upd_cur_def)

definition unpriv :: "u32 set \<Rightarrow> u32 set \<Rightarrow> kst \<Rightarrow> bool" where
  "unpriv U G st \<longleftrightarrow> unat (current_pid st) < length (proctbl st) \<and> 0 \<notin> U
     \<and> p_uid (cur st) \<in> U \<and> p_euid (cur st) \<in> U \<and> p_gid (cur st) \<in> G \<and> p_egid (cur st) \<in> G
     \<and> p_perms (cur st) AND PROC_SUID = 0 \<and> p_perms (cur st) AND PROC_SGID = 0"

lemma id_step_unpriv: "unpriv U G st \<Longrightarrow> unpriv U G (id_step st c)"
  by (cases c) (auto simp: unpriv_def sys_setuid_def sys_setgid_def sys_seteuid_def sys_setegid_def Let_def cur_upd)

text \<open>
  C16. No gain of privilege through the identity calls.  Whatever sequence of them a process
  without super-user identity and without set-id permission makes, its user ids remain among
  the two it had, and its group ids among the two it had.
\<close>

theorem ids_no_escalation:
  assumes "unat (current_pid st) < length (proctbl st)" and "p_uid (cur st) \<noteq> 0" and "p_euid (cur st) \<noteq> 0"
    and "p_perms (cur st) AND PROC_SUID = 0" and "p_perms (cur st) AND PROC_SGID = 0"
    and "st' = foldl id_step st calls"
  shows "{p_uid (cur st'), p_euid (cur st')} \<subseteq> {p_uid (cur st), p_euid (cur st)}
    \<and> {p_gid (cur st'), p_egid (cur st')} \<subseteq> {p_gid (cur st), p_egid (cur st)}"
proof -
  have "unpriv U G (foldl id_step st calls)" if "unpriv U G st" for U G
    using that by (induction calls arbitrary: st) (simp_all add: id_step_unpriv)
  from this [of "{p_uid (cur st), p_euid (cur st)}" "{p_gid (cur st), p_egid (cur st)}"]
  show ?thesis using assms by (auto simp: unpriv_def)
qed

theorem ids_no_escalation_witness:
  "p_uid (cur (demo_kst 0)) = 8 \<and> p_euid (cur (demo_kst 0)) = 7 \<and>
   p_euid (cur (foldl id_step (demo_kst 0) [SetEuid 0, SetUid 7, SetEuid 8])) \<in> {7, 8}"
proof -
  have d: "unat (current_pid (demo_kst 0)) < length (proctbl (demo_kst 0))" "p_uid (cur (demo_kst 0)) = 8"
    "p_euid (cur (demo_kst 0)) = 7" "p_perms (cur (demo_kst 0)) = 0"
    by (simp_all add: demo_kst_def cur_def proc_def ready_proc_def zero_proc_def)
  show ?thesis using ids_no_escalation [OF d(1) _ _ _ _ refl, of "[SetEuid 0, SetUid 7, SetEuid 8]"] d by auto
qed

section \<open>Arguments of a new program\<close>

text \<open>The size that is allocated for the arguments counts one of the two terminators of the
  pointer arrays, so the copy overruns the pages exactly when the count ends within the last
  eight bytes of a page.\<close>

lemma place_end: "snd (place p ss) = p + sum_list (map (\<lambda>s. length s + 1) ss)"
  by (induction ss arbitrary: p) (simp_all add: Let_def case_prod_beta)

lemma place_sizes: "sum_list (map (\<lambda>s. 8 + length s + 1) ss) = 8 * length ss + sum_list (map (\<lambda>s. length s + 1) ss)"
  by (induction ss) auto

lemma newprocargs_overrun:
  assumes "n = args_size path (take 16 argv) envp"
  shows "copy_newprocargs True path argv envp = None \<longleftrightarrow> (n + 4095) div 4096 * 4096 < n + 8"
proof -
  let ?a = "take 16 argv"
  let ?p = "8 * (length ?a + 1) + 8 * (length envp + 1) + length path + 1"
  have "snd (place (snd (place ?p ?a)) envp) = n + 8"
    using assms by (simp only: place_end args_size_def place_sizes take_take min.idem) simp
  then show ?thesis using assms unfolding copy_newprocargs_def Let_def by (auto simp: not_le split: prod.splits)
qed

end
