(* ===== verification/Proc_Reach.thy ===== *)
theory Proc_Reach
  imports Proc_Proofs
begin

text \<open>
  The process table as a state machine: its steps are the process calls and the switches of the
  scheduler.  Every step keeps the table well-formed, so all states that can be
  reached from boot are; one consequence is that no process can ever collect the exit code of
  a child that ended before it waited.
\<close>

section \<open>Well-formed process tables\<close>

text \<open>A used slot has its number as process id, and a dead process has no slot.\<close>

definition proc_ok :: "nat \<Rightarrow> process_state \<Rightarrow> bool" where
  "proc_ok i p \<longleftrightarrow> (p_is_dead p \<longrightarrow> \<not> p_used p) \<and> (p_used p \<longrightarrow> p_pid p = of_nat i)"

text \<open>All slots are well-formed, except for those in \<open>X\<close>.\<close>

definition kst_ok_but :: "nat set \<Rightarrow> kst \<Rightarrow> bool" where
  "kst_ok_but X st \<longleftrightarrow> length (proctbl st) = 255 \<and> unat (current_pid st) < 255 \<and> (\<forall>i < 255. i \<notin> X \<longrightarrow> proc_ok i (proc st i))"

definition kst_ok :: "kst \<Rightarrow> bool" where
  "kst_ok st \<longleftrightarrow> kst_ok_but {} st"

text \<open>Two entries with the same slot, state of life and id.\<close>

definition same_life :: "process_state \<Rightarrow> process_state \<Rightarrow> bool" where
  "same_life p q \<longleftrightarrow> p_used p = p_used q \<and> p_is_dead p = p_is_dead q \<and> p_pid p = p_pid q"

lemma same_life_ok: "same_life p q \<Longrightarrow> proc_ok i p = proc_ok i q"
  by (simp add: same_life_def proc_ok_def)

lemma proc_other: "proc (st\<lparr>current_pid := a\<rparr>) = proc st" "proc (st\<lparr>preempt_pending := b\<rparr>) = proc st"
    "proc (st\<lparr>scheduler_execve := b\<rparr>) = proc st" "proc (st\<lparr>smp_info := s\<rparr>) = proc st" "proc (st\<lparr>umem := u\<rparr>) = proc st"
    "proc (st\<lparr>vmr := v\<rparr>) = proc st"
  by (simp_all add: fun_eq_iff proc_def)

lemma ok_flags [simp]:
  "kst_ok_but X (st\<lparr>preempt_pending := b\<rparr>) = kst_ok_but X st" "kst_ok_but X (st\<lparr>scheduler_execve := b\<rparr>) = kst_ok_but X st"
  "kst_ok_but X (st\<lparr>smp_info := s\<rparr>) = kst_ok_but X st" "kst_ok_but X (st\<lparr>umem := u\<rparr>) = kst_ok_but X st"
  "kst_ok_but X (st\<lparr>vmr := v\<rparr>) = kst_ok_but X st"
  by (simp_all add: kst_ok_but_def proc_other)

lemma ok_current: "kst_ok_but X st \<Longrightarrow> unat c < 255 \<Longrightarrow> kst_ok_but X (st\<lparr>current_pid := c\<rparr>)"
  by (simp add: kst_ok_but_def proc_other)

lemma ok_mono: "kst_ok_but X st \<Longrightarrow> X \<subseteq> Y \<Longrightarrow> kst_ok_but Y st"
  by (auto simp: kst_ok_but_def)

lemma ok_upd_same:
  assumes "kst_ok_but X st" and "\<And>p. same_life (f p) p"
  shows "kst_ok_but X (upd_proc i f st)"
proof -
  have "proc_ok j (proc (upd_proc i f st) j) = proc_ok j (proc st j)" for j
    by (rule proc_upd_keeps) (simp add: same_life_ok [OF assms(2)])
  then show ?thesis using assms(1) by (simp add: kst_ok_but_def)
qed

lemma ok_upd_slot:
  assumes "kst_ok_but X st" and "i < 255" and "proc_ok i (f (proc st i))"
  shows "kst_ok_but (X - {i}) (upd_proc i f st)"
  using assms by (auto simp: kst_ok_but_def proc_upd)

lemmas ok_upd_slot' = ok_upd_slot [of "{}", simplified]

lemma ok_upd_any: "kst_ok_but X st \<Longrightarrow> i < 255 \<Longrightarrow> kst_ok_but (insert i X) (upd_proc i f st)"
  by (auto simp: kst_ok_but_def proc_upd)

lemma ok_upd_cur_same:
  "kst_ok_but X st \<Longrightarrow> (\<And>p. same_life (f p) p) \<Longrightarrow> kst_ok_but X (upd_cur f st)"
  unfolding upd_cur_def by (rule ok_upd_same)

lemma ok_reparent: "kst_ok_but X st \<Longrightarrow> kst_ok_but X (reparent_children n st)"
  by (auto simp: kst_ok_but_def proc_reparent proc_ok_def)

lemma ok_wake: "kst_ok_but X st \<Longrightarrow> kst_ok_but X (wake_waiter pid st)"
  unfolding wake_waiter_def Let_def by (simp add: ok_upd_same same_life_def)

text \<open>Ending a process gives a well-formed table even when its own slot was not.\<close>

lemma ok_endproc:
  assumes "kst_ok_but X st" and "X \<subseteq> {pid}" and "pid < 255"
  shows "kst_ok (endproc_shared pid st)"
proof -
  define s1 where "s1 = upd_proc pid (\<lambda>p. p\<lparr>p_is_blocked := False, p_is_dead := True\<rparr>) st"
  have "kst_ok_but {pid} s1" unfolding s1_def
    using ok_upd_any [OF ok_mono [OF assms(1,2)] assms(3)] by simp
  then have "kst_ok_but {pid} (wake_waiter pid (reparent_children (of_nat pid) s1))" by (intro ok_wake ok_reparent)
  from ok_upd_slot [OF this assms(3), of "\<lambda>p. p\<lparr>p_fds := None, p_pwd := None, p_used := False\<rparr>"]
  show ?thesis by (simp add: endproc_shared_def Let_def kst_ok_def s1_def proc_ok_def)
qed

section \<open>Every call keeps the table well-formed\<close>

lemma ok_try:
  assumes "kst_ok st" and "try_proc now st pid = Some st'"
  shows "kst_ok st'"
  using assms by (auto simp: try_proc_def Let_def kst_ok_def same_life_def intro!: ok_upd_same split: if_splits)

lemma ok_nextproc:
  assumes "kst_ok st" and "nextproc now st = Some (r, st')"
  shows "kst_ok st' \<and> r < 255"
proof -
  let ?l = "map (\<lambda>k. (unat (current_pid st) + k) mod 255) [1..<256]"
  have n: "nextproc now st = Some (case find (runnable now st) ?l of
      Some i \<Rightarrow> (int i, the (try_proc now st i)) | None \<Rightarrow> (- ENOPROC, st))"
    using nextproc_find assms(1) by (simp add: kst_ok_def kst_ok_but_def)
  show ?thesis
  proof (cases "find (runnable now st) ?l")
    case None
    then show ?thesis using n assms by simp
  next
    case (Some i)
    then have "i < 255" "runnable now st i" by (auto simp: find_Some_iff)
    then obtain s where "try_proc now st i = Some s" by (auto simp: runnable_def)
    then show ?thesis using n Some \<open>i < 255\<close> assms ok_try by auto
  qed
qed

lemma ok_pick:
  assumes "pick_proc clock i st = Some (tgt, st')" and "kst_ok st"
  shows "kst_ok st' \<and> tgt < 255"
proof -
  have "kst_ok st \<longrightarrow> kst_ok (snd (tgt, st')) \<and> fst (tgt, st') < 255"
  proof (rule pick_proc.raw_induct [OF _ assms(1), where P = "\<lambda>clock i st r. kst_ok st \<longrightarrow> kst_ok (snd r) \<and> fst r < 255"])
    fix pick clock i st res
    assume IH: "\<And>clock i st r. pick clock i st = Some r \<Longrightarrow> kst_ok st \<longrightarrow> kst_ok (snd r) \<and> fst r < 255"
      and "do { (r, st') \<leftarrow> nextproc (clock i) st; if r < 0 then pick clock (Suc i) st' else Some (nat r, st') } = Some res"
    then obtain r s where np: "nextproc (clock i) st = Some (r, s)"
      and rest: "(if r < 0 then pick clock (Suc i) s else Some (nat r, s)) = Some res"
      by (auto split: Option.bind_splits)
    show "kst_ok st \<longrightarrow> kst_ok (snd res) \<and> fst res < 255"
    proof
      assume "kst_ok st"
      then have s: "kst_ok s" "r < 255" using ok_nextproc [OF _ np] by blast+
      show "kst_ok (snd res) \<and> fst res < 255"
        using rest s IH [of clock "Suc i" s res] by (auto split: if_splits)
    qed
  qed
  then show ?thesis using assms(2) by simp
qed

lemma ok_ctx: "kst_ok_but X st \<Longrightarrow> kst_ok_but X (upd_cur (\<lambda>p. ctx2proc p c) st)"
  by (rule ok_upd_cur_same) (simp_all add: same_life_def ctx2proc_def)

lemma ok_switch:
  assumes "kst_ok st" and "scheduler_switch clock ctx st = Some (out, st')"
  shows "kst_ok st'"
proof -
  obtain tgt s where p: "pick_proc clock 0 (st\<lparr>preempt_pending := False\<rparr>) = Some (tgt, s)"
    using assms(2) by (auto simp: scheduler_switch_def split: Option.bind_splits)
  have s: "kst_ok s" "tgt < 255" using ok_pick [OF p] assms(1) by (simp_all add: kst_ok_def)
  have t: "unat (of_nat tgt :: u8) < 255" using s(2) by (simp add: unat_of_nat)
  let ?same = "tgt = unat (current_pid s) \<and> \<not> p_is_dead (cur s)"
  let ?s1 = "upd_cur (\<lambda>p. ctx2proc p ctx) (if ?same then s\<lparr>scheduler_execve := False\<rparr> else s)"
  have "kst_ok_but {} ?s1" using s(1) by (intro ok_ctx) (simp add: kst_ok_def)
  then have "kst_ok (?s1\<lparr>current_pid := of_nat tgt, smp_info := map_option (set_bsp (bsp_apicid ?s1) (of_nat tgt)) (smp_info ?s1)\<rparr>)"
    using ok_current [OF _ t] by (simp add: kst_ok_def)
  then show ?thesis using assms(2) p s(1) by (auto simp: scheduler_switch_def Let_def split: if_splits)
qed

lemma ok_switch_fb:
  assumes "kst_ok_but X st" and "switch_fb fbctx fb st = Some (r, st')"
  shows "kst_ok_but X st'"
proof -
  have "kst_ok_but X (upd_cur (\<lambda>p. p\<lparr>p_currfb := fb\<rparr>) st)"
    using assms(1) by (rule ok_upd_cur_same) (simp add: same_life_def)
  then show ?thesis using assms by (auto simp: switch_fb_def split: Option.bind_splits sum.splits if_splits)
qed

lemma ok_copy_fds:
  assumes "kst_ok_but X st" and "copy_fds fdsz ok dst src st = Some (r, st')"
  shows "kst_ok_but X st'"
proof -
  have "kst_ok_but X (upd_proc dst (\<lambda>p. p\<lparr>p_nfds := n, p_fds := t\<rparr>) st)" for n t
    using assms(1) by (rule ok_upd_same) (simp add: same_life_def)
  then show ?thesis using assms by (auto simp: copy_fds_def split: option.splits if_splits)
qed

lemma ok_inherit:
  assumes "kst_ok_but X st" and "inherit fdsz fbctx tfb al pid ppid st = Some (r, st')"
  shows "kst_ok_but X st'"
proof (cases "pid = 0")
  case True
  show ?thesis
  proof (cases "al 0")
    case False
    then show ?thesis using assms True by (simp add: inherit_def)
  next
    case al: True
    obtain r1 s1 where s1: "switch_fb fbctx 3 st = Some (r1, s1)"
      using assms(2) True al by (auto simp: inherit_def split: Option.bind_splits)
    let ?s2 = "upd_proc pid (\<lambda>p. p\<lparr>p_fds := Some (map Some (init_fds tfb)), p_nfds := 4, p_currfb := 3\<rparr>) s1"
    have "kst_ok_but X ?s2" using ok_switch_fb [OF assms(1) s1] by (rule ok_upd_same) (simp add: same_life_def)
    then have "kst_ok_but X (upd_proc pid (\<lambda>p. p\<lparr>p_pwd := w\<rparr>) ?s2)" for w by (rule ok_upd_same) (simp add: same_life_def)
    then show ?thesis using assms(2) True al s1 by (auto simp: inherit_def Let_def split: if_splits)
  qed
next
  case False
  obtain r1 s1 where s1: "copy_fds fdsz (al 0) pid ppid st = Some (r1, s1)"
    using assms(2) False by (auto simp: inherit_def split: Option.bind_splits)
  let ?s2 = "upd_proc pid (\<lambda>p. p\<lparr>p_currfb := get_currfb s1, p_ppid := of_nat ppid\<rparr>) s1"
  have "kst_ok_but X ?s2" using ok_copy_fds [OF assms(1) s1] by (rule ok_upd_same) (simp add: same_life_def)
  then have "kst_ok_but X (upd_proc pid (\<lambda>p. p\<lparr>p_pwd := w\<rparr>) ?s2)" for w by (rule ok_upd_same) (simp add: same_life_def)
  then show ?thesis using assms(2) False s1 by (auto simp: inherit_def Let_def split: if_splits Option.bind_splits)
qed

lemma ok_set_ids: "kst_ok_but X st \<Longrightarrow> kst_ok_but X (set_ids pid ppid st)"
  by (auto simp: set_ids_def Let_def same_life_def intro!: ok_upd_same)

lemma proc_set_ids: "length (proctbl st) = 255 \<Longrightarrow> pid < 255 \<Longrightarrow>
    p_pid (proc (set_ids pid ppid st) pid) = p_pid (proc st pid) \<and> p_is_dead (proc (set_ids pid ppid st) pid) = p_is_dead (proc st pid)"
  by (simp add: set_ids_def Let_def proc_upd)

lemma ok_new_process:
  assumes "kst_ok st" and "new_process fdsz fbctx tfb al res stt ppid st = Some (r, st')"
  shows "kst_ok st'"
proof (cases "find (\<lambda>i. \<not> p_used (proc st i)) [0..<255]")
  case None
  then show ?thesis using assms by (simp add: new_process_def)
next
  case (Some pid)
  then have pid: "pid < 255" by (auto simp: find_Some_iff)
  show ?thesis
  proof (cases "lr_status res < 0 \<or> fst stt < 0")
    case True
    then show ?thesis using assms Some by (auto simp: new_process_def split: if_splits)
  next
    case False
    obtain r1 s1 where s1: "inherit fdsz fbctx tfb al pid (unat ppid) st = Some (r1, s1)"
      using assms(2) Some False by (auto simp: new_process_def split: Option.bind_splits)
    have o1: "kst_ok_but {} s1" using ok_inherit [OF _ s1] assms(1) by (simp add: kst_ok_def)
    show ?thesis
    proof (cases "r1 < 0")
      case True
      then show ?thesis using assms(2) Some False s1 o1 by (simp add: new_process_def kst_ok_def)
    next
      case ok: False
      let ?s2 = "upd_proc pid (\<lambda>p. (run_fresh res (snd stt) p)\<lparr>p_pid := of_nat pid, p_ppid := ppid\<rparr>) s1"
      let ?s3 = "set_ids pid (unat ppid) ?s2"
      let ?s4 = "upd_proc pid (\<lambda>p. p\<lparr>p_used := True\<rparr>) ?s3"
      have l: "length (proctbl s1) = 255" using o1 by (simp add: kst_ok_but_def)
      have p2: "p_pid (proc ?s2 pid) = of_nat pid" "\<not> p_is_dead (proc ?s2 pid)"
        using l pid by (simp_all add: proc_upd run_fresh_def)
      have "kst_ok_but {} ?s2" by (rule ok_upd_slot' [OF o1 pid]) (simp add: proc_ok_def run_fresh_def)
      then have o3: "kst_ok_but {} ?s3" by (rule ok_set_ids)
      have "kst_ok_but {} ?s4"
        by (rule ok_upd_slot' [OF o3 pid]) (use p2 proc_set_ids [of ?s2 pid] l pid in \<open>simp add: proc_ok_def\<close>)
      then show ?thesis using assms(2) Some False s1 ok by (auto simp: new_process_def Let_def kst_ok_def)
    qed
  qed
qed

lemma ok_kexecve:
  assumes "kst_ok st" and "cpid < 255"
  shows "kst_ok (snd (kexecve res stt cpid st))"
proof -
  have "kst_ok_but {} (upd_proc cpid (run_fresh res (snd stt)) st)"
    using assms by (intro ok_upd_slot') (auto simp: kst_ok_def kst_ok_but_def proc_ok_def run_fresh_def)
  then show ?thesis using assms(1) by (simp add: kexecve_def Let_def kst_ok_def)
qed

lemma ok_newproc:
  assumes "kst_ok st" and "sys_newproc load fdsz fbctx tfb ok al path argv envp st = Some (r, st')"
  shows "kst_ok st'"
  using assms ok_new_process [OF assms(1)]
  by (fastforce simp: sys_newproc_def split: option.splits Option.bind_splits sum.splits prod.splits)

lemma ok_execve:
  assumes "kst_ok st" and "sys_execve load clock ok path argv envp st = Some (r, st')"
  shows "kst_ok st'"
proof (cases "path = None \<or> argv = None \<or> envp = None")
  case True
  then show ?thesis using assms by (auto simp: sys_execve_def split: option.splits)
next
  case False
  then obtain pt av ev where s: "path = Some pt" "argv = Some av" "envp = Some ev" by auto
  then obtain c where c: "copy_newprocargs ok pt av ev = Some c"
    using assms(2) by (auto simp: sys_execve_def split: Option.bind_splits)
  show ?thesis
  proof (cases c)
    case (Inl e)
    then show ?thesis using assms s c by (simp add: sys_execve_def)
  next
    case (Inr a)
    obtain res stt where ld: "load (snd (np_path a)) (map snd (np_argv a)) (map snd (np_envp a)) = (res, stt)" by (rule prod.exhaust)
    obtain ret s1 where k: "kexecve res stt (unat (current_pid st)) st = (ret, s1)" by force
    have o1: "kst_ok s1" using ok_kexecve [of st "unat (current_pid st)" res stt] assms(1) k by (simp add: kst_ok_def kst_ok_but_def)
    then have o2: "kst_ok (s1\<lparr>scheduler_execve := True\<rparr>)" by (simp add: kst_ok_def)
    show ?thesis
    proof (cases "ret < 0")
      case True
      then show ?thesis using assms(2) s c Inr ld k o1 by (simp add: sys_execve_def)
    next
      case False
      then obtain out where "scheduler_switch clock (proc2ctx (cur s1)) (s1\<lparr>scheduler_execve := True\<rparr>) = Some (out, st')"
        using assms(2) s c Inr ld k by (auto simp: sys_execve_def split: Option.bind_splits)
      then show ?thesis using ok_switch [OF o2] by blast
    qed
  qed
qed

lemma ok_kill: "kst_ok st \<Longrightarrow> kst_ok (snd (sys_kill pid st))"
  using ok_endproc [of "{}" st "nat pid"] by (auto simp: sys_kill_def kst_ok_def)

lemma ok_exit:
  assumes "kst_ok st" and "sys_exit clock a0 st = Some (out, st')"
  shows "kst_ok st'"
proof -
  let ?c = "unat (current_pid st)"
  have c: "?c < 255" using assms(1) by (simp add: kst_ok_def kst_ok_but_def)
  have "kst_ok_but {?c} (upd_cur (\<lambda>p. p\<lparr>p_code := ucast a0, p_is_dead := True\<rparr>) st)"
    using ok_upd_any [of "{}" st ?c] assms(1) c by (simp add: upd_cur_def kst_ok_def)
  from ok_endproc [OF this _ c] show ?thesis using assms(2) ok_switch by (simp add: sys_exit_def)
qed

lemma ok_wait:
  assumes "kst_ok st" and "sys_wait pid code st = Some (r, st')"
  shows "kst_ok st'"
proof -
  have o: "kst_ok_but {} st" using assms(1) by (simp add: kst_ok_def)
  have blk: "kst_ok_but {} (upd_cur (\<lambda>p. p\<lparr>p_wait_pid := w, p_is_blocked := True, p_codeptr := code\<rparr>) st)" for w
    using o by (rule ok_upd_cur_same) (simp add: same_life_def)
  have fr: "kst_ok_but {} (upd_proc i (\<lambda>p. p\<lparr>p_used := False\<rparr>) st)" if "i < 255" for i
    using o that by (rule ok_upd_slot') (simp add: proc_ok_def)
  show ?thesis using assms(2) blk fr o
    by (auto simp: sys_wait_def Let_def user_store_def kst_ok_def find_Some_iff split: if_splits option.splits)
qed

lemma ok_sleep: "kst_ok st \<Longrightarrow> kst_ok (snd (sys_sleep now a0 st))"
  by (auto simp: sys_sleep_def kst_ok_def same_life_def intro!: ok_upd_cur_same)

lemma ok_ids: "kst_ok st \<Longrightarrow> kst_ok (id_step st c)"
  by (cases c) (auto simp: sys_setuid_def sys_setgid_def sys_seteuid_def sys_setegid_def Let_def kst_ok_def same_life_def
      intro!: ok_upd_cur_same)

section \<open>Reachable states\<close>

text \<open>The steps of the process table: the process calls and the switches of the scheduler, in any
  order.  The boot state has no processes.\<close>

inductive proc_step :: "kst \<Rightarrow> kst \<Rightarrow> bool" where
  create: "new_process fdsz fbctx tfb al res stt ppid st = Some (r, st') \<Longrightarrow> proc_step st st'"
| newproc: "sys_newproc load fdsz fbctx tfb ok al path argv envp st = Some (r, st') \<Longrightarrow> proc_step st st'"
| execve: "sys_execve load clock ok path argv envp st = Some (e, st') \<Longrightarrow> proc_step st st'"
| kill: "sys_kill pid st = (r, st') \<Longrightarrow> proc_step st st'"
| exit: "sys_exit clock a0 st = Some (out, st') \<Longrightarrow> proc_step st st'"
| wait: "sys_wait pid code st = Some (r, st') \<Longrightarrow> proc_step st st'"
| sleep: "sys_sleep now a0 st = (r, st') \<Longrightarrow> proc_step st st'"
| ids: "proc_step st (id_step st c)"
| preempt: "scheduler_switch clock ctx st = Some (out, st') \<Longrightarrow> proc_step st st'"

definition boot_kst :: "(u64 \<times> u8) list option \<Rightarrow> u64 \<Rightarrow> vmm_regs \<Rightarrow> kst" where
  "boot_kst smp bsp v = \<lparr>proctbl = replicate 255 zero_proc, current_pid = 0, preempt_pending = False,
     scheduler_execve = False, smp_info = smp, bsp_apicid = bsp, umem = (\<lambda>_ _. None), vmr = v\<rparr>"

inductive proc_reach :: "kst \<Rightarrow> bool" where
  boot: "proc_reach (boot_kst smp bsp v)"
| step: "proc_reach st \<Longrightarrow> proc_step st st' \<Longrightarrow> proc_reach st'"

lemma proc_step_ok:
  assumes "proc_step st st'" and "kst_ok st"
  shows "kst_ok st'"
  using assms(1)
proof cases
  case create
  then show ?thesis by (rule ok_new_process [OF assms(2)])
next
  case newproc
  then show ?thesis by (rule ok_newproc [OF assms(2)])
next
  case execve
  then show ?thesis by (rule ok_execve [OF assms(2)])
next
  case (kill pid r)
  then show ?thesis using ok_kill [OF assms(2), of pid] by simp
next
  case exit
  then show ?thesis by (rule ok_exit [OF assms(2)])
next
  case wait
  then show ?thesis by (rule ok_wait [OF assms(2)])
next
  case (sleep now a0 r)
  then show ?thesis using ok_sleep [OF assms(2), of now a0] by simp
next
  case (ids c)
  then show ?thesis using ok_ids [OF assms(2)] by simp
next
  case preempt
  then show ?thesis by (rule ok_switch [OF assms(2)])
qed

lemma proc_reach_ok: "proc_reach st \<Longrightarrow> kst_ok st"
proof (induction rule: proc_reach.induct)
  case (boot smp bsp v)
  show ?case by (simp add: boot_kst_def kst_ok_def kst_ok_but_def proc_def zero_proc_def proc_ok_def)
next
  case (step st st')
  then show ?case using proc_step_ok by blast
qed

text \<open>
  C15. Every reachable process table is well-formed: it has 255 slots, the current process is one
  of them, a used slot carries its own number, and no dead process keeps a slot.
\<close>

theorem proc_table_wf:
  assumes "proc_reach st" and "i < 255"
  shows "length (proctbl st) = 255 \<and> unat (current_pid st) < 255
    \<and> (p_used (proc st i) \<longrightarrow> p_pid (proc st i) = of_nat i \<and> \<not> p_is_dead (proc st i))"
  using proc_reach_ok [OF assms(1)] assms(2) by (auto simp: kst_ok_def kst_ok_but_def proc_ok_def)

definition no_regs :: vmm_regs where
  "no_regs = \<lparr>vmmr_head = None, vmmr_nodes = [], vmm_umapr = []\<rparr>"

text \<open>Two processes made after boot.\<close>

definition demo_prog :: loadprog_res where
  "demo_prog = \<lparr>lr_status = 0, lr_pgtbl = 0x5000, lr_entry = 0x400000, lr_rsp = 0x7000, lr_load_high = 0x500000\<rparr>"

definition demo_create :: "kst \<Rightarrow> (int \<times> kst) option" where
  "demo_create st = new_process 64 False 0 (\<lambda>_. True) demo_prog (0, 0) 0 st"

lemma demo_first: "\<exists>st. demo_create (boot_kst None 0 no_regs) = Some (0, st) \<and> length (proctbl st) = 255 \<and> current_pid st = 0
    \<and> p_fds (proc st 0) \<noteq> None \<and> p_nfds (proc st 0) = 4 \<and> p_pwd (proc st 0) = Some [47] \<and> p_used (proc st 0)
    \<and> \<not> p_used (proc st 1) \<and> length (the (p_fds (proc st 0))) = 4"
proof -
  let ?b = "boot_kst None 0 no_regs"
  have p: "proc ?b i = zero_proc" if "i < 255" for i using that by (simp add: boot_kst_def proc_def)
  have f: "find (\<lambda>i. \<not> p_used (proc ?b i)) [0..<255] = Some 0"
    by (simp add: find_upt_iff p zero_proc_def)
  have c: "current_pid ?b = 0" "length (proctbl ?b) = 255" by (simp_all add: boot_kst_def)
  have s: "switch_fb False 3 ?b = Some (- EBADF, ?b)"
    by (simp add: switch_fb_def cur_def c p getfd_def zero_proc_def)
  show ?thesis
    by (simp add: demo_create_def new_process_def f demo_prog_def inherit_def s Let_def set_ids_def proc_upd c proc_other
        run_fresh_def init_fds_def p zero_proc_def)
qed

lemma demo_second:
  assumes "length (proctbl st) = 255" and "current_pid st = 0" and "p_fds (proc st 0) = Some t" and "p_nfds (proc st 0) = 4" and "length t = 4"
    and "p_pwd (proc st 0) = Some w" and "p_used (proc st 0)" and "\<not> p_used (proc st 1)"
  shows "\<exists>st'. demo_create st = Some (1, st') \<and> length (proctbl st') = 255 \<and> current_pid st' = 0 \<and> p_used (proc st' 1) \<and> \<not> p_is_dead (proc st' 1)"
proof -
  have f: "find (\<lambda>i. \<not> p_used (proc st i)) [0..<255] = Some 1"
    using assms(7,8) by (simp add: find_upt_iff less_Suc_eq)
  show ?thesis using assms
    by (simp add: demo_create_def new_process_def f demo_prog_def inherit_def copy_fds_def Let_def set_ids_def proc_upd proc_other
        run_fresh_def get_currfb_def)
qed

text \<open>The state after two creations.\<close>

definition demo_two :: kst where
  "demo_two = snd (the (demo_create (snd (the (demo_create (boot_kst None 0 no_regs))))))"

lemma demo_two_facts: "proc_reach demo_two" "current_pid demo_two = 0" "p_used (proc demo_two 1)" "\<not> p_is_dead (proc demo_two 1)"
proof -
  obtain s1 where s1: "demo_create (boot_kst None 0 no_regs) = Some (0, s1)" "length (proctbl s1) = 255" "current_pid s1 = 0"
    "p_fds (proc s1 0) \<noteq> None" "p_nfds (proc s1 0) = 4" "p_pwd (proc s1 0) = Some [47]" "p_used (proc s1 0)" "\<not> p_used (proc s1 1)"
    "length (the (p_fds (proc s1 0))) = 4" using demo_first by blast
  obtain t where t: "p_fds (proc s1 0) = Some t" using s1(4) by blast
  obtain s2 where s2: "demo_create s1 = Some (1, s2)" "current_pid s2 = 0" "p_used (proc s2 1)" "\<not> p_is_dead (proc s2 1)"
    using demo_second [OF s1(2,3) t s1(5) _ s1(6-8)] s1(9) t by auto
  have e: "demo_two = s2" using s1(1) s2(1) by (simp add: demo_two_def)
  have "proc_reach s1" using proc_step.create [OF s1(1) [unfolded demo_create_def]] by (rule proc_reach.step [OF proc_reach.boot])
  then have "proc_reach s2" using proc_step.create [OF s2(1) [unfolded demo_create_def]] by (rule proc_reach.step)
  then show "proc_reach demo_two" "current_pid demo_two = 0" "p_used (proc demo_two 1)" "\<not> p_is_dead (proc demo_two 1)"
    using e s2 by simp_all
qed

theorem proc_table_wf_witness: "p_used (proc demo_two 1) \<and> p_pid (proc demo_two 1) = 1"
  using proc_table_wf [OF demo_two_facts(1), of 1] demo_two_facts(3) by simp

text \<open>
  C32. In no reachable state does a wait for a given process collect an exit code: the call
  blocks the caller or fails with \<^verbatim>\<open>-ENOPROC\<close>.  The branch for a dead process that still has its
  slot is never taken.
\<close>

theorem wait_never_collects:
  assumes "proc_reach st" and "0 \<le> pid" and "sys_wait pid code st = Some (r, st')"
  shows "r = - ENOPROC \<and> st' = st \<or> r = pid \<and> p_is_blocked (cur st')"
proof -
  have ok: "kst_ok st" using assms(1) by (rule proc_reach_ok)
  have c: "unat (current_pid st) < length (proctbl st)" using ok by (simp add: kst_ok_def kst_ok_but_def)
  have cu: "cur (x\<lparr>preempt_pending := b\<rparr>) = cur x" "cur (x\<lparr>umem := u\<rparr>) = cur x" for x b u
    by (simp_all add: cur_def proc_other)
  have d: "pid < 255 \<Longrightarrow> p_used (proc st (nat pid)) \<Longrightarrow> \<not> p_is_dead (proc st (nat pid))"
    using ok assms(2) by (auto simp: kst_ok_def kst_ok_but_def proc_ok_def)
  show ?thesis using assms(2,3) d
    by (auto simp: sys_wait_def Let_def user_store_def cu cur_upd [OF c] split: if_splits)
qed

theorem wait_never_collects_witness:
  "\<exists>st'. sys_wait 1 0 demo_two = Some (1, st') \<and> p_is_blocked (cur st')"
proof -
  obtain st' where w: "sys_wait 1 0 demo_two = Some (1, st')"
    using demo_two_facts(2-4) by (simp add: sys_wait_def)
  from wait_never_collects [OF demo_two_facts(1) _ w] show ?thesis using w by auto
qed

end
