(* ===== verification/Console.thy ===== *)
theory Console
  imports Kqueue Cstring "HOL-Library.Monad_Syntax"
begin

text \<open>
  The console: the terminal (\<^verbatim>\<open>drivers/display/term.c\<close>), the keyboard
  (\<^verbatim>\<open>drivers/hid/generichid/kbd.c\<close> and the scan codes of \<^verbatim>\<open>drivers/hid/ps2/kbd.c\<close>), the mouse
  (\<^verbatim>\<open>drivers/hid/generichid/mouse.c\<close> and the packets of \<^verbatim>\<open>drivers/hid/ps2/mouse.c\<close>), and the
  functions behind the standard input and output of a process
  (\<^verbatim>\<open>scheduler/new_process.c\<close>).

  The screen contents are kept by a library outside the sources, \<^verbatim>\<open>flanterm\<close>.  The state of the
  terminal is the list of calls made to it, with the copy of the frame buffer to the screen
  (\<^verbatim>\<open>flush_scr\<close>) as one of them; what the library answers is a function of that list, an argument
  \<open>flanterm\<close> of the definitions.  A call with the context NULL is undefined.

  Waiting for a key polls the device or is interrupted by it; what happens in the \<open>n\<close>-th round
  is an argument, and a wait that never ends has the value \<^term>\<open>None\<close>.  Port accesses and
  interrupt acknowledgement are hardware: the scan code, the status and the data byte are
  arguments of the handlers.
\<close>

section \<open>Terminal\<close>

datatype ftcall = FtWrite "u8 list" | FtFlush | FlushScr | FtBottom | FtUp u64 | FtDown u64 | FtClear
  | FtFg u64 bool | FtBg u64 bool | FtResetFg | FtResetBg | FtSetCursor u64 u64

record flanterm =
  ft_offset :: "ftcall list \<Rightarrow> u64"
  ft_cursor :: "ftcall list \<Rightarrow> u64 \<times> u64"
  ft_dims :: "ftcall list \<Rightarrow> u64 \<times> u64"

record terminal =
  tm_ctx :: bool
  tm_flush :: u32
  tm_calls :: "ftcall list"

definition ft_do :: "ftcall list \<Rightarrow> terminal \<Rightarrow> terminal" where
  "ft_do cs tm = tm\<lparr>tm_calls := tm_calls tm @ cs\<rparr>"

definition term_flushscr :: "terminal \<Rightarrow> terminal" where
  "term_flushscr tm = ft_do [FtFlush, FlushScr] tm"

definition auto_flush :: "terminal \<Rightarrow> terminal" where
  "auto_flush tm = (if tm_flush tm \<noteq> 0 then term_flushscr tm else tm)"

text \<open>Back to the live output when the view is scrolled.\<close>

definition snap_back :: "flanterm \<Rightarrow> terminal \<Rightarrow> terminal" where
  "snap_back ft tm = (if ft_offset ft (tm_calls tm) > 0 then ft_do [FtBottom] tm else tm)"

definition term_putchar :: "flanterm \<Rightarrow> u8 \<Rightarrow> terminal \<Rightarrow> terminal option" where
  "term_putchar ft c tm =
     (if \<not> tm_ctx tm then None
      else let tm = snap_back ft tm in
        if c = 10 then Some (auto_flush (ft_do [FtWrite [13, 10]] tm))
        else Some (auto_flush (ft_do [FtWrite [c]] tm)))"

text \<open>The loop of \<^verbatim>\<open>term_write\<close>: \<open>k\<close> rounds are left.\<close>

fun twrite_loop :: "u8 list \<Rightarrow> nat \<Rightarrow> nat \<Rightarrow> nat \<Rightarrow> terminal \<Rightarrow> terminal" where
  "twrite_loop buf 0 i start tm = tm"
| "twrite_loop buf (Suc k) i start tm =
     (if i = length buf \<or> buf ! i = 10 then
        let tm = (if i > start then ft_do [FtWrite (take (i - start) (drop start buf))] tm else tm);
            tm = (if i < length buf then ft_do [FtWrite [13, 10]] tm else tm)
        in twrite_loop buf k (Suc i) (Suc i) tm
      else twrite_loop buf k (Suc i) start tm)"

definition term_write :: "flanterm \<Rightarrow> u8 list option \<Rightarrow> terminal \<Rightarrow> terminal" where
  "term_write ft buf tm = (case buf of None \<Rightarrow> tm
     | Some buf \<Rightarrow>
         if \<not> tm_ctx tm \<or> buf = [] then tm
         else auto_flush (twrite_loop buf (length buf + 1) 0 0 (snap_back ft tm)))"

text \<open>Colours above \<^verbatim>\<open>TERM_GREY\<close> (7) are bright.\<close>

definition split_color :: "u64 \<Rightarrow> u64 \<times> bool" where
  "split_color clr = (if clr > 7 then (clr - 7, True) else (clr, False))"

definition term_setfgcolor :: "u64 \<Rightarrow> terminal \<Rightarrow> terminal option" where
  "term_setfgcolor clr tm = (if \<not> tm_ctx tm then None
     else let (c, bright) = split_color clr in Some (ft_do [FtFg c bright] tm))"

definition term_setbgcolor :: "u64 \<Rightarrow> terminal \<Rightarrow> terminal option" where
  "term_setbgcolor clr tm = (if \<not> tm_ctx tm then None
     else let (c, bright) = split_color clr in Some (ft_do [FtBg c bright] tm))"

definition term_rstfgcolor :: "terminal \<Rightarrow> terminal option" where
  "term_rstfgcolor tm = (if \<not> tm_ctx tm then None else Some (ft_do [FtResetFg] tm))"

definition term_rstbgcolor :: "terminal \<Rightarrow> terminal option" where
  "term_rstbgcolor tm = (if \<not> tm_ctx tm then None else Some (ft_do [FtResetBg] tm))"

definition term_clear :: "terminal \<Rightarrow> terminal option" where
  "term_clear tm = (if \<not> tm_ctx tm then None else Some (auto_flush (ft_do [FtClear] tm)))"

definition term_flush :: "terminal \<Rightarrow> terminal option" where
  "term_flush tm = (if \<not> tm_ctx tm then None else Some (term_flushscr tm))"

definition term_get_size :: "flanterm \<Rightarrow> terminal \<Rightarrow> (u64 \<times> u64) option" where
  "term_get_size ft tm = (if \<not> tm_ctx tm then None else Some (ft_dims ft (tm_calls tm)))"

definition term_get_pos :: "flanterm \<Rightarrow> terminal \<Rightarrow> (u64 \<times> u64) option" where
  "term_get_pos ft tm = (if \<not> tm_ctx tm then None else Some (ft_cursor ft (tm_calls tm)))"

abbreviation (input) TERMSET_ONLYY :: u32 where "TERMSET_ONLYY \<equiv> 0x0001"
abbreviation (input) TERMSET_ONLYX :: u32 where "TERMSET_ONLYX \<equiv> 0x0010"

definition term_set_pos :: "flanterm \<Rightarrow> u64 \<times> u64 \<Rightarrow> u32 \<Rightarrow> terminal \<Rightarrow> terminal option" where
  "term_set_pos ft pos flags tm =
     (if \<not> tm_ctx tm then None
      else if flags AND TERMSET_ONLYX \<noteq> 0 \<and> flags AND TERMSET_ONLYY \<noteq> 0 \<or> flags = 0
      then Some (ft_do [FtSetCursor (fst pos) (snd pos)] tm)
      else do {
        cpos \<leftarrow> term_get_pos ft tm;
        let tm = (if flags AND TERMSET_ONLYX \<noteq> 0 then ft_do [FtSetCursor (fst pos) (snd cpos)] tm else tm);
        Some (if flags AND TERMSET_ONLYY \<noteq> 0 then ft_do [FtSetCursor (fst cpos) (snd pos)] tm else tm) })"

definition term_scroll_up :: "u64 \<Rightarrow> terminal \<Rightarrow> terminal" where
  "term_scroll_up n tm = (if \<not> tm_ctx tm then tm else auto_flush (ft_do [FtUp n] tm))"

definition term_scroll_down :: "u64 \<Rightarrow> terminal \<Rightarrow> terminal" where
  "term_scroll_down n tm = (if \<not> tm_ctx tm then tm else auto_flush (ft_do [FtDown n] tm))"

definition term_scroll_bottom :: "terminal \<Rightarrow> terminal" where
  "term_scroll_bottom tm = (if \<not> tm_ctx tm then tm else auto_flush (ft_do [FtBottom] tm))"

definition term_get_scroll_offset :: "flanterm \<Rightarrow> terminal \<Rightarrow> u64" where
  "term_get_scroll_offset ft tm = (if \<not> tm_ctx tm then 0 else ft_offset ft (tm_calls tm))"

section \<open>Keyboard\<close>

record keyboard =
  kb_chq :: "kqueue option"
  kb_scq :: "kqueue option"
  kb_shift :: bool
  kb_type :: int
  kb_noecho :: u32
  kb_term :: terminal

text \<open>The outcome of the allocation of a queue: whether its structure was allocated, and its
  buffer.  The result of setting up the USB keyboard is \<open>usb\<close>.\<close>

definition init_kbd :: "bool \<times> u8 list option \<Rightarrow> bool \<times> u8 list option \<Rightarrow> int \<Rightarrow> int \<Rightarrow> keyboard \<Rightarrow> keyboard" where
  "init_kbd m1 m2 usb kbd_type k =
     (let k = k\<lparr>kb_type := kbd_type, kb_chq := kqueue_init 512 (fst m1) (snd m1)\<rparr> in
      if kb_chq k = None then k
      else let k = k\<lparr>kb_scq := kqueue_init 512 (fst m2) (snd m2)\<rparr> in
        if kb_scq k = None then k
        else if kbd_type = 3 \<or> kbd_type = 2 then k
        else if usb < 0 then k\<lparr>kb_type := 2\<rparr> else k)"

definition kbd_setshift :: "bool \<Rightarrow> keyboard \<Rightarrow> keyboard" where
  "kbd_setshift s k = k\<lparr>kb_shift := s\<rparr>"

definition enqueue_key :: "u8 \<Rightarrow> keyboard \<Rightarrow> keyboard" where
  "enqueue_key c k = k\<lparr>kb_chq := fst (kqueue_enqueue (kb_chq k) (Some [c]) 1)\<rparr>"

definition dequeue_key :: "keyboard \<Rightarrow> u8 \<times> keyboard" where
  "dequeue_key k = (case kqueue_dequeue (kb_chq k) (Some [0]) 1 of
     (q, d, n) \<Rightarrow> (if n = 0 then 0 else hd (the d), k\<lparr>kb_chq := q\<rparr>))"

definition enqueue_sc :: "u8 \<Rightarrow> keyboard \<Rightarrow> keyboard" where
  "enqueue_sc c k = k\<lparr>kb_scq := fst (kqueue_enqueue (kb_scq k) (Some [c]) 1)\<rparr>"

definition dequeue_sc :: "keyboard \<Rightarrow> u8 \<times> keyboard" where
  "dequeue_sc k = (case kqueue_dequeue (kb_scq k) (Some [0]) 1 of
     (q, d, n) \<Rightarrow> (if n = 0 then 0 else hd (the d), k\<lparr>kb_scq := q\<rparr>))"

definition kb_has_char :: "keyboard \<Rightarrow> bool" where "kb_has_char k \<longleftrightarrow> kqueue_queued (kb_chq k) > 0"
definition kb_has_sc :: "keyboard \<Rightarrow> bool" where "kb_has_sc k \<longleftrightarrow> kqueue_queued (kb_scq k) > 0"

definition noecho :: "u32 \<Rightarrow> keyboard \<Rightarrow> keyboard" where "noecho on k = k\<lparr>kb_noecho := on\<rparr>"

partial_function (option) wait_sc :: "(nat \<Rightarrow> keyboard \<Rightarrow> keyboard) \<Rightarrow> nat \<Rightarrow> keyboard \<Rightarrow> (nat \<times> keyboard) option" where
  "wait_sc poll n k = (if kb_has_sc k then Some (n, k) else wait_sc poll (Suc n) (poll n k))"

definition kbd_get_raw :: "(nat \<Rightarrow> keyboard \<Rightarrow> keyboard) \<Rightarrow> nat \<Rightarrow> keyboard \<Rightarrow> (u8 \<times> nat \<times> keyboard) option" where
  "kbd_get_raw poll n k = do {
     (n, k) \<leftarrow> wait_sc poll n k;
     let (sc, k) = dequeue_sc k;
     Some (sc, n, k) }"

text \<open>At most \<open>timeout\<close> rounds of a millisecond for the PS/2 keyboard; one poll for the others.\<close>

fun wait_sc_to :: "(nat \<Rightarrow> keyboard \<Rightarrow> keyboard) \<Rightarrow> nat \<Rightarrow> nat \<Rightarrow> keyboard \<Rightarrow> keyboard" where
  "wait_sc_to poll 0 n k = k"
| "wait_sc_to poll (Suc t) n k = (if kb_has_sc k then k else wait_sc_to poll t (Suc n) (poll n k))"

definition kbd_getrawto :: "(nat \<Rightarrow> keyboard \<Rightarrow> keyboard) \<Rightarrow> u64 \<Rightarrow> keyboard \<Rightarrow> u8 \<times> keyboard" where
  "kbd_getrawto poll timeout k =
     (let k = (if kb_type k = 1 \<or> kb_type k = 3 then poll 0 k else wait_sc_to poll (unat timeout) 0 k)
      in if \<not> kb_has_sc k then (0, k) else dequeue_sc k)"

partial_function (option) wait_char :: "(nat \<Rightarrow> keyboard \<Rightarrow> keyboard) \<Rightarrow> nat \<Rightarrow> keyboard \<Rightarrow> (nat \<times> keyboard) option" where
  "wait_char poll n k = (if kb_has_char k then Some (n, k) else wait_char poll (Suc n) (poll n k))"

definition getchar :: "flanterm \<Rightarrow> (nat \<Rightarrow> keyboard \<Rightarrow> keyboard) \<Rightarrow> nat \<Rightarrow> keyboard \<Rightarrow> (u8 \<times> nat \<times> keyboard) option" where
  "getchar ft poll n k = do {
     (n, k) \<leftarrow> wait_char poll n k;
     let (c, k) = dequeue_key k;
     k \<leftarrow> (if kb_noecho k = 0 then do { tm \<leftarrow> term_putchar ft c (kb_term k); Some (k\<lparr>kb_term := tm\<rparr>) }
           else Some k);
     Some (c, n, k) }"

fun getstr :: "flanterm \<Rightarrow> (nat \<Rightarrow> keyboard \<Rightarrow> keyboard) \<Rightarrow> nat \<Rightarrow> nat \<Rightarrow> keyboard \<Rightarrow> (u8 list \<times> nat \<times> keyboard) option" where
  "getstr ft poll 0 n k = Some ([], n, k)"
| "getstr ft poll (Suc m) n k = do {
     (c, n, k) \<leftarrow> getchar ft poll n k;
     if c = 10 then Some ([], n, k)
     else do { (cs, n, k) \<leftarrow> getstr ft poll m n k; Some (c # cs, n, k) } }"

subsection \<open>Scan codes\<close>

definition sc_map :: "u8 list" where
  "sc_map = [0, 0] @ lit ''1234567890-='' @ [8, 9] @ lit ''qwertyuiop[]'' @ [10, 0] @ lit ''asdfghjkl;''
     @ [39, 96, 0, 92] @ lit ''zxcvbnm,./'' @ [0] @ lit ''*'' @ [0] @ lit '' '' @ replicate 70 0"

definition sc_map_shift :: "u8 list" where
  "sc_map_shift = [0, 0] @ lit ''!@#$%^&*()_+'' @ [0, 0] @ lit ''QWERTYUIOP{}'' @ [10, 0] @ lit ''ASDFGHJKL:''
     @ [34, 126, 0, 124] @ lit ''ZXCVBNM<>?'' @ [0] @ lit ''*'' @ [0] @ lit '' '' @ replicate 70 0"

text \<open>The handler of the keyboard interrupt; \<open>active\<close> is whether the text console is shown.\<close>

definition c_kbd_hdlr :: "bool \<Rightarrow> u8 \<Rightarrow> keyboard \<Rightarrow> keyboard" where
  "c_kbd_hdlr active sc k =
     (let k = enqueue_sc sc k in
      if sc AND 0x80 \<noteq> 0 then
        let released = sc AND 0x7F in
        if released = 0x2A \<or> released = 0x36 then kbd_setshift False k else k
      else if sc = 0x2A \<or> sc = 0x36 then kbd_setshift True k
      else if active \<and> sc = 0x49 then k\<lparr>kb_term := term_scroll_up 15 (kb_term k)\<rparr>
      else if active \<and> sc = 0x51 then k\<lparr>kb_term := term_scroll_down 15 (kb_term k)\<rparr>
      else if active \<and> kb_shift k \<and> sc = 0x48 then k\<lparr>kb_term := term_scroll_up 1 (kb_term k)\<rparr>
      else if active \<and> kb_shift k \<and> sc = 0x50 then k\<lparr>kb_term := term_scroll_down 1 (kb_term k)\<rparr>
      else if sc < 128 then
        let c = (if kb_shift k then sc_map_shift ! unat sc else sc_map ! unat sc) in
        if c \<noteq> 0 then enqueue_key c k else k
      else k)"

section \<open>Terminal control\<close>

text \<open>The result, the size for the caller's buffer, and the new state.\<close>

definition termctl :: "flanterm \<Rightarrow> u32 \<Rightarrow> u64 \<Rightarrow> keyboard \<Rightarrow> ((int \<times> (u64 \<times> u64) option) \<times> keyboard) option" where
  "termctl ft code arg0 k =
     (let upd = map_option (\<lambda>tm. ((0, None), k\<lparr>kb_term := tm\<rparr>)); tm = kb_term k in
      if code = 0 then upd (term_flush tm)
      else if code = 1 then upd (term_clear tm)
      else if code = 2 then if arg0 > 15 then Some ((- EINVAL, None), k) else upd (term_setfgcolor arg0 tm)
      else if code = 3 then upd (term_rstfgcolor tm)
      else if code = 4 then upd (Some (tm\<lparr>tm_flush := ucast arg0\<rparr>))
      else if code = 5 then Some ((sint (tm_flush tm), None), k)
      else if code = 6 then Some ((0, None), noecho (ucast arg0) k)
      else if code = 9 then upd (Some (term_scroll_up (if arg0 \<noteq> 0 then arg0 else 1) tm))
      else if code = 10 then upd (Some (term_scroll_down (if arg0 \<noteq> 0 then arg0 else 1) tm))
      else if code = 11 then
        if arg0 = 0 then Some ((- EINVAL, None), k)
        else do { d \<leftarrow> term_get_size ft tm; Some ((0, Some d), k) }
      else Some ((- EINVAL, None), k))"

section \<open>Standard input and output\<close>

text \<open>The read stops at the end of a line; the result counts the bytes before it.  The bytes
  stored in the buffer are the second result.\<close>

fun stdin_loop :: "flanterm \<Rightarrow> (nat \<Rightarrow> keyboard \<Rightarrow> keyboard) \<Rightarrow> nat \<Rightarrow> nat \<Rightarrow> nat \<Rightarrow> keyboard
    \<Rightarrow> ((nat \<times> u8 list) \<times> nat \<times> keyboard) option" where
  "stdin_loop ft poll 0 i n k = Some ((i, []), n, k)"
| "stdin_loop ft poll (Suc m) i n k = do {
     (c, n, k) \<leftarrow> getchar ft poll n k;
     if c = 10 then Some ((i, [c]), n, k)
     else do {
       ((r, cs), n, k) \<leftarrow> stdin_loop ft poll m (Suc i) n k;
       Some ((r, c # cs), n, k) } }"

definition stdin_read :: "flanterm \<Rightarrow> (nat \<Rightarrow> keyboard \<Rightarrow> keyboard) \<Rightarrow> nat \<Rightarrow> nat \<Rightarrow> keyboard
    \<Rightarrow> ((nat \<times> u8 list) \<times> nat \<times> keyboard) option" where
  "stdin_read ft poll sz n k = stdin_loop ft poll sz 0 n k"

definition stdout_write :: "flanterm \<Rightarrow> u8 list \<Rightarrow> keyboard \<Rightarrow> nat \<times> keyboard" where
  "stdout_write ft buf k = (length buf, k\<lparr>kb_term := term_write ft (Some buf) (kb_term k)\<rparr>)"

section \<open>Mouse\<close>

record mouse_info =
  mi_x :: u8
  mi_y :: u8
  mi_buttons :: u8
  mi_wheel :: u8

record mouse =
  ms_q :: "kqueue option"
  ms_type :: int
  ms_cycle :: u8
  ms_pkt :: "u8 \<times> u8 \<times> u8"
  ms_term :: terminal

definition mouse_bytes :: "mouse_info \<Rightarrow> u8 list" where
  "mouse_bytes i = [mi_x i, mi_y i, mi_buttons i, mi_wheel i]"

definition mouse_has_info :: "mouse \<Rightarrow> bool" where
  "mouse_has_info m \<longleftrightarrow> kqueue_queued (ms_q m) div 4 > 0"

definition enqueue_mouse :: "bool \<Rightarrow> mouse_info \<Rightarrow> mouse \<Rightarrow> mouse" where
  "enqueue_mouse active info m =
     (let w = sint (mi_wheel info);
          m = (if w \<noteq> 0 \<and> active
               then if w > 0 then m\<lparr>ms_term := term_scroll_up (of_int (w * 3)) (ms_term m)\<rparr>
                    else m\<lparr>ms_term := term_scroll_down (of_int (- w * 3)) (ms_term m)\<rparr>
               else m)
      in m\<lparr>ms_q := fst (kqueue_enqueue (ms_q m) (Some (mouse_bytes info)) 4)\<rparr>)"

definition dequeue_mouse :: "mouse \<Rightarrow> mouse_info \<times> mouse" where
  "dequeue_mouse m = (case kqueue_dequeue (ms_q m) (Some [0, 0, 0, 0]) 4 of
     (q, d, n) \<Rightarrow> (if n < 4 then \<lparr>mi_x = 0, mi_y = 0, mi_buttons = 0, mi_wheel = 0\<rparr>
       else \<lparr>mi_x = the d ! 0, mi_y = the d ! 1, mi_buttons = the d ! 2, mi_wheel = the d ! 3\<rparr>,
       m\<lparr>ms_q := q\<rparr>))"

partial_function (option) wait_mouse :: "(nat \<Rightarrow> mouse \<Rightarrow> mouse) \<Rightarrow> nat \<Rightarrow> mouse \<Rightarrow> mouse option" where
  "wait_mouse poll n m = (if mouse_has_info m then Some m else wait_mouse poll (Suc n) (poll n m))"

definition get_mouse_info :: "(nat \<Rightarrow> mouse \<Rightarrow> mouse) \<Rightarrow> mouse \<Rightarrow> ((int \<times> mouse_info option) \<times> mouse) option" where
  "get_mouse_info poll m =
     (if ms_type m = 0 then Some ((- EINVAL, None), m)
      else do {
        m \<leftarrow> wait_mouse poll 0 m;
        let (info, m) = dequeue_mouse m;
        Some ((0, Some info), m) })"

text \<open>\<open>ps2\<close> is whether there is a second PS/2 channel and a mouse behind it.\<close>

definition init_mouse :: "bool \<times> u8 list option \<Rightarrow> int \<Rightarrow> bool \<Rightarrow> int \<Rightarrow> mouse \<Rightarrow> int \<times> mouse" where
  "init_mouse mem usb ps2 type m =
     (let m = m\<lparr>ms_q := kqueue_init 1024 (fst mem) (snd mem)\<rparr> in
      if ms_q m = None then (- ENOMEM, m)
      else let m = m\<lparr>ms_type := type\<rparr> in
        if type = 3 then (0, m)
        else if type = 1 then if \<not> ps2 then (- ENOEXIST, m) else (0, m)
        else if usb < 0 then if \<not> ps2 then (- ENOEXIST, m) else (0, m\<lparr>ms_type := 1\<rparr>)
        else (0, m))"

text \<open>A movement of 9 bits: the sign extends the byte; half of it, rounded towards zero.\<close>

definition half_move :: "u8 \<Rightarrow> bool \<Rightarrow> u8" where
  "half_move b sign = (let v = (if sign then uint b - 256 else uint b)
     in of_int (if v < 0 then - ((- v) div 2) else v div 2))"

definition pkt_info :: "u8 \<times> u8 \<times> u8 \<Rightarrow> mouse_info" where
  "pkt_info p = (case p of (s, x, y) \<Rightarrow>
     \<lparr>mi_x = half_move x (bit s 4), mi_y = half_move y (bit s 5),
      mi_buttons = (if bit s 0 then 1 else 0) OR (if bit s 1 then 2 else 0) OR (if bit s 2 then 4 else 0),
      mi_wheel = 0\<rparr>)"

definition c_mouse_hdlr :: "bool \<Rightarrow> u8 \<Rightarrow> u8 \<Rightarrow> mouse \<Rightarrow> mouse" where
  "c_mouse_hdlr active stat data m =
     (if stat AND 0x01 \<noteq> 0 \<and> stat AND 0x20 \<noteq> 0 then
        case ms_pkt m of (p0, p1, p2) \<Rightarrow>
          if ms_cycle m = 0 then
            let m = m\<lparr>ms_pkt := (data, p1, p2)\<rparr> in
            if data AND 0x08 \<noteq> 0 then m\<lparr>ms_cycle := ms_cycle m + 1\<rparr> else m
          else if ms_cycle m = 1 then m\<lparr>ms_pkt := (p0, data, p2), ms_cycle := ms_cycle m + 1\<rparr>
          else if ms_cycle m = 2 then
            enqueue_mouse active (pkt_info (p0, p1, data)) (m\<lparr>ms_pkt := (p0, p1, data), ms_cycle := 0\<rparr>)
          else m
      else m)"

end
