(* ===== verification/Console_Proofs.thy ===== *)
theory Console_Proofs
  imports Console
begin

text \<open>
  Properties of the console: what the terminal is given by the two ways of writing to it, the
  way of a line from the scan codes of its keys to the program that reads it, and the
  packets of the mouse.
\<close>

section \<open>Output\<close>

text \<open>The bytes the terminal was given, and the translation of line ends.\<close>

fun ft_bytes :: "ftcall list \<Rightarrow> u8 list" where
  "ft_bytes [] = []"
| "ft_bytes (FtWrite xs # cs) = xs @ ft_bytes cs"
| "ft_bytes (c # cs) = ft_bytes cs"

definition written :: "terminal \<Rightarrow> u8 list" where
  "written tm = ft_bytes (tm_calls tm)"

definition crlf :: "u8 list \<Rightarrow> u8 list" where
  "crlf xs = concat (map (\<lambda>c. if c = 10 then [13, 10] else [c]) xs)"

lemma ft_bytes_append [simp]: "ft_bytes (xs @ ys) = ft_bytes xs @ ft_bytes ys"
  by (induction xs rule: ft_bytes.induct) auto

lemma written_do [simp]: "written (ft_do cs tm) = written tm @ ft_bytes cs" "tm_ctx (ft_do cs tm) = tm_ctx tm"
    "tm_flush (ft_do cs tm) = tm_flush tm"
  by (simp_all add: written_def ft_do_def)

lemma written_quiet [simp]:
  "written (auto_flush tm) = written tm" "written (snap_back ft tm) = written tm"
  "tm_ctx (auto_flush tm) = tm_ctx tm" "tm_ctx (snap_back ft tm) = tm_ctx tm"
  "written (term_scroll_up n tm) = written tm" "written (term_scroll_down n tm) = written tm"
  "tm_ctx (term_scroll_up n tm) = tm_ctx tm" "tm_ctx (term_scroll_down n tm) = tm_ctx tm"
  by (simp_all add: auto_flush_def snap_back_def term_flushscr_def term_scroll_up_def term_scroll_down_def)

lemma crlf_simps [simp]: "crlf [] = []" "crlf (c # cs) = (if c = 10 then [13, 10] else [c]) @ crlf cs"
    "crlf (xs @ ys) = crlf xs @ crlf ys"
  by (simp_all add: crlf_def)

lemma crlf_plain: "10 \<notin> set xs \<Longrightarrow> crlf xs = xs"
  by (induction xs) auto

lemma twrite_loop_written:
  assumes "k + i = Suc (length buf)" and "i \<le> length buf \<longrightarrow> start \<le> i \<and> 10 \<notin> set (take (i - start) (drop start buf))"
    and "i = Suc (length buf) \<longrightarrow> start = i"
  shows "written (twrite_loop buf k i start tm) = written tm @ crlf (drop start buf)"
  using assms
proof (induction k arbitrary: i start tm)
  case 0
  then show ?case by simp
next
  case (Suc k)
  then have i: "i \<le> length buf" "start \<le> i" "10 \<notin> set (take (i - start) (drop start buf))" by auto
  let ?seg = "take (i - start) (drop start buf)"
  have split: "drop start buf = ?seg @ drop i buf"
    using i(2) append_take_drop_id [of "i - start" "drop start buf"] by simp
  have seg: "(if start < i then ?seg else []) = ?seg" by simp
  show ?case
  proof (cases "i = length buf")
    case True
    then show ?thesis using Suc.IH [of "Suc i" "Suc i"] Suc.prems(1) split crlf_plain [OF i(3)] by simp
  next
    case False
    then have d: "drop i buf = buf ! i # drop (Suc i) buf" using i(1) by (simp add: Cons_nth_drop_Suc)
    show ?thesis
    proof (cases "buf ! i = 10")
      case True
      have "crlf (drop start buf) = ?seg @ [13, 10] @ crlf (drop (Suc i) buf)"
        using arg_cong [OF split, of crlf] d True crlf_plain [OF i(3)] by simp
      then show ?thesis using Suc.IH [of "Suc i" "Suc i"] Suc.prems(1) True False i(1) seg
        by (auto simp: Let_def split: if_splits)
    next
      case no: False
      have "take (Suc i - start) (drop start buf) = ?seg @ [buf ! i]"
        using i(1,2) False by (simp add: Suc_diff_le take_Suc_conv_app_nth)
      then show ?thesis using Suc.IH [of "Suc i" start] Suc.prems(1) no False i by simp
    qed
  qed
qed

lemma term_write_written: "tm_ctx tm \<Longrightarrow> written (term_write ft (Some buf) tm) = written tm @ crlf buf"
  using twrite_loop_written [of "length buf + 1" 0 buf 0 "snap_back ft tm"] by (simp add: term_write_def del: twrite_loop.simps)

fun put_all :: "flanterm \<Rightarrow> u8 list \<Rightarrow> terminal \<Rightarrow> terminal option" where
  "put_all ft [] tm = Some tm"
| "put_all ft (c # cs) tm = do { tm \<leftarrow> term_putchar ft c tm; put_all ft cs tm }"

lemma putchar_written:
  "tm_ctx tm \<Longrightarrow> \<exists>tm'. term_putchar ft c tm = Some tm' \<and> tm_ctx tm' \<and> written tm' = written tm @ crlf [c]"
  by (simp add: term_putchar_def Let_def)

lemma put_all_written:
  "tm_ctx tm \<Longrightarrow> \<exists>tm'. put_all ft cs tm = Some tm' \<and> tm_ctx tm' \<and> written tm' = written tm @ crlf cs"
proof (induction cs arbitrary: tm)
  case (Cons c cs)
  obtain t1 where t: "term_putchar ft c tm = Some t1" "tm_ctx t1" "written t1 = written tm @ crlf [c]"
    using putchar_written [OF Cons.prems] by blast
  then show ?case using Cons.IH [OF t(2)] by auto
qed simp

text \<open>
  Writing a buffer in one call (which sends whole lines) gives the terminal the same bytes as
  writing its characters one by one, with every newline sent as carriage return and newline.
\<close>

theorem term_write_putchars:
  assumes "tm_ctx tm"
  shows "\<exists>tm'. put_all ft buf tm = Some tm' \<and> written (term_write ft (Some buf) tm) = written tm'
    \<and> written tm' = written tm @ crlf buf"
  using put_all_written [OF assms, of ft buf] term_write_written [OF assms] by auto

definition demo_ft :: flanterm where
  "demo_ft = \<lparr>ft_offset = (\<lambda>cs. 0), ft_cursor = (\<lambda>cs. (0, 0)), ft_dims = (\<lambda>cs. (80, 25))\<rparr>"

definition demo_term :: terminal where
  "demo_term = \<lparr>tm_ctx = True, tm_flush = 1, tm_calls = []\<rparr>"

theorem term_write_putchars_witness:
  "written (term_write demo_ft (Some [97, 98, 10, 10, 99]) demo_term) = [97, 98, 13, 10, 13, 10, 99]
   \<and> (\<exists>tm'. put_all demo_ft [97, 98, 10, 10, 99] demo_term = Some tm' \<and> written tm' = [97, 98, 13, 10, 13, 10, 99])"
proof -
  have d: "tm_ctx demo_term" "written demo_term = []" by (simp_all add: demo_term_def written_def)
  show ?thesis using term_write_putchars [OF d(1), of demo_ft "[97, 98, 10, 10, 99]"] d(2) by auto
qed

text \<open>A bright colour is one less than its number among the eight: the first bright colour is
  sent as bright red, and the last is not among the colours of the library.\<close>

lemma split_color_bright: "split_color 8 = (1, True)" "split_color 15 = (8, True)"
  by (simp_all add: split_color_def)

section \<open>Keyboard input\<close>

text \<open>The characters that a sequence of scan codes stands for.\<close>

fun typed :: "bool \<Rightarrow> u8 list \<Rightarrow> u8 list" where
  "typed shift [] = []"
| "typed shift (sc # scs) =
     (if sc = 0x2A \<or> sc = 0x36 then typed True scs
      else if sc = 0xAA \<or> sc = 0xB6 then typed False scs
      else let c = (if sc < 128 then (if shift then sc_map_shift else sc_map) ! unat sc else 0)
           in (if c = 0 then [] else [c]) @ typed shift scs)"

text \<open>The characters waiting in the queue of the keyboard; the bytes that can still be taken before
  the 8-bit read index overflows.\<close>

definition kb_line :: "keyboard \<Rightarrow> u8 list \<Rightarrow> nat \<Rightarrow> bool" where
  "kb_line k cs n \<longleftrightarrow> (\<exists>q. kb_chq k = Some q \<and> kq_wf q \<and> kq_contents q = cs \<and> tail_fits q n
     \<and> unat (kq_sz q) \<ge> 256)"

lemma enqueue_key_line:
  assumes "kb_line k cs n" and "length cs < 256"
  shows "kb_line (enqueue_key c k) (cs @ [c]) n"
proof -
  obtain q where q: "kb_chq k = Some q" "kq_wf q" "kq_contents q = cs" "tail_fits q n" "unat (kq_sz q) \<ge> 256"
    using assms(1) by (auto simp: kb_line_def)
  have free: "min 1 (kq_free q) = 1" using assms(2) q(3,5) length_kq_contents [of q] by (simp add: kq_free_def)
  obtain q' where q': "kqueue_enqueue (Some q) (Some [c]) 1 = (Some q', 1)" "kq_wf q'" "kq_sz q' = kq_sz q"
    "kq_contents q' = cs @ [c]"
    using kqueue_enqueue_correct [OF q(2), of 1 "[c]"] free q(3) by auto
  have "kq_tail q' = kq_tail q" using q'(1) by (auto simp: kqueue_enqueue_def Let_def split: if_splits)
  then show ?thesis using q q' by (simp add: kb_line_def enqueue_key_def tail_fits_def)
qed

lemma dequeue_key_line:
  assumes "kb_line k (c # cs) (Suc n)"
  shows "\<exists>k'. dequeue_key k = (c, k') \<and> kb_line k' cs n \<and> kb_term k' = kb_term k \<and> kb_noecho k' = kb_noecho k"
proof -
  obtain q where q: "kb_chq k = Some q" "kq_wf q" "kq_contents q = c # cs" "tail_fits q (Suc n)" "unat (kq_sz q) \<ge> 256"
    using assms by (auto simp: kb_line_def)
  have "unat (kq_cnt q) = Suc (length cs)" using q(3) length_kq_contents [of q] by simp
  then have m: "min 1 (unat (kq_cnt q)) = 1" "0 < kq_cnt q" "1 \<le> kq_cnt q" by (simp_all add: word_less_nat_alt word_le_nat_alt)
  have t1: "tail_fits q 1" "tail_fits q (Suc 0)" using q(4) by (auto simp: tail_fits_def)
  obtain q' where q': "kqueue_dequeue (Some q) (Some [0]) 1 = (Some q', Some [c], 1)" "kq_wf q'" "kq_sz q' = kq_sz q" "kq_contents q' = cs"
    using kqueue_dequeue_correct [OF q(2), of 1 "[0]"] m t1 q(3) by auto
  have "q' = get1 q" using q'(1) m by (auto simp: kqueue_dequeue_def Let_def get1_def split: if_splits prod.splits)
  then have "unat (kq_tail q') = Suc (unat (kq_tail q)) mod unat (kq_sz q)" using get1_tail [OF q(2) t1(2)] by simp
  then have "unat (kq_sz q) > 256 \<longrightarrow> unat (kq_tail q') \<le> Suc (unat (kq_tail q))" by simp
  then have "tail_fits q' n" using q(4) q'(3) by (auto simp: tail_fits_def)
  then show ?thesis using q q' by (simp add: dequeue_key_def kb_line_def)
qed

lemma getchar_line:
  assumes "kb_line k (c # cs) (Suc n)" and "tm_ctx (kb_term k)" and "kb_noecho k = 0"
  shows "\<exists>k'. getchar ft poll m k = Some (c, m, k') \<and> kb_line k' cs n \<and> tm_ctx (kb_term k') \<and> kb_noecho k' = 0
    \<and> written (kb_term k') = written (kb_term k) @ crlf [c]"
proof -
  obtain k' where k': "dequeue_key k = (c, k')" "kb_line k' cs n" "kb_term k' = kb_term k" "kb_noecho k' = kb_noecho k"
    using dequeue_key_line [OF assms(1)] by blast
  have "kb_has_char k"
    using assms(1) by (auto simp: kb_line_def kb_has_char_def kqueue_queued_def word_less_nat_alt) (metis length_Cons length_kq_contents neq0_conv nat.distinct(1) unat_0)
  then have w: "wait_char poll m k = Some (m, k)" by (subst wait_char.simps) simp
  obtain tm where tm: "term_putchar ft c (kb_term k) = Some tm" "tm_ctx tm" "written tm = written (kb_term k) @ crlf [c]"
    using putchar_written [OF assms(2)] by blast
  have "kb_line (k'\<lparr>kb_term := tm\<rparr>) cs n" using k'(2) by (simp add: kb_line_def)
  then show ?thesis using w k' tm assms(3) by (simp add: getchar_def)
qed

lemma stdin_loop_line:
  assumes "kb_line k (line @ 10 # cs) (Suc (length line))" and "tm_ctx (kb_term k)" and "kb_noecho k = 0"
    and "10 \<notin> set line" and "length line < m"
  shows "\<exists>k'. stdin_loop ft poll m i n k = Some ((i + length line, line @ [10]), n, k') \<and> kb_line k' cs 0
    \<and> written (kb_term k') = written (kb_term k) @ crlf (line @ [10])"
  using assms
proof (induction line arbitrary: k m i)
  case Nil
  then obtain m' where m: "m = Suc m'" by (cases m) auto
  have l: "kb_line k (10 # cs) (Suc 0)" using Nil.prems(1) by simp
  show ?case using getchar_line [OF l Nil.prems(2,3), of ft poll n] m by auto
next
  case (Cons c line)
  then obtain m' where m: "m = Suc m'" by (cases m) auto
  have l: "kb_line k (c # line @ 10 # cs) (Suc (Suc (length line)))" using Cons.prems(1) by simp
  obtain k1 where k1: "getchar ft poll n k = Some (c, n, k1)" "kb_line k1 (line @ 10 # cs) (Suc (length line))"
    "tm_ctx (kb_term k1)" "kb_noecho k1 = 0" "written (kb_term k1) = written (kb_term k) @ crlf [c]"
    using getchar_line [OF l Cons.prems(2,3), of ft poll n] by blast
  show ?case using Cons.IH [OF k1(2-4), of m' "Suc i"] Cons.prems(4,5) m k1(1,5) by auto
qed

lemma sc_maps_special:
  "sc_map ! 42 = 0" "sc_map ! 54 = 0" "sc_map ! 72 = 0" "sc_map ! 73 = 0" "sc_map ! 80 = 0" "sc_map ! 81 = 0"
  "sc_map_shift ! 72 = 0" "sc_map_shift ! 73 = 0" "sc_map_shift ! 80 = 0" "sc_map_shift ! 81 = 0"
  by (simp_all add: sc_map_def sc_map_shift_def lit_def nth_append)

lemma sc_high: "(sc AND 0x80 \<noteq> 0) = (\<not> (sc :: u8) < 128)"
  "sc AND 0x80 \<noteq> 0 \<Longrightarrow> ((sc :: u8) AND 0x7F = 0x2A \<or> sc AND 0x7F = 0x36) = (sc = 0xAA \<or> sc = 0xB6)"
proof -
  have l: "unat sc < 256" using unsigned_less [of sc] by simp
  have "(sc AND 2 ^ 7 = 0) = (\<not> bit sc 7)" by (rule and_exp_eq_0_iff_not_bit)
  moreover have "bit sc 7 = bit (unat sc) 7" by (simp add: bit_unsigned_iff)
  moreover have "bit (unat sc) 7 = odd (unat sc div 128)" by (simp add: bit_iff_odd)
  moreover have "unat sc div 128 = (if unat sc < 128 then 0 else 1)"
    using l by (simp add: le_div_geq)
  ultimately show h: "(sc AND 0x80 \<noteq> 0) = (\<not> sc < 128)" by (simp add: word_less_nat_alt)
  have t: "unat (sc AND 0x7F) = unat sc mod 128"
  proof -
    have "sc AND 0x7F = take_bit 7 sc" by (simp add: take_bit_eq_mask mask_eq_exp_minus_1)
    then have "unat (sc AND 0x7F) = take_bit 7 (unat sc)" by (simp only: unsigned_take_bit_eq)
    then show ?thesis by (simp add: take_bit_eq_mod)
  qed
  show "(sc AND 0x7F = 0x2A \<or> sc AND 0x7F = 0x36) = (sc = 0xAA \<or> sc = 0xB6)" if "sc AND 0x80 \<noteq> 0"
  proof -
    have g: "128 \<le> unat sc" using that h by (simp add: word_less_nat_alt)
    then have "unat sc mod 128 = unat sc - 128" using l by (simp add: mod_if)
    then show ?thesis using t g by (auto simp: word_unat_eq_iff)
  qed
qed

lemma enqueue_sc_sel [simp]:
  "kb_chq (enqueue_sc c k) = kb_chq k" "kb_shift (enqueue_sc c k) = kb_shift k"
  "kb_term (enqueue_sc c k) = kb_term k" "kb_noecho (enqueue_sc c k) = kb_noecho k"
  by (simp_all add: enqueue_sc_def)

lemma enqueue_key_sel [simp]:
  "kb_shift (enqueue_key c k) = kb_shift k" "kb_term (enqueue_key c k) = kb_term k"
  "kb_noecho (enqueue_key c k) = kb_noecho k"
  by (simp_all add: enqueue_key_def)

lemma kb_line_cong: "kb_chq k = kb_chq k' \<Longrightarrow> kb_line k cs n = kb_line k' cs n"
  by (simp add: kb_line_def)

text \<open>One interrupt does what the specification does with one scan code.\<close>

lemma kbd_hdlr_step:
  assumes "kb_line k cs n" and "length cs < 256" and "k' = c_kbd_hdlr active sc k"
  shows "\<exists>xs. typed (kb_shift k) (sc # scs) = xs @ typed (kb_shift k') scs \<and> kb_line k' (cs @ xs) n
    \<and> tm_ctx (kb_term k') = tm_ctx (kb_term k) \<and> kb_noecho k' = kb_noecho k \<and> written (kb_term k') = written (kb_term k)
    \<and> length xs \<le> 1"
proof -
  let ?c = "(if kb_shift k then sc_map_shift else sc_map) ! unat sc"
  let ?k = "enqueue_sc sc k"
  have l: "kb_line ?k cs n" using assms(1) by (simp add: kb_line_cong [of ?k k])
  consider (release) "sc AND 0x80 \<noteq> 0" "\<not> sc < 128" | (shift) "sc < 128" "sc AND 0x80 = 0" "sc = 0x2A \<or> sc = 0x36"
    | (scroll) "sc < 128" "sc AND 0x80 = 0" "sc \<noteq> 0x2A" "sc \<noteq> 0x36" "active"
        "sc = 0x49 \<or> sc = 0x51 \<or> kb_shift k \<and> (sc = 0x48 \<or> sc = 0x50)"
    | (key) "sc < 128" "sc AND 0x80 = 0" "sc \<noteq> 0x2A" "sc \<noteq> 0x36"
        "\<not> (active \<and> (sc = 0x49 \<or> sc = 0x51 \<or> kb_shift k \<and> (sc = 0x48 \<or> sc = 0x50)))"
    using sc_high(1) [of sc] by blast
  then show ?thesis
  proof cases
    case release
    have ne: "sc \<noteq> 0x2A" "sc \<noteq> 0x36" using release(2) by auto
    show ?thesis
    proof (cases "sc = 0xAA \<or> sc = 0xB6")
      case True
      then have "k' = kbd_setshift False ?k" using assms(3) release sc_high(2) [OF release(1)] by (simp add: c_kbd_hdlr_def Let_def)
      then show ?thesis using True ne l by (intro exI [of _ "[]"]) (simp add: kbd_setshift_def kb_line_def)
    next
      case False
      then have "k' = ?k" using assms(3) release sc_high(2) [OF release(1)] by (simp add: c_kbd_hdlr_def Let_def)
      then show ?thesis using False ne l release(2) by (intro exI [of _ "[]"]) simp
    qed
  next
    case shift
    then have "k' = kbd_setshift True ?k" using assms(3) by (auto simp: c_kbd_hdlr_def Let_def)
    then show ?thesis using shift l by (intro exI [of _ "[]"]) (auto simp: kbd_setshift_def kb_line_def)
  next
    case scroll
    then have c0: "?c = 0" using sc_maps_special by (auto split: if_splits)
    have ne: "sc \<noteq> 0xAA" "sc \<noteq> 0xB6" using scroll(1) by auto
    have "\<exists>m. k' = ?k\<lparr>kb_term := term_scroll_up m (kb_term k)\<rparr> \<or> k' = ?k\<lparr>kb_term := term_scroll_down m (kb_term k)\<rparr>"
      using assms(3) scroll by (auto simp: c_kbd_hdlr_def Let_def)
    then show ?thesis using c0 ne scroll l by (intro exI [of _ "[]"]) (auto simp: kb_line_def)
  next
    case key
    have ne: "sc \<noteq> 0xAA" "sc \<noteq> 0xB6" using key(1) by auto
    have "k' = (if ?c \<noteq> 0 then enqueue_key ?c ?k else ?k)" using assms(3) key by (auto simp: c_kbd_hdlr_def Let_def)
    then show ?thesis using ne key l enqueue_key_line [OF l assms(2)]
      by (intro exI [of _ "if ?c = 0 then [] else [?c]"]) simp
  qed
qed

lemma kbd_hdlr_typed:
  assumes "kb_line k cs n" and "length cs + length (typed (kb_shift k) scs) \<le> 255" and "k' = foldl (\<lambda>k sc. c_kbd_hdlr active sc k) k scs"
  shows "kb_line k' (cs @ typed (kb_shift k) scs) n \<and> tm_ctx (kb_term k') = tm_ctx (kb_term k)
    \<and> kb_noecho k' = kb_noecho k \<and> written (kb_term k') = written (kb_term k)"
  using assms
proof (induction scs arbitrary: k cs)
  case (Cons sc scs)
  define k1 where "k1 = c_kbd_hdlr active sc k"
  have "length cs < 256" using Cons.prems(2) by simp
  from kbd_hdlr_step [OF Cons.prems(1) this k1_def, of scs] obtain xs where
    xs: "typed (kb_shift k) (sc # scs) = xs @ typed (kb_shift k1) scs" "kb_line k1 (cs @ xs) n"
    "tm_ctx (kb_term k1) = tm_ctx (kb_term k)" "kb_noecho k1 = kb_noecho k" "written (kb_term k1) = written (kb_term k)"
    by blast
  have "length (cs @ xs) + length (typed (kb_shift k1) scs) \<le> 255" using Cons.prems(2) xs(1) by simp
  moreover have "k' = foldl (\<lambda>k sc. c_kbd_hdlr active sc k) k1 scs" using Cons.prems(3) by (simp add: k1_def)
  ultimately show ?case using Cons.IH [OF xs(2)] xs unfolding xs(1) by simp
qed simp


definition demo_kbd :: keyboard where
  "demo_kbd = init_kbd (True, Some (replicate 512 0)) (True, Some (replicate 512 0)) 0 2
     \<lparr>kb_chq = None, kb_scq = None, kb_shift = False, kb_type = 0, kb_noecho = 0, kb_term = demo_term\<rparr>"


section \<open>Mouse packets\<close>

lemma mouse_packet:
  assumes "stat AND 0x01 \<noteq> 0" and "stat AND 0x20 \<noteq> 0" and "ms_cycle m = 0" and "s AND 0x08 \<noteq> 0"
  shows "foldl (\<lambda>m b. c_mouse_hdlr active stat b m) m [s, x, y] = enqueue_mouse active (pkt_info (s, x, y)) (m\<lparr>ms_pkt := (s, x, y)\<rparr>)"
proof -
  have c: "m\<lparr>ms_pkt := p, ms_cycle := 0\<rparr> = m\<lparr>ms_pkt := p\<rparr>" for p
    using assms(3) by (cases m) simp
  obtain p0 p1 p2 where p: "ms_pkt m = (p0, p1, p2)" by (cases "ms_pkt m") auto
  have "foldl (\<lambda>m b. c_mouse_hdlr active stat b m) m [s, x, y]
      = enqueue_mouse active (pkt_info (s, x, y)) (m\<lparr>ms_pkt := (s, x, y), ms_cycle := 0\<rparr>)"
    using assms p by (simp add: c_mouse_hdlr_def Let_def)
  then show ?thesis by (simp only: c)
qed

text \<open>A byte that cannot start a packet is dropped.\<close>

lemma mouse_resync:
  assumes "ms_cycle m = 0" and "b AND 0x08 = 0"
  shows "\<exists>p. c_mouse_hdlr active stat b m = m\<lparr>ms_pkt := p\<rparr>"
proof -
  obtain p0 p1 p2 where p: "ms_pkt m = (p0, p1, p2)" by (cases "ms_pkt m") auto
  have m: "m\<lparr>ms_pkt := (p0, p1, p2)\<rparr> = m" using p by (cases m) simp
  show ?thesis
  proof (cases "stat AND 0x01 \<noteq> 0 \<and> stat AND 0x20 \<noteq> 0")
    case True
    then show ?thesis using assms p by (intro exI [of _ "(b, p1, p2)"]) (simp add: c_mouse_hdlr_def Let_def)
  next
    case False
    then show ?thesis using m by (intro exI [of _ "(p0, p1, p2)"]) (auto simp: c_mouse_hdlr_def)
  qed
qed

lemma half_move_value:
  "sint (half_move b sign) = (let v = (if sign then uint b - 256 else uint b) in if v < 0 then - ((- v) div 2) else v div 2)"
proof -
  define v where "v = (if sign then uint b - 256 else uint b)"
  define h where "h = (if v < 0 then - ((- v) div 2) else v div 2)"
  have b: "0 \<le> uint b" "uint b < 256" using uint_ge_0 [of b] uint_lt2p [of b] by simp_all
  have "- 256 \<le> v \<and> v < 256"
  proof (cases sign)
    case True
    then show ?thesis using b unfolding v_def if_P [OF True] by linarith
  next
    case False
    then show ?thesis using b unfolding v_def if_not_P [OF False] by linarith
  qed
  then have "- 128 \<le> h" "h < 128" by (auto simp: h_def)
  then have "sint (word_of_int h :: u8) = h"
    by (simp add: signed_of_int signed_take_bit_int_eq_self)
  then show ?thesis unfolding half_move_def Let_def v_def [symmetric] h_def [symmetric] .
qed

lemma mouse_round_trip:
  assumes "ms_q m = Some q" and "kq_wf q" and "kq_contents q = []" and "tail_fits q 4" and "unat (kq_sz q) \<ge> 4" and "ms_type m \<noteq> 0"
  shows "\<exists>m'. get_mouse_info poll (enqueue_mouse active i m) = Some ((0, Some i), m')"
proof -
  define m1 where "m1 = enqueue_mouse active i m"
  have cnt: "kq_cnt q = 0" using assms(3) length_kq_contents [of q] by (simp add: unat_eq_zero)
  have f: "min (unat (4 :: u64)) (kq_free q) = 4" using assms(5) cnt by (simp add: kq_free_def)
  obtain q1 where q1: "kqueue_enqueue (Some q) (Some (mouse_bytes i)) 4 = (Some q1, 4)" "kq_wf q1" "kq_sz q1 = kq_sz q"
    "kq_contents q1 = mouse_bytes i"
    using kqueue_enqueue_correct [OF assms(2), of 4 "mouse_bytes i"] f assms(3) by (auto simp: mouse_bytes_def)
  have m1: "ms_q m1 = Some q1" "ms_type m1 = ms_type m" using q1(1) assms(1) by (simp_all add: m1_def enqueue_mouse_def Let_def)
  have c1: "unat (kq_cnt q1) = 4" using q1(4) length_kq_contents [of q1] by (simp add: mouse_bytes_def)
  have "kq_tail q1 = kq_tail q" using q1(1) by (auto simp: kqueue_enqueue_def Let_def split: if_splits)
  then have t: "tail_fits q1 4" using assms(4) q1(3) by (simp add: tail_fits_def)
  have m4: "min (unat (4 :: u64)) (unat (kq_cnt q1)) = 4" using c1 by simp
  obtain q2 where q2: "kqueue_dequeue (Some q1) (Some [0, 0, 0, 0]) 4 = (Some q2, Some (mouse_bytes i), 4)"
    using kqueue_dequeue_correct [OF q1(2), of 4 "[0, 0, 0, 0]"] m4 t q1(4) by (auto simp: mouse_bytes_def)
  have "kq_cnt q1 = 4" using c1 by (simp add: word_unat_eq_iff)
  then have "mouse_has_info m1" using m1 by (simp add: mouse_has_info_def kqueue_queued_def)
  then have "wait_mouse poll 0 m1 = Some m1" by (subst wait_mouse.simps) simp
  then show ?thesis unfolding m1_def [symmetric]
    using q2 m1 assms(6) by (simp add: get_mouse_info_def dequeue_mouse_def mouse_bytes_def)
qed

end
