(* ===== verification/Fb.thy ===== *)
theory Fb
  imports Fd Memblk
begin

text \<open>
  Frame buffers, \<^verbatim>\<open>drivers/display/fb.c\<close>.  A process draws into a frame buffer of its own, which
  \<^verbatim>\<open>flush_scr\<close> copies to the screen.  The state holds the description of the screen (\<^verbatim>\<open>fbctx\<close>),
  the frame buffer objects and the pixel memory by address, and the contents of the screen.
  The functions work on the descriptor table of the current process; the outcomes of the
  allocations (of the descriptor table, and the addresses of the object and its memory) are
  arguments.  A freed object is no longer there: an access to it is \<^term>\<open>None\<close>, like an access through
  NULL, through a descriptor of another kind, or outside of a block.
\<close>

section \<open>Structures\<close>

record framebuf =
  fb_width :: u64
  fb_height :: u64
  fb_pitch :: u64
  fb_ptrsz :: u64
  fb_type :: int
  fb_ptr :: u64

record limine_fb =
  lf_width :: u64
  lf_height :: u64
  lf_pitch :: u64
  lf_bpp :: u16
  lf_mask_sizes :: "u8 \<times> u8 \<times> u8"
  lf_mask_shifts :: "u8 \<times> u8 \<times> u8"

record framebuf_info =
  fbi_ptr :: u64
  fbi_ptrsz :: u64
  fbi_width :: u64
  fbi_height :: u64
  fbi_pitch :: u64
  fbi_bpp :: u16
  fbi_mask_sizes :: "u8 \<times> u8 \<times> u8"
  fbi_mask_shifts :: "u8 \<times> u8 \<times> u8"

text \<open>\<open>fs_term\<close> is the address of the static object \<^verbatim>\<open>_term_fb\<close>.\<close>

record fbs =
  fs_ctx :: "limine_fb option"
  fs_objs :: "u64 \<rightharpoonup> framebuf"
  fs_mem :: "u64 \<rightharpoonup> memblk"
  fs_term :: u64
  fs_created :: bool
  fs_screen :: memblk

abbreviation (input) FBTYPE_TERM :: int where "FBTYPE_TERM \<equiv> 0"
abbreviation (input) FBTYPE_GUI :: int where "FBTYPE_GUI \<equiv> 1"

section \<open>Operations\<close>

definition init_fbdrv :: "bool \<Rightarrow> limine_fb option \<Rightarrow> fbs \<Rightarrow> int \<times> fbs" where
  "init_fbdrv ok lmfb s = (case lmfb of None \<Rightarrow> (- EFAULT, s)
     | Some lf \<Rightarrow> if fs_ctx s \<noteq> None then (0, s)
         else if \<not> ok then (- ENOMEM, s) else (0, s\<lparr>fs_ctx := Some lf\<rparr>))"

text \<open>The frame buffer pointer of a descriptor.\<close>

fun fb_addr :: "fddata \<Rightarrow> u64 option" where
  "fb_addr (FdFb a) = Some a"
| "fb_addr (FdFbw a) = Some a"
| "fb_addr _ = None"

text \<open>Descriptor \<open>i\<close> of the process gets the pointer.\<close>

definition set_fb :: "(u64 \<Rightarrow> fddata) \<Rightarrow> nat \<Rightarrow> u64 \<Rightarrow> process_state \<Rightarrow> process_state" where
  "set_fb kind i a p = set_fd p i \<lparr>fi_fd = int i, fi_inuse = True, fi_data = kind a\<rparr>"

definition screen_fb :: "limine_fb \<Rightarrow> int \<Rightarrow> u64 \<Rightarrow> u64 \<Rightarrow> framebuf" where
  "screen_fb lf type sz ptr = \<lparr>fb_width = lf_width lf, fb_height = lf_height lf, fb_pitch = lf_pitch lf,
     fb_ptrsz = sz, fb_type = type, fb_ptr = ptr\<rparr>"

definition create_fb :: "bool \<Rightarrow> bool \<Rightarrow> u64 option \<Rightarrow> u64 option \<Rightarrow> int \<Rightarrow> process_state \<Rightarrow> fbs
    \<Rightarrow> (int \<times> process_state \<times> fbs) option" where
  "create_fb ok1 ok2 a1 a2 type p s = (case fs_ctx s of None \<Rightarrow> Some (- EINVAL, p, s)
     | Some lf \<Rightarrow> do {
         (fd, p) \<leftarrow> getnewfd ok1 ok2 p \<lparr>fi_fd = - 1, fi_inuse = False, fi_data = FdFb 0\<rparr>;
         case fd of None \<Rightarrow> Some (- ENOMEM, p, s)
         | Some i \<Rightarrow>
             if type = FBTYPE_TERM \<and> fs_created s then Some (int i, set_fb FdFb i (fs_term s) p, s)
             else case a1 of
               None \<Rightarrow> do { (_, p) \<leftarrow> closefd (set_fb FdFb i 0 p) (int i); Some (- ENOMEM, p, s) }
             | Some a \<Rightarrow>
                 let p = set_fb FdFb i a p; sz = lf_pitch lf * lf_height lf in
                 case a2 of
                   None \<Rightarrow> do { (_, p) \<leftarrow> closefd p (int i); Some (- ENOMEM, p, s) }
                 | Some m \<Rightarrow>
                     let fb = screen_fb lf type sz m;
                         s = s\<lparr>fs_objs := (fs_objs s)(a \<mapsto> fb), fs_mem := (fs_mem s)(m \<mapsto> fresh_blk (unat sz))\<rparr>;
                         s = (if type = FBTYPE_TERM
                              then s\<lparr>fs_objs := (fs_objs s)(fs_term s \<mapsto> fb), fs_created := True\<rparr> else s)
                     in Some (int i, p, s) })"

text \<open>The result is the size or the error as an unsigned number, with the descriptor that is stored
  for the caller.\<close>

definition create_fb_withmem :: "bool \<Rightarrow> bool \<Rightarrow> u64 option \<Rightarrow> int \<Rightarrow> u64 \<Rightarrow> u64 \<Rightarrow> process_state \<Rightarrow> fbs
    \<Rightarrow> ((u64 \<times> int option) \<times> process_state \<times> fbs) option" where
  "create_fb_withmem ok1 ok2 a1 type ptr sz p s = (case fs_ctx s of None \<Rightarrow> Some ((of_int (- EINVAL), None), p, s)
     | Some lf \<Rightarrow> do {
         (fd, p) \<leftarrow> getnewfd ok1 ok2 p \<lparr>fi_fd = - 1, fi_inuse = False, fi_data = FdFbw 0\<rparr>;
         case fd of None \<Rightarrow> Some ((of_int (- ENOMEM), None), p, s)
         | Some i \<Rightarrow> (case a1 of
             None \<Rightarrow> do { (_, p) \<leftarrow> closefd (set_fb FdFbw i 0 p) (int i); Some ((of_int (- ENOMEM), None), p, s) }
           | Some a \<Rightarrow>
               let p = set_fb FdFbw i a p in
               if ptr = 0 \<or> sz = 0 then do {
                 (_, p) \<leftarrow> closefd p (int i);
                 Some ((lf_pitch lf * lf_height lf, None), p, s) }
               else Some ((0, Some (int i)), p, s\<lparr>fs_objs := (fs_objs s)(a \<mapsto> screen_fb lf type sz ptr)\<rparr>)) })"

text \<open>Freeing an object: it must be one, and not the static one.\<close>

definition free_obj :: "u64 \<Rightarrow> fbs \<Rightarrow> fbs option" where
  "free_obj a s = (if a = fs_term s \<or> fs_objs s a = None then None else Some (s\<lparr>fs_objs := (fs_objs s)(a := None)\<rparr>))"

definition free_fb_withmem :: "int \<Rightarrow> process_state \<Rightarrow> fbs \<Rightarrow> (int \<times> process_state \<times> fbs) option" where
  "free_fb_withmem fb p s = do {
     r \<leftarrow> getfd p fb;
     case r of Inl e \<Rightarrow> Some (e, p, s)
     | Inr i \<Rightarrow> do {
         info \<leftarrow> fd_at p i;
         a \<leftarrow> fb_addr (fi_data info);
         if a = 0 then Some (- EINVAL, p, s)
         else do {
           s \<leftarrow> free_obj a s;
           (ret, p) \<leftarrow> closefd p fb;
           Some (ret, p, s) } } }"

text \<open>The memory of the object is read from the object after it was freed.\<close>

definition free_fb :: "int \<Rightarrow> process_state \<Rightarrow> fbs \<Rightarrow> (int \<times> process_state \<times> fbs) option" where
  "free_fb fb p s = do {
     r \<leftarrow> getfd p fb;
     case r of Inl e \<Rightarrow> Some (e, p, s)
     | Inr i \<Rightarrow> do {
         info \<leftarrow> fd_at p i;
         a \<leftarrow> fb_addr (fi_data info);
         obj \<leftarrow> fs_objs s a;
         s \<leftarrow> (if fb_type obj \<noteq> FBTYPE_TERM then do {
                 s \<leftarrow> free_obj a s;
                 obj \<leftarrow> fs_objs s a;
                 Some (s\<lparr>fs_mem := (fs_mem s)(fb_ptr obj := None)\<rparr>) }
               else Some s);
         (ret, p) \<leftarrow> closefd p fb;
         Some (ret, p, s) } }"

text \<open>The object behind a descriptor.\<close>

definition fb_obj :: "process_state \<Rightarrow> fbs \<Rightarrow> nat \<Rightarrow> framebuf option" where
  "fb_obj p s i = do { info \<leftarrow> fd_at p i; a \<leftarrow> fb_addr (fi_data info); fs_objs s a }"

definition clear_fb :: "int \<Rightarrow> process_state \<Rightarrow> fbs \<Rightarrow> fbs option" where
  "clear_fb fb p s = do {
     r \<leftarrow> getfd p fb;
     case r of Inl _ \<Rightarrow> Some s
     | Inr i \<Rightarrow> do {
         obj \<leftarrow> fb_obj p s i;
         m \<leftarrow> fs_mem s (fb_ptr obj);
         m \<leftarrow> store_cells m 0 (replicate (unat (fb_ptrsz obj)) (Byte 0));
         Some (s\<lparr>fs_mem := (fs_mem s)(fb_ptr obj \<mapsto> m)\<rparr>) } }"

definition flush_scr :: "process_state \<Rightarrow> fbs \<Rightarrow> fbs option" where
  "flush_scr p s = do {
     r \<leftarrow> getfd p (p_currfb p);
     case r of Inl _ \<Rightarrow> Some s
     | Inr i \<Rightarrow> do {
         _ \<leftarrow> fs_ctx s;
         obj \<leftarrow> fb_obj p s i;
         m \<leftarrow> fs_mem s (fb_ptr obj);
         cs \<leftarrow> load_cells m 0 (unat (fb_ptrsz obj));
         scr \<leftarrow> store_cells (fs_screen s) 0 cs;
         Some (s\<lparr>fs_screen := scr\<rparr>) } }"

text \<open>\<open>out\<close> is whether the caller gave a buffer for the information.\<close>

definition get_fbinfo :: "int \<Rightarrow> bool \<Rightarrow> process_state \<Rightarrow> fbs \<Rightarrow> (int \<times> framebuf_info option) option" where
  "get_fbinfo fb out p s = (case fs_ctx s of None \<Rightarrow> Some (- EINVAL, None)
     | Some lf \<Rightarrow> if \<not> out then Some (- EINVAL, None)
     else do {
       r \<leftarrow> getfd p fb;
       case r of Inl e \<Rightarrow> Some (e, None)
       | Inr i \<Rightarrow> do {
           info \<leftarrow> fd_at p i;
           a \<leftarrow> fb_addr (fi_data info);
           if a = 0 then Some (- EINVAL, None)
           else do {
             obj \<leftarrow> fs_objs s a;
             Some (0, Some \<lparr>fbi_ptr = fb_ptr obj, fbi_ptrsz = fb_ptrsz obj, fbi_width = fb_width obj,
               fbi_height = fb_height obj, fbi_pitch = fb_pitch obj, fbi_bpp = lf_bpp lf,
               fbi_mask_sizes = lf_mask_sizes lf, fbi_mask_shifts = lf_mask_shifts lf\<rparr>) } } })"

definition is_term_active :: "process_state \<Rightarrow> fbs \<Rightarrow> bool option" where
  "is_term_active p s = do {
     r \<leftarrow> getfd p (p_currfb p);
     case r of Inl _ \<Rightarrow> Some True
     | Inr i \<Rightarrow> do {
         info \<leftarrow> fd_at p i;
         a \<leftarrow> fb_addr (fi_data info);
         if a = 0 then Some True
         else do { obj \<leftarrow> fs_objs s a; Some (fb_type obj = FBTYPE_TERM) } } }"

section \<open>Properties\<close>

lemma create_fb_gui:
  assumes "fd_ok p fl" and "i < length fl" and "\<not> fi_inuse (fl ! i)" and "\<forall>j < i. fi_inuse (fl ! j)"
    and "fs_ctx s = Some lf" and "sz = lf_pitch lf * lf_height lf" and "type \<noteq> FBTYPE_TERM"
    and "p1 = set_fb FdFb i a p"
    and "s1 = s\<lparr>fs_objs := (fs_objs s)(a \<mapsto> screen_fb lf type sz m), fs_mem := (fs_mem s)(m \<mapsto> fresh_blk (unat sz))\<rparr>"
  shows "create_fb ok1 ok2 (Some a) (Some m) type p s = Some (int i, p1, s1)"
    and "getfd p1 (int i) = Some (Inr i)" and "fd_at p1 i = Some \<lparr>fi_fd = int i, fi_inuse = True, fi_data = FdFb a\<rparr>"
proof -
  have tw: "set_fd (set_fd p i f) i g = set_fd p i g" for f g
    using assms(1) by (simp add: set_fd_def fd_ok_def)
  have "getnewfd ok1 ok2 p \<lparr>fi_fd = - 1, fi_inuse = False, fi_data = FdFb 0\<rparr>
      = Some (Some i, set_fd p i \<lparr>fi_fd = int i, fi_inuse = True, fi_data = FdFb 0\<rparr>)"
    using getnewfd_free [OF assms(1-4)] by simp
  then show "create_fb ok1 ok2 (Some a) (Some m) type p s = Some (int i, p1, s1)"
    using assms(5-9) by (simp add: create_fb_def Let_def set_fb_def tw)
  have o1: "fd_ok p1 (fl[i := \<lparr>fi_fd = int i, fi_inuse = True, fi_data = FdFb a\<rparr>])"
    unfolding assms(8) set_fb_def using assms(1) by (rule set_fd_ok)
  show "getfd p1 (int i) = Some (Inr i)" using getfd_ok [OF o1, of i] assms(2) by simp
  show "fd_at p1 i = Some \<lparr>fi_fd = int i, fi_inuse = True, fi_data = FdFb a\<rparr>"
    using o1 assms(2) by (simp add: fd_at_def fd_ok_def)
qed

lemma getfd_currfb [simp]: "getfd (p\<lparr>p_currfb := c\<rparr>) fd = getfd p fd"
  by (simp add: getfd_def)

text \<open>
  C29. The life of a frame buffer that is not the terminal's: it is created with the size of the
  screen at the lowest free descriptor, clearing it and flushing it blackens the screen within
  that size and changes nothing beyond, and closing it is undefined: the
  memory is looked up in the object after the object was freed.
\<close>

theorem fb_draw_and_close:
  assumes "fd_ok p fl" and "i < length fl" and "\<not> fi_inuse (fl ! i)" and "\<forall>j < i. fi_inuse (fl ! j)"
    and "fs_ctx s = Some lf" and "sz = lf_pitch lf * lf_height lf" and "unat sz \<le> length (fs_screen s)"
    and "type \<noteq> FBTYPE_TERM"
  shows "\<exists>p1 s1 s2 s3. create_fb ok1 ok2 (Some a) (Some m) type p s = Some (int i, p1, s1)
    \<and> clear_fb (int i) p1 s1 = Some s2
    \<and> flush_scr (p1\<lparr>p_currfb := int i\<rparr>) s2 = Some s3
    \<and> fs_screen s3 = replicate (unat sz) (Byte 0) @ drop (unat sz) (fs_screen s)
    \<and> free_fb (int i) p1 s1 = None"
proof -
  define p1 where "p1 = set_fb FdFb i a p"
  define s1 where "s1 = s\<lparr>fs_objs := (fs_objs s)(a \<mapsto> screen_fb lf type sz m), fs_mem := (fs_mem s)(m \<mapsto> fresh_blk (unat sz))\<rparr>"
  note c = create_fb_gui [OF assms(1-6,8) p1_def s1_def]
  let ?z = "replicate (unat sz) (Byte 0)"
  define s2 where "s2 = s1\<lparr>fs_mem := (fs_mem s1)(m \<mapsto> ?z)\<rparr>"
  have obj: "fb_obj p1 s1 i = Some (screen_fb lf type sz m)" "fb_obj (p1\<lparr>p_currfb := int i\<rparr>) s2 i = Some (screen_fb lf type sz m)"
    using c(3) by (simp_all add: fb_obj_def s1_def s2_def fd_at_def)
  have cl: "clear_fb (int i) p1 s1 = Some s2"
    using c(2) obj(1) by (simp add: clear_fb_def screen_fb_def s1_def s2_def fresh_blk_def store_cells_def)
  have g: "getfd (p1\<lparr>p_currfb := int i\<rparr>) (int i) = Some (Inr i)" using c(2) by simp
  have fl: "flush_scr (p1\<lparr>p_currfb := int i\<rparr>) s2 = Some (s2\<lparr>fs_screen := ?z @ drop (unat sz) (fs_screen s)\<rparr>)"
    using g obj(2) assms(5,7) by (simp add: flush_scr_def screen_fb_def s1_def s2_def load_cells_def store_cells_def)
  have "free_fb (int i) p1 s1 = None"
    using c(2,3) assms(8) by (simp add: free_fb_def s1_def free_obj_def screen_fb_def)
  then show ?thesis using c(1) cl fl by (intro exI conjI) (assumption | simp)+
qed

definition demo_screen :: limine_fb where
  "demo_screen = \<lparr>lf_width = 2, lf_height = 2, lf_pitch = 8, lf_bpp = 32, lf_mask_sizes = (8, 8, 8), lf_mask_shifts = (16, 8, 0)\<rparr>"

theorem fb_draw_and_close_witness:
  "\<exists>p1 s1 s2 s3. create_fb True True (Some 0x1000) (Some 0x2000) 1
       (zero_proc\<lparr>p_fds := Some [Some (io_fd True), Some (io_fd False)], p_nfds := 2\<rparr>)
       \<lparr>fs_ctx = Some demo_screen, fs_objs = (\<lambda>_. None), fs_mem = (\<lambda>_. None), fs_term = 8, fs_created = False,
        fs_screen = replicate 20 (Byte 255)\<rparr> = Some (1, p1, s1)
     \<and> clear_fb 1 p1 s1 = Some s2 \<and> flush_scr (p1\<lparr>p_currfb := 1\<rparr>) s2 = Some s3
     \<and> fs_screen s3 = replicate 16 (Byte 0) @ replicate 4 (Byte 255) \<and> free_fb 1 p1 s1 = None"
proof -
  have o: "fd_ok (zero_proc\<lparr>p_fds := Some [Some (io_fd True), Some (io_fd False)], p_nfds := 2\<rparr>) [io_fd True, io_fd False]"
    by (simp add: fd_ok_def)
  show ?thesis
    using fb_draw_and_close [OF o, where i = 1 and s = "\<lparr>fs_ctx = Some demo_screen, fs_objs = (\<lambda>_. None), fs_mem = (\<lambda>_. None), fs_term = 8,
        fs_created = False, fs_screen = replicate 20 (Byte 255)\<rparr>" and lf = demo_screen and sz = 16 and type = 1 and ?ok1.0 = True and ?ok2.0 = True and a = "0x1000" and m = "0x2000"]
    by (simp add: io_fd_def demo_screen_def)
qed

end
