(* ===== verification/Udevr.thy ===== *)
theory Udevr
  imports Vfs
begin

text \<open>
  The registry of user devices, \<^verbatim>\<open>kern/udevr.c\<close>: drivers register under a number, a device of a
  driver is a node in \<^verbatim>\<open>/dev\<close>, and reading or writing its descriptor calls the driver.  The
  functions of a driver work on a state \<^typ>\<open>'d\<close> of the devices.  An entry of the table that
  \<^verbatim>\<open>realloc\<close> supplied and nothing has written is \<^term>\<open>None\<close>.

  The structure \<^verbatim>\<open>udrv_t\<close> has 56 bytes: \<^verbatim>\<open>used\<close> at 0, \<^verbatim>\<open>name\<close> at 1, \<^verbatim>\<open>id\<close> at 34, \<^verbatim>\<open>flags\<close> at 36,
  \<^verbatim>\<open>read\<close> at 40 and \<^verbatim>\<open>write\<close> at 48.  The positions matter where the table grows: the \<^verbatim>\<open>memset\<close>
  that should clear the new entries takes the number of old entries as a number of bytes and
  clears old entries.
\<close>

section \<open>State\<close>

record 'd udrv =
  ud_used :: bool
  ud_name :: "u8 list"
  ud_id :: u16
  ud_flags :: u16
  ud_read :: "(u16 \<Rightarrow> u64 \<Rightarrow> 'd \<Rightarrow> ((int \<times> u8 list) \<times> 'd) option) option"
  ud_write :: "(u16 \<Rightarrow> u8 list \<Rightarrow> 'd \<Rightarrow> (int \<times> 'd) option) option"

record 'd udevr =
  ur_tbl :: "'d udrv option list option"
  ur_devfs :: bool

definition zero_udrv :: "'d udrv" where
  "zero_udrv = \<lparr>ud_used = False, ud_name = replicate 32 0, ud_id = 0, ud_flags = 0, ud_read = None, ud_write = None\<rparr>"

definition udevr_init :: "bool \<Rightarrow> (nat \<Rightarrow> (nat \<Rightarrow> bool) \<Rightarrow> 's mnt \<Rightarrow> (int \<times> 's mnt) option) \<Rightarrow> blkreg
    \<Rightarrow> 's kfs \<Rightarrow> 'd udevr \<Rightarrow> (int \<times> 's kfs \<times> 'd udevr) option" where
  "udevr_init ok fm blk k u =
     (if \<not> ok then Some (- ENOMEM, k, u\<lparr>ur_tbl := None\<rparr>)
      else do {
        (r, k) \<leftarrow> mount fm blk k None (lit ''/dev'') (lit ''ramfs'');
        Some (0, k, u\<lparr>ur_tbl := Some (replicate 128 (Some zero_udrv)), ur_devfs := (r \<ge> 0)\<rparr>) })"

section \<open>Registration\<close>

text \<open>The first entry that is not used.\<close>

fun free_udrv :: "'d udrv option list \<Rightarrow> nat \<Rightarrow> nat option option" where
  "free_udrv [] i = Some None"
| "free_udrv (e # es) i = do { d \<leftarrow> e; if \<not> ud_used d then Some (Some i) else free_udrv es (Suc i) }"

text \<open>The name is copied with its terminator over what the entry held; of a new entry the bytes after
  the terminator are unknown, and never read.\<close>

definition fill_udrv :: "u16 \<Rightarrow> cstr \<Rightarrow> u16 \<Rightarrow> (u16 \<Rightarrow> u64 \<Rightarrow> 'd \<Rightarrow> ((int \<times> u8 list) \<times> 'd) option) option
    \<Rightarrow> (u16 \<Rightarrow> u8 list \<Rightarrow> 'd \<Rightarrow> (int \<times> 'd) option) option \<Rightarrow> 'd udrv \<Rightarrow> 'd udrv option" where
  "fill_udrv did name flags rd wr d =
     (if length name < 32
      then Some (d\<lparr>ud_used := True, ud_id := did, ud_flags := flags, ud_read := rd, ud_write := wr,
             ud_name := name @ 0 # drop (Suc (length name)) (ud_name d)\<rparr>)
      else None)"

text \<open>What the misplaced \<^verbatim>\<open>memset\<close> leaves of entry \<open>j\<close> of a table that had \<open>n\<close> entries: the bytes
  from \<open>n\<close> to \<open>n + 896\<close> of the table are cleared.\<close>

definition wiped :: "nat \<Rightarrow> nat \<Rightarrow> nat \<Rightarrow> bool" where
  "wiped n j off \<longleftrightarrow> n \<le> 56 * j + off \<and> 56 * j + off < n + 896"

definition wipe_udrv :: "nat \<Rightarrow> nat \<Rightarrow> 'd udrv \<Rightarrow> 'd udrv" where
  "wipe_udrv n j d = \<lparr>ud_used = (ud_used d \<and> \<not> wiped n j 0),
     ud_name = map (\<lambda>i. if wiped n j (1 + i) then 0 else ud_name d ! i) [0..<length (ud_name d)],
     ud_id = (if wiped n j 34 then 0 else ud_id d), ud_flags = (if wiped n j 36 then 0 else ud_flags d),
     ud_read = (if wiped n j 40 then None else ud_read d), ud_write = (if wiped n j 48 then None else ud_write d)\<rparr>"

definition grow_udevr :: "'d udrv option list \<Rightarrow> 'd udrv option list" where
  "grow_udevr t = map (\<lambda>j. map_option (wipe_udrv (length t) j) (t ! j)) [0..<length t] @ replicate 16 None"

definition udevr_register :: "bool \<Rightarrow> u16 \<Rightarrow> cstr \<Rightarrow> u16 \<Rightarrow> (u16 \<Rightarrow> u64 \<Rightarrow> 'd \<Rightarrow> ((int \<times> u8 list) \<times> 'd) option) option
    \<Rightarrow> (u16 \<Rightarrow> u8 list \<Rightarrow> 'd \<Rightarrow> (int \<times> 'd) option) option \<Rightarrow> 'd udevr \<Rightarrow> (int \<times> 'd udevr) option" where
  "udevr_register ok did name flags rd wr u = (case ur_tbl u of None \<Rightarrow> Some (- ENOEXIST, u)
     | Some t \<Rightarrow> do {
         slot \<leftarrow> free_udrv t 0;
         case slot of
           Some i \<Rightarrow> do {
             d \<leftarrow> t ! i;
             d \<leftarrow> fill_udrv did name flags rd wr d;
             Some (0, u\<lparr>ur_tbl := Some (t[i := Some d])\<rparr>) }
         | None \<Rightarrow>
             if \<not> ok then Some (- ENOMEM, u)
             else do {
               d \<leftarrow> fill_udrv did name flags rd wr zero_udrv;
               Some (0, u\<lparr>ur_tbl := Some ((grow_udevr t)[length t := Some d])\<rparr>) } })"

text \<open>The loop over the used entries with a number.\<close>

fun find_udrv :: "u32 \<Rightarrow> 'd udrv option list \<Rightarrow> 'd udrv option option" where
  "find_udrv n [] = Some None"
| "find_udrv n (e # es) = do { d \<leftarrow> e; if ud_used d \<and> ucast (ud_id d) = n then Some (Some d) else find_udrv n es }"

definition MKDEV :: "u32 \<Rightarrow> u32 \<Rightarrow> u32" where "MKDEV maj mnr = push_bit 20 maj OR mnr"
definition MAJOR :: "u32 \<Rightarrow> u32" where "MAJOR dev = drop_bit 20 dev"
definition MINOR :: "u32 \<Rightarrow> u32" where "MINOR dev = dev AND 0xFFFFF"

definition udevr_regdev :: "u16 \<Rightarrow> u16 \<Rightarrow> 's kfs \<Rightarrow> 'd udevr \<Rightarrow> (int \<times> 's kfs) option" where
  "udevr_regdev drv did k u = (case ur_tbl u of None \<Rightarrow> Some (- ENOEXIST, k)
     | Some t \<Rightarrow>
         if ur_devfs u then do {
           r \<leftarrow> find_udrv (ucast drv) t;
           case r of None \<Rightarrow> Some (- ENOEXIST, k)
           | Some d \<Rightarrow>
               if 0 \<in> set (ud_name d) then do {
                 (ret, k) \<leftarrow> mknod k (lit ''/dev/'' @ takeWhile (\<lambda>c. c \<noteq> 0) (ud_name d) @ dec_digits (unat did))
                   (MKDEV (ucast drv) (ucast did)) 0x1A4;
                 Some (if ret < 0 then ret else 0, k) }
               else None }
         else Some (0, k))"

section \<open>Reading and writing a device\<close>

text \<open>The driver a device descriptor belongs to, and the minor number.\<close>

definition udevr_target :: "int \<Rightarrow> process_state \<Rightarrow> 'd udevr \<Rightarrow> (int + 'd udrv \<times> u32) option" where
  "udevr_target fd p u = (case ur_tbl u of None \<Rightarrow> Some (Inl (- ENOEXIST))
     | Some t \<Rightarrow> do {
         r \<leftarrow> getfd p fd;
         case r of Inl e \<Rightarrow> Some (Inl e)
         | Inr i \<Rightarrow> do {
             info \<leftarrow> fd_at p i;
             case fi_data info of FdDev dev \<Rightarrow> do {
               r \<leftarrow> find_udrv (MAJOR (ucast (dev_rdev dev))) t;
               Some (case r of None \<Rightarrow> Inl (- ENOEXIST) | Some d \<Rightarrow> Inr (d, MINOR (ucast (dev_rdev dev)))) }
             | _ \<Rightarrow> Some (Inl (- EINVAL)) } })"

definition udevr_read :: "int \<Rightarrow> u64 \<Rightarrow> process_state \<Rightarrow> 'd udevr \<Rightarrow> 'd \<Rightarrow> ((int \<times> u8 list) \<times> 'd) option" where
  "udevr_read fd sz p u dv = do {
     r \<leftarrow> udevr_target fd p u;
     case r of Inl e \<Rightarrow> Some ((e, []), dv)
     | Inr (d, mnr) \<Rightarrow>
         if ud_flags d AND 0x0001 \<noteq> 0 then do { rd \<leftarrow> ud_read d; rd (ucast mnr) sz dv }
         else Some ((- EACCESS, []), dv) }"

definition udevr_write :: "int \<Rightarrow> u8 list \<Rightarrow> process_state \<Rightarrow> 'd udevr \<Rightarrow> 'd \<Rightarrow> (int \<times> 'd) option" where
  "udevr_write fd buf p u dv = do {
     r \<leftarrow> udevr_target fd p u;
     case r of Inl e \<Rightarrow> Some (e, dv)
     | Inr (d, mnr) \<Rightarrow>
         if ud_flags d AND 0x0002 \<noteq> 0 then do { wr \<leftarrow> ud_write d; wr (ucast mnr) buf dv }
         else Some (- EACCESS, dv) }"

section \<open>Properties\<close>

lemma find_udrv_none:
  "\<forall>d \<in> set ds. ud_used d \<longrightarrow> ucast (ud_id d) \<noteq> n \<Longrightarrow> find_udrv n (map Some ds) = Some None"
  by (induction ds) auto

lemma find_udrv_first:
  "find (\<lambda>d. ud_used d \<and> ucast (ud_id d) = n) ds = Some d \<Longrightarrow> find_udrv n (map Some ds) = Some (Some d)"
  by (induction ds) (auto split: if_splits)

text \<open>A device number of a descriptor has 16 bits, and the major number starts at bit 20.\<close>

lemma major_u16: "MAJOR (ucast (r :: u16)) = 0"
  unfolding MAJOR_def by (rule bit_word_eqI) (auto simp: bit_simps dest: bit_imp_le_length)

text \<open>
  C30. Device files do not reach their drivers.  The device number in an open device has lost
  its major number, so unless a driver registered with number 0, reading or writing a device
  descriptor fails with \<^verbatim>\<open>-ENOEXIST\<close> whatever drivers there are.
\<close>

theorem udevr_unreachable:
  assumes "ur_tbl u = Some (map Some ds)" and "\<forall>d \<in> set ds. ud_used d \<longrightarrow> ud_id d \<noteq> 0"
    and "getfd p fd = Some (Inr i)" and "fd_at p i = Some info" and "fi_data info = FdDev dev"
  shows "udevr_read fd sz p u dv = Some ((- ENOEXIST, []), dv) \<and> udevr_write fd buf p u dv = Some (- ENOEXIST, dv)"
proof -
  have "ucast (ud_id d) \<noteq> (0 :: u32)" if "ud_id d \<noteq> 0" for d :: "'a udrv"
    using that by (simp add: word_unat_eq_iff unat_ucast_widen)
  then have "find_udrv 0 (map Some ds) = Some None" using assms(2) by (intro find_udrv_none) auto
  then have "udevr_target fd p u = Some (Inl (- ENOEXIST))" using assms by (simp add: udevr_target_def major_u16)
  then show ?thesis by (simp add: udevr_read_def udevr_write_def)
qed

definition rng_demo :: "unit udevr" where
  "rng_demo = \<lparr>ur_tbl = Some [Some (zero_udrv\<lparr>ud_used := True, ud_id := 1, ud_flags := 1,
     ud_read := Some (\<lambda>_ sz dv. Some ((int (unat sz), replicate (unat sz) 4), dv))\<rparr>)], ur_devfs = True\<rparr>"

definition dev_proc :: process_state where
  "dev_proc = zero_proc\<lparr>p_fds := Some [Some \<lparr>fi_fd = 0, fi_inuse = True,
     fi_data = FdDev \<lparr>dev_mode = S_IFCHR, dev_rdev = ucast (MKDEV 1 0)\<rparr>\<rparr>], p_nfds := 1\<rparr>"

theorem udevr_unreachable_witness: "udevr_read 0 8 dev_proc rng_demo () = Some ((- ENOEXIST, []), ())"
proof -
  have t: "ur_tbl rng_demo = Some (map Some [zero_udrv\<lparr>ud_used := True, ud_id := 1, ud_flags := 1,
     ud_read := Some (\<lambda>_ sz dv. Some ((int (unat sz), replicate (unat sz) 4), dv))\<rparr>])" by (simp add: rng_demo_def)
  have g: "getfd dev_proc 0 = Some (Inr 0)" by (simp add: dev_proc_def getfd_def)
  have f: "fd_at dev_proc 0 = Some \<lparr>fi_fd = 0, fi_inuse = True, fi_data = FdDev \<lparr>dev_mode = S_IFCHR, dev_rdev = ucast (MKDEV 1 0)\<rparr>\<rparr>"
    by (simp add: dev_proc_def fd_at_def)
  show ?thesis using udevr_unreachable [OF t _ g f, of "\<lparr>dev_mode = S_IFCHR, dev_rdev = ucast (MKDEV 1 0)\<rparr>" 8 "()"] by simp
qed

text \<open>Registering one driver more than the table holds clears the entries of old drivers.\<close>

lemma free_udrv_full: "\<forall>d \<in> set ds. ud_used d \<Longrightarrow> free_udrv (map Some ds) i = Some None"
  by (induction ds arbitrary: i) auto

lemma udevr_growth_erases:
  assumes "ur_tbl u = Some (map Some ds)" and "length ds = 128" and "\<forall>d \<in> set ds. ud_used d" and "length name < 32"
    and "3 \<le> j" and "j < 18"
  shows "\<exists>u' t'. udevr_register True did name flags rd wr u = Some (0, u') \<and> ur_tbl u' = Some t'
    \<and> (\<exists>d. t' ! j = Some d \<and> \<not> ud_used d \<and> ud_read d = None)"
proof -
  have "wiped 128 j 0" "wiped 128 j 40" using assms(5,6) by (auto simp: wiped_def)
  then have w: "\<not> ud_used (wipe_udrv 128 j d)" "ud_read (wipe_udrv 128 j d) = None" for d :: "'a udrv"
    by (simp_all add: wipe_udrv_def)
  define d1 where "d1 = the (fill_udrv did name flags rd wr zero_udrv)"
  have f: "fill_udrv did name flags rd wr zero_udrv = Some d1" using assms(4) by (simp add: d1_def fill_udrv_def)
  let ?t = "(grow_udevr (map Some ds))[128 := Some d1]"
  have "udevr_register True did name flags rd wr u = Some (0, u\<lparr>ur_tbl := Some ?t\<rparr>)"
    using assms(1,2) f by (simp add: udevr_register_def free_udrv_full [OF assms(3)])
  moreover have "?t ! j = Some (wipe_udrv 128 j (ds ! j))"
    using assms(2,6) by (simp add: grow_udevr_def nth_append)
  ultimately show ?thesis using w by (intro exI conjI) (assumption | simp)+
qed

end
