(* ===== verification/Rng.thy ===== *)
theory Rng
  imports Udevr Kqueue
begin

text \<open>
  Random numbers, \<^verbatim>\<open>drivers/rng/rng.c\<close>.  The hardware sources are drivers of a table; a driver
  works on a state \<^typ>\<open>'h\<close> of the hardware and is an argument here (the instruction \<^verbatim>\<open>rdrand\<close> for the
  driver in this file).  A read returns the number of bytes or an error, and the bytes.
  Bytes from all sources are mixed into a pool, a kernel queue of 8192 bytes, from which
  \<^verbatim>\<open>random_bytes\<close> takes.  Using bytes that a driver did not write is \<^term>\<open>None\<close>, and so is a request
  that never ends.
\<close>

section \<open>State\<close>

record 'h rngdrv =
  rd_name :: cstr
  rd_available :: "'h \<Rightarrow> bool \<times> 'h"
  rd_init :: "'h \<Rightarrow> int \<times> 'h"
  rd_read :: "nat \<Rightarrow> 'h \<Rightarrow> (int \<times> u8 list) \<times> 'h"
  rd_active :: bool

record 'h rng =
  rg_entq :: "kqueue option"
  rg_drv :: "'h rngdrv list"
  rg_hw :: 'h

section \<open>The rdrand driver\<close>

definition le_bytes :: "nat \<Rightarrow> u64 \<Rightarrow> u8 list" where
  "le_bytes n w = map (\<lambda>i. ucast (drop_bit (8 * i) w)) [0..<n]"

fun rdrand_try :: "('h \<Rightarrow> u64 option \<times> 'h) \<Rightarrow> nat \<Rightarrow> 'h \<Rightarrow> u64 option \<times> 'h" where
  "rdrand_try ins 0 h = (None, h)"
| "rdrand_try ins (Suc n) h = (case ins h of (Some v, h) \<Rightarrow> (Some v, h) | (None, h) \<Rightarrow> rdrand_try ins n h)"

function rdrand_loop :: "('h \<Rightarrow> u64 option \<times> 'h) \<Rightarrow> nat \<Rightarrow> u8 list \<Rightarrow> 'h \<Rightarrow> u8 list \<times> 'h" where
  "rdrand_loop ins len buf h =
     (if length buf < len then
        case rdrand_try ins 32 h of
          (None, h) \<Rightarrow> (buf, h)
        | (Some v, h) \<Rightarrow> rdrand_loop ins len (buf @ le_bytes (min (len - length buf) 8) v) h
      else (buf, h))"
  by pat_completeness auto
termination
  by (relation "measure (\<lambda>(_, len, buf, _). len - length buf)") (auto simp: le_bytes_def)

definition rdrand_read :: "('h \<Rightarrow> u64 option \<times> 'h) \<Rightarrow> nat \<Rightarrow> 'h \<Rightarrow> (int \<times> u8 list) \<times> 'h" where
  "rdrand_read ins len h = (case rdrand_loop ins len [] h of (buf, h) \<Rightarrow> ((int (length buf), buf), h))"

section \<open>The pool\<close>

text \<open>Mixing the bytes of a source into the buffer.\<close>

definition mix_bytes :: "u8 list \<Rightarrow> nat \<Rightarrow> u8 list \<Rightarrow> u8 list option" where
  "mix_bytes tbuf r mixbuf =
     (if r \<le> length mixbuf \<and> r \<le> length tbuf
      then Some (map2 (XOR) (take r tbuf) (take r mixbuf) @ drop r tbuf) else None)"

text \<open>The loop over the sources: whether any delivered, the largest number of bytes, the buffer.\<close>

fun collect :: "'h rngdrv list \<Rightarrow> bool \<Rightarrow> nat \<Rightarrow> u8 list \<Rightarrow> 'h \<Rightarrow> ((bool \<times> nat \<times> u8 list) \<times> 'h) option" where
  "collect [] anyc n tbuf h = Some ((anyc, n, tbuf), h)"
| "collect (d # ds) anyc n tbuf h =
     (if \<not> rd_active d \<or> anyc \<and> rd_name d = lit ''CPU Jitter TRNG'' then collect ds anyc n tbuf h
      else case rd_read d 256 h of ((r, mixbuf), h) \<Rightarrow>
        if r > 0 then do {
          tbuf \<leftarrow> mix_bytes tbuf (nat r) mixbuf;
          collect ds True (max n (nat r)) tbuf h }
        else collect ds anyc n tbuf h)"

definition rng_fillpool :: "'h rng \<Rightarrow> (int \<times> 'h rng) option" where
  "rng_fillpool s =
     (if kqueue_queued (rg_entq s) < 256 then do {
        ((anyc, n, tbuf), h) \<leftarrow> collect (rg_drv s) False 0 (replicate 256 0) (rg_hw s);
        let q = (if anyc \<and> n > 0 then fst (kqueue_enqueue (rg_entq s) (Some tbuf) (of_nat n)) else rg_entq s);
        Some (if anyc then 0 else - 1, s\<lparr>rg_entq := q, rg_hw := h\<rparr>) }
      else Some (0, s))"

text \<open>The first active source that delivers anything, asked for \<open>n\<close> bytes.\<close>

fun direct_read :: "'h rngdrv list \<Rightarrow> nat \<Rightarrow> 'h \<Rightarrow> (u8 list \<times> 'h) option" where
  "direct_read [] n h = Some ([], h)"
| "direct_read (d # ds) n h =
     (if \<not> rd_active d then direct_read ds n h
      else case rd_read d n h of ((r, bytes), h) \<Rightarrow>
        if r > 0 then if nat r \<le> n \<and> nat r \<le> length bytes then Some (take (nat r) bytes, h) else None
        else direct_read ds n h)"

definition pool_take :: "nat \<Rightarrow> 'h rng \<Rightarrow> u8 list \<times> 'h rng" where
  "pool_take n s = (case kqueue_dequeue (rg_entq s) (Some (replicate n 0)) (of_nat n) of
     (q, d, m) \<Rightarrow> (take (unat m) (the d), s\<lparr>rg_entq := q\<rparr>))"

text \<open>The loop of \<^verbatim>\<open>random_bytes\<close>; \<open>buf\<close> is what has been delivered.\<close>

partial_function (option) random_loop :: "nat \<Rightarrow> u8 list \<Rightarrow> 'h rng \<Rightarrow> ((int \<times> u8 list) \<times> 'h rng) option" where
  "random_loop sz buf s =
     (if length buf < sz then do {
        (f, s) \<leftarrow> rng_fillpool s;
        if f < 0 \<and> kqueue_queued (rg_entq s) = 0 then do {
          (xs, h) \<leftarrow> direct_read (rg_drv s) (sz - length buf) (rg_hw s);
          if buf @ xs = [] then Some ((- 1, buf), s\<lparr>rg_hw := h\<rparr>)
          else random_loop sz (buf @ xs) (s\<lparr>rg_hw := h\<rparr>) }
        else do {
          let (xs, s) = pool_take (sz - length buf) s;
          if xs = [] then do {
            (f, s) \<leftarrow> rng_fillpool s;
            if f < 0 then do {
              (xs, h) \<leftarrow> direct_read (rg_drv s) 1 (rg_hw s);
              if xs = [] then Some ((- 1, buf), s\<lparr>rg_hw := h\<rparr>)
              else random_loop sz (buf @ xs) (s\<lparr>rg_hw := h\<rparr>) }
            else random_loop sz buf s }
          else random_loop sz (buf @ xs) s } }
      else Some ((0, buf), s))"

definition random_bytes :: "nat \<Rightarrow> 'h rng \<Rightarrow> ((int \<times> u8 list) \<times> 'h rng) option" where
  "random_bytes sz s = random_loop sz [] s"

text \<open>The buffer of \<^verbatim>\<open>random64\<close> is zero where nothing was delivered.\<close>

definition random64 :: "'h rng \<Rightarrow> (u64 \<times> 'h rng) option" where
  "random64 s = do {
     ((_, bytes), s) \<leftarrow> random_bytes 8 s;
     Some (foldr (\<lambda>b w. push_bit 8 w OR ucast b) bytes 0, s) }"

definition randombyte :: "'h rng \<Rightarrow> (u8 \<times> 'h rng) option" where
  "randombyte s = do {
     ((_, bytes), s) \<leftarrow> random_bytes 1 s;
     Some (case bytes of [] \<Rightarrow> 0 | b # _ \<Rightarrow> b, s) }"

section \<open>The device\<close>

definition rng_read :: "u16 \<Rightarrow> u64 \<Rightarrow> 'h rng \<Rightarrow> ((int \<times> u8 list) \<times> 'h rng) option" where
  "rng_read dev sz s = do {
     ((r, bytes), s) \<leftarrow> random_bytes (unat sz) s;
     Some (if r < 0 then ((- 1, bytes), s) else ((sint sz, bytes), s)) }"

fun init_drivers :: "'h rngdrv list \<Rightarrow> 'h \<Rightarrow> 'h rngdrv list \<times> nat \<times> 'h" where
  "init_drivers [] h = ([], 0, h)"
| "init_drivers (d # ds) h =
     (let (av, h) = rd_available d h;
          (ok, h) = (if av then (let (r, h) = rd_init d h in (r = 0, h)) else (False, h));
          (ds, n, h) = init_drivers ds h
      in ((if ok then d\<lparr>rd_active := True\<rparr> else d) # ds, (if ok then Suc n else n), h))"

definition rng_init :: "bool \<times> u8 list option \<Rightarrow> bool \<Rightarrow> 'h rng \<Rightarrow> 'h rng udevr \<Rightarrow> 's kfs
    \<Rightarrow> (int \<times> 'h rng \<times> 'h rng udevr \<times> 's kfs) option" where
  "rng_init mem ok s u k =
     (let s = s\<lparr>rg_entq := kqueue_init 8192 (fst mem) (snd mem)\<rparr> in
      if rg_entq s = None then Some (- 1, s, u, k)
      else let (ds, n, h) = init_drivers (rg_drv s) (rg_hw s); s = s\<lparr>rg_drv := ds, rg_hw := h\<rparr> in
        if n = 0 then Some (- 1, s, u, k)
        else do {
          (r, u) \<leftarrow> udevr_register ok 1 (lit ''rng'') 1 (Some rng_read) None u;
          if r < 0 then Some (0, s, u, k)
          else do {
            (_, k) \<leftarrow> udevr_regdev 1 0 k u;
            Some (0, s, u, k) } })"

section \<open>Sources that deliver\<close>

text \<open>Every active source fills a request of 256 bytes, and there is one.\<close>

definition good_sources :: "'h rngdrv list \<Rightarrow> bool" where
  "good_sources ds \<longleftrightarrow> (\<exists>d \<in> set ds. rd_active d)
     \<and> (\<forall>d \<in> set ds. rd_active d \<longrightarrow> (\<forall>h. \<exists>bs h'. rd_read d 256 h = ((256, bs), h') \<and> 256 \<le> length bs))"

lemma mix_full:
  assumes "length tbuf = 256" and "256 \<le> length bs"
  shows "\<exists>t. mix_bytes tbuf 256 bs = Some t \<and> length t = 256"
  using assms by (simp add: mix_bytes_def)

lemma collect_full:
  assumes "\<forall>d \<in> set ds. rd_active d \<longrightarrow> (\<forall>h. \<exists>bs h'. rd_read d 256 h = ((256, bs), h') \<and> 256 \<le> length bs)"
    and "length tbuf = 256" and "anyc \<longleftrightarrow> n = 256" and "n \<le> 256"
  shows "\<exists>xs h'. collect ds anyc n tbuf h = Some ((anyc \<or> (\<exists>d \<in> set ds. rd_active d), if anyc \<or> (\<exists>d \<in> set ds. rd_active d) then 256 else n, xs), h')
    \<and> length xs = 256"
  using assms
proof (induction ds arbitrary: anyc n tbuf h)
  case (Cons d ds)
  show ?case
  proof (cases "\<not> rd_active d \<or> anyc \<and> rd_name d = lit ''CPU Jitter TRNG''")
    case True
    then show ?thesis using Cons.IH [of tbuf anyc n h] Cons.prems by auto
  next
    case False
    obtain bs h' where r: "rd_read d 256 h = ((256, bs), h')" "256 \<le> length bs"
      using Cons.prems(1) False by (metis list.set_intros(1))
    obtain t where t: "mix_bytes tbuf 256 bs = Some t" "length t = 256" using mix_full [OF Cons.prems(2) r(2)] by blast
    have "max n 256 = 256" using Cons.prems(4) by simp
    then show ?thesis using Cons.IH [of t True 256 h'] Cons.prems(1) False r t by auto
  qed
qed simp

lemma collect_good:
  assumes "good_sources ds"
  shows "\<exists>xs h'. collect ds False 0 (replicate 256 0) h = Some ((True, 256, xs), h') \<and> length xs = 256"
  using collect_full [of ds "replicate 256 0" False 0 h] assms by (auto simp: good_sources_def)

section \<open>The pool repeats\<close>

lemma dequeue_loop_data:
  assumes "unat (kq_tail q) + k \<le> 256" and "256 < unat (kq_sz q)" and "length (kq_buf q) = unat (kq_sz q)" and "i + k \<le> length d"
  shows "fst (dequeue_loop k i d q) = take i d @ take k (drop (unat (kq_tail q)) (kq_buf q)) @ drop (i + k) d"
  using assms
proof (induction k arbitrary: i d q)
  case (Suc k)
  let ?t = "unat (kq_tail q)"
  let ?q1 = "q\<lparr>kq_tail := ucast ((ucast (kq_tail q) + 1 :: u64) mod kq_sz q)\<rparr>"
  let ?d1 = "d[i := kq_buf q ! ?t]"
  have u: "unat (ucast (kq_tail q) + 1 :: u64) = Suc ?t"
    using Suc.prems(1) by (simp add: unat_word_ariths unat_ucast_widen)
  have dr: "drop ?t (kq_buf q) = kq_buf q ! ?t # drop (Suc ?t) (kq_buf q)"
    using Suc.prems(1-3) by (simp add: Cons_nth_drop_Suc)
  have tk: "take (Suc i) ?d1 = take i d @ [kq_buf q ! ?t]" "drop (Suc i + k) ?d1 = drop (i + Suc k) d"
    using Suc.prems(4) by (simp_all add: take_Suc_conv_app_nth)
  show ?case
  proof (cases k)
    case 0
    then show ?thesis using dr Suc.prems(4) by (simp add: upd_conv_take_nth_drop)
  next
    case (Suc k')
    then have "unat (kq_tail ?q1) = Suc ?t" using u Suc.prems(1,2) by (simp add: unat_ucast_mod unat_mod_distrib)
    then show ?thesis using Suc.IH [of ?q1 "Suc i" ?d1] Suc.prems tk dr by simp
  qed
qed simp

lemma enqueue_loop_data:
  assumes "unat (kq_head q) + k \<le> unat (kq_sz q)" and "length (kq_buf q) = unat (kq_sz q)" and "0 < kq_sz q" and "unat (kq_head q) < unat (kq_sz q)" and "i + k \<le> length d"
  shows "kq_buf (enqueue_loop k i d q) = take (unat (kq_head q)) (kq_buf q) @ take k (drop i d) @ drop (unat (kq_head q) + k) (kq_buf q)
    \<and> unat (kq_head (enqueue_loop k i d q)) = (unat (kq_head q) + k) mod unat (kq_sz q)"
  using assms
proof (induction k arbitrary: i q)
  case (Suc k)
  let ?h = "unat (kq_head q)"
  let ?q1 = "q\<lparr>kq_buf := (kq_buf q)[?h := d ! i], kq_head := (kq_head q + 1) mod kq_sz q\<rparr>"
  have hl: "kq_head q < kq_sz q" using Suc.prems(4) by (simp add: word_less_nat_alt)
  have h1: "unat (kq_head ?q1) = Suc ?h mod unat (kq_sz q)" using unat_mod_Suc [OF hl] by simp
  have tk: "take (Suc ?h) ((kq_buf q)[?h := d ! i]) = take ?h (kq_buf q) @ [d ! i]"
    using Suc.prems(2,4) by (simp add: take_Suc_conv_app_nth)
  have dd: "take (Suc k) (drop i d) = d ! i # take k (drop (Suc i) d)"
    using Suc.prems(5) by (simp add: take_Suc_conv_app_nth Cons_nth_drop_Suc [symmetric])
  show ?case
  proof (cases k)
    case 0
    then show ?thesis using tk dd h1 Suc.prems(2,4) by (simp add: upd_conv_take_nth_drop)
  next
    case (Suc k')
    then have "Suc ?h < unat (kq_sz q)" using Suc.prems(1) by simp
    moreover from this have "unat (kq_head ?q1) = Suc ?h" using h1 by simp
    ultimately show ?thesis using Suc.IH [of ?q1 "Suc i"] Suc.prems tk dd by simp
  qed
qed simp

lemma kq_sz_enqueue_loop [simp]: "kq_sz (enqueue_loop k i d q) = kq_sz q"
  by (induction k arbitrary: i q) simp_all

text \<open>One request of 256 bytes when the pool is empty, with the read index 0: the 256 bytes come from
  the first 256 slots.\<close>

lemma empty_pool_request:
  assumes "good_sources (rg_drv s)" and "rg_entq s = Some q" and "kq_sz q = 8192" and "kq_tail q = 0" and "kq_cnt q = 0"
    and "length (kq_buf q) = 8192" and "unat (kq_head q) = 256 * k" and "k < 32"
  shows "\<exists>ws s' q'. random_bytes 256 s = Some ((0, if k = 0 then ws else take 256 (kq_buf q)), s') \<and> length ws = 256
    \<and> rg_drv s' = rg_drv s \<and> rg_entq s' = Some q' \<and> kq_sz q' = 8192 \<and> kq_tail q' = 0 \<and> kq_cnt q' = 0
    \<and> length (kq_buf q') = 8192 \<and> take 256 (kq_buf q') = (if k = 0 then ws else take 256 (kq_buf q))
    \<and> unat (kq_head q') = 256 * Suc k mod 8192"
proof -
  obtain ws h where c: "collect (rg_drv s) False 0 (replicate 256 0) (rg_hw s) = Some ((True, 256, ws), h)" "length ws = 256"
    using collect_good [OF assms(1)] by blast
  define q1 where "q1 = (enqueue_loop 256 0 ws q)\<lparr>kq_cnt := 256\<rparr>"
  have e: "kqueue_enqueue (Some q) (Some ws) 256 = (Some q1, 256)"
    using assms(3,5) by (simp add: kqueue_enqueue_def q1_def Let_def)
  have hs: "256 * k + 256 \<le> 8192" using assms(8) by simp
  note d = enqueue_loop_data [of q 256 0 ws, unfolded assms(3,7)]
  have sz: "unat (8192 :: u64) = 8192" by simp
  have b1: "kq_buf q1 = take (256 * k) (kq_buf q) @ ws @ drop (256 * k + 256) (kq_buf q)"
    "unat (kq_head q1) = (256 * k + 256) mod 8192"
    using d assms(6) hs c(2) by (simp_all add: q1_def)
  have mc: "256 * Suc k = 256 * k + 256" by simp
  have f1: "kq_sz q1 = 8192" "kq_tail q1 = 0" "kq_cnt q1 = 256"
    using assms(3,4) by (simp_all add: q1_def)
  have l1: "length (kq_buf q1) = 8192" using b1(1) assms(6) hs c(2) by simp
  have t1: "take 256 (kq_buf q1) = (if k = 0 then ws else take 256 (kq_buf q))"
  proof (cases "k = 0")
    case False
    then have "256 \<le> 256 * k" by simp
    then show ?thesis using b1(1) False assms(6) hs by (simp add: min_def)
  qed (use b1(1) c(2) in simp)
  define q2 where "q2 = (snd (dequeue_loop 256 0 (replicate 256 0) q1))\<lparr>kq_cnt := 0\<rparr>"
  have dq: "fst (dequeue_loop 256 0 (replicate 256 0) q1) = take 256 (kq_buf q1)"
    using dequeue_loop_data [of q1 256 0 "replicate 256 0"] f1 l1 by simp
  have deq: "kqueue_dequeue (Some q1) (Some (replicate 256 0)) 256 = (Some q2, Some (take 256 (kq_buf q1)), 256)"
    using f1(3) dq by (simp add: kqueue_dequeue_def Let_def case_prod_beta q2_def)
  let ?s1 = "s\<lparr>rg_entq := Some q1, rg_hw := h\<rparr>"
  let ?s2 = "?s1\<lparr>rg_entq := Some q2\<rparr>"
  have fp: "rng_fillpool s = Some (0, ?s1)"
    using assms(2,5) c(1) e by (simp add: rng_fillpool_def kqueue_queued_def)
  have pt: "pool_take 256 ?s1 = (take 256 (kq_buf q1), ?s2)" using deq l1 by (simp add: pool_take_def)
  have ne: "take 256 (kq_buf q1) \<noteq> []" "length (take 256 (kq_buf q1)) = 256" using l1 by auto
  have "random_loop 256 (take 256 (kq_buf q1)) ?s2 = Some ((0, take 256 (kq_buf q1)), ?s2)"
    using ne(2) by (subst random_loop.simps) simp
  then have "random_bytes 256 s = Some ((0, take 256 (kq_buf q1)), ?s2)"
    unfolding random_bytes_def using fp pt ne(1) by (subst random_loop.simps) simp
  moreover have "kq_tail q2 = 0" "kq_sz q2 = 8192" "kq_buf q2 = kq_buf q1" "kq_head q2 = kq_head q1" "kq_cnt q2 = 0"
    using dequeue_256_tail [of q1 0 "replicate 256 0"] f1 by (simp_all add: q2_def)
  ultimately show ?thesis using c(2) t1 l1 b1(2)
    unfolding mc by (intro exI [of _ ws] exI [of _ ?s2] exI [of _ q2]) simp
qed

text \<open>The bytes of \<open>n\<close> requests of 256 bytes.\<close>

fun requests :: "nat \<Rightarrow> 'h rng \<Rightarrow> (u8 list list \<times> 'h rng) option" where
  "requests 0 s = Some ([], s)"
| "requests (Suc n) s = do {
     ((_, xs), s) \<leftarrow> random_bytes 256 s;
     (xss, s) \<leftarrow> requests n s;
     Some (xs # xss, s) }"

lemma stale_requests:
  assumes "good_sources (rg_drv s)" and "rg_entq s = Some q" and "kq_sz q = 8192" and "kq_tail q = 0" and "kq_cnt q = 0"
    and "length (kq_buf q) = 8192" and "unat (kq_head q) = 256 * k mod 8192" and "0 < k" and "k + n \<le> 32"
  shows "\<exists>s'. requests n s = Some (replicate n (take 256 (kq_buf q)), s')"
  using assms
proof (induction n arbitrary: s q k)
  case (Suc n)
  have k: "k < 32" "256 * k mod 8192 = 256 * k" using Suc.prems(9) by simp_all
  obtain s1 q1 where s1: "random_bytes 256 s = Some ((0, take 256 (kq_buf q)), s1)" "rg_drv s1 = rg_drv s"
    "rg_entq s1 = Some q1" "kq_sz q1 = 8192" "kq_tail q1 = 0" "kq_cnt q1 = 0" "length (kq_buf q1) = 8192"
    "take 256 (kq_buf q1) = take 256 (kq_buf q)" "unat (kq_head q1) = 256 * Suc k mod 8192"
    using empty_pool_request [OF Suc.prems(1-6) _ k(1)] Suc.prems(7,8) k(2) by auto
  show ?case using Suc.IH [of s1 q1 "Suc k"] Suc.prems(1,9) s1 by auto
qed simp

text \<open>
  C12. The random numbers repeat.  After the pool is set up, and with sources that always deliver,
  each of the first 32 requests of 256 bytes returns the same 256 bytes, although
  every request mixes new bytes from the hardware into the pool.
\<close>

theorem random_bytes_repeat:
  assumes "good_sources (rg_drv s)" and "kqueue_init 8192 True (Some mem) = Some q" and "length mem = 8192"
    and "rg_entq s = Some q" and "n < 32"
  shows "\<exists>xs s'. requests (Suc n) s = Some (replicate (Suc n) xs, s')"
proof -
  have q: "q = kq_fresh 8192 mem" using assms(2) kqueue_init_fresh [of 8192 mem] by simp
  have f: "kq_sz q = 8192" "kq_tail q = 0" "kq_cnt q = 0" "length (kq_buf q) = 8192" "unat (kq_head q) = 256 * 0"
    using assms(3) by (simp_all add: q kq_fresh_def)
  obtain ws s1 q1 where s1: "random_bytes 256 s = Some ((0, ws), s1)" "rg_drv s1 = rg_drv s" "rg_entq s1 = Some q1"
    "kq_sz q1 = 8192" "kq_tail q1 = 0" "kq_cnt q1 = 0" "length (kq_buf q1) = 8192" "take 256 (kq_buf q1) = ws"
    "unat (kq_head q1) = 256 * 1 mod 8192"
    using empty_pool_request [OF assms(1,4) f] by auto
  obtain s2 where "requests n s1 = Some (replicate n ws, s2)"
    using stale_requests [of s1 q1 1 n] assms(1,5) s1 by auto
  then show ?thesis using s1(1) by (intro exI [of _ ws] exI [of _ s2]) simp
qed

text \<open>A source that counts: its bytes are never twice the same in a row.\<close>

definition counter_drv :: "u8 rngdrv" where
  "counter_drv = \<lparr>rd_name = lit ''RDRAND'', rd_available = (\<lambda>h. (True, h)), rd_init = (\<lambda>h. (0, h)),
     rd_read = (\<lambda>n h. ((int n, replicate n h), h + 1)), rd_active = True\<rparr>"

theorem random_bytes_repeat_witness:
  "\<exists>xs s'. requests 2 \<lparr>rg_entq = kqueue_init 8192 True (Some (replicate 8192 0)), rg_drv = [counter_drv], rg_hw = 1\<rparr>
     = Some ([xs, xs], s')"
proof -
  obtain q where q: "kqueue_init 8192 True (Some (replicate 8192 0)) = Some q"
    using kqueue_init_fresh [of 8192 "replicate 8192 0"] by simp
  have g: "good_sources [counter_drv]" by (simp add: good_sources_def counter_drv_def)
  show ?thesis
    using random_bytes_repeat [of "\<lparr>rg_entq = Some q, rg_drv = [counter_drv], rg_hw = 1\<rparr>" "replicate 8192 0" q 1] g q
    by (simp add: numeral_2_eq_2)
qed

section \<open>Requests end\<close>

definition pool_ok :: "'h rng \<Rightarrow> bool" where
  "pool_ok s \<longleftrightarrow> good_sources (rg_drv s) \<and> (\<exists>q. rg_entq s = Some q \<and> kq_sz q = 8192 \<and> kq_cnt q \<le> 8192)"

lemma fillpool_good:
  assumes "pool_ok s"
  shows "\<exists>s' q. rng_fillpool s = Some (0, s') \<and> rg_drv s' = rg_drv s \<and> rg_entq s' = Some q \<and> kq_sz q = 8192
    \<and> 256 \<le> kq_cnt q \<and> kq_cnt q \<le> 8192"
proof -
  obtain q where q: "rg_entq s = Some q" "kq_sz q = 8192" "kq_cnt q \<le> 8192" "good_sources (rg_drv s)"
    using assms by (auto simp: pool_ok_def)
  show ?thesis
  proof (cases "kq_cnt q < 256")
    case True
    obtain ws h where c: "collect (rg_drv s) False 0 (replicate 256 0) (rg_hw s) = Some ((True, 256, ws), h)"
      using collect_good [OF q(4)] by blast
    have u: "unat (kq_cnt q) < 256" using True by (simp add: word_less_nat_alt)
    have u1: "unat (8192 - kq_cnt q) = 8192 - unat (kq_cnt q)" using q(3) by (simp add: unat_sub)
    have u2: "unat (kq_cnt q + 256) = unat (kq_cnt q) + 256" using u by (subst unat_plus_no_wrap) simp_all
    have av: "256 < 8192 - kq_cnt q" "256 \<le> kq_cnt q + 256" "kq_cnt q + 256 \<le> 8192"
      unfolding word_less_nat_alt word_le_nat_alt u1 u2 using u by simp_all
    then have e: "fst (kqueue_enqueue (Some q) (Some ws) 256) = Some ((enqueue_loop 256 0 ws q)\<lparr>kq_cnt := kq_cnt q + 256\<rparr>)"
      using q(2) by (simp add: kqueue_enqueue_def Let_def)
    have "rng_fillpool s = Some (0, s\<lparr>rg_entq := Some ((enqueue_loop 256 0 ws q)\<lparr>kq_cnt := kq_cnt q + 256\<rparr>), rg_hw := h\<rparr>)"
      using True q(1) c e by (simp add: rng_fillpool_def kqueue_queued_def)
    then show ?thesis using q(2) av by simp
  next
    case False
    then have "rng_fillpool s = Some (0, s)" using q(1) by (simp add: rng_fillpool_def kqueue_queued_def)
    then show ?thesis using False q by (simp add: not_less)
  qed
qed

lemma pool_take_some:
  assumes "rg_entq s = Some q" and "kq_sz q = 8192" and "256 \<le> kq_cnt q" and "kq_cnt q \<le> 8192" and "0 < n" and "n < 2 ^ 64"
  shows "\<exists>xs s' q'. pool_take n s = (xs, s') \<and> xs \<noteq> [] \<and> length xs \<le> n \<and> rg_drv s' = rg_drv s \<and> rg_entq s' = Some q'
    \<and> kq_sz q' = 8192 \<and> kq_cnt q' \<le> 8192"
proof -
  let ?m = "if (of_nat n :: u64) < kq_cnt q then of_nat n else kq_cnt q"
  have u: "unat (of_nat n :: u64) = n" using assms(6) by (simp add: unat_of_nat)
  then have n0: "(of_nat n :: u64) \<noteq> 0" using assms(5) by (metis less_irrefl unat_0)
  have m: "0 < unat ?m" "unat ?m \<le> n" "kq_cnt q - ?m \<le> 8192"
    using u assms(3,4,5) by (auto simp: word_le_nat_alt word_less_nat_alt unat_sub)
  obtain d q1 where d: "dequeue_loop (unat ?m) 0 (replicate n 0) q = (d, q1)" by force
  have "kqueue_dequeue (Some q) (Some (replicate n 0)) (of_nat n) = (Some (q1\<lparr>kq_cnt := kq_cnt q1 - ?m\<rparr>), Some d, ?m)"
    using n0 d by (simp add: kqueue_dequeue_def Let_def)
  moreover have "length d = n" "kq_cnt q1 = kq_cnt q" "kq_sz q1 = kq_sz q"
    using length_dequeue_loop [of "unat ?m" 0 "replicate n 0" q] kq_cnt_dequeue_loop [of "unat ?m" 0 "replicate n 0" q]
      dequeue_loop_frame(2) [of "unat ?m" 0 "replicate n 0" q] unfolding d by simp_all
  ultimately show ?thesis using m assms(1,2) by (auto simp: pool_take_def)
qed

text \<open>
  C13. A request for random bytes ends with all the bytes asked for when the sources deliver,
  whatever the state of the pool.
\<close>

theorem random_bytes_returns:
  assumes "pool_ok s" and "sz < 2 ^ 64"
  shows "\<exists>bytes s'. random_bytes sz s = Some ((0, bytes), s') \<and> length bytes = sz \<and> pool_ok s'"
proof -
  have "\<exists>bytes s'. random_loop sz buf s = Some ((0, bytes), s') \<and> length bytes = sz \<and> pool_ok s'"
    if "pool_ok s" "length buf \<le> sz" for buf and s :: "'a rng"
    using that
  proof (induction "sz - length buf" arbitrary: buf s rule: less_induct)
    case less
    show ?case
    proof (cases "length buf < sz")
      case False
      then show ?thesis using less.prems by (subst random_loop.simps) simp
    next
      case True
      obtain s1 q where s1: "rng_fillpool s = Some (0, s1)" "rg_drv s1 = rg_drv s" "rg_entq s1 = Some q"
        "kq_sz q = 8192" "256 \<le> kq_cnt q" "kq_cnt q \<le> 8192" using fillpool_good [OF less.prems(1)] by blast
      have b: "0 < sz - length buf" "sz - length buf < 2 ^ 64" using True assms(2) by simp_all
      obtain xs s2 q2 where s2: "pool_take (sz - length buf) s1 = (xs, s2)" "xs \<noteq> []" "length xs \<le> sz - length buf"
        "rg_drv s2 = rg_drv s1" "rg_entq s2 = Some q2" "kq_sz q2 = 8192" "kq_cnt q2 \<le> 8192"
        using pool_take_some [OF s1(3-6) b] by blast
      have ok: "pool_ok s2" using s2 s1(2) less.prems(1) by (simp add: pool_ok_def)
      have l: "sz - length (buf @ xs) < sz - length buf" "length (buf @ xs) \<le> sz"
        using s2(2,3) True by (cases xs; simp)+
      have "random_loop sz buf s = random_loop sz (buf @ xs) s2"
        using True s1(1) s2(1,2) by (subst random_loop.simps) simp
      then show ?thesis using less.hyps [OF l(1) ok l(2)] by simp
    qed
  qed
  from this [of s "[]"] assms(1) show ?thesis by (simp add: random_bytes_def)
qed

theorem random_bytes_returns_witness:
  "\<exists>bytes s'. random_bytes 20000 \<lparr>rg_entq = kqueue_init 8192 True (Some (replicate 8192 0)), rg_drv = [counter_drv], rg_hw = 1\<rparr>
     = Some ((0, bytes), s') \<and> length bytes = 20000"
proof -
  have "pool_ok \<lparr>rg_entq = kqueue_init 8192 True (Some (replicate 8192 0)), rg_drv = [counter_drv], rg_hw = 1\<rparr>"
    using kqueue_init_fresh [of 8192 "replicate 8192 0"] by (simp add: pool_ok_def good_sources_def counter_drv_def kq_fresh_def)
  from random_bytes_returns [OF this, of 20000] show ?thesis by auto
qed

end
