(* ===== verification/Fdio.thy ===== *)
theory Fdio
  imports Udevr Fb Console Proc Vfs_Dir Usermem
begin

text \<open>
  The descriptor calls \<^verbatim>\<open>close\<close>, \<^verbatim>\<open>read\<close> and \<^verbatim>\<open>write\<close> of \<^verbatim>\<open>drivers/storage/fd/fd.c\<close>, which pass a call
  on to the file system, the device registry, the frame buffers or the console, by the kind
  of the descriptor.

  The components meet here, so the state of the kernel is put together: the processes, the
  file system, the frame buffers, the devices, the keyboard with the terminal, the mouse, the
  page tables, the memory of the running process, and the bytes sent to the serial line.  The
  component theories work on the entry of the current process; \<open>on_fs\<close> and \<open>on_fb\<close> run their
  operations on the entry in the process table.
\<close>

section \<open>The state of the kernel\<close>

record ('s, 'd) ksys =
  y_kst :: kst
  y_fs :: "'s kfs"
  y_fb :: fbs
  y_ud :: "'d udevr"
  y_dev :: 'd
  y_kbd :: keyboard
  y_rounds :: nat
  y_mouse :: mouse
  y_vm :: vmm_state
  y_mem :: "u64 \<Rightarrow> u8"
  y_serial :: "u8 list"

text \<open>What the environment does during a call: the terminal library, what happens while the
  keyboard or the mouse is waited for, and the addresses that allocations return.\<close>

record kenv =
  e_ft :: flanterm
  e_poll :: "nat \<Rightarrow> keyboard \<Rightarrow> keyboard"
  e_mpoll :: "nat \<Rightarrow> mouse \<Rightarrow> mouse"
  e_obj :: "u64 option"
  e_pix :: "u64 option"

definition y_cur :: "('s, 'd) ksys \<Rightarrow> process_state" where
  "y_cur y = cur (y_kst y)"

definition set_cur :: "process_state \<Rightarrow> ('s, 'd) ksys \<Rightarrow> ('s, 'd) ksys" where
  "set_cur p y = y\<lparr>y_kst := upd_cur (\<lambda>_. p) (y_kst y)\<rparr>"

definition on_fs :: "('s kfs \<Rightarrow> ('a \<times> 's kfs) option) \<Rightarrow> ('s, 'd) ksys \<Rightarrow> ('a \<times> ('s, 'd) ksys) option" where
  "on_fs f y = do {
     (r, k) \<leftarrow> f ((y_fs y)\<lparr>k_proc := y_cur y\<rparr>);
     Some (r, set_cur (k_proc k) (y\<lparr>y_fs := k\<rparr>)) }"

definition on_fb :: "(process_state \<Rightarrow> fbs \<Rightarrow> ('a \<times> process_state \<times> fbs) option) \<Rightarrow> ('s, 'd) ksys
    \<Rightarrow> ('a \<times> ('s, 'd) ksys) option" where
  "on_fb f y = do {
     (r, p, s) \<leftarrow> f (y_cur y) (y_fb y);
     Some (r, set_cur p (y\<lparr>y_fb := s\<rparr>)) }"

section \<open>Descriptor calls\<close>

text \<open>The descriptor and its contents, or the error.\<close>

definition y_getfd :: "int \<Rightarrow> ('s, 'd) ksys \<Rightarrow> (int + fdinfo) option" where
  "y_getfd fd y = do {
     r \<leftarrow> getfd (y_cur y) fd;
     case r of Inl e \<Rightarrow> Some (Inl e)
     | Inr i \<Rightarrow> do { info \<leftarrow> fd_at (y_cur y) i; Some (Inr info) } }"

definition y_closefd :: "int \<Rightarrow> ('s, 'd) ksys \<Rightarrow> (int \<times> ('s, 'd) ksys) option" where
  "y_closefd fd y = do { (r, p) \<leftarrow> closefd (y_cur y) fd; Some (r, set_cur p y) }"

definition fd_close :: "int \<Rightarrow> ('s, 'd) ksys \<Rightarrow> (int \<times> ('s, 'd) ksys) option" where
  "fd_close fd y = do {
     r \<leftarrow> y_getfd fd y;
     or_ret (\<lambda>e. (e, y)) r (\<lambda>info. case fi_data info of
         FdFile _ \<Rightarrow> y_closefd fd y
       | FdDev _ \<Rightarrow> y_closefd fd y
       | FdDir _ \<Rightarrow> y_closefd fd y
       | FdSock _ \<Rightarrow> Some (- EINVAL, y)
       | FdFb _ \<Rightarrow> on_fb (free_fb fd) y
       | FdFbw _ \<Rightarrow> on_fb (free_fb_withmem fd) y
       | FdIo _ \<Rightarrow> y_closefd fd y) }"

text \<open>The functions of a stream descriptor.\<close>

fun io_do_read :: "kenv \<Rightarrow> iofn \<Rightarrow> u64 \<Rightarrow> ('s, 'd) ksys \<Rightarrow> ((int \<times> memval list) \<times> ('s, 'd) ksys) option" where
  "io_do_read env Stdin_read sz y = do {
     ((n, bytes), m, k) \<leftarrow> stdin_read (e_ft env) (e_poll env) (unat sz) (y_rounds y) (y_kbd y);
     Some ((int n, map Byte bytes), y\<lparr>y_kbd := k, y_rounds := m\<rparr>) }"
| "io_do_read env Stdout_write sz y = None"

fun io_do_write :: "kenv \<Rightarrow> iofn \<Rightarrow> u8 list \<Rightarrow> ('s, 'd) ksys \<Rightarrow> (int \<times> ('s, 'd) ksys) option" where
  "io_do_write env Stdout_write buf y =
     (let (n, k) = stdout_write (e_ft env) buf (y_kbd y) in Some (int n, y\<lparr>y_kbd := k\<rparr>))"
| "io_do_write env Stdin_read buf y = None"

definition fd_read :: "kenv \<Rightarrow> int \<Rightarrow> u64 \<Rightarrow> ('s, 'd) ksys \<Rightarrow> ((int \<times> memval list) \<times> ('s, 'd) ksys) option" where
  "fd_read env fd sz y = do {
     r \<leftarrow> y_getfd fd y;
     or_ret (\<lambda>e. ((e, []), y)) r (\<lambda>info. case fi_data info of
         FdFile _ \<Rightarrow> on_fs (\<lambda>k. fsread k fd sz) y
       | FdDir _ \<Rightarrow> Some ((- EINVAL, []), y)
       | FdFb _ \<Rightarrow> Some ((- EINVAL, []), y)
       | FdFbw _ \<Rightarrow> Some ((- EINVAL, []), y)
       | FdSock _ \<Rightarrow> Some ((- EINVAL, []), y)
       | FdIo io \<Rightarrow> if io_in io then do { f \<leftarrow> io_read io; io_do_read env f sz y } else Some ((- EBADF, []), y)
       | FdDev _ \<Rightarrow> do {
           ((n, bytes), d) \<leftarrow> udevr_read fd sz (y_cur y) (y_ud y) (y_dev y);
           Some ((n, map Byte bytes), y\<lparr>y_dev := d\<rparr>) }) }"

definition fd_write :: "kenv \<Rightarrow> int \<Rightarrow> u8 list \<Rightarrow> ('s, 'd) ksys \<Rightarrow> (int \<times> ('s, 'd) ksys) option" where
  "fd_write env fd buf y = do {
     r \<leftarrow> y_getfd fd y;
     or_ret (\<lambda>e. (e, y)) r (\<lambda>info. case fi_data info of
         FdFile _ \<Rightarrow> on_fs (\<lambda>k. fswrite k fd (map Byte buf) (of_nat (length buf))) y
       | FdDir _ \<Rightarrow> Some (- EINVAL, y)
       | FdFb _ \<Rightarrow> Some (- EINVAL, y)
       | FdFbw _ \<Rightarrow> Some (- EINVAL, y)
       | FdSock _ \<Rightarrow> Some (- EINVAL, y)
       | FdIo io \<Rightarrow> if io_out io then do { f \<leftarrow> io_write io; io_do_write env f buf y } else Some (- EBADF, y)
       | FdDev _ \<Rightarrow> do {
           (n, d) \<leftarrow> udevr_write fd buf (y_cur y) (y_ud y) (y_dev y);
           Some (n, y\<lparr>y_dev := d\<rparr>) }) }"

end
