(* ===== verification/Timekeeping.thy ===== *)
theory Timekeeping
  imports Prelude "HOL-Library.Monad_Syntax"
begin

text \<open>
  Time: the real-time clock (\<^verbatim>\<open>drivers/time/rtc.c\<close>), the time of day
  (\<^verbatim>\<open>drivers/time/gettimeofday.c\<close>), the millisecond clock and waiting
  (\<^verbatim>\<open>drivers/time/generic_clock.c\<close>) and the time-stamp counter (\<^verbatim>\<open>drivers/time/tsc.c\<close>).  The
  contents of the clock registers and of the counter, and the answers of \<^verbatim>\<open>cpuid\<close>, are
  arguments.  Reading past the end of the table of month lengths is \<^term>\<open>None\<close>.
\<close>

section \<open>Real-time clock\<close>

record rtc_regs =
  rt_stb :: u8
  rt_secs :: u8
  rt_mins :: u8
  rt_hrs :: u8
  rt_day :: u8
  rt_mon :: u8
  rt_year :: u8
  rt_century :: "u8 option"

definition rtc_bcd2bin :: "u8 \<Rightarrow> u32" where
  "rtc_bcd2bin val = (ucast val div 16) * 10 + ucast val mod 16"

text \<open>A register in binary: converted unless the clock counts in binary.\<close>

definition rtc_bin :: "u8 \<Rightarrow> u8 \<Rightarrow> u8" where
  "rtc_bin stb v = (if stb AND 0x04 = 0 then ucast (rtc_bcd2bin v) else v)"

definition rtc_hours :: "u8 \<Rightarrow> u8 \<Rightarrow> u8" where
  "rtc_hours stb v = (let hrs = rtc_bin stb v in
     if stb AND 0x02 = 0 \<and> hrs AND 0x80 \<noteq> 0 then ((hrs AND 0x7F) + 12) mod 24 else hrs)"

definition rtc_full_year :: "rtc_regs \<Rightarrow> nat" where
  "rtc_full_year r =
     (let hyear = unat (rtc_bin (rt_stb r) (rt_year r));
          cent = (case rt_century r of None \<Rightarrow> 0 | Some c \<Rightarrow> unat (rtc_bin (rt_stb r) c))
      in if cent \<noteq> 0 then cent * 100 + hyear else 2000 + hyear)"

definition leap_year :: "nat \<Rightarrow> bool" where
  "leap_year y \<longleftrightarrow> y mod 4 = 0 \<and> y mod 100 \<noteq> 0 \<or> y mod 400 = 0"

function year_loop :: "nat \<Rightarrow> nat \<Rightarrow> nat \<Rightarrow> nat" where
  "year_loop y year tdays = (if y < year then year_loop (Suc y) year (tdays + (if leap_year y then 366 else 365)) else tdays)"
  by pat_completeness auto
termination
  by (relation "measure (\<lambda>(y, year, _). year - y)") auto

definition dmos :: "nat list" where
  "dmos = [0, 31, 28, 31, 30, 31, 30, 31, 31, 30, 31, 30, 31]"

function month_loop :: "nat \<Rightarrow> nat \<Rightarrow> nat \<Rightarrow> nat \<Rightarrow> nat option" where
  "month_loop year m mon tdays =
     (if m < mon then
        if m < length dmos
        then month_loop year (Suc m) mon (tdays + dmos ! m + (if m = 2 \<and> leap_year year then 1 else 0))
        else None
      else Some tdays)"
  by pat_completeness auto
termination
  by (relation "measure (\<lambda>(_, m, mon, _). mon - m)") auto

definition rtc_gettime :: "rtc_regs \<Rightarrow> u64 option" where
  "rtc_gettime r =
     (let stb = rt_stb r; year = rtc_full_year r in do {
        tdays \<leftarrow> month_loop year 1 (unat (rtc_bin stb (rt_mon r))) (year_loop 1970 year 0);
        let tdays = of_nat tdays + (ucast (rtc_bin stb (rt_day r)) - 1);
        Some (tdays * 86400 + ucast (rtc_hours stb (rt_hrs r)) * 3600 + ucast (rtc_bin stb (rt_mins r)) * 60
              + ucast (rtc_bin stb (rt_secs r))) })"

section \<open>Time of day\<close>

text \<open>The state is the time of the clock at the start and the millisecond count then.\<close>

record timebase =
  tb_initime :: u64
  tb_initms :: u64

definition init_gettimeofday :: "u64 \<Rightarrow> u64 \<Rightarrow> timebase" where
  "init_gettimeofday rtc ms = \<lparr>tb_initime = rtc, tb_initms = ms\<rparr>"

definition getmtimeofday :: "timebase \<Rightarrow> u64 \<Rightarrow> u64 \<times> u64" where
  "getmtimeofday t ms = (let mss = ms - tb_initms t in (tb_initime t + mss div 1000, mss mod 1000))"

definition gettimeofday :: "timebase \<Rightarrow> u64 \<Rightarrow> u64" where
  "gettimeofday t ms = tb_initime t + (ms - tb_initms t) div 1000"

section \<open>Waiting\<close>

text \<open>The clock as it reads from its \<open>i\<close>-th call on.\<close>

partial_function (option) sleep_loop :: "(nat \<Rightarrow> u64) \<Rightarrow> u64 \<Rightarrow> u64 \<Rightarrow> nat \<Rightarrow> nat option" where
  "sleep_loop clk st ms i = (if clk i - st < ms then sleep_loop clk st ms (Suc i) else Some i)"

definition sleepms :: "(nat \<Rightarrow> u64) \<Rightarrow> u64 \<Rightarrow> nat option" where
  "sleepms clk ms = sleep_loop clk (clk 0) ms 1"

datatype clock_kind = Hpet | Tsc

text \<open>The result, and what \<^verbatim>\<open>getms\<close> points to.\<close>

definition init_clock :: "int \<Rightarrow> (int \<times> clock_kind option) \<Rightarrow> int \<Rightarrow> int \<times> clock_kind option" where
  "init_clock type tsc hpet =
     (if type = 2 then if hpet < 0 then (- 1, None) else (0, Some Hpet)
      else if type = 1 then tsc
      else (- ENOEXIST, None))"

section \<open>Time-stamp counter\<close>

definition tsc_cangetfrqviacpuid :: "u32 \<Rightarrow> bool" where
  "tsc_cangetfrqviacpuid eax =
     (let family = ucast (drop_bit 8 (eax AND 0x00000F00)) :: u8; model = ucast (drop_bit 4 (eax AND 0x000000F0)) :: u8
      in family = 6 \<and> model \<ge> 0x5E \<or> family = 18)"

definition tsc_getfrqviacpuid :: "u32 \<Rightarrow> u32 \<Rightarrow> u32 \<Rightarrow> u64" where
  "tsc_getfrqviacpuid eax ebx ecx =
     (if eax = 0 \<or> ebx = 0 \<or> ecx = 0 then 0 else ucast ecx * ucast ebx div ucast eax)"

text \<open>The counter before and after ten milliseconds, or a timeout.\<close>

definition tsc_getfrqviapit :: "(u64 \<times> u64) option \<Rightarrow> u64" where
  "tsc_getfrqviapit m = (case m of None \<Rightarrow> 2000000000 | Some (st, ed) \<Rightarrow> (ed - st) * 100)"

definition get_tscms :: "u64 \<Rightarrow> u64 \<Rightarrow> u64" where
  "get_tscms frq tsc =
     (if frq = 0 then 0
      else if tsc > 0xFFFFFFFFFFFFFFFF div 1000 then (tsc div frq) * 1000
      else (tsc * 1000) div frq)"

text \<open>The result, the frequency, and whether the clock was installed.\<close>

definition init_tsc :: "u32 \<Rightarrow> u32 \<times> u32 \<times> u32 \<Rightarrow> (u64 \<times> u64) option \<Rightarrow> int \<times> u64 \<times> clock_kind option" where
  "init_tsc cpu1 cpu15 pit =
     (if tsc_cangetfrqviacpuid cpu1 then
        let frq = (case cpu15 of (a, b, c) \<Rightarrow> tsc_getfrqviacpuid a b c);
            frq = (if frq = 0 then tsc_getfrqviapit pit else frq)
        in (0, frq, None)
      else (0, tsc_getfrqviapit pit, Some Tsc))"

section \<open>Properties\<close>

declare year_loop.simps [simp del] month_loop.simps [simp del]

text \<open>The calendar: length of a month and the next day.\<close>

definition month_days :: "nat \<Rightarrow> nat \<Rightarrow> nat" where
  "month_days y m = (if m \<in> {4, 6, 9, 11} then 30 else if m = 2 then (if leap_year y then 29 else 28) else 31)"

fun next_day :: "nat \<times> nat \<times> nat \<Rightarrow> nat \<times> nat \<times> nat" where
  "next_day (y, m, d) = (if d < month_days y m then (y, m, d + 1) else if m < 12 then (y, m + 1, 1) else (y + 1, 1, 1))"

text \<open>The registers of a clock that counts in binary and 24 hours, with a century register.\<close>

definition date_regs :: "nat \<times> nat \<times> nat \<Rightarrow> u8 \<Rightarrow> u8 \<Rightarrow> u8 \<Rightarrow> rtc_regs" where
  "date_regs t h mi s = (case t of (y, m, d) \<Rightarrow>
     \<lparr>rt_stb = 0x06, rt_secs = s, rt_mins = mi, rt_hrs = h, rt_day = of_nat d, rt_mon = of_nat m,
      rt_year = of_nat (y mod 100), rt_century = Some (of_nat (y div 100))\<rparr>)"

definition year_days :: "nat \<Rightarrow> nat" where "year_days y = (if leap_year y then 366 else 365)"

lemma year_loop_sum: "year_loop y year t = t + (\<Sum>k = y..<year. year_days k)"
proof (induction y year t rule: year_loop.induct)
  case (1 y year t)
  show ?case
  proof (cases "y < year")
    case True
    then show ?thesis using 1 by (subst year_loop.simps) (simp add: sum.atLeast_Suc_lessThan year_days_def)
  next
    case False
    then show ?thesis by (subst year_loop.simps) simp
  qed
qed

lemma dmos_days: "1 \<le> m \<Longrightarrow> m \<le> 12 \<Longrightarrow> dmos ! m + (if m = 2 \<and> leap_year y then 1 else 0) = month_days y m"
proof -
  assume "1 \<le> m" "m \<le> 12"
  then have "m = 1 \<or> m = 2 \<or> m = 3 \<or> m = 4 \<or> m = 5 \<or> m = 6 \<or> m = 7 \<or> m = 8 \<or> m = 9 \<or> m = 10 \<or> m = 11 \<or> m = 12"
    by arith
  then show ?thesis by (auto simp: dmos_def month_days_def)
qed

lemma month_loop_sum:
  assumes "1 \<le> m" and "mon \<le> 13"
  shows "month_loop y m mon t = Some (t + (\<Sum>k = m..<mon. month_days y k))"
  using assms
proof (induction y m mon t rule: month_loop.induct)
  case (1 y m mon t)
  show ?case
  proof (cases "m < mon")
    case True
    then have l: "m < length dmos" using 1(3) by (simp add: dmos_def)
    have d: "dmos ! m + (if m = 2 \<and> leap_year y then 1 else 0) = month_days y m" using dmos_days [of m y] 1 True by simp
    show ?thesis using 1(1) [OF True l] 1(2,3) True l d
      by (subst month_loop.simps) (simp add: sum.atLeast_Suc_lessThan add.assoc)
  next
    case False
    then show ?thesis by (subst month_loop.simps) simp
  qed
qed

lemma sum_twelve: "(\<Sum>k = 1..<13 :: nat. f k) = f 1 + f 2 + f 3 + f 4 + f 5 + f 6 + f 7 + f 8 + f 9 + f 10 + f 11 + (f 12 :: nat)"
  by (simp add: eval_nat_numeral)

lemma months_year: "(\<Sum>k = 1..<13. month_days y k) = year_days y"
  unfolding sum_twelve by (simp add: month_days_def year_days_def)

text \<open>The number of the day since 1970.\<close>

definition day_number :: "nat \<times> nat \<times> nat \<Rightarrow> nat" where
  "day_number t = (case t of (y, m, d) \<Rightarrow> (\<Sum>k = 1970..<y. year_days k) + (\<Sum>k = 1..<m. month_days y k) + (d - 1))"

definition is_date :: "nat \<times> nat \<times> nat \<Rightarrow> bool" where
  "is_date t = (case t of (y, m, d) \<Rightarrow> 1970 \<le> y \<and> 1 \<le> m \<and> m \<le> 12 \<and> 1 \<le> d \<and> d \<le> month_days y m)"

lemma month_days_range: "28 \<le> month_days y m" "month_days y m \<le> 31"
  by (auto simp: month_days_def)

lemma next_day_number:
  assumes "is_date t"
  shows "is_date (next_day t) \<and> day_number (next_day t) = Suc (day_number t)"
proof -
  obtain y m d where t: "t = (y, m, d)" by (cases t) auto
  have a: "1970 \<le> y" "1 \<le> m" "m \<le> 12" "1 \<le> d" "d \<le> month_days y m" using assms by (simp_all add: t is_date_def)
  have md: "1 \<le> month_days y k" for k y using month_days_range(1) [of y k] by simp
  consider "d < month_days y m" | "d = month_days y m" "m < 12" | "d = month_days y m" "m = 12" using a by linarith
  then show ?thesis
  proof cases
    case 1
    then show ?thesis using a by (simp add: t is_date_def day_number_def)
  next
    case 2
    then show ?thesis using a md [of y m] md [of y "Suc m"] by (simp add: t is_date_def day_number_def)
  next
    case 3
    have "(\<Sum>k = 1..<12. month_days y k) + month_days y 12 = year_days y"
      using months_year [of y] by (simp add: numeral_eq_Suc)
    then show ?thesis using 3 a md [of "Suc y" 1] md [of y 12] by (simp add: t is_date_def day_number_def)
  qed
qed

lemma day_number_iter: "is_date ((next_day ^^ n) (1970, 1, 1)) \<and> day_number ((next_day ^^ n) (1970, 1, 1)) = n"
proof (induction n)
  case 0
  show ?case by (simp add: is_date_def day_number_def month_days_def)
next
  case (Suc n)
  then show ?case using next_day_number by simp
qed

lemma rtc_bin_binary: "rtc_bin 6 v = v" "rtc_hours 6 v = v"
  by (simp_all add: rtc_bin_def rtc_hours_def)

lemma rtc_date:
  assumes "is_date t" and "fst t < 25600"
  shows "rtc_gettime (date_regs t h mi s) = Some (of_nat (day_number t) * 86400 + ucast h * 3600 + ucast mi * 60 + ucast s)"
proof -
  obtain y m d where t: "t = (y, m, d)" by (cases t) auto
  have a: "1970 \<le> y" "1 \<le> m" "m \<le> 12" "1 \<le> d" "d \<le> 31" "y < 25600"
    using assms month_days_range(2) [of y m] by (auto simp: t is_date_def)
  have "y div 100 < 256" using a(6) by (simp add: less_mult_imp_div_less)
  moreover have "19 \<le> y div 100" using a(1) div_le_mono [of 1970 y 100] by simp
  ultimately have yr: "rtc_full_year (date_regs t h mi s) = y"
    by (simp add: rtc_full_year_def date_regs_def t rtc_bin_binary Let_def unat_of_nat)
  have u: "unat (of_nat m :: u8) = m" using a(3) by (simp add: unat_of_nat)
  have "ucast (of_nat d :: u8) = (of_nat d :: u64)"
    using a(5) by (simp add: word_unat_eq_iff unat_of_nat unat_ucast_widen)
  then have dd: "ucast (of_nat d :: u8) - 1 = (of_nat (d - 1) :: u64)" using a(4) by (simp add: of_nat_diff)
  have ml: "month_loop y 1 m (year_loop 1970 y 0) = Some ((\<Sum>k = 1970..<y. year_days k) + (\<Sum>k = 1..<m. month_days y k))"
    using month_loop_sum [of 1 m y] a(3) by (simp add: year_loop_sum)
  show ?thesis unfolding rtc_gettime_def Let_def yr
    using ml u dd by (simp add: date_regs_def t rtc_bin_binary day_number_def add.assoc [symmetric])
qed



text \<open>A clock with 12 hours: noon is taken for midnight, and in binary-coded decimal the
  afternoon bit is lost in the conversion.\<close>

lemma rtc_twelve_hours: "rtc_hours 0x04 0x8C = 0" "rtc_hours 0x04 0x0C = 12" "rtc_hours 0x00 0x85 = 85"
  by (simp_all add: rtc_hours_def rtc_bin_def rtc_bcd2bin_def)

text \<open>The family and the model have four bits each here, so the frequency is never taken from
  \<^verbatim>\<open>cpuid\<close>; if it were, the clock would not be installed.\<close>

lemma tsc_never_cpuid: "\<not> tsc_cangetfrqviacpuid eax"
proof -
  have n: "unat (drop_bit n (eax AND push_bit n 0xF)) \<le> 15" for n
  proof -
    have "drop_bit n (eax AND push_bit n 0xF) = drop_bit n eax AND drop_bit n (push_bit n 0xF)" by simp
    also have "\<dots> = drop_bit n eax AND (drop_bit n (push_bit n 0xF) AND 0xF)"
      by (rule bit_word_eqI) (auto simp: bit_simps)
    finally have "drop_bit n (eax AND push_bit n 0xF) \<le> 0xF" by (metis word_and_le1 and.assoc)
    then show ?thesis by (simp add: word_le_nat_alt)
  qed
  have "unat (ucast (drop_bit 8 (eax AND 0xF00)) :: u8) \<le> 15" "unat (ucast (drop_bit 4 (eax AND 0xF0)) :: u8) \<le> 15"
    using n [of 8] n [of 4] by (simp_all add: unat_ucast_mod)
  then show ?thesis by (auto simp: tsc_cangetfrqviacpuid_def Let_def word_le_nat_alt)
qed

text \<open>Waiting ends with the first reading that is far enough from the start.\<close>

lemma sleep_loop_ends:
  assumes "\<not> clk j - st < ms" and "i \<le> j" and "\<forall>k. i \<le> k \<and> k < j \<longrightarrow> clk k - st < ms"
  shows "sleep_loop clk st ms i = Some j"
  using assms(2,3)
proof (induction "j - i" arbitrary: i)
  case 0
  then show ?case using assms(1) by (subst sleep_loop.simps) simp
next
  case (Suc d)
  then have "clk i - st < ms" by simp
  then show ?case using Suc by (subst sleep_loop.simps) auto
qed

end
