(* ===== verification/Liballoc.thy ===== *)
theory Liballoc
  imports Prelude "HOL-Library.Monad_Syntax"
begin

unbundle bit_operations_syntax

text \<open>
  The kernel heap, \<^verbatim>\<open>src/kern/mem/liballoc.c\<close>: blocks with a boundary tag in front, split and
  merged inside the page runs they were cut from, and free blocks on doubly linked lists by size
  class. Memory is modelled as the tags it holds, by address, and its bytes: storing a tag overwrites
  the 48 bytes it lies in, whose values are no data any more. A dereference of an address that holds
  no tag is \<^term>\<open>None\<close>, as are an index outside an array and a list walk that does not end. The page source (\<^verbatim>\<open>liballoc_alloc\<close>, \<^verbatim>\<open>liballoc_free\<close>) is an
  argument of the operations; the lock around each call is left out.
\<close>

section \<open>Model\<close>

abbreviation (input) LIBALLOC_MAGIC :: u32 where "LIBALLOC_MAGIC \<equiv> 0xc001c0de"
abbreviation (input) MAXCOMPLETE :: int where "MAXCOMPLETE \<equiv> 5"
abbreviation (input) MAXEXP :: nat where "MAXEXP \<equiv> 32"
abbreviation (input) MINEXP :: nat where "MINEXP \<equiv> 8"
abbreviation (input) TAG_SIZE :: "'a::numeral" where "TAG_SIZE \<equiv> 48"
abbreviation (input) l_pageSize :: u32 where "l_pageSize \<equiv> 4096"
abbreviation (input) l_pageCount :: u32 where "l_pageCount \<equiv> 16"

record boundary_tag =
  magic :: u32
  tsize :: u32
  real_size :: u32
  tindex :: int
  split_left :: u64
  split_right :: u64
  tnext :: u64
  tprev :: u64

text \<open>
  The byte at an address; \<^term>\<open>None\<close> where a tag has been stored and no data since, so that what a
  program reads there is the representation of a tag.
\<close>

type_synonym bytemem = "u64 \<Rightarrow> u8 option"

record lheap =
  l_freePages :: "u64 list"
  l_completePages :: "int list"
  l_initialized :: bool
  tags :: "u64 \<Rightarrow> boundary_tag option"
  bytes :: bytemem

text \<open>Pages come from and go back to a state of their own.\<close>

type_synonym 'v page_alloc = "u32 \<Rightarrow> 'v \<Rightarrow> ('v \<times> u64) option"
type_synonym 'v page_free = "u64 \<Rightarrow> u32 \<Rightarrow> 'v \<Rightarrow> 'v option"

definition tag_over :: "u64 \<Rightarrow> bytemem \<Rightarrow> bytemem" where
  "tag_over a m x = (if unat (x - a) < TAG_SIZE then None else m x)"

definition put_tag :: "u64 \<Rightarrow> boundary_tag \<Rightarrow> lheap \<Rightarrow> lheap" where
  "put_tag a t h = h\<lparr>tags := (tags h)(a \<mapsto> t), bytes := tag_over a (bytes h)\<rparr>"

text \<open>An assignment to fields of the tag at an address.\<close>

definition upd_tag :: "u64 \<Rightarrow> (boundary_tag \<Rightarrow> boundary_tag) \<Rightarrow> lheap \<Rightarrow> lheap option" where
  "upd_tag a f h = (case tags h a of None \<Rightarrow> None | Some t \<Rightarrow> Some (put_tag a (f t) h))"

subsection \<open>Helpers\<close>

function getexp_loop :: "nat \<Rightarrow> u32 \<Rightarrow> nat" where
  "getexp_loop shift sz =
     (if shift < MAXEXP then if sz < push_bit shift 1 then shift else getexp_loop (shift + 1) sz
      else shift)"
  by auto
termination by (relation "measure (\<lambda>(shift, sz). MAXEXP - shift)") auto

declare getexp_loop.simps [simp del]

definition getexp :: "u32 \<Rightarrow> int" where
  "getexp sz = (if sz < push_bit MINEXP 1 then - 1 else int (getexp_loop MINEXP sz) - 1)"

fun liballoc_memset :: "u64 \<Rightarrow> u8 \<Rightarrow> nat \<Rightarrow> bytemem \<Rightarrow> bytemem" where
  "liballoc_memset s c 0 m = m"
| "liballoc_memset s c (Suc n) m = liballoc_memset (s + 1) c n (m(s \<mapsto> c))"

text \<open>A copied word is four bytes that are all read before the first is written.\<close>

definition copy_word :: "u64 \<Rightarrow> u64 \<Rightarrow> bytemem \<Rightarrow> bytemem" where
  "copy_word d s m = m(d := m s, d + 1 := m (s + 1), d + 2 := m (s + 2), d + 3 := m (s + 3))"

fun liballoc_memcpy :: "u64 \<Rightarrow> u64 \<Rightarrow> nat \<Rightarrow> bytemem \<Rightarrow> bytemem" where
  "liballoc_memcpy d s n m =
     (if 4 \<le> n then liballoc_memcpy (d + 4) (s + 4) (n - 4) (copy_word d s m)
      else if 0 < n then liballoc_memcpy (d + 1) (s + 1) (n - 1) (m(d := m s))
      else m)"

declare liballoc_memcpy.simps [simp del]

text \<open>
  \<^verbatim>\<open>tag->real_size - sizeof(struct boundary_tag)\<close> is truncated to \<^verbatim>\<open>unsigned int\<close> by the call of
  \<^verbatim>\<open>getexp\<close>, so the subtraction may be done in 32 bits.
\<close>

definition insert_tag :: "u64 \<Rightarrow> int \<Rightarrow> lheap \<Rightarrow> lheap option" where
  "insert_tag tag index h = do {
     t \<leftarrow> tags h tag;
     let realIndex = (if index < 0 then max (getexp (real_size t - TAG_SIZE)) (int MINEXP) else index);
     h \<leftarrow> upd_tag tag (\<lambda>t. t\<lparr>tindex := realIndex\<rparr>) h;
     if int MAXEXP \<le> realIndex then None
     else do {
       let head = l_freePages h ! nat realIndex;
       h \<leftarrow> (if head \<noteq> 0 then do {
               h \<leftarrow> upd_tag head (\<lambda>t. t\<lparr>tprev := tag\<rparr>) h;
               upd_tag tag (\<lambda>t. t\<lparr>tnext := head\<rparr>) h
             } else Some h);
       Some (h\<lparr>l_freePages := (l_freePages h)[nat realIndex := tag]\<rparr>)
     }
   }"

definition remove_tag :: "u64 \<Rightarrow> lheap \<Rightarrow> lheap option" where
  "remove_tag tag h = do {
     t \<leftarrow> tags h tag;
     if tindex t < 0 \<or> int MAXEXP \<le> tindex t then None
     else do {
       let h = (if l_freePages h ! nat (tindex t) = tag
                then h\<lparr>l_freePages := (l_freePages h)[nat (tindex t) := tnext t]\<rparr> else h);
       h \<leftarrow> (if tprev t \<noteq> 0 then upd_tag (tprev t) (\<lambda>p. p\<lparr>tnext := tnext t\<rparr>) h else Some h);
       t \<leftarrow> tags h tag;
       h \<leftarrow> (if tnext t \<noteq> 0 then upd_tag (tnext t) (\<lambda>n. n\<lparr>tprev := tprev t\<rparr>) h else Some h);
       upd_tag tag (\<lambda>t. t\<lparr>tnext := 0, tprev := 0, tindex := - 1\<rparr>) h
     }
   }"

definition melt_left :: "u64 \<Rightarrow> lheap \<Rightarrow> (u64 \<times> lheap) option" where
  "melt_left tag h = do {
     t \<leftarrow> tags h tag;
     let left = split_left t;
     h \<leftarrow> upd_tag left (\<lambda>l. l\<lparr>real_size := real_size l + real_size t\<rparr>) h;
     h \<leftarrow> upd_tag left (\<lambda>l. l\<lparr>split_right := split_right t\<rparr>) h;
     h \<leftarrow> (if split_right t \<noteq> 0 then upd_tag (split_right t) (\<lambda>r. r\<lparr>split_left := left\<rparr>) h else Some h);
     Some (left, h)
   }"

definition absorb_right :: "u64 \<Rightarrow> lheap \<Rightarrow> (u64 \<times> lheap) option" where
  "absorb_right tag h = do {
     t \<leftarrow> tags h tag;
     let right = split_right t;
     h \<leftarrow> remove_tag right h;
     r \<leftarrow> tags h right;
     h \<leftarrow> upd_tag tag (\<lambda>t. t\<lparr>real_size := real_size t + real_size r\<rparr>) h;
     h \<leftarrow> upd_tag tag (\<lambda>t. t\<lparr>split_right := split_right r\<rparr>) h;
     h \<leftarrow> (if split_right r \<noteq> 0 then upd_tag (split_right r) (\<lambda>x. x\<lparr>split_left := tag\<rparr>) h else Some h);
     Some (tag, h)
   }"

text \<open>
  The new tag is written over the end of the block. Its \<^verbatim>\<open>size\<close> is not set and stays what it was in a
  tag that lay there before; otherwise it is arbitrary, here 0. The size of a free block is not read.
\<close>

definition split_tag :: "u64 \<Rightarrow> lheap \<Rightarrow> (u64 \<times> lheap) option" where
  "split_tag tag h = do {
     t \<leftarrow> tags h tag;
     let remainder = real_size t - TAG_SIZE - tsize t;
     let new_tag = tag + TAG_SIZE + ucast (tsize t);
     let stale = (case tags h new_tag of None \<Rightarrow> 0 | Some n \<Rightarrow> tsize n);
     let h = put_tag new_tag
       \<lparr>magic = LIBALLOC_MAGIC, tsize = stale, real_size = remainder, tindex = - 1,
        split_left = tag, split_right = split_right t, tnext = 0, tprev = 0\<rparr> h;
     h \<leftarrow> (if split_right t \<noteq> 0 then upd_tag (split_right t) (\<lambda>r. r\<lparr>split_left := new_tag\<rparr>) h else Some h);
     h \<leftarrow> upd_tag tag (\<lambda>t. t\<lparr>split_right := new_tag\<rparr>) h;
     h \<leftarrow> upd_tag tag (\<lambda>t. t\<lparr>real_size := real_size t - remainder\<rparr>) h;
     h \<leftarrow> insert_tag new_tag (- 1) h;
     Some (new_tag, h)
   }"

definition pages_for :: "u32 \<Rightarrow> u32" where
  "pages_for usage =
     (let pages = usage div l_pageSize + (if usage mod l_pageSize \<noteq> 0 then 1 else 0)
      in if pages < l_pageCount then l_pageCount else pages)"

definition allocate_new_tag ::
    "'v page_alloc \<Rightarrow> u32 \<Rightarrow> lheap \<Rightarrow> 'v \<Rightarrow> (lheap \<times> 'v \<times> u64) option" where
  "allocate_new_tag liballoc_alloc sz h v = do {
     let pages = pages_for (sz + TAG_SIZE);
     (v, tag) \<leftarrow> liballoc_alloc pages v;
     if tag = 0 then Some (h, v, 0)
     else Some (put_tag tag
            \<lparr>magic = LIBALLOC_MAGIC, tsize = sz, real_size = pages * l_pageSize, tindex = - 1,
             split_left = 0, split_right = 0, tnext = 0, tprev = 0\<rparr> h, v, tag)
   }"

subsection \<open>Allocation\<close>

definition malloc_init :: "lheap \<Rightarrow> lheap" where
  "malloc_init h =
     (if l_initialized h then h
      else h\<lparr>l_freePages := replicate MAXEXP 0, l_completePages := replicate MAXEXP 0,
             l_initialized := True\<rparr>)"

text \<open>The search of one list, then of every list from the class of the request upwards; 0 is none.\<close>

partial_function (option) search_list :: "u64 \<Rightarrow> u64 \<Rightarrow> lheap \<Rightarrow> u64 option" where
  "search_list sz a h =
     (if a = 0 then Some 0
      else case tags h a of
             None \<Rightarrow> None
           | Some t \<Rightarrow>
               if sz + TAG_SIZE \<le> ucast (real_size t) - TAG_SIZE then Some a
               else search_list sz (tnext t) h)"

declare search_list.simps [code]

function search_index :: "u64 \<Rightarrow> nat \<Rightarrow> lheap \<Rightarrow> (u64 \<times> nat) option" where
  "search_index sz i h =
     (if i < MAXEXP then
        case search_list sz (l_freePages h ! i) h of
          None \<Rightarrow> None
        | Some a \<Rightarrow> if a \<noteq> 0 then Some (a, i) else search_index sz (i + 1) h
      else Some (0, i))"
  by auto
termination by (relation "measure (\<lambda>(sz, i, h). MAXEXP - i)") auto

declare search_index.simps [simp del]

text \<open>The block \<^verbatim>\<open>malloc\<close> takes: a free one, off its list, or a new run of pages.\<close>

definition take_tag :: "'v page_alloc \<Rightarrow> u64 \<Rightarrow> lheap \<Rightarrow> 'v \<Rightarrow> (lheap \<times> 'v \<times> u64) option" where
  "take_tag liballoc_alloc sz h v = do {
     (tag, i) \<leftarrow> search_index sz (nat (max (getexp (ucast sz)) (int MINEXP))) h;
     if tag = 0 then allocate_new_tag liballoc_alloc (ucast sz) h v
     else do {
       h \<leftarrow> remove_tag tag h;
       t \<leftarrow> tags h tag;
       Some (if split_left t = 0 \<and> split_right t = 0
             then h\<lparr>l_completePages := (l_completePages h)[i := l_completePages h ! i - 1]\<rparr> else h,
             v, tag)
     }
   }"

text \<open>Record the request in the block and cut off what is left over, if it is worth a block.\<close>

definition use_tag :: "u64 \<Rightarrow> u64 \<Rightarrow> lheap \<Rightarrow> 'v \<Rightarrow> ((lheap \<times> 'v) \<times> u64) option" where
  "use_tag sz tag h v = do {
     h \<leftarrow> upd_tag tag (\<lambda>t. t\<lparr>tsize := ucast sz\<rparr>) h;
     t \<leftarrow> tags h tag;
     let remainder = (ucast (ucast (real_size t) - sz - TAG_SIZE * 2 :: u64) :: u32);
     h \<leftarrow> (if 0 < sint remainder \<and> 0 \<le> getexp remainder
           then map_option snd (split_tag tag h) else Some h);
     Some ((h, v), tag + TAG_SIZE)
   }"

definition malloc :: "'v page_alloc \<Rightarrow> u64 \<Rightarrow> lheap \<times> 'v \<Rightarrow> ((lheap \<times> 'v) \<times> u64) option" where
  "malloc liballoc_alloc sz s = do {
     (h, v, tag) \<leftarrow> take_tag liballoc_alloc sz (malloc_init (fst s)) (snd s);
     if tag = 0 then Some ((h, v), 0) else use_tag sz tag h v
   }"

subsection \<open>Release\<close>

partial_function (option) melt_left_loop :: "u64 \<Rightarrow> lheap \<Rightarrow> (u64 \<times> lheap) option" where
  "melt_left_loop tag h =
     Option.bind (tags h tag) (\<lambda>t.
       if split_left t = 0 then Some (tag, h)
       else Option.bind (tags h (split_left t)) (\<lambda>l.
         if 0 \<le> tindex l then
           Option.bind (melt_left tag h) (\<lambda>r.
             Option.bind (remove_tag (fst r) (snd r)) (\<lambda>h. melt_left_loop (fst r) h))
         else Some (tag, h)))"

partial_function (option) melt_right_loop :: "u64 \<Rightarrow> lheap \<Rightarrow> (u64 \<times> lheap) option" where
  "melt_right_loop tag h =
     Option.bind (tags h tag) (\<lambda>t.
       if split_right t = 0 then Some (tag, h)
       else Option.bind (tags h (split_right t)) (\<lambda>r.
         if 0 \<le> tindex r then
           Option.bind (absorb_right tag h) (\<lambda>r. melt_right_loop (fst r) (snd r))
         else Some (tag, h)))"

declare melt_left_loop.simps [code] melt_right_loop.simps [code]

text \<open>The end of \<^verbatim>\<open>free\<close>: a merged block goes back to the page source or to its list.\<close>

definition give_back :: "'v page_free \<Rightarrow> u64 \<Rightarrow> lheap \<Rightarrow> 'v \<Rightarrow> (lheap \<times> 'v) option" where
  "give_back liballoc_free tag h v = do {
     t \<leftarrow> tags h tag;
     let index = max (getexp (real_size t - TAG_SIZE)) (int MINEXP);
     if split_left t = 0 \<and> split_right t = 0 then
       if l_completePages h ! nat index = MAXCOMPLETE then
         map_option (\<lambda>v. (h, v)) (liballoc_free tag (pages_for (real_size t)) v)
       else map_option (\<lambda>h. (h, v)) (insert_tag tag index
              (h\<lparr>l_completePages := (l_completePages h)[nat index := l_completePages h ! nat index + 1]\<rparr>))
     else map_option (\<lambda>h. (h, v)) (insert_tag tag index h)
   }"

definition free :: "'v page_free \<Rightarrow> u64 \<Rightarrow> lheap \<times> 'v \<Rightarrow> (lheap \<times> 'v) option" where
  "free liballoc_free ptr s =
     (if ptr = 0 then Some s
      else do {
        let tag = ptr - TAG_SIZE;
        t \<leftarrow> tags (fst s) tag;
        if magic t \<noteq> LIBALLOC_MAGIC then Some s
        else do {
          (tag, h) \<leftarrow> melt_left_loop tag (fst s);
          (tag, h) \<leftarrow> melt_right_loop tag h;
          give_back liballoc_free tag h (snd s)
        }
      })"

text \<open>
  \<^verbatim>\<open>calloc\<close> keeps the product in an \<^verbatim>\<open>int\<close>, which is sign-extended where it is used as a
  \<^verbatim>\<open>size_t\<close>. A null result of \<^verbatim>\<open>malloc\<close> is written through by both callers.
\<close>

definition calloc :: "'v page_alloc \<Rightarrow> u64 \<Rightarrow> u64 \<Rightarrow> lheap \<times> 'v \<Rightarrow> ((lheap \<times> 'v) \<times> u64) option" where
  "calloc liballoc_alloc nobj sz s = do {
     let n = (scast (ucast (nobj * sz) :: u32) :: u64);
     ((h, v), p) \<leftarrow> malloc liballoc_alloc n s;
     if p = 0 \<and> 0 < n then None
     else Some ((h\<lparr>bytes := liballoc_memset p 0 (unat n) (bytes h)\<rparr>, v), p)
   }"

definition realloc ::
    "'v page_alloc \<Rightarrow> 'v page_free \<Rightarrow> u64 \<Rightarrow> u64 \<Rightarrow> lheap \<times> 'v \<Rightarrow> ((lheap \<times> 'v) \<times> u64) option" where
  "realloc liballoc_alloc liballoc_free p sz s =
     (if sz = 0 then map_option (\<lambda>s. (s, 0)) (free liballoc_free p s)
      else if p = 0 then malloc liballoc_alloc sz s
      else do {
        t \<leftarrow> tags (fst s) (p - TAG_SIZE);
        let n = (if sz < ucast (tsize t) then sz else ucast (tsize t));
        ((h, v), ptr) \<leftarrow> malloc liballoc_alloc sz s;
        if ptr = 0 \<and> 0 < n then None
        else do {
          s \<leftarrow> free liballoc_free p (h\<lparr>bytes := liballoc_memcpy ptr p (unat n) (bytes h)\<rparr>, v);
          Some (s, ptr)
        }
      })"

end
