(* ===== verification/Liballoc_Inv.thy ===== *)
theory Liballoc_Inv
  imports Liballoc
begin

unbundle bit_operations_syntax

text \<open>
  The invariant of the heap of \<^verbatim>\<open>liballoc.c\<close> and what each of its steps does to it: the blocks tile
  the page runs they were cut from, the free ones are on the list of their size class, and no two
  free blocks are neighbours. The lemmas about a step are stated over the fields of the tags as
  functions of the address, so that merging from either side is one lemma.
\<close>


section \<open>Size classes\<close>

lemma unat_pow32: "k < 32 \<Longrightarrow> unat (2 ^ k :: u32) = 2 ^ k"
proof -
  assume "k < 32"
  then have "(2::nat) ^ k < 2 ^ LENGTH(32)" by (intro power_strict_increasing) simp_all
  from unat_of_nat_small [OF this] show ?thesis by simp
qed

lemma getexp_loop_spec:
  assumes "shift \<le> 32" "2 ^ shift \<le> 2 * unat sz"
  shows "shift \<le> getexp_loop shift sz" "getexp_loop shift sz \<le> 32"
    "2 ^ getexp_loop shift sz \<le> 2 * unat sz" "unat sz < 2 ^ getexp_loop shift sz"
proof -
  have "shift \<le> getexp_loop shift sz \<and> getexp_loop shift sz \<le> 32 \<and>
    2 ^ getexp_loop shift sz \<le> 2 * unat sz \<and> unat sz < 2 ^ getexp_loop shift sz"
    using assms
  proof (induction shift sz rule: getexp_loop.induct)
    case (1 shift sz)
    show ?case
    proof (cases "shift < 32 \<and> \<not> sz < push_bit shift 1")
      case True
      then have "2 ^ shift \<le> unat sz" by (auto simp: word_less_nat_alt unat_pow32)
      then show ?thesis using True "1.IH" by (subst (1 2 3 4) getexp_loop.simps) simp
    next
      case False
      then show ?thesis using "1.prems" unat_u32 [of sz]
        by (subst (1 2 3 4) getexp_loop.simps) (auto simp: word_less_nat_alt unat_pow32)
    qed
  qed
  then show "shift \<le> getexp_loop shift sz" "getexp_loop shift sz \<le> 32"
    "2 ^ getexp_loop shift sz \<le> 2 * unat sz" "unat sz < 2 ^ getexp_loop shift sz" by auto
qed

lemma getexp_cases:
  "getexp sz = - 1 \<and> unat sz < 256 \<or>
   (\<exists>n. getexp sz = int n \<and> 8 \<le> n \<and> n < 32 \<and> 2 ^ n \<le> unat sz \<and> unat sz < 2 ^ (n + 1))"
proof (cases "unat sz < 256")
  case True
  then show ?thesis by (simp add: getexp_def word_less_nat_alt unat_pow32)
next
  case False
  note S = getexp_loop_spec [of 8 sz]
  obtain n where n: "getexp_loop 8 sz = Suc n" using S(1) False by (cases "getexp_loop 8 sz") auto
  have "n \<noteq> 7" using S(4) False n by auto
  then have "8 \<le> n" using S(1) False n by simp
  then show ?thesis using False S n by (auto simp: getexp_def word_less_nat_alt unat_pow32)
qed

text \<open>The list a free block of a given size is on.\<close>

definition bucket :: "u32 \<Rightarrow> int" where
  "bucket r = max (getexp (r - TAG_SIZE)) (int MINEXP)"

lemma bucket_bounds: "8 \<le> bucket r" "bucket r < 32"
  using getexp_cases [of "r - 48"] by (auto simp: bucket_def)

lemma getexp_mono: "unat a \<le> unat b \<Longrightarrow> getexp a \<le> getexp b"
proof -
  assume ab: "unat a \<le> unat b"
  consider "getexp a = - 1" | n where "getexp a = int n" "8 \<le> n" "2 ^ n \<le> unat a"
    using getexp_cases [of a] by blast
  then show ?thesis
  proof cases
    case 1
    then show ?thesis using getexp_cases [of b] by auto
  next
    case (2 n)
    have "(2::nat) ^ 8 \<le> 2 ^ n" using 2(2) by (rule power_increasing) simp
    then obtain m where m: "getexp b = int m" "unat b < 2 ^ (m + 1)"
      using getexp_cases [of b] 2(3) ab by auto
    have "(2::nat) ^ n < 2 ^ (m + 1)" using 2(3) ab m(2) by linarith
    then have "n < m + 1" using power_less_imp_less_exp [of "2::nat" n "m + 1"] by simp
    then show ?thesis using 2(1) m(1) by simp
  qed
qed

section \<open>Blocks that tile their page runs\<close>

text \<open>
  The invariant is stated over the fields of the tags as functions of the address. \<open>L\<close> is the set
  of live tags, \<open>reg\<close> the page run (base and length in bytes) each of them was cut from.
\<close>

type_synonym region = "nat \<times> nat"

definition span :: "(u64 \<Rightarrow> nat) \<Rightarrow> u64 \<Rightarrow> nat set" where
  "span rs a = {unat a..<unat a + rs a}"

definition chain_ok ::
    "u64 set \<Rightarrow> (u64 \<Rightarrow> region) \<Rightarrow> (u64 \<Rightarrow> nat) \<Rightarrow> (u64 \<Rightarrow> u64) \<Rightarrow> (u64 \<Rightarrow> u64) \<Rightarrow> bool" where
  "chain_ok L reg rs sl sr \<longleftrightarrow> 0 \<notin> L \<and>
     (\<forall>a\<in>L. 48 \<le> rs a \<and> fst (reg a) \<le> unat a \<and> unat a + rs a \<le> fst (reg a) + snd (reg a) \<and>
        fst (reg a) + snd (reg a) < 2 ^ 64 \<and> snd (reg a) < 2 ^ 32) \<and>
     (\<forall>a\<in>L. if sl a = 0 then unat a = fst (reg a)
             else sl a \<in> L \<and> reg (sl a) = reg a \<and> unat (sl a) + rs (sl a) = unat a \<and> sr (sl a) = a) \<and>
     (\<forall>a\<in>L. if sr a = 0 then unat a + rs a = fst (reg a) + snd (reg a)
             else sr a \<in> L \<and> reg (sr a) = reg a \<and> unat (sr a) = unat a + rs a \<and> sl (sr a) = a) \<and>
     (\<forall>a\<in>L. \<forall>b\<in>L. a \<noteq> b \<longrightarrow> span rs a \<inter> span rs b = {})"

lemma chain_okD:
  assumes "chain_ok L reg rs sl sr" "a \<in> L"
  shows "a \<noteq> 0" "48 \<le> rs a" "fst (reg a) \<le> unat a" "unat a + rs a \<le> fst (reg a) + snd (reg a)"
    "fst (reg a) + snd (reg a) < 2 ^ 64" "snd (reg a) < 2 ^ 32"
    "sl a = 0 \<Longrightarrow> unat a = fst (reg a)"
    "sl a \<noteq> 0 \<Longrightarrow> sl a \<in> L \<and> reg (sl a) = reg a \<and> unat (sl a) + rs (sl a) = unat a \<and> sr (sl a) = a"
    "sr a = 0 \<Longrightarrow> unat a + rs a = fst (reg a) + snd (reg a)"
    "sr a \<noteq> 0 \<Longrightarrow> sr a \<in> L \<and> reg (sr a) = reg a \<and> unat (sr a) = unat a + rs a \<and> sl (sr a) = a"
    "b \<in> L \<Longrightarrow> a \<noteq> b \<Longrightarrow> span rs a \<inter> span rs b = {}"
  using assms unfolding chain_ok_def by (auto split: if_splits)

text \<open>Merging a block with its right neighbour.\<close>

lemma chain_merge:
  assumes ok: "chain_ok L reg rs sl sr" and a: "a \<in> L" "sr a = b" "b \<noteq> 0"
  defines "rs' \<equiv> rs(a := rs a + rs b)" and "sr' \<equiv> sr(a := sr b)"
    and "sl' \<equiv> (if sr b = 0 then sl else sl(sr b := a))"
  shows "chain_ok (L - {b}) reg rs' sl' sr'"
proof -
  note D = chain_okD [OF ok]
  have b: "b \<in> L" "reg b = reg a" "unat b = unat a + rs a" "sl b = a"
    using D(10) [OF a(1)] a by auto
  have ab: "a \<noteq> b" using b(3) D(2) [OF a(1)] by auto
  have span: "span rs' a = span rs a \<union> span rs b"
    using b(3) by (auto simp: span_def rs'_def)
  have other: "x \<noteq> a \<Longrightarrow> rs' x = rs x" "x \<noteq> a \<Longrightarrow> sr' x = sr x" for x by (simp_all add: rs'_def sr'_def)
  show ?thesis unfolding chain_ok_def
  proof (intro conjI ballI impI)
    show "0 \<notin> L - {b}" using ok by (simp add: chain_ok_def)
    fix x assume x: "x \<in> L - {b}"
    then have xL: "x \<in> L" "x \<noteq> b" by auto
    show "48 \<le> rs' x" using D(2) [OF xL(1)] D(2) [OF a(1)] by (simp add: rs'_def)
    show "fst (reg x) \<le> unat x" by (rule D(3) [OF xL(1)])
    show "unat x + rs' x \<le> fst (reg x) + snd (reg x)"
      using D(4) [OF xL(1)] D(4) [OF b(1)] b by (auto simp: rs'_def)
    show "fst (reg x) + snd (reg x) < 2 ^ 64" by (rule D(5) [OF xL(1)])
    show "snd (reg x) < 2 ^ 32" by (rule D(6) [OF xL(1)])
    show "if sl' x = 0 then unat x = fst (reg x)
        else sl' x \<in> L - {b} \<and> reg (sl' x) = reg x \<and> unat (sl' x) + rs' (sl' x) = unat x \<and> sr' (sl' x) = x"
    proof (cases "x = sr b")
      case True
      then have "sr b \<noteq> 0" using D(1) [OF xL(1)] by auto
      then show ?thesis using True D(10) [OF b(1)] b a(1) ab D(1) [OF a(1)]
        by (auto simp: sl'_def rs'_def sr'_def)
    next
      case False
      then have "sl' x = sl x" by (simp add: sl'_def)
      moreover have "sl x \<noteq> b" if "sl x \<noteq> 0" using D(8) [OF xL(1) that] False by auto
      moreover have "sl x \<noteq> a" if "sl x \<noteq> 0" using D(8) [OF xL(1) that] a(2) xL(2) by auto
      ultimately show ?thesis using D(7,8) [OF xL(1)] other by auto
    qed
    show "if sr' x = 0 then unat x + rs' x = fst (reg x) + snd (reg x)
        else sr' x \<in> L - {b} \<and> reg (sr' x) = reg x \<and> unat (sr' x) = unat x + rs' x \<and> sl' (sr' x) = x"
    proof (cases "x = a")
      case True
      have "sr b \<noteq> b" if "sr b \<noteq> 0" using D(10) [OF b(1) that] D(2) [OF b(1)] by auto
      then show ?thesis using True D(9,10) [OF b(1)] b by (auto simp: sl'_def rs'_def sr'_def)
    next
      case False
      have "sr x \<noteq> b" if "sr x \<noteq> 0" using D(10) [OF xL(1) that] b(4) False by auto
      moreover have "sr x \<noteq> sr b" if "sr x \<noteq> 0"
        using D(10) [OF xL(1) that] D(10) [OF b(1)] that xL(2) by auto
      ultimately show ?thesis using False D(9,10) [OF xL(1)] other by (auto simp: sl'_def)
    qed
    fix y assume y: "y \<in> L - {b}" "x \<noteq> y"
    show "span rs' x \<inter> span rs' y = {}"
    proof -
      have s: "span rs' z = (if z = a then span rs a \<union> span rs b else span rs z)" for z
        using span other(1) [of z] by (auto simp: span_def)
      show ?thesis unfolding s using D(11) xL y a(1) b(1) by (auto; blast)
    qed
  qed
qed

lemma span_mem: "0 < rs a \<Longrightarrow> unat a \<in> span rs a"
  by (simp add: span_def)

lemma chain_inside:
  assumes "chain_ok L reg rs sl sr" "a \<in> L" "unat n \<in> span rs a" "n \<noteq> a"
  shows "n \<notin> L"
proof
  assume n: "n \<in> L"
  have "unat n \<in> span rs n" by (rule span_mem) (use chain_okD(2) [OF assms(1) n] in simp)
  then show False using chain_okD(11) [OF assms(1,2) n] assms(3,4) by blast
qed

text \<open>Cutting the tail off a block.\<close>

lemma chain_split:
  assumes ok: "chain_ok L reg rs sl sr" and a: "a \<in> L" and n: "unat n = unat a + k"
    and k: "48 \<le> k" "k + 48 \<le> rs a"
  defines "rs' \<equiv> rs(n := rs a - k, a := k)" and "sr' \<equiv> sr(n := sr a, a := n)"
    and "sl' \<equiv> (if sr a = 0 then sl(n := a) else sl(n := a, sr a := n))" and "reg' \<equiv> reg(n := reg a)"
  shows "n \<notin> L" "chain_ok (insert n L) reg' rs' sl' sr'"
proof -
  note D = chain_okD [OF ok]
  have na: "n \<noteq> a" using n k by auto
  show nL: "n \<notin> L" by (rule chain_inside [OF ok a _ na]) (use n k in \<open>simp add: span_def\<close>)
  have n0: "n \<noteq> 0" using n k by auto
  have ra: "sr a \<noteq> n" "sr a \<noteq> a" if "sr a \<noteq> 0" using D(10) [OF a that] nL D(2) [OF a] by auto
  have val: "rs' a = k" "rs' n = rs a - k" "\<And>x. x \<noteq> a \<Longrightarrow> x \<noteq> n \<Longrightarrow> rs' x = rs x"
    "sr' a = n" "sr' n = sr a" "\<And>x. x \<noteq> a \<Longrightarrow> x \<noteq> n \<Longrightarrow> sr' x = sr x"
    "sl' n = a" "sr a \<noteq> 0 \<Longrightarrow> sl' (sr a) = n" "\<And>x. x \<noteq> n \<Longrightarrow> x \<noteq> sr a \<or> sr a = 0 \<Longrightarrow> sl' x = sl x"
    "reg' n = reg a" "\<And>x. x \<noteq> n \<Longrightarrow> reg' x = reg x"
    using na ra by (auto simp: rs'_def sr'_def sl'_def reg'_def)
  have span: "span rs' a \<union> span rs' n = span rs a" "span rs' a \<inter> span rs' n = {}"
    using n k by (auto simp: span_def val)
  show "chain_ok (insert n L) reg' rs' sl' sr'" unfolding chain_ok_def
  proof (intro conjI ballI impI)
    show "0 \<notin> insert n L" using n0 ok by (simp add: chain_ok_def)
    fix x assume x: "x \<in> insert n L"
    consider (n) "x = n" | (a) "x = a" | (o) "x \<in> L" "x \<noteq> a" "x \<noteq> n" using x by blast
    note cases = this
    show "48 \<le> rs' x" by (cases rule: cases) (use k D(2) in \<open>auto simp: val\<close>)
    show "fst (reg' x) \<le> unat x"
      by (cases rule: cases) (use n D(3) a na in \<open>auto simp: val intro: trans_le_add1\<close>)
    show "unat x + rs' x \<le> fst (reg' x) + snd (reg' x)"
    proof (cases rule: cases)
      case o
      then show ?thesis using D(4) [OF o(1)] by (simp add: val)
    qed (use n k D(4) [OF a] na in \<open>simp_all add: val\<close>)
    show "fst (reg' x) + snd (reg' x) < 2 ^ 64" "snd (reg' x) < 2 ^ 32"
      by (cases rule: cases; use D(5,6) a na in \<open>simp add: val\<close>)+
    show "if sl' x = 0 then unat x = fst (reg' x)
        else sl' x \<in> insert n L \<and> reg' (sl' x) = reg' x \<and> unat (sl' x) + rs' (sl' x) = unat x \<and> sr' (sl' x) = x"
    proof (cases "x = n \<or> x = sr a \<and> sr a \<noteq> 0")
      case True
      then show ?thesis using D(1) [OF a] D(10) [OF a] a n k n0 na ra by (auto simp: val)
    next
      case False
      then have xL: "x \<in> L" "sl' x = sl x" "reg' x = reg x" using x val(9) [of x] val(11) by auto
      have "sl x \<noteq> a" "sl x \<noteq> n" if "sl x \<noteq> 0" using D(8) [OF xL(1) that] D(1) [OF xL(1)] False nL by auto
      then show ?thesis using D(7,8) [OF xL(1)] xL val(3,6,11) [of "sl x"] by auto
    qed
    show "if sr' x = 0 then unat x + rs' x = fst (reg' x) + snd (reg' x)
        else sr' x \<in> insert n L \<and> reg' (sr' x) = reg' x \<and> unat (sr' x) = unat x + rs' x \<and> sl' (sr' x) = x"
    proof (cases rule: cases)
      case n
      then show ?thesis using D(9,10) [OF a] ra assms(3) k val(8,11) by (auto simp: val(2,5,10))
    next
      case a
      then show ?thesis using n0 n val(4,7,10,11) na by (simp add: val(1))
    next
      case o
      have "sr x \<noteq> n" "sr x \<noteq> sr a" if "sr x \<noteq> 0"
        using D(10) [OF o(1) that] D(10) [OF a] that nL o by auto
      then show ?thesis using D(9,10) [OF o(1)] o val(3,6,11) [of x] val(9,11) [of "sr x"] by auto
    qed
    fix y assume y: "y \<in> insert n L" "x \<noteq> y"
    have sub: "span rs' z \<subseteq> span rs (if z = n then a else z)" if "z \<in> insert n L" for z
    proof -
      consider "z = n" | "z = a" "z \<noteq> n" | "rs' z = rs z" "z \<noteq> n" using val(3) by blast
      then show ?thesis by cases (use n k in \<open>simp_all add: span_def val(1,2)\<close>)
    qed
    show "span rs' x \<inter> span rs' y = {}"
    proof (cases "{x, y} = {n, a}")
      case True
      then show ?thesis using span(2) y(2) by (auto simp: doubleton_eq_iff)
    next
      case False
      then have "(if x = n then a else x) \<noteq> (if y = n then a else y)" using y(2) by auto
      moreover have "(if x = n then a else x) \<in> L" "(if y = n then a else y) \<in> L" using x y(1) a by auto
      ultimately have "span rs (if x = n then a else x) \<inter> span rs (if y = n then a else y) = {}"
        using D(11) by blast
      then show ?thesis using sub [OF x] sub [OF y(1)] by blast
    qed
  qed
qed

text \<open>A new page run that is one block, and a block that is a whole run again.\<close>

lemma chain_new:
  assumes ok: "chain_ok L reg rs sl sr" and p: "p \<noteq> 0" "48 \<le> m" "m < 2 ^ 32" "unat p + m < 2 ^ 64"
    and fresh: "\<And>b. b \<in> L \<Longrightarrow> span rs b \<inter> {unat p..<unat p + m} = {}"
  shows "p \<notin> L" "chain_ok (insert p L) (reg(p := (unat p, m))) (rs(p := m)) (sl(p := 0)) (sr(p := 0))"
proof -
  note D = chain_okD [OF ok]
  show pL: "p \<notin> L"
  proof
    assume "p \<in> L"
    then show False using fresh [OF \<open>p \<in> L\<close>] span_mem [of rs p] D(2) [OF \<open>p \<in> L\<close>] p(2) by auto
  qed
  have new: "sl x \<noteq> p" "sr x \<noteq> p" if "x \<in> L" for x
    using D(8,10) [OF that] pL p(1) by metis+
  have "span (rs(p := m)) z = (if z = p then {unat p..<unat p + m} else span rs z)" for z
    by (simp add: span_def)
  then show "chain_ok (insert p L) (reg(p := (unat p, m))) (rs(p := m)) (sl(p := 0)) (sr(p := 0))"
    using ok p pL new fresh unfolding chain_ok_def by (auto 0 3 simp: Int_commute)
qed

lemma chain_drop:
  assumes ok: "chain_ok L reg rs sl sr" and a: "a \<in> L" "sl a = 0" "sr a = 0"
  shows "chain_ok (L - {a}) reg rs sl sr" "b \<in> L \<Longrightarrow> b \<noteq> a \<Longrightarrow> reg b \<noteq> reg a"
proof -
  note D = chain_okD [OF ok]
  have no: "sl x \<noteq> a" "sr x \<noteq> a" if "x \<in> L" for x
    using D(1) [OF that] D(1) [OF a(1)] D(8,10) [OF that] a by metis+
  show "chain_ok (L - {a}) reg rs sl sr"
    using ok no unfolding chain_ok_def by (auto 0 3)
  show "reg b \<noteq> reg a" if b: "b \<in> L" "b \<noteq> a"
  proof
    assume r: "reg b = reg a"
    have "unat b \<in> span rs a"
      using D(3,4) [OF b(1)] D(7,9) [OF a(1)] D(2) [OF b(1)] a r by (auto simp: span_def)
    then show False using chain_inside [OF ok a(1)] b by blast
  qed
qed

lemma chain_cong:
  assumes "chain_ok L reg rs sl sr"
    "\<And>x. x \<in> L \<Longrightarrow> reg' x = reg x \<and> rs' x = rs x \<and> sl' x = sl x \<and> sr' x = sr x"
  shows "chain_ok L reg' rs' sl' sr'"
  using assms unfolding chain_ok_def span_def by (auto 0 3)

section \<open>Free lists\<close>

text \<open>
  The free blocks of each class form a doubly linked list from \<^verbatim>\<open>l_freePages\<close>. A rank that
  decreases along \<^verbatim>\<open>next\<close> makes every walk end.
\<close>

definition dll_ok ::
    "u64 set \<Rightarrow> (u64 \<Rightarrow> int) \<Rightarrow> (u64 \<Rightarrow> u64) \<Rightarrow> (u64 \<Rightarrow> u64) \<Rightarrow> (nat \<Rightarrow> u64) \<Rightarrow> (u64 \<Rightarrow> nat) \<Rightarrow> bool" where
  "dll_ok L ix nx pv fp rk \<longleftrightarrow> 0 \<notin> L \<and>
     (\<forall>a\<in>L. ix a < 0 \<longrightarrow> nx a = 0 \<and> pv a = 0) \<and>
     (\<forall>a\<in>L. 0 \<le> ix a \<longrightarrow> ix a < 32 \<and> (if pv a = 0 then fp (nat (ix a)) = a
        else pv a \<in> L \<and> ix (pv a) = ix a \<and> nx (pv a) = a)) \<and>
     (\<forall>a\<in>L. 0 \<le> ix a \<longrightarrow> nx a \<noteq> 0 \<longrightarrow>
        nx a \<in> L \<and> ix (nx a) = ix a \<and> pv (nx a) = a \<and> rk (nx a) < rk a) \<and>
     (\<forall>i<32. fp i \<noteq> 0 \<longrightarrow> fp i \<in> L \<and> ix (fp i) = int i \<and> pv (fp i) = 0)"

lemma dll_okD:
  assumes "dll_ok L ix nx pv fp rk"
  shows "0 \<notin> L" "\<lbrakk>a \<in> L; ix a < 0\<rbrakk> \<Longrightarrow> nx a = 0 \<and> pv a = 0"
    "\<lbrakk>a \<in> L; 0 \<le> ix a\<rbrakk> \<Longrightarrow> ix a < 32"
    "\<lbrakk>a \<in> L; 0 \<le> ix a; pv a = 0\<rbrakk> \<Longrightarrow> fp (nat (ix a)) = a"
    "\<lbrakk>a \<in> L; 0 \<le> ix a; pv a \<noteq> 0\<rbrakk> \<Longrightarrow> pv a \<in> L \<and> ix (pv a) = ix a \<and> nx (pv a) = a"
    "\<lbrakk>a \<in> L; 0 \<le> ix a; nx a \<noteq> 0\<rbrakk> \<Longrightarrow> nx a \<in> L \<and> ix (nx a) = ix a \<and> pv (nx a) = a \<and> rk (nx a) < rk a"
    "\<lbrakk>i < 32; fp i \<noteq> 0\<rbrakk> \<Longrightarrow> fp i \<in> L \<and> ix (fp i) = int i \<and> pv (fp i) = 0"
  using assms unfolding dll_ok_def by (auto split: if_splits)

lemma dll_insert:
  assumes ok: "dll_ok L ix nx pv fp rk" and a: "a \<in> L" "ix a < 0" and i: "i < 32"
  defines "hh \<equiv> fp i"
  shows "dll_ok L (ix(a := int i)) (if hh = 0 then nx else nx(a := hh)) (if hh = 0 then pv else pv(hh := a))
    (fp(i := a)) (rk(a := Suc (rk hh)))"
proof -
  note D = dll_okD [OF ok]
  have a0: "nx a = 0" "pv a = 0" "a \<noteq> 0" using D(1) D(2) [OF a] a by auto
  have h: "hh \<in> L" "ix hh = int i" "pv hh = 0" "hh \<noteq> a" if "hh \<noteq> 0"
    using D(7) [OF i] that a(2) by (auto simp: hh_def)
  have ne: "pv x \<noteq> a" "nx x \<noteq> a" if "x \<in> L" "0 \<le> ix x" for x
    using D(5,6) [OF that] a(2) a0(3) that by fastforce+
  have nh: "nx x \<noteq> hh" if "x \<in> L" "0 \<le> ix x" "hh \<noteq> 0" for x
    using D(6) [OF that(1,2)] h that D(1) by metis
  show ?thesis unfolding dll_ok_def
  proof (intro conjI ballI impI allI)
    show "0 \<notin> L" by (rule D(1))
    fix x assume x: "x \<in> L"
    show "(if hh = 0 then nx else nx(a := hh)) x = 0" if "(ix(a := int i)) x < 0"
      using that D(2) [OF x] by (auto split: if_splits)
    show "(if hh = 0 then pv else pv(hh := a)) x = 0" if "(ix(a := int i)) x < 0"
      using that D(2) [OF x] h by (auto split: if_splits)
    show "(ix(a := int i)) x < 32" if "0 \<le> (ix(a := int i)) x"
      using that D(3) [OF x] i by (auto split: if_splits)
    show "if (if hh = 0 then pv else pv(hh := a)) x = 0 then (fp(i := a)) (nat ((ix(a := int i)) x)) = x
      else (if hh = 0 then pv else pv(hh := a)) x \<in> L \<and>
        (ix(a := int i)) ((if hh = 0 then pv else pv(hh := a)) x) = (ix(a := int i)) x \<and>
        (if hh = 0 then nx else nx(a := hh)) ((if hh = 0 then pv else pv(hh := a)) x) = x"
      if p: "0 \<le> (ix(a := int i)) x"
    proof -
      consider "x = a" | "x = hh" "hh \<noteq> 0" "x \<noteq> a" | "x \<noteq> a" "x \<noteq> hh" "0 \<le> ix x"
        using p x D(1) by (auto split: if_splits)
      then show ?thesis
      proof cases
        case 1
        then show ?thesis using a0 h by auto
      next
        case 2
        then show ?thesis using a h a0 by auto
      next
        case 3
        have "ix x \<noteq> int i" if "pv x = 0" using D(4) [OF x 3(3) that] 3(2) by (auto simp: hh_def)
        then show ?thesis using 3 D(4,5) [OF x 3(3)] ne [OF x 3(3)] by auto
      qed
    qed
    assume p: "0 \<le> (ix(a := int i)) x" "(if hh = 0 then nx else nx(a := hh)) x \<noteq> 0"
    show "(if hh = 0 then nx else nx(a := hh)) x \<in> L"
      "(ix(a := int i)) ((if hh = 0 then nx else nx(a := hh)) x) = (ix(a := int i)) x"
      "(if hh = 0 then pv else pv(hh := a)) ((if hh = 0 then nx else nx(a := hh)) x) = x"
      "(rk(a := Suc (rk hh))) ((if hh = 0 then nx else nx(a := hh)) x) < (rk(a := Suc (rk hh))) x"
      using p a0 h D(6) [OF x] ne [OF x] nh [OF x] by (auto split: if_splits)
  next
    fix j assume j: "j < 32" "(fp(i := a)) j \<noteq> 0"
    show "(fp(i := a)) j \<in> L" "(ix(a := int i)) ((fp(i := a)) j) = int j"
      "(if hh = 0 then pv else pv(hh := a)) ((fp(i := a)) j) = 0"
      using j D(7) [OF j(1)] a a0 h by (auto split: if_splits)
  qed
qed

lemma dll_remove:
  assumes ok: "dll_ok L ix nx pv fp rk" and a: "a \<in> L" "0 \<le> ix a"
  defines "i \<equiv> nat (ix a)"
  defines "nx' \<equiv> (if pv a = 0 then nx else nx(pv a := nx a))(a := 0)"
    and "pv' \<equiv> (if nx a = 0 then pv else pv(nx a := pv a))(a := 0)"
    and "fp' \<equiv> (if fp i = a then fp(i := nx a) else fp)"
  shows "dll_ok L (ix(a := - 1)) nx' pv' fp' rk"
    "nx a \<noteq> a" "pv a \<noteq> a" "pv a \<noteq> 0 \<Longrightarrow> nx a \<noteq> pv a"
proof -
  note D = dll_okD [OF ok]
  have i: "i < 32" "int i = ix a" using D(3) [OF a] a(2) by (auto simp: i_def)
  have n: "nx a \<in> L" "ix (nx a) = ix a" "pv (nx a) = a" "rk (nx a) < rk a" if "nx a \<noteq> 0" using D(6) [OF a that] by auto
  have p: "pv a \<in> L" "ix (pv a) = ix a" "nx (pv a) = a" "rk a < rk (pv a)" if "pv a \<noteq> 0"
    using D(5) [OF a that] D(6) [of "pv a"] a D(1) by auto
  have az: "a \<noteq> 0" using D(1) a(1) by auto
  show na: "nx a \<noteq> a" using n(4) az by auto
  show pa: "pv a \<noteq> a" using p(4) az by auto
  show np: "nx a \<noteq> pv a" if "pv a \<noteq> 0" using n(4) p(4) that by fastforce
  have head: "fp i = a \<longleftrightarrow> pv a = 0"
    using D(4) [OF a] D(7) [OF i(1)] az by (auto simp: i_def)
  show "dll_ok L (ix(a := - 1)) nx' pv' fp' rk" unfolding dll_ok_def
  proof (intro conjI ballI impI allI)
    show "0 \<notin> L" by (rule D(1))
    fix x assume x: "x \<in> L"
    { assume "(ix(a := - 1)) x < 0"
      then have "x = a \<or> ix x < 0" by (auto split: if_splits)
      then show "nx' x = 0" "pv' x = 0" using D(2) [OF x] n(2) p(2) a(2) by (auto simp: nx'_def pv'_def) }
    { assume "0 \<le> (ix(a := - 1)) x"
      then have xx: "x \<noteq> a" "0 \<le> ix x" by (auto split: if_splits)
      show "(ix(a := - 1)) x < 32" using D(3) [OF x xx(2)] xx by simp
      show "if pv' x = 0 then fp' (nat ((ix(a := - 1)) x)) = x
        else pv' x \<in> L \<and> (ix(a := - 1)) (pv' x) = (ix(a := - 1)) x \<and> nx' (pv' x) = x"
      proof (cases "x = nx a")
        case True
        then have n0: "nx a \<noteq> 0" using x D(1) by auto
        then have "pv' x = pv a" using True xx(1) by (simp add: pv'_def)
        then show ?thesis using True n0 xx n(2) [OF n0] p pa head i by (auto simp: fp'_def nx'_def)
      next
        case False
        then have pv: "pv' x = pv x" using xx(1) by (simp add: pv'_def)
        have "pv x \<noteq> a" if "pv x \<noteq> 0" using D(5) [OF x xx(2) that] False by auto
        moreover have "pv x \<noteq> pv a" if "pv x \<noteq> 0" "pv a \<noteq> 0" using D(5) [OF x xx(2) that(1)] p(3) [OF that(2)] xx(1) by auto
        moreover have "fp (nat (ix x)) = x \<Longrightarrow> fp' (nat (ix x)) = x" using xx(1) by (auto simp: fp'_def)
        ultimately show ?thesis using D(4,5) [OF x xx(2)] xx unfolding pv by (auto simp: nx'_def)
      qed
      assume nz: "nx' x \<noteq> 0"
      have "nx' x \<in> L \<and> (ix(a := - 1)) (nx' x) = (ix(a := - 1)) x \<and> pv' (nx' x) = x \<and> rk (nx' x) < rk x"
      proof (cases "x = pv a")
        case True
        then have p0: "pv a \<noteq> 0" using x D(1) by auto
        then have "nx' x = nx a" using True xx(1) by (simp add: nx'_def)
        then show ?thesis using True p0 nz xx p n na by (auto simp: pv'_def)
      next
        case False
        then have nx: "nx' x = nx x" using xx(1) by (simp add: nx'_def)
        have N: "nx x \<in> L" "ix (nx x) = ix x" "pv (nx x) = x" "rk (nx x) < rk x"
          using D(6) [OF x xx(2)] nz unfolding nx by auto
        have "nx x \<noteq> a" using N(3) False by auto
        moreover have "nx x \<noteq> nx a" using N(3) n(3) nz xx(1) unfolding nx by auto
        ultimately show ?thesis using N xx unfolding nx by (auto simp: pv'_def)
      qed
      then show "nx' x \<in> L" "(ix(a := - 1)) (nx' x) = (ix(a := - 1)) x" "pv' (nx' x) = x" "rk (nx' x) < rk x"
        by blast+ }
  next
    fix j assume j: "j < 32" "fp' j \<noteq> 0"
    have "fp' j \<in> L \<and> (ix(a := - 1)) (fp' j) = int j \<and> pv' (fp' j) = 0"
    proof (cases "j = i \<and> fp i = a")
      case True
      then have "fp' j = nx a" by (simp add: fp'_def)
      then show ?thesis using j(2) n na i True head by (auto simp: pv'_def)
    next
      case False
      then have e: "fp' j = fp j" by (auto simp: fp'_def)
      have F: "fp j \<in> L" "ix (fp j) = int j" "pv (fp j) = 0" using D(7) [OF j(1)] j(2) unfolding e by auto
      have "fp j \<noteq> a" using F(2) False i(2) by auto
      moreover have "fp j \<noteq> nx a" if "nx a \<noteq> 0" using n(3) [OF that] F(3) D(1) a(1) by auto
      ultimately show ?thesis using F unfolding e by (auto simp: pv'_def)
    qed
    then show "fp' j \<in> L" "(ix(a := - 1)) (fp' j) = int j" "pv' (fp' j) = 0" by blast+
  qed
qed

lemma dll_add:
  assumes "dll_ok L ix nx pv fp rk" "x \<notin> L" "x \<noteq> 0"
  shows "dll_ok (insert x L) (ix(x := - 1)) (nx(x := 0)) (pv(x := 0)) fp rk"
  using assms unfolding dll_ok_def by (auto 0 3)

lemma dll_drop:
  assumes "dll_ok L ix nx pv fp rk" "ix a < 0"
  shows "dll_ok (L - {a}) ix nx pv fp rk"
  using assms unfolding dll_ok_def by (auto 0 3)

lemma dll_cong:
  assumes "dll_ok L ix nx pv fp rk"
    "\<And>x. x \<in> L \<Longrightarrow> ix' x = ix x \<and> nx' x = nx x \<and> pv' x = pv x" "\<And>i. i < 32 \<Longrightarrow> fp' i = fp i"
  shows "dll_ok L ix' nx' pv' fp' rk"
  using assms(1) unfolding dll_ok_def by (auto 0 3 simp: assms(2,3))

section \<open>The heap invariant\<close>

text \<open>The fields of the tags as functions of the address.\<close>

abbreviation (input) rsz :: "lheap \<Rightarrow> u64 \<Rightarrow> nat" where "rsz h a \<equiv> unat (real_size (the (tags h a)))"
abbreviation (input) slf :: "lheap \<Rightarrow> u64 \<Rightarrow> u64" where "slf h a \<equiv> split_left (the (tags h a))"
abbreviation (input) srt :: "lheap \<Rightarrow> u64 \<Rightarrow> u64" where "srt h a \<equiv> split_right (the (tags h a))"
abbreviation (input) idx :: "lheap \<Rightarrow> u64 \<Rightarrow> int" where "idx h a \<equiv> tindex (the (tags h a))"
abbreviation (input) nxt :: "lheap \<Rightarrow> u64 \<Rightarrow> u64" where "nxt h a \<equiv> tnext (the (tags h a))"
abbreviation (input) prv :: "lheap \<Rightarrow> u64 \<Rightarrow> u64" where "prv h a \<equiv> tprev (the (tags h a))"
abbreviation (input) fpg :: "lheap \<Rightarrow> nat \<Rightarrow> u64" where "fpg h i \<equiv> l_freePages h ! i"

text \<open>The memory of a tag holds nothing but the tag.\<close>

definition tag_stored :: "lheap \<Rightarrow> u64 \<Rightarrow> bool" where
  "tag_stored h a \<longleftrightarrow> (\<forall>x. unat (x - a) < TAG_SIZE \<longrightarrow> bytes h x = None)"

lemma tag_stored_cong: "bytes h' = bytes h \<Longrightarrow> tag_stored h' a = tag_stored h a"
  by (simp add: tag_stored_def)

lemma tag_stored_fields [simp]:
  "tag_stored (h\<lparr>tags := t\<rparr>) = tag_stored h" "tag_stored (h\<lparr>l_freePages := f\<rparr>) = tag_stored h"
  "tag_stored (h\<lparr>l_completePages := c\<rparr>) = tag_stored h" "tag_stored (h\<lparr>l_initialized := i\<rparr>) = tag_stored h"
  by (simp_all add: fun_eq_iff tag_stored_def)

lemma put_tag_stored: "tag_stored h a \<Longrightarrow> put_tag a t h = h\<lparr>tags := (tags h)(a \<mapsto> t)\<rparr>"
proof -
  assume "tag_stored h a"
  then have "tag_over a (bytes h) = bytes h" by (auto simp: tag_over_def tag_stored_def fun_eq_iff)
  then show ?thesis by (cases h) (simp add: put_tag_def)
qed

definition heap_shape :: "lheap \<Rightarrow> u64 set \<Rightarrow> (u64 \<Rightarrow> region) \<Rightarrow> (u64 \<Rightarrow> nat) \<Rightarrow> bool" where
  "heap_shape h L reg rk \<longleftrightarrow>
     length (l_freePages h) = 32 \<and> length (l_completePages h) = 32 \<and> finite L \<and>
     (\<forall>a\<in>L. (\<exists>t. tags h a = Some t \<and> magic t = LIBALLOC_MAGIC) \<and> tag_stored h a) \<and>
     chain_ok L reg (rsz h) (slf h) (srt h) \<and> dll_ok L (idx h) (nxt h) (prv h) (fpg h) rk"

lemma heap_shapeD:
  assumes "heap_shape h L reg rk"
  shows "chain_ok L reg (rsz h) (slf h) (srt h)" "dll_ok L (idx h) (nxt h) (prv h) (fpg h) rk"
    "a \<in> L \<Longrightarrow> tags h a = Some (the (tags h a))" "a \<in> L \<Longrightarrow> magic (the (tags h a)) = LIBALLOC_MAGIC"
    "length (l_freePages h) = 32" "length (l_completePages h) = 32" "finite L" "a \<in> L \<Longrightarrow> tag_stored h a"
  using assms unfolding heap_shape_def by auto

text \<open>Heaps that differ in the list links or in the geometry of the tags only.\<close>

definition relink ::
    "(u64 \<Rightarrow> int) \<Rightarrow> (u64 \<Rightarrow> u64) \<Rightarrow> (u64 \<Rightarrow> u64) \<Rightarrow> u64 list \<Rightarrow> lheap \<Rightarrow> lheap" where
  "relink ix nx pv fl h = h\<lparr>l_freePages := fl,
     tags := (\<lambda>x. map_option (\<lambda>t. t\<lparr>tindex := ix x, tnext := nx x, tprev := pv x\<rparr>) (tags h x))\<rparr>"

definition regeo :: "(u64 \<Rightarrow> u32) \<Rightarrow> (u64 \<Rightarrow> u64) \<Rightarrow> (u64 \<Rightarrow> u64) \<Rightarrow> lheap \<Rightarrow> lheap" where
  "regeo rs sl sr h = h\<lparr>
     tags := (\<lambda>x. map_option (\<lambda>t. t\<lparr>real_size := rs x, split_left := sl x, split_right := sr x\<rparr>) (tags h x))\<rparr>"

lemma relink_sel [simp]:
  "l_freePages (relink ix nx pv fl h) = fl" "l_completePages (relink ix nx pv fl h) = l_completePages h"
  "l_initialized (relink ix nx pv fl h) = l_initialized h" "bytes (relink ix nx pv fl h) = bytes h"
  "tags (relink ix nx pv fl h) x = map_option (\<lambda>t. t\<lparr>tindex := ix x, tnext := nx x, tprev := pv x\<rparr>) (tags h x)"
  by (simp_all add: relink_def)

lemma regeo_sel [simp]:
  "l_freePages (regeo rs sl sr h) = l_freePages h" "l_completePages (regeo rs sl sr h) = l_completePages h"
  "l_initialized (regeo rs sl sr h) = l_initialized h" "bytes (regeo rs sl sr h) = bytes h"
  "tags (regeo rs sl sr h) x = map_option (\<lambda>t. t\<lparr>real_size := rs x, split_left := sl x, split_right := sr x\<rparr>) (tags h x)"
  by (simp_all add: regeo_def)

lemma relink_stored [simp]:
  "tag_stored (relink ix nx pv fl h) = tag_stored h" "tag_stored (regeo rs sl sr h) = tag_stored h"
  by (simp_all add: fun_eq_iff tag_stored_def)

lemma shape_relink:
  assumes "heap_shape h L reg rk" "dll_ok L ix nx pv (\<lambda>i. fl ! i) rk'" "length fl = 32"
  shows "heap_shape (relink ix nx pv fl h) L reg rk'"
proof -
  note S = heap_shapeD [OF assms(1)]
  have t: "the (tags (relink ix nx pv fl h) x) = (the (tags h x))\<lparr>tindex := ix x, tnext := nx x, tprev := pv x\<rparr>"
    if "x \<in> L" for x using S(3) [OF that] by (metis relink_sel(5) option.map(2) option.sel)
  have "chain_ok L reg (rsz (relink ix nx pv fl h)) (slf (relink ix nx pv fl h)) (srt (relink ix nx pv fl h))"
    by (rule chain_cong [OF S(1)]) (simp only: t, simp)
  moreover have "dll_ok L (idx (relink ix nx pv fl h)) (nxt (relink ix nx pv fl h)) (prv (relink ix nx pv fl h))
      (fpg (relink ix nx pv fl h)) rk'"
    by (rule dll_cong [OF assms(2)]) (simp only: t, simp, simp)
  ultimately show ?thesis using assms(1,3) unfolding heap_shape_def by fastforce
qed

lemma shape_regeo:
  assumes "heap_shape h L reg rk" "chain_ok L' reg (\<lambda>x. unat (rs x)) sl sr" "L' \<subseteq> L"
    "dll_ok L' (idx h) (nxt h) (prv h) (fpg h) rk"
  shows "heap_shape (regeo rs sl sr h) L' reg rk"
proof -
  note S = heap_shapeD [OF assms(1)]
  have t: "the (tags (regeo rs sl sr h) x) = (the (tags h x))\<lparr>real_size := rs x, split_left := sl x, split_right := sr x\<rparr>"
    if "x \<in> L'" for x using S(3) [of x] assms(3) that by (metis regeo_sel(5) option.map(2) option.sel subsetD)
  have "chain_ok L' reg (rsz (regeo rs sl sr h)) (slf (regeo rs sl sr h)) (srt (regeo rs sl sr h))"
    by (rule chain_cong [OF assms(2)]) (simp only: t, simp)
  moreover have "dll_ok L' (idx (regeo rs sl sr h)) (nxt (regeo rs sl sr h)) (prv (regeo rs sl sr h))
      (fpg (regeo rs sl sr h)) rk"
    by (rule dll_cong [OF assms(4)]) (simp only: t, simp, simp)
  moreover have "finite L'" using S(7) assms(3) by (rule finite_subset [rotated])
  ultimately show ?thesis using assms(1,3) unfolding heap_shape_def by fastforce
qed

lemma upd_tag_Some: "tags h a = Some t \<Longrightarrow> tag_stored h a \<Longrightarrow> upd_tag a f h = Some (h\<lparr>tags := (tags h)(a \<mapsto> f t)\<rparr>)"
  by (simp add: upd_tag_def put_tag_stored)

lemma links_id [simp]: "t\<lparr>tindex := tindex t, tnext := tnext t, tprev := tprev t\<rparr> = (t :: boundary_tag)"
  by (cases t) simp

lemma geo_id [simp]: "t\<lparr>real_size := real_size t, split_left := split_left t, split_right := split_right t\<rparr> = (t :: boundary_tag)"
  by (cases t) simp

lemma lheap_eqI:
  assumes "l_freePages h = l_freePages h'" "l_completePages h = l_completePages h'"
    "l_initialized h = l_initialized h'" "\<And>x. tags h x = tags h' x" "bytes h = bytes h'"
  shows "h = (h' :: lheap)"
  using assms by (cases h; cases h') (auto simp: fun_eq_iff)

lemma remove_tag_eq:
  assumes S: "heap_shape h L reg rk" and a: "a \<in> L" "0 \<le> idx h a"
  defines "i \<equiv> nat (idx h a)"
  defines "nx' \<equiv> (if prv h a = 0 then nxt h else (nxt h)(prv h a := nxt h a))(a := 0)"
    and "pv' \<equiv> (if nxt h a = 0 then prv h else (prv h)(nxt h a := prv h a))(a := 0)"
    and "fl \<equiv> (if fpg h i = a then (l_freePages h)[i := nxt h a] else l_freePages h)"
  shows "remove_tag a h = Some (relink ((idx h)(a := - 1)) nx' pv' fl h)"
    "heap_shape (relink ((idx h)(a := - 1)) nx' pv' fl h) L reg rk"
proof -
  note H = heap_shapeD [OF S]
  note R = dll_remove [OF H(2) a]
  note D = dll_okD [OF H(2)]
  obtain t where t: "tags h a = Some t" using H(3) [OF a(1)] by blast
  have i: "i < 32" using D(3) [OF a] a(2) by (simp add: i_def)
  have fl: "(\<lambda>j. fl ! j) = (if fpg h i = a then (fpg h)(i := nxt h a) else fpg h)"
    using i H(5) by (auto simp: fl_def nth_list_update fun_eq_iff)
  show "heap_shape (relink ((idx h)(a := - 1)) nx' pv' fl h) L reg rk"
  proof (rule shape_relink [OF S])
    show "dll_ok L ((idx h)(a := - 1)) nx' pv' (\<lambda>j. fl ! j) rk"
      unfolding fl using R(1) by (simp only: nx'_def pv'_def i_def)
  qed (use H(5) in \<open>simp add: fl_def\<close>)
  have ti: "0 \<le> tindex t" "tindex t < 32" using D(3) [OF a] a(2) t by auto
  have p: "\<exists>p. tags h (tprev t) = Some p" and sp: "tag_stored h (tprev t)" if "tprev t \<noteq> 0"
    using D(5) [OF a] that H(3,8) [of "tprev t"] t by auto
  have n: "\<exists>n. tags h (tnext t) = Some n" and sn: "tag_stored h (tnext t)" if "tnext t \<noteq> 0"
    using D(6) [OF a] that H(3,8) [of "tnext t"] t by auto
  have ne: "tnext t \<noteq> a" "tprev t \<noteq> a" "tprev t \<noteq> 0 \<Longrightarrow> tnext t \<noteq> tprev t" using R(2-4) t by auto
  show "remove_tag a h = Some (relink ((idx h)(a := - 1)) nx' pv' fl h)"
  proof -
    have F: "remove_tag a h = Some g \<Longrightarrow> l_freePages g = fl \<Longrightarrow> l_completePages g = l_completePages h \<Longrightarrow>
        l_initialized g = l_initialized h \<Longrightarrow> bytes g = bytes h \<Longrightarrow>
        (\<And>x. tags g x = tags (relink ((idx h)(a := - 1)) nx' pv' fl h) x) \<Longrightarrow> ?thesis" for g
      using lheap_eqI [of g "relink ((idx h)(a := - 1)) nx' pv' fl h"] by simp
    define h1 where "h1 = h\<lparr>l_freePages := fl\<rparr>"
    have h1: "(if fpg h (nat (tindex t)) = a then h\<lparr>l_freePages := (l_freePages h)[nat (tindex t) := tnext t]\<rparr> else h) = h1"
      using t by (auto simp: h1_def fl_def i_def)
    have th1: "tags h1 = tags h" by (simp add: h1_def)
    define h2 where "h2 = (if tprev t \<noteq> 0
      then h1\<lparr>tags := (tags h1)(tprev t \<mapsto> (the (tags h (tprev t)))\<lparr>tnext := tnext t\<rparr>)\<rparr> else h1)"
    have h2: "(if tprev t \<noteq> 0 then upd_tag (tprev t) (\<lambda>p. p\<lparr>tnext := tnext t\<rparr>) h1 else Some h1) = Some h2"
      using p sp by (auto simp: h2_def th1 upd_tag_Some h1_def)
    have t2: "tags h2 a = Some t" using ne t by (simp add: h2_def th1)
    define h3 where "h3 = (if tnext t \<noteq> 0
      then h2\<lparr>tags := (tags h2)(tnext t \<mapsto> (the (tags h (tnext t)))\<lparr>tprev := tprev t\<rparr>)\<rparr> else h2)"
    have t3: "tags h2 (tnext t) = tags h (tnext t)" if "tnext t \<noteq> 0"
      using ne by (auto simp: h2_def th1)
    have h3: "(if tnext t \<noteq> 0 then upd_tag (tnext t) (\<lambda>n. n\<lparr>tprev := tprev t\<rparr>) h2 else Some h2) = Some h3"
      using n t3 sn by (auto simp: h3_def upd_tag_Some h2_def h1_def)
    have t4: "tags h3 a = Some t" "tag_stored h3 a" using ne t2 H(8) [OF a(1)] by (simp_all add: h3_def h2_def h1_def)
    let ?g = "h3\<lparr>tags := (tags h3)(a \<mapsto> t\<lparr>tnext := 0, tprev := 0, tindex := - 1\<rparr>)\<rparr>"
    have "remove_tag a h = Some ?g"
      unfolding remove_tag_def using t ti h1 h2 h3 t2 t4 by (simp add: Let_def upd_tag_Some)
    then show ?thesis
    proof (rule F)
      fix x
      have gx: "tags ?g x = (if x = a then Some (t\<lparr>tnext := 0, tprev := 0, tindex := - 1\<rparr>)
         else if x = tnext t \<and> tnext t \<noteq> 0 then Some ((the (tags h (tnext t)))\<lparr>tprev := tprev t\<rparr>)
         else if x = tprev t \<and> tprev t \<noteq> 0 then Some ((the (tags h (tprev t)))\<lparr>tnext := tnext t\<rparr>)
         else tags h x)" by (auto simp: h3_def h2_def th1)
      have n': "tnext t = 0 \<or> (\<exists>n. tags h (tnext t) = Some n)" and p': "tprev t = 0 \<or> (\<exists>p. tags h (tprev t) = Some p)"
        using n p by blast+
      have id2: "u\<lparr>tindex := tindex u, tnext := y, tprev := tprev u\<rparr> = u\<lparr>tnext := y\<rparr>"
        "u\<lparr>tindex := tindex u, tnext := tnext u, tprev := y\<rparr> = u\<lparr>tprev := y\<rparr>" for u :: boundary_tag and y
        by (cases u; simp)+
      show "tags ?g x = tags (relink ((idx h)(a := - 1)) nx' pv' fl h) x"
        unfolding gx using t n' p' ne by (cases "tags h x") (auto simp: nx'_def pv'_def id2)
    qed (simp_all add: h3_def h2_def h1_def)
  qed
qed

lemma insert_tag_eq:
  assumes S: "heap_shape h L reg rk" and a: "a \<in> L" "idx h a < 0"
    and j: "j = (if i < 0 then bucket (real_size (the (tags h a))) else i)" "j < 32"
  defines "hh \<equiv> fpg h (nat j)"
  defines "nx' \<equiv> (if hh = 0 then nxt h else (nxt h)(a := hh))"
    and "pv' \<equiv> (if hh = 0 then prv h else (prv h)(hh := a))"
    and "fl \<equiv> (l_freePages h)[nat j := a]"
  shows "insert_tag a i h = Some (relink ((idx h)(a := j)) nx' pv' fl h)"
    "heap_shape (relink ((idx h)(a := j)) nx' pv' fl h) L reg (rk(a := Suc (rk hh)))"
proof -
  note H = heap_shapeD [OF S]
  note D = dll_okD [OF H(2)]
  have j0: "0 \<le> j" using j bucket_bounds(1) [of "real_size (the (tags h a))"] by (auto split: if_splits)
  then have nj: "nat j < 32" "int (nat j) = j" using j(2) by auto
  have fl: "(\<lambda>k. fl ! k) = (fpg h)(nat j := a)" using nj H(5) by (auto simp: fl_def nth_list_update fun_eq_iff)
  show "heap_shape (relink ((idx h)(a := j)) nx' pv' fl h) L reg (rk(a := Suc (rk hh)))"
  proof (rule shape_relink [OF S])
    show "dll_ok L ((idx h)(a := j)) nx' pv' (\<lambda>k. fl ! k) (rk(a := Suc (rk hh)))"
      unfolding fl using dll_insert [OF H(2) a nj(1)] nj(2) by (simp only: nx'_def pv'_def hh_def)
  qed (use H(5) in \<open>simp add: fl_def\<close>)
  obtain t where t: "tags h a = Some t" using H(3) [OF a(1)] by blast
  have hh: "hh = 0 \<or> hh \<noteq> a \<and> (\<exists>u. tags h hh = Some u) \<and> tag_stored h hh"
    using D(7) [OF nj(1)] H(3,8) [of hh] a(2) nj(2) j0 by (auto simp: hh_def)
  note sa = H(8) [OF a(1)]
  define h1 where "h1 = h\<lparr>tags := (tags h)(a \<mapsto> t\<lparr>tindex := j\<rparr>)\<rparr>"
  define h2 where "h2 = (if hh \<noteq> 0 then h1\<lparr>tags := (tags h1)(hh \<mapsto> (the (tags h hh))\<lparr>tprev := a\<rparr>,
      a \<mapsto> t\<lparr>tindex := j, tnext := hh\<rparr>)\<rparr> else h1)"
  have h2: "(if hh \<noteq> 0 then Option.bind (upd_tag hh (\<lambda>t. t\<lparr>tprev := a\<rparr>) h1) (upd_tag a (\<lambda>t. t\<lparr>tnext := hh\<rparr>))
      else Some h1) = Some h2"
    using hh sa by (auto simp: h2_def h1_def upd_tag_Some)
  have j': "(if i < 0 then max (getexp (real_size t - 48)) (int 8) else i) = j"
    using j t by (simp add: bucket_def)
  have "insert_tag a i h = Some (h2\<lparr>l_freePages := (l_freePages h2)[nat j := a]\<rparr>)"
  proof -
    have u1: "upd_tag a (\<lambda>t. t\<lparr>tindex := j\<rparr>) h = Some h1" by (simp add: upd_tag_Some [OF t sa] h1_def)
    have f1: "l_freePages h1 ! nat j = hh" by (simp add: h1_def hh_def)
    have j32: "(int 32 \<le> j) = False" using j(2) by simp
    show ?thesis
      unfolding insert_tag_def by (simp only: t Option.bind.bind_lunit Let_def j' u1 j32 f1 h2 if_False)
  qed
  also have "h2\<lparr>l_freePages := (l_freePages h2)[nat j := a]\<rparr> = relink ((idx h)(a := j)) nx' pv' fl h"
  proof (rule lheap_eqI)
    fix x
    have id2: "u\<lparr>tindex := tindex u, tnext := tnext u, tprev := y\<rparr> = u\<lparr>tprev := y\<rparr>"
      "u\<lparr>tindex := k, tnext := z, tprev := tprev u\<rparr> = u\<lparr>tindex := k, tnext := z\<rparr>"
      "u\<lparr>tindex := k, tnext := tnext u\<rparr> = u\<lparr>tindex := k\<rparr>" for u :: boundary_tag and y z k
      by (cases u; simp)+
    show "tags (h2\<lparr>l_freePages := (l_freePages h2)[nat j := a]\<rparr>) x = tags (relink ((idx h)(a := j)) nx' pv' fl h) x"
      using t hh by (cases "tags h x") (auto simp: h2_def h1_def nx'_def pv'_def id2)
  qed (simp_all add: h2_def h1_def fl_def)
  finally show "insert_tag a i h = Some (relink ((idx h)(a := j)) nx' pv' fl h)" .
qed

text \<open>Merging block \<open>b\<close> into its left neighbour \<open>a\<close>.\<close>

definition merge_tags :: "u64 \<Rightarrow> u64 \<Rightarrow> lheap \<Rightarrow> lheap" where
  "merge_tags a b h = regeo
     ((\<lambda>x. real_size (the (tags h x)))(a := real_size (the (tags h a)) + real_size (the (tags h b))))
     (if srt h b = 0 then slf h else (slf h)(srt h b := a)) ((srt h)(a := srt h b)) h"

lemma merge_tags_eq:
  assumes t: "tags h a = Some ta" "tags h b = Some tb" "a \<noteq> b" "tag_stored h a"
    and r: "split_right tb \<noteq> 0 \<Longrightarrow> split_right tb \<noteq> a \<and> (\<exists>u. tags h (split_right tb) = Some u) \<and> tag_stored h (split_right tb)"
  shows "(do {
     h \<leftarrow> upd_tag a (\<lambda>l. l\<lparr>real_size := real_size l + real_size tb\<rparr>) h;
     h \<leftarrow> upd_tag a (\<lambda>l. l\<lparr>split_right := split_right tb\<rparr>) h;
     h \<leftarrow> (if split_right tb \<noteq> 0 then upd_tag (split_right tb) (\<lambda>r. r\<lparr>split_left := a\<rparr>) h else Some h);
     f h
   }) = f (merge_tags a b h)"
proof -
  let ?t = "ta\<lparr>real_size := real_size ta + real_size tb, split_right := split_right tb\<rparr>"
  define h2 where "h2 = h\<lparr>tags := (tags h)(a \<mapsto> ?t)\<rparr>"
  define h3 where "h3 = (if split_right tb \<noteq> 0
      then h2\<lparr>tags := (tags h2)(split_right tb \<mapsto> (the (tags h (split_right tb)))\<lparr>split_left := a\<rparr>)\<rparr> else h2)"
  have "h3 = merge_tags a b h"
  proof (rule lheap_eqI)
    fix x
    have id2: "u\<lparr>real_size := real_size u, split_left := y, split_right := split_right u\<rparr> = u\<lparr>split_left := y\<rparr>"
      "u\<lparr>real_size := k, split_left := split_left u, split_right := z\<rparr> = u\<lparr>real_size := k, split_right := z\<rparr>"
      for u :: boundary_tag and y z k by (cases u; simp)+
    have r': "split_right tb = 0 \<or> split_right tb \<noteq> a \<and> (\<exists>u. tags h (split_right tb) = Some u)"
      using r by blast
    show "tags h3 x = tags (merge_tags a b h) x"
      using t r' by (cases "tags h x") (auto simp: h3_def h2_def merge_tags_def id2)
  qed (simp_all add: h3_def h2_def merge_tags_def)
  moreover have "(do {
     h \<leftarrow> upd_tag a (\<lambda>l. l\<lparr>real_size := real_size l + real_size tb\<rparr>) h;
     h \<leftarrow> upd_tag a (\<lambda>l. l\<lparr>split_right := split_right tb\<rparr>) h;
     h \<leftarrow> (if split_right tb \<noteq> 0 then upd_tag (split_right tb) (\<lambda>r. r\<lparr>split_left := a\<rparr>) h else Some h);
     f h
   }) = f h3"
    using t r by (auto simp: h3_def h2_def upd_tag_Some)
  ultimately show ?thesis by simp
qed

lemma merge_shape:
  assumes S: "heap_shape h L reg rk" and a: "a \<in> L" "srt h a = b" "b \<noteq> 0" and ib: "idx h b < 0"
  shows "heap_shape (merge_tags a b h) (L - {b}) reg rk"
    "unat (real_size (the (tags h a)) + real_size (the (tags h b))) = rsz h a + rsz h b"
proof -
  note H = heap_shapeD [OF S]
  note C = chain_okD [OF H(1)]
  have b: "b \<in> L" "reg b = reg a" "unat b = unat a + rsz h a" using C(10) [OF a(1)] a by auto
  have "rsz h a + rsz h b < 2 ^ LENGTH(32)"
    using C(4) [OF b(1)] C(3,6) [OF a(1)] b by simp
  then show u: "unat (real_size (the (tags h a)) + real_size (the (tags h b))) = rsz h a + rsz h b"
    by (rule unat_plus_no_wrap)
  show "heap_shape (merge_tags a b h) (L - {b}) reg rk" unfolding merge_tags_def
  proof (rule shape_regeo [OF S])
    have "(\<lambda>x. unat (((\<lambda>x. real_size (the (tags h x)))
        (a := real_size (the (tags h a)) + real_size (the (tags h b)))) x)) = (rsz h)(a := rsz h a + rsz h b)"
      using u by (auto simp: fun_eq_iff)
    then show "chain_ok (L - {b}) reg (\<lambda>x. unat (((\<lambda>x. real_size (the (tags h x)))
        (a := real_size (the (tags h a)) + real_size (the (tags h b)))) x))
        (if srt h b = 0 then slf h else (slf h)(srt h b := a)) ((srt h)(a := srt h b))"
      using chain_merge [OF H(1) a] by simp
    show "dll_ok (L - {b}) (idx h) (nxt h) (prv h) (fpg h) rk" by (rule dll_drop [OF H(2) ib])
  qed auto
qed

lemma melt_left_eq:
  assumes S: "heap_shape h L reg rk" and b: "b \<in> L" "slf h b = a" "a \<noteq> 0"
  shows "melt_left b h = Some (a, merge_tags a b h)"
proof -
  note H = heap_shapeD [OF S]
  note C = chain_okD [OF H(1)]
  have a: "a \<in> L" "srt h a = b" "unat a + rsz h a = unat b" using C(8) [OF b(1)] b by auto
  have ab: "a \<noteq> b" using a(3) C(2) [OF a(1)] by auto
  have r: "srt h b \<noteq> 0 \<Longrightarrow> srt h b \<noteq> a \<and> (\<exists>u. tags h (srt h b) = Some u) \<and> tag_stored h (srt h b)"
    using C(10) [OF b(1)] C(2) [OF b(1)] a(3) H(3,8) [of "srt h b"] by auto
  obtain tb where tb: "tags h b = Some tb" "split_left tb = a" using H(3) [OF b(1)] b(2) by fastforce
  have r': "split_right tb \<noteq> 0 \<Longrightarrow> split_right tb \<noteq> a \<and> (\<exists>u. tags h (split_right tb) = Some u) \<and> tag_stored h (split_right tb)"
    using r tb by simp
  show ?thesis
    unfolding melt_left_def tb Option.bind.bind_lunit Let_def
    by (rule merge_tags_eq [OF H(3) [OF a(1)] tb(1) ab H(8) [OF a(1)] r'])
qed

lemma absorb_right_eq:
  assumes S: "heap_shape h L reg rk" and a: "a \<in> L" "srt h a = b" "b \<noteq> 0" and h1: "remove_tag b h = Some h1"
    and S1: "heap_shape h1 L reg rk" "\<And>x. x \<in> L \<Longrightarrow> srt h1 x = srt h x"
  shows "absorb_right a h = Some (a, merge_tags a b h1)"
proof -
  note H = heap_shapeD [OF S]
  note H1 = heap_shapeD [OF S1(1)]
  note C = chain_okD [OF H1(1)]
  have b: "b \<in> L" "unat b = unat a + rsz h1 a" "srt h1 a = b" using C(10) [OF a(1)] a S1(2) [OF a(1)] by auto
  have ab: "a \<noteq> b" using b(2) C(2) [OF a(1)] by auto
  have r: "srt h1 b \<noteq> 0 \<Longrightarrow> srt h1 b \<noteq> a \<and> (\<exists>u. tags h1 (srt h1 b) = Some u) \<and> tag_stored h1 (srt h1 b)"
    using C(10) [OF b(1)] C(2) [OF b(1)] b(2) H1(3,8) [of "srt h1 b"] by auto
  obtain tb where tb: "tags h1 b = Some tb" using H1(3) [OF b(1)] by blast
  obtain ta where ta: "tags h a = Some ta" "split_right ta = b" using H(3) [OF a(1)] a(2) by fastforce
  have r': "split_right tb \<noteq> 0 \<Longrightarrow> split_right tb \<noteq> a \<and> (\<exists>u. tags h1 (split_right tb) = Some u) \<and> tag_stored h1 (split_right tb)"
    using r tb by simp
  show ?thesis
    unfolding absorb_right_def ta Option.bind.bind_lunit Let_def h1 tb
    by (rule merge_tags_eq [OF H1(3) [OF a(1)] tb ab H1(8) [OF a(1)] r'])
qed

section \<open>Use of the blocks\<close>

text \<open>
  A block in use holds what was asked for; a free block is on the list of its class and the block
  to its right is in use, so no two free blocks are neighbours. The blocks in \<open>X\<close> are being moved
  and have no requested size.
\<close>

definition heap_use :: "lheap \<Rightarrow> u64 set \<Rightarrow> u64 set \<Rightarrow> bool" where
  "heap_use h L X \<longleftrightarrow> (\<forall>a\<in>L.
     (idx h a < 0 \<longrightarrow> a \<notin> X \<longrightarrow> unat (tsize (the (tags h a))) + TAG_SIZE \<le> rsz h a) \<and>
     (0 \<le> idx h a \<longrightarrow> idx h a = bucket (real_size (the (tags h a))) \<and>
        (srt h a \<noteq> 0 \<longrightarrow> idx h (srt h a) < 0)))"

text \<open>What the clients hold: the requested size of every block in use, by the pointer handed out.\<close>

definition live_blocks :: "lheap \<Rightarrow> u64 set \<Rightarrow> u64 set \<Rightarrow> u64 \<Rightarrow> nat option" where
  "live_blocks h L X p =
     (if p - TAG_SIZE \<in> L - X \<and> idx h (p - TAG_SIZE) < 0
      then Some (unat (tsize (the (tags h (p - TAG_SIZE))))) else None)"

lemma the_relink:
  assumes "heap_shape h L reg rk" "x \<in> L"
  shows "the (tags (relink ix nx pv fl h) x) = (the (tags h x))\<lparr>tindex := ix x, tnext := nx x, tprev := pv x\<rparr>"
  using heap_shapeD(3) [OF assms] by (metis relink_sel(5) option.map(2) option.sel)

lemma the_merge:
  assumes "heap_shape h L reg rk" "x \<in> L"
  shows "the (tags (merge_tags a b h) x) = (the (tags h x))\<lparr>
    real_size := (if x = a then real_size (the (tags h a)) + real_size (the (tags h b)) else real_size (the (tags h x))),
    split_left := (if srt h b \<noteq> 0 \<and> x = srt h b then a else slf h x),
    split_right := (if x = a then srt h b else srt h x)\<rparr>"
proof -
  obtain t where "tags h x = Some t" using heap_shapeD(3) [OF assms] by blast
  then show ?thesis by (auto simp: merge_tags_def)
qed

text \<open>The fields the other operations do not touch.\<close>

definition same_rest :: "lheap \<Rightarrow> lheap \<Rightarrow> bool" where
  "same_rest h h' \<longleftrightarrow> l_completePages h' = l_completePages h \<and> l_initialized h' = l_initialized h \<and> bytes h' = bytes h"

lemma same_rest_refl [simp]: "same_rest h h"
  by (simp add: same_rest_def)

lemma same_rest_trans: "same_rest h h' \<Longrightarrow> same_rest h' h'' \<Longrightarrow> same_rest h h''"
  by (simp add: same_rest_def)

lemma melt_left_step:
  assumes S: "heap_shape h L reg rk" and U: "heap_use h L {a}" and a: "a \<in> L" "idx h a < 0"
    and l: "slf h a = l" "l \<noteq> 0" "0 \<le> idx h l"
  shows "\<exists>h'. melt_left a h = Some (l, merge_tags l a h) \<and> remove_tag l (merge_tags l a h) = Some h' \<and>
    heap_shape h' (L - {a}) reg rk \<and> heap_use h' (L - {a}) {l} \<and> l \<in> L - {a} \<and> idx h' l < 0 \<and>
    live_blocks h' (L - {a}) {l} = live_blocks h L {a} \<and> same_rest h h' \<and>
    slf h' l = slf h l \<and> (slf h l \<noteq> 0 \<longrightarrow> slf h l \<in> L - {a} \<and> idx h' (slf h l) < 0)"
proof -
  note H = heap_shapeD [OF S]
  note C = chain_okD [OF H(1)]
  let ?h1 = "merge_tags l a h"
  have L: "l \<in> L" "srt h l = a" using C(8) [OF a(1)] l by auto
  have la: "l \<noteq> a" using a(2) l(3) by auto
  have a0: "a \<noteq> 0" by (rule C(1) [OF a(1)])
  have S1: "heap_shape ?h1 (L - {a}) reg rk" by (rule merge_shape(1) [OF S L a0 a(2)])
  have l1: "l \<in> L - {a}" using L la by simp
  have T1: "idx ?h1 x = idx h x" "tsize (the (tags ?h1 x)) = tsize (the (tags h x))" if "x \<in> L" for x
    by (simp_all add: the_merge [OF S that])
  obtain ix nx pv fl where R: "remove_tag l ?h1 = Some (relink ix nx pv fl ?h1)"
      "heap_shape (relink ix nx pv fl ?h1) (L - {a}) reg rk" "ix = (idx ?h1)(l := - 1)"
    using remove_tag_eq [OF S1 l1] l(3) T1 [OF L(1)] by simp
  define h2 where "h2 = relink ix nx pv fl ?h1"
  have T2: "the (tags h2 x) = (the (tags ?h1 x))\<lparr>tindex := (if x = l then - 1 else idx h x), tnext := nx x, tprev := pv x\<rparr>"
    if "x \<in> L - {a}" for x
    unfolding h2_def the_relink [OF S1 that] using T1(1) [of x] that R(3) by simp
  have F: "idx h2 x = (if x = l then - 1 else idx h x)" "tsize (the (tags h2 x)) = tsize (the (tags h x))"
      "slf h2 x = (if srt h a \<noteq> 0 \<and> x = srt h a then l else slf h x)"
      "x \<noteq> l \<Longrightarrow> real_size (the (tags h2 x)) = real_size (the (tags h x))"
      "x \<noteq> l \<Longrightarrow> srt h2 x = srt h x" if "x \<in> L - {a}" for x
    using that by (simp_all only: T2 [OF that]) (simp_all add: the_merge [OF S])
  have U2: "heap_use h2 (L - {a}) {l}" unfolding heap_use_def
  proof (intro ballI)
    fix x assume x: "x \<in> L - {a}"
    have "srt h x \<noteq> a" if "x \<noteq> l"
      using C(10) [of x] x that a0 L(2) l(1) by auto
    then have "srt h x \<noteq> 0 \<Longrightarrow> srt h x \<in> L - {a}" if "x \<noteq> l" using C(10) [of x] x that by auto
    then show "(idx h2 x < 0 \<longrightarrow> x \<notin> {l} \<longrightarrow> unat (tsize (the (tags h2 x))) + 48 \<le> rsz h2 x) \<and>
       (0 \<le> idx h2 x \<longrightarrow> idx h2 x = bucket (real_size (the (tags h2 x))) \<and> (srt h2 x \<noteq> 0 \<longrightarrow> idx h2 (srt h2 x) < 0))"
      using U x F(1,2,4,5) [OF x] F(1) [of "srt h x"] unfolding heap_use_def by (cases "x = l") auto
  qed
  have B: "live_blocks h2 (L - {a}) {l} = live_blocks h L {a}"
  proof (rule ext)
    fix p show "live_blocks h2 (L - {a}) {l} p = live_blocks h L {a} p"
      using F(1,2) [of "p - 48"] l(3) by (auto simp: live_blocks_def)
  qed
  have "slf h l \<noteq> a" if "slf h l \<noteq> 0" using C(8) [OF L(1) that] C(2) [OF L(1)] C(2) [OF a(1)] C(8) [OF a(1)] l by auto
  then have ll: "slf h l \<in> L - {a}" if "slf h l \<noteq> 0" using C(8) [OF L(1) that] that by auto
  have "idx h (slf h l) < 0" if "slf h l \<noteq> 0"
    using U C(8) [OF L(1) that] l(2,3) unfolding heap_use_def by (metis linorder_not_less)
  then have idxl: "slf h l \<noteq> 0 \<Longrightarrow> idx h2 (slf h l) < 0" using F(1) [OF ll] by simp
  have "slf h2 l = slf h l"
  proof -
    have "srt h a \<noteq> l" if "srt h a \<noteq> 0"
      using C(10) [OF a(1) that] C(8) [OF a(1)] l C(2) [OF L(1)] by auto
    then show ?thesis using F(3) [OF l1] by auto
  qed
  moreover have "idx h2 l < 0" using F(1) [OF l1] by simp
  moreover have "same_rest h h2" by (simp add: same_rest_def h2_def merge_tags_def)
  ultimately show ?thesis
    using melt_left_eq [OF S a(1) l(1,2)] R(1,2) U2 B l1 ll idxl by (auto simp flip: h2_def)
qed

lemma absorb_right_step:
  assumes S: "heap_shape h L reg rk" and U: "heap_use h L {a}" and a: "a \<in> L" "idx h a < 0"
    and r: "srt h a = r" "r \<noteq> 0" "0 \<le> idx h r"
  shows "\<exists>h'. absorb_right a h = Some (a, h') \<and>
    heap_shape h' (L - {r}) reg rk \<and> heap_use h' (L - {r}) {a} \<and> a \<in> L - {r} \<and> idx h' a < 0 \<and>
    live_blocks h' (L - {r}) {a} = live_blocks h L {a} \<and> same_rest h h' \<and> slf h' a = slf h a \<and>
    (slf h a \<noteq> 0 \<longrightarrow> idx h' (slf h a) = idx h (slf h a)) \<and>
    (srt h' a \<noteq> 0 \<longrightarrow> srt h' a \<in> L - {r} \<and> idx h' (srt h' a) < 0)"
proof -
  note H = heap_shapeD [OF S]
  note C = chain_okD [OF H(1)]
  have R: "r \<in> L" "slf h r = a" "unat r = unat a + rsz h a" using C(10) [OF a(1)] r by auto
  have ra: "r \<noteq> a" using a(2) r(3) by auto
  obtain ix nx pv fl where Q: "remove_tag r h = Some (relink ix nx pv fl h)"
      "heap_shape (relink ix nx pv fl h) L reg rk" "ix = (idx h)(r := - 1)"
    using remove_tag_eq [OF S R(1) r(3)] by simp
  define h1 where "h1 = relink ix nx pv fl h"
  have S1: "heap_shape h1 L reg rk" using Q(2) by (simp add: h1_def)
  have T1: "the (tags h1 x) = (the (tags h x))\<lparr>tindex := (if x = r then - 1 else idx h x), tnext := nx x, tprev := pv x\<rparr>"
    if "x \<in> L" for x unfolding h1_def the_relink [OF S that] using Q(3) by simp
  have srt1: "srt h1 x = srt h x" "slf h1 x = slf h x" if "x \<in> L" for x by (simp_all add: T1 [OF that])
  let ?h2 = "merge_tags a r h1"
  have ab: "absorb_right a h = Some (a, ?h2)"
    by (rule absorb_right_eq [OF S a(1) r(1,2) _ S1]) (simp_all add: Q(1) h1_def [symmetric] srt1)
  have S2: "heap_shape ?h2 (L - {r}) reg rk"
    by (rule merge_shape(1) [OF S1 a(1) _ r(2)]) (use T1 [OF R(1)] srt1 [OF a(1)] r(1) in simp_all)
  have F: "idx ?h2 x = (if x = r then - 1 else idx h x)" "tsize (the (tags ?h2 x)) = tsize (the (tags h x))"
      "slf ?h2 x = (if srt h r \<noteq> 0 \<and> x = srt h r then a else slf h x)"
      "srt ?h2 x = (if x = a then srt h r else srt h x)"
      "x \<noteq> a \<Longrightarrow> real_size (the (tags ?h2 x)) = real_size (the (tags h x))" if "x \<in> L" for x
    by (simp_all only: the_merge [OF S1 that] T1 [OF that] T1 [OF R(1)]) simp_all
  have U2: "heap_use ?h2 (L - {r}) {a}" unfolding heap_use_def
  proof (intro ballI)
    fix x assume x: "x \<in> L - {r}"
    then have xL: "x \<in> L" by simp
    have "srt h x \<noteq> 0 \<Longrightarrow> srt h x \<in> L" using C(10) [OF xL] by auto
    then show "(idx ?h2 x < 0 \<longrightarrow> x \<notin> {a} \<longrightarrow> unat (tsize (the (tags ?h2 x))) + 48 \<le> rsz ?h2 x) \<and>
       (0 \<le> idx ?h2 x \<longrightarrow> idx ?h2 x = bucket (real_size (the (tags ?h2 x))) \<and> (srt ?h2 x \<noteq> 0 \<longrightarrow> idx ?h2 (srt ?h2 x) < 0))"
      using U x a(2) F(1,2,4,5) [OF xL] F(1) [of "srt h x"] unfolding heap_use_def by (cases "x = a") auto
  qed
  have B: "live_blocks ?h2 (L - {r}) {a} = live_blocks h L {a}"
  proof (rule ext)
    fix p
    show "live_blocks ?h2 (L - {r}) {a} p = live_blocks h L {a} p"
    proof (cases "p - 48 \<in> L")
      case True
      have "idx ?h2 (p - 48) < 0 \<longleftrightarrow> p - 48 = r \<or> idx h (p - 48) < 0" using F(1) [OF True] by simp
      then show ?thesis unfolding live_blocks_def F(2) [OF True] using r(3) by auto
    qed (simp add: live_blocks_def)
  qed
  have rr: "srt h r \<in> L - {r}" "srt h r \<noteq> a" "idx h (srt h r) < 0" if "srt h r \<noteq> 0"
  proof -
    have q: "srt h r \<in> L" "unat (srt h r) = unat r + rsz h r" using C(10) [OF R(1) that] by auto
    show "srt h r \<in> L - {r}" "srt h r \<noteq> a" using q C(2) [OF R(1)] R(3) by auto
    show "idx h (srt h r) < 0" using U R(1) r(3) that unfolding heap_use_def by blast
  qed
  have ll: "slf h a \<in> L" "slf h a \<noteq> r" if "slf h a \<noteq> 0"
    using C(8) [OF a(1) that] C(2) [OF a(1)] R(3) by auto
  have "slf ?h2 a = slf h a" using F(3) [OF a(1)] rr(2) by auto
  moreover have "slf h a \<noteq> 0 \<longrightarrow> idx ?h2 (slf h a) = idx h (slf h a)" using F(1) [OF ll(1)] ll(2) by auto
  moreover have "srt ?h2 a \<noteq> 0 \<longrightarrow> srt ?h2 a \<in> L - {r} \<and> idx ?h2 (srt ?h2 a) < 0"
    using F(4) [OF a(1)] F(1) [of "srt h r"] rr by auto
  moreover have "idx ?h2 a < 0" using F(1) [OF a(1)] ra a(2) by simp
  moreover have "same_rest h ?h2" by (simp add: same_rest_def h1_def merge_tags_def)
  ultimately show ?thesis using ab S2 U2 B a(1) ra by blast
qed

lemma melt_left_loop_rules:
  "\<lbrakk>tags h a = Some t; split_left t = 0 \<or> (\<exists>l. tags h (split_left t) = Some l \<and> tindex l < 0)\<rbrakk> \<Longrightarrow>
     melt_left_loop a h = Some (a, h)"
  "\<lbrakk>tags h a = Some t; split_left t \<noteq> 0; tags h (split_left t) = Some l; 0 \<le> tindex l;
     melt_left a h = Some (b, h1); remove_tag b h1 = Some h2\<rbrakk> \<Longrightarrow>
     melt_left_loop a h = melt_left_loop b h2"
  by (subst melt_left_loop.simps, auto)+

lemma melt_right_loop_rules:
  "\<lbrakk>tags h a = Some t; split_right t = 0 \<or> (\<exists>l. tags h (split_right t) = Some l \<and> tindex l < 0)\<rbrakk> \<Longrightarrow>
     melt_right_loop a h = Some (a, h)"
  "\<lbrakk>tags h a = Some t; split_right t \<noteq> 0; tags h (split_right t) = Some l; 0 \<le> tindex l;
     absorb_right a h = Some (b, h1)\<rbrakk> \<Longrightarrow>
     melt_right_loop a h = melt_right_loop b h1"
  by (subst melt_right_loop.simps, auto)+

lemma melt_both:
  assumes S: "heap_shape h L reg rk" and U: "heap_use h L {a}" and a: "a \<in> L" "idx h a < 0"
  shows "\<exists>b h1 h' L'. melt_left_loop a h = Some (b, h1) \<and> melt_right_loop b h1 = Some (b, h') \<and>
    L' \<subseteq> L \<and> heap_shape h' L' reg rk \<and> heap_use h' L' {b} \<and> b \<in> L' \<and> idx h' b < 0 \<and>
    live_blocks h' L' {b} = live_blocks h L {a} \<and> same_rest h h' \<and>
    (slf h' b \<noteq> 0 \<longrightarrow> idx h' (slf h' b) < 0) \<and> (srt h' b \<noteq> 0 \<longrightarrow> idx h' (srt h' b) < 0)"
proof -
  note H = heap_shapeD [OF S]
  note C = chain_okD [OF H(1)]
  have left: "\<exists>b h1 L1. melt_left_loop a h = Some (b, h1) \<and> L1 \<subseteq> L \<and> heap_shape h1 L1 reg rk \<and>
      heap_use h1 L1 {b} \<and> b \<in> L1 \<and> idx h1 b < 0 \<and> live_blocks h1 L1 {b} = live_blocks h L {a} \<and>
      same_rest h h1 \<and> (slf h1 b \<noteq> 0 \<longrightarrow> idx h1 (slf h1 b) < 0)"
  proof (cases "slf h a \<noteq> 0 \<and> 0 \<le> idx h (slf h a)")
    case True
    define l where "l = slf h a"
    have l: "slf h a = l" "l \<noteq> 0" "0 \<le> idx h l" using True by (simp_all add: l_def)
    obtain h1 where M: "melt_left a h = Some (l, merge_tags l a h)" "remove_tag l (merge_tags l a h) = Some h1"
        "heap_shape h1 (L - {a}) reg rk" "heap_use h1 (L - {a}) {l}" "l \<in> L - {a}" "idx h1 l < 0"
        "live_blocks h1 (L - {a}) {l} = live_blocks h L {a}" "same_rest h h1" "slf h1 l = slf h l"
        "slf h l \<noteq> 0 \<longrightarrow> slf h l \<in> L - {a} \<and> idx h1 (slf h l) < 0"
      using melt_left_step [OF S U a l] by blast
    note H1 = heap_shapeD [OF M(3)]
    have tl: "tags h l = Some (the (tags h l))" using H(3) [of l] M(5) by simp
    have "melt_left_loop l h1 = Some (l, h1)"
      by (rule melt_left_loop_rules(1) [OF H1(3) [OF M(5)]]) (use H1(3) [of "slf h l"] M(9,10) in auto)
    then have "melt_left_loop a h = Some (l, h1)"
      using melt_left_loop_rules(2) [OF H(3) [OF a(1)] _ _ _ M(1,2)] tl l by simp
    moreover have "L - {a} \<subseteq> L" by auto
    ultimately show ?thesis using M(3-10) by metis
  next
    case False
    have "melt_left_loop a h = Some (a, h)"
      by (rule melt_left_loop_rules(1) [OF H(3) [OF a(1)]])
        (use H(3) [of "slf h a"] C(8) [OF a(1)] False in \<open>auto simp: not_le\<close>)
    then show ?thesis using S U a False by fastforce
  qed
  then obtain b h1 L1 where M: "melt_left_loop a h = Some (b, h1)" "L1 \<subseteq> L" "heap_shape h1 L1 reg rk"
      "heap_use h1 L1 {b}" "b \<in> L1" "idx h1 b < 0" "live_blocks h1 L1 {b} = live_blocks h L {a}"
      "same_rest h h1" "slf h1 b \<noteq> 0 \<longrightarrow> idx h1 (slf h1 b) < 0" by blast
  note H1 = heap_shapeD [OF M(3)]
  show ?thesis
  proof (cases "srt h1 b \<noteq> 0 \<and> 0 \<le> idx h1 (srt h1 b)")
    case True
    define r where "r = srt h1 b"
    have r: "srt h1 b = r" "r \<noteq> 0" "0 \<le> idx h1 r" using True by (simp_all add: r_def)
    obtain h2 where N: "absorb_right b h1 = Some (b, h2)" "heap_shape h2 (L1 - {r}) reg rk"
        "heap_use h2 (L1 - {r}) {b}" "b \<in> L1 - {r}" "idx h2 b < 0" "live_blocks h2 (L1 - {r}) {b} = live_blocks h1 L1 {b}"
        "same_rest h1 h2" "slf h2 b = slf h1 b" "slf h1 b \<noteq> 0 \<longrightarrow> idx h2 (slf h1 b) = idx h1 (slf h1 b)"
        "srt h2 b \<noteq> 0 \<longrightarrow> srt h2 b \<in> L1 - {r} \<and> idx h2 (srt h2 b) < 0"
      using absorb_right_step [OF M(3-6) r] by blast
    note H2 = heap_shapeD [OF N(2)]
    have "r \<in> L1" using chain_okD(10) [OF H1(1) M(5)] r by simp
    then have tr: "tags h1 r = Some (the (tags h1 r))" by (rule H1(3))
    have "melt_right_loop b h2 = Some (b, h2)"
      by (rule melt_right_loop_rules(1) [OF H2(3) [OF N(4)]]) (use H2(3) [of "srt h2 b"] N(10) in auto)
    then have "melt_right_loop b h1 = Some (b, h2)"
      using melt_right_loop_rules(2) [OF H1(3) [OF M(5)] _ _ _ N(1)] tr r by simp
    moreover have "L1 - {r} \<subseteq> L" using M(2) by auto
    moreover have "same_rest h h2" by (rule same_rest_trans [OF M(8) N(7)])
    ultimately show ?thesis using M(1,7,9) N(2-6,8-10) by (metis)
  next
    case False
    have "melt_right_loop b h1 = Some (b, h1)"
      by (rule melt_right_loop_rules(1) [OF H1(3) [OF M(5)]])
        (use H1(3) [of "srt h1 b"] chain_okD(10) [OF H1(1) M(5)] False in \<open>auto simp: not_le\<close>)
    then show ?thesis using M False by (metis linorder_not_less)
  qed
qed

section \<open>Splitting\<close>

text \<open>The bytes of the blocks in use; a tag that is stored outside them leaves them as they are.\<close>

definition keeps_blocks :: "(u64 \<Rightarrow> nat option) \<Rightarrow> bytemem \<Rightarrow> bytemem \<Rightarrow> bool" where
  "keeps_blocks B m m' \<longleftrightarrow> (\<forall>p n x. B p = Some n \<longrightarrow> unat (x - p) < n \<longrightarrow> m' x = m x)"

lemma keeps_refl [simp]: "keeps_blocks B m m"
  by (simp add: keeps_blocks_def)

lemma unat_offset:
  assumes "unat (x - p) < n" "unat p + n \<le> 2 ^ 64"
  shows "unat (x :: u64) = unat p + unat (x - p)"
proof -
  have "x = p + (x - p)" by simp
  moreover have "unat (p + (x - p)) = unat p + unat (x - p)"
    by (rule unat_plus_no_wrap) (use assms in simp)
  ultimately show ?thesis by simp
qed

lemma live_block_bounds:
  assumes S: "heap_shape h L reg rk" and U: "heap_use h L X" and p: "live_blocks h L X p = Some m"
  shows "p - 48 \<in> L - X" "idx h (p - 48) < 0" "m = unat (tsize (the (tags h (p - 48))))"
    "unat p = unat (p - 48) + 48" "48 + m \<le> rsz h (p - 48)" "unat p + m < 2 ^ 64"
proof -
  show 1: "p - 48 \<in> L - X" "idx h (p - 48) < 0" "m = unat (tsize (the (tags h (p - 48))))"
    using p by (auto simp: live_blocks_def split: if_splits)
  note C = chain_okD [OF heap_shapeD(1) [OF S], of "p - 48"]
  show 5: "48 + m \<le> rsz h (p - 48)" using U 1 unfolding heap_use_def by fastforce
  have b: "unat (p - 48) + rsz h (p - 48) < 2 ^ 64" using C(4,5) 1(1) by simp
  show 4: "unat p = unat (p - 48) + 48"
    using unat_plus_no_wrap [of "p - 48" 48] b 5 by simp
  show "unat p + m < 2 ^ 64" using 4 5 b by linarith
qed

lemma keeps_tag_over:
  assumes S: "heap_shape h L reg rk" and U: "heap_use h L X" and a: "a \<in> L"
    and n: "unat a + k \<le> unat n" "unat n + 48 \<le> unat a + rsz h a"
    and k: "a \<notin> X \<Longrightarrow> idx h a < 0 \<Longrightarrow> 48 + unat (tsize (the (tags h a))) \<le> k"
  shows "keeps_blocks (live_blocks h L X) m0 (tag_over n m0)"
  unfolding keeps_blocks_def
proof (intro allI impI)
  fix p m x
  assume p: "live_blocks h L X p = Some m" and x: "unat (x - p) < m"
  note B = live_block_bounds [OF S U p]
  note C = chain_okD [OF heap_shapeD(1) [OF S]]
  have ux: "unat x = unat p + unat (x - p)" by (rule unat_offset [OF x]) (use B(6) in simp)
  have na: "\<not> unat (x - n) < 48"
  proof
    assume y: "unat (x - n) < 48"
    have "unat x = unat n + unat (x - n)" by (rule unat_offset [OF y]) (use n(2) C(4,5) [OF a] in linarith)
    then have xn: "unat n \<le> unat x" "unat x < unat n + 48" using y by simp_all
    have xp: "unat (p - 48) + 48 \<le> unat x" "unat x < unat (p - 48) + 48 + m" using ux x B(4) by simp_all
    show False
    proof (cases "p - 48 = a")
      case True
      then have "48 + m \<le> k" using k B(1-3) by simp
      then show False using xn(1) xp(2) n(1) True by simp
    next
      case False
      then have "unat x \<in> span (rsz h) (p - 48) \<inter> span (rsz h) a"
        using xp xn B(5) n by (auto simp: span_def)
      then show False using C(11) [of "p - 48" a] B(1) a False by blast
    qed
  qed
  then show "tag_over n m0 x = m0 x" by (simp add: tag_over_def)
qed

lemma tag_stored_put: "tag_stored (put_tag a t h) a" "tag_stored h b \<Longrightarrow> tag_stored (put_tag a t h) b"
  by (auto simp: tag_stored_def put_tag_def tag_over_def)

lemma put_tag_sel [simp]:
  "tags (put_tag a t h) = (tags h)(a \<mapsto> t)" "bytes (put_tag a t h) = tag_over a (bytes h)"
  "l_freePages (put_tag a t h) = l_freePages h" "l_completePages (put_tag a t h) = l_completePages h"
  "l_initialized (put_tag a t h) = l_initialized h"
  by (simp_all add: put_tag_def)

lemma split_tag_step:
  assumes S: "heap_shape h L reg rk" and U: "heap_use h L {}" and a: "a \<in> L" "idx h a < 0"
    and k: "k = 48 + unat (tsize (the (tags h a)))" "k + 48 \<le> rsz h a"
    and r: "srt h a \<noteq> 0 \<Longrightarrow> idx h (srt h a) < 0"
  shows "\<exists>n h' rk'. split_tag a h = Some (n, h') \<and> unat n = unat a + k \<and> n \<notin> L \<and>
    heap_shape h' (insert n L) (reg(n := reg a)) rk' \<and> heap_use h' (insert n L) {} \<and>
    live_blocks h' (insert n L) {} = live_blocks h L {} \<and> l_completePages h' = l_completePages h \<and>
    l_initialized h' = l_initialized h \<and> keeps_blocks (live_blocks h L {}) (bytes h) (bytes h')"
proof -
  note H = heap_shapeD [OF S]
  note C = chain_okD [OF H(1)]
  obtain t where t: "tags h a = Some t" using H(3) [OF a(1)] by blast
  define n where "n = a + 48 + ucast (tsize t)"
  define rem where "rem = real_size t - 48 - tsize t"
  have k': "k = 48 + unat (tsize t)" "k + 48 \<le> unat (real_size t)" using k t by auto
  have un: "unat n = unat a + k"
  proof -
    have b: "unat a + rsz h a < 2 ^ 64" using C(4,5) [OF a(1)] by linarith
    have uc: "unat (ucast (tsize t) :: u64) = unat (tsize t)" by (rule unat_ucast_widen) simp
    have 1: "unat (a + 48) = unat a + 48" using b k t unat_plus_no_wrap [of a 48] by simp
    show ?thesis unfolding n_def
      using unat_plus_no_wrap [of "a + 48" "ucast (tsize t)"] b k k' t 1 uc by simp
  qed
  have urem: "unat rem = unat (real_size t) - k"
  proof -
    have "unat (real_size t - 48) = unat (real_size t) - 48"
      using k' unat_sub [of 48 "real_size t"] by (simp add: word_le_nat_alt)
    then show ?thesis unfolding rem_def
      using k' unat_sub [of "tsize t" "real_size t - 48"] by (simp add: word_le_nat_alt)
  qed
  have ukeep: "unat (real_size t - rem) = k"
    using unat_sub [of rem "real_size t"] urem k' by (simp add: word_le_nat_alt)
  have a0: "a \<noteq> 0" by (rule C(1) [OF a(1)])
  note CS = chain_split [OF H(1) a(1) un _ k(2)]
  have nL: "n \<notin> L" and na: "n \<noteq> a" and n0: "n \<noteq> 0" using CS(1) k un by auto
  define stale where "stale = (case tags h n of None \<Rightarrow> 0 | Some n \<Rightarrow> tsize n)"
  define tn where "tn = \<lparr>magic = LIBALLOC_MAGIC, tsize = stale, real_size = rem, tindex = - 1,
        split_left = a, split_right = split_right t, tnext = 0, tprev = 0\<rparr>"
  define h1 where "h1 = put_tag n tn h"
  have st: "tag_stored h1 n" "\<And>x. x \<in> L \<Longrightarrow> tag_stored h1 x" using H(8) by (simp_all add: h1_def tag_stored_put)
  define h2 where "h2 = (if split_right t \<noteq> 0
     then h1\<lparr>tags := (tags h1)(split_right t \<mapsto> (the (tags h (split_right t)))\<lparr>split_left := n\<rparr>)\<rparr> else h1)"
  define h3 where "h3 = h2\<lparr>tags := (tags h2)(a \<mapsto> t\<lparr>split_right := n, real_size := real_size t - rem\<rparr>)\<rparr>"
  have sr: "split_right t \<in> L" "split_right t \<noteq> n" "split_right t \<noteq> a" "\<exists>u. tags h (split_right t) = Some u"
    if "split_right t \<noteq> 0"
    using C(10) [OF a(1)] C(2) [OF a(1)] that t nL H(3) [of "split_right t"] by auto
  have e2: "(if split_right t \<noteq> 0 then upd_tag (split_right t) (\<lambda>r. r\<lparr>split_left := n\<rparr>) h1 else Some h1) = Some h2"
    using sr(4) st(2) [OF sr(1)] sr(2) by (auto simp: h2_def h1_def upd_tag_Some)
  have t2: "tags h2 a = Some t" "tag_stored h2 a" using sr na t st(2) [OF a(1)] by (auto simp: h2_def h1_def)
  have e3: "Option.bind (upd_tag a (\<lambda>t. t\<lparr>split_right := n\<rparr>) h2) (\<lambda>h. Option.bind
      (upd_tag a (\<lambda>t. t\<lparr>real_size := real_size t - rem\<rparr>) h) f) = f h3" for f :: "lheap \<Rightarrow> (u64 \<times> lheap) option"
    by (simp add: upd_tag_Some t2 h3_def)
  have T: "tags h3 n = Some tn" "tags h3 a = Some (t\<lparr>split_right := n, real_size := real_size t - rem\<rparr>)"
    "\<And>x. x \<in> L \<Longrightarrow> x \<noteq> a \<Longrightarrow> tags h3 x = Some ((the (tags h x))\<lparr>split_left :=
        (if split_right t \<noteq> 0 \<and> x = split_right t then n else slf h x)\<rparr>)"
    using sr na nL H(3) by (auto simp: h3_def h2_def h1_def split: if_splits)
  have id1: "u\<lparr>split_left := split_left u\<rparr> = u" for u :: boundary_tag by (cases u) simp
  have S3: "heap_shape h3 (insert n L) (reg(n := reg a)) rk" unfolding heap_shape_def
  proof (intro conjI ballI)
    show "length (l_freePages h3) = 32" "length (l_completePages h3) = 32" "finite (insert n L)"
      using H(5-7) by (simp_all add: h3_def h2_def h1_def)
    show "tag_stored h3 x" if "x \<in> insert n L" for x using that st by (auto simp: h3_def h2_def)
    show "\<exists>t. tags h3 x = Some t \<and> magic t = LIBALLOC_MAGIC" if x: "x \<in> insert n L" for x
    proof -
      consider "x = n" | "x = a" | "x \<in> L" "x \<noteq> a" using x by blast
      then show ?thesis by cases (use T H(4) [OF a(1)] H(4) t in \<open>auto simp: tn_def\<close>)
    qed
    show "chain_ok (insert n L) (reg(n := reg a)) (rsz h3) (slf h3) (srt h3)"
      by (rule chain_cong [OF CS(2)], use k in simp)
        (use T t na sr un urem ukeep nL in \<open>auto simp: tn_def\<close>)
    have lk: "idx h3 x = idx h x \<and> nxt h3 x = nxt h x \<and> prv h3 x = prv h x" if "x \<in> L" for x
      by (cases "x = a") (use T t that in auto)
    have "dll_ok (insert n L) (idx h3) (nxt h3) (prv h3) (fpg h) rk"
      by (rule dll_cong [OF dll_add [OF H(2) nL n0]]) (use T(1) lk in \<open>auto simp: tn_def\<close>)
    moreover have "l_freePages h3 = l_freePages h" by (simp add: h3_def h2_def h1_def)
    ultimately show "dll_ok (insert n L) (idx h3) (nxt h3) (prv h3) (fpg h3) rk" by simp
  qed
  have idn: "idx h3 n < 0" using T(1) by (simp add: tn_def)
  define j where "j = bucket rem"
  have j: "j = (if - 1 < (0::int) then bucket (real_size (the (tags h3 n))) else - 1)" "j < 32"
    using T(1) bucket_bounds(2) by (simp_all add: j_def tn_def)
  obtain ix nx pv fl rk' where I: "insert_tag n (- 1) h3 = Some (relink ix nx pv fl h3)"
      "heap_shape (relink ix nx pv fl h3) (insert n L) (reg(n := reg a)) rk'" "ix = (idx h3)(n := j)"
    using insert_tag_eq [OF S3 _ idn j] by blast
  define h4 where "h4 = relink ix nx pv fl h3"
  have T4: "idx h4 x = (if x = n then j else idx h x)" "x \<noteq> n \<Longrightarrow> tsize (the (tags h4 x)) = tsize (the (tags h x))"
      "srt h4 x = (if x = a then n else if x = n then split_right t else srt h x)"
      "real_size (the (tags h4 x)) = (if x = a then real_size t - rem else if x = n then rem else real_size (the (tags h x)))"
    if x: "x \<in> insert n L" for x
  proof -
    have q: "the (tags h4 x) = (the (tags h3 x))\<lparr>tindex := ix x, tnext := nx x, tprev := pv x\<rparr>"
      unfolding h4_def by (rule the_relink [OF S3 x])
    have q3: "the (tags h3 x) = (if x = n then tn else if x = a then t\<lparr>split_right := n, real_size := real_size t - rem\<rparr>
        else (the (tags h x))\<lparr>split_left := (if split_right t \<noteq> 0 \<and> x = split_right t then n else slf h x)\<rparr>)"
      using T(1,2) T(3) [of x] x by auto
    have ix: "ix x = (if x = n then j else idx h3 x)" using I(3) by simp
    show "idx h4 x = (if x = n then j else idx h x)" "x \<noteq> n \<Longrightarrow> tsize (the (tags h4 x)) = tsize (the (tags h x))"
      "srt h4 x = (if x = a then n else if x = n then split_right t else srt h x)"
      "real_size (the (tags h4 x)) = (if x = a then real_size t - rem else if x = n then rem else real_size (the (tags h x)))"
      using t na by (simp_all add: q ix q3 tn_def)
  qed
  have U4: "heap_use h4 (insert n L) {}" unfolding heap_use_def
  proof (intro ballI)
    fix x assume x: "x \<in> insert n L"
    consider "x = n" | "x = a" "x \<noteq> n" | "x \<in> L" "x \<noteq> a" "x \<noteq> n" using x by blast
    then show "(idx h4 x < 0 \<longrightarrow> x \<notin> {} \<longrightarrow> unat (tsize (the (tags h4 x))) + 48 \<le> rsz h4 x) \<and>
       (0 \<le> idx h4 x \<longrightarrow> idx h4 x = bucket (real_size (the (tags h4 x))) \<and> (srt h4 x \<noteq> 0 \<longrightarrow> idx h4 (srt h4 x) < 0))"
    proof cases
      case 1
      have "split_right t \<noteq> 0 \<Longrightarrow> idx h4 (split_right t) < 0" using T4(1) [of "split_right t"] sr r t by auto
      then show ?thesis using 1 T4 [OF x] bucket_bounds(1) [of rem] na by (auto simp: j_def)
    next
      case 2
      then show ?thesis using T4 [OF x] a(2) t ukeep k' by auto
    next
      case 3
      have "srt h x \<noteq> 0 \<Longrightarrow> srt h x \<in> L \<and> srt h x \<noteq> n" using C(10) [OF 3(1)] nL by auto
      then have "srt h x \<noteq> 0 \<Longrightarrow> idx h4 (srt h x) = idx h (srt h x)" using T4(1) [of "srt h x"] by auto
      then show ?thesis using U 3 T4 [OF x] unfolding heap_use_def by auto
    qed
  qed
  have B: "live_blocks h4 (insert n L) {} = live_blocks h L {}"
  proof (rule ext)
    fix p
    consider "p - 48 = n" | "p - 48 \<in> L" "p - 48 \<noteq> n" | "p - 48 \<notin> insert n L" by blast
    then show "live_blocks h4 (insert n L) {} p = live_blocks h L {} p"
    proof cases
      case 1
      then show ?thesis using T4(1) [of n] nL bucket_bounds(1) [of rem] by (simp add: live_blocks_def j_def)
    next
      case 2
      then show ?thesis using T4(1,2) [of "p - 48"] by (simp add: live_blocks_def)
    qed (simp add: live_blocks_def)
  qed
  have "split_tag a h = Some (n, h4)"
    unfolding split_tag_def t Option.bind.bind_lunit Let_def n_def [symmetric] rem_def [symmetric]
      stale_def [symmetric] tn_def [symmetric] h1_def [symmetric] e2 e3 I(1) h4_def ..
  moreover have "l_completePages h4 = l_completePages h" "l_initialized h4 = l_initialized h"
      and b4: "bytes h4 = tag_over n (bytes h)"
    by (simp_all add: h4_def h3_def h2_def h1_def)
  moreover have "keeps_blocks (live_blocks h L {}) (bytes h) (bytes h4)"
    unfolding b4 by (rule keeps_tag_over [OF S U a(1), where k = k]) (use un k in simp_all)
  ultimately show ?thesis using un nL I(2) U4 B unfolding h4_def [symmetric] by blast
qed

section \<open>The search for a free block\<close>

lemma fits_iff:
  fixes r :: u32 and sz :: u64
  assumes "48 \<le> unat r" "unat sz < 2 ^ 32"
  shows "sz + 48 \<le> ucast r - 48 \<longleftrightarrow> unat sz + 96 \<le> unat r"
proof -
  have "unat (ucast r :: u64) = unat r" by (rule unat_ucast_widen) simp
  then have "unat (ucast r - 48 :: u64) = unat r - 48"
    using assms(1) unat_sub [of 48 "ucast r :: u64"] by (simp add: word_le_nat_alt)
  moreover have "unat (sz + 48) = unat sz + 48" using assms(2) unat_plus_no_wrap [of sz 48] by simp
  ultimately show ?thesis using assms(1) by (auto simp: word_le_nat_alt)
qed

lemma search_list_step:
  assumes S: "heap_shape h L reg rk" and a: "a \<in> L" and sz: "unat sz < 2 ^ 32"
  shows "search_list sz a h = (if unat sz + 96 \<le> rsz h a then Some a else search_list sz (nxt h a) h)"
proof -
  note H = heap_shapeD [OF S]
  note C = chain_okD [OF H(1) a]
  show ?thesis
    by (subst search_list.simps) (use H(3) [OF a] C(1) fits_iff [OF C(2) sz] in \<open>auto split: option.splits\<close>)
qed

lemma search_list_spec:
  assumes S: "heap_shape h L reg rk" and sz: "unat sz < 2 ^ 32"
    and a: "a = 0 \<or> a \<in> L \<and> idx h a = int i"
  shows "\<exists>r. search_list sz a h = Some r \<and> (r = 0 \<or> r \<in> L \<and> idx h r = int i \<and> unat sz + 96 \<le> rsz h r)"
  using a
proof (induction "rk a" arbitrary: a rule: less_induct)
  case less
  note D = dll_okD [OF heap_shapeD(2) [OF S]]
  show ?case
  proof (cases "a = 0 \<or> unat sz + 96 \<le> rsz h a")
    case True
    then show ?thesis using less.prems search_list_step [OF S _ sz, of a] search_list.simps [of sz 0 h] by auto
  next
    case False
    then have a: "a \<in> L" "idx h a = int i" using less.prems by auto
    have "nxt h a = 0 \<or> nxt h a \<in> L \<and> idx h (nxt h a) = int i \<and> rk (nxt h a) < rk a"
      using D(6) [OF a(1)] a(2) by auto
    moreover have "\<exists>r. search_list sz 0 h = Some r \<and> (r = 0 \<or> r \<in> L \<and> idx h r = int i \<and> unat sz + 96 \<le> rsz h r)"
      by (subst search_list.simps) simp
    ultimately show ?thesis
      unfolding search_list_step [OF S a(1) sz] using False less.hyps [of "nxt h a"] by auto
  qed
qed

text \<open>A list whose search fails holds no block that fits: every block is reached from the head.\<close>

lemma search_list_complete:
  assumes S: "heap_shape h L reg rk" and sz: "unat sz < 2 ^ 32" and i: "i < 32"
    and f: "search_list sz (fpg h i) h = Some 0" and x: "x \<in> L" "idx h x = int i"
  shows "search_list sz x h = Some 0"
proof -
  note H = heap_shapeD [OF S]
  note D = dll_okD [OF H(2)]
  define M where "M = Max (rk ` L)"
  have M: "rk y \<le> M" if "y \<in> L" for y unfolding M_def by (rule Max_ge) (use H(7) that in auto)
  show ?thesis using x
  proof (induction "M - rk x" arbitrary: x rule: less_induct)
    case less
    have ix: "0 \<le> idx h x" using less.prems by simp
    show ?case
    proof (cases "prv h x = 0")
      case True
      then show ?thesis using D(4) [OF less.prems(1) ix] f less.prems(2) by simp
    next
      case False
      define p where "p = prv h x"
      have p: "p \<in> L" "idx h p = int i" "nxt h p = x"
        using D(5) [OF less.prems(1) ix False] less.prems(2) by (auto simp: p_def)
      have "x \<noteq> 0" using D(1) less.prems(1) by auto
      then have "rk x < rk p" using D(6) [OF p(1)] p by auto
      moreover have "rk p \<le> M" by (rule M [OF p(1)])
      ultimately have "search_list sz p h = Some 0" using less.hyps [of p] p by simp
      then show ?thesis
        unfolding search_list_step [OF S p(1) sz] using p(3) D(1) p(1) by (auto split: if_splits)
    qed
  qed
qed

lemma search_index_spec:
  assumes S: "heap_shape h L reg rk" and sz: "unat sz < 2 ^ 32"
  shows "\<exists>r j. search_index sz i h = Some (r, j) \<and>
    (r \<noteq> 0 \<and> r \<in> L \<and> idx h r = int j \<and> unat sz + 96 \<le> rsz h r \<or>
     r = 0 \<and> (\<forall>x\<in>L. int i \<le> idx h x \<longrightarrow> rsz h x < unat sz + 96))"
proof (induction i rule: measure_induct_rule [of "\<lambda>i. 32 - i"])
  case (less i)
  note H = heap_shapeD [OF S]
  note D = dll_okD [OF H(2)]
  show ?case
  proof (cases "i < 32")
    case True
    have "fpg h i = 0 \<or> fpg h i \<in> L \<and> idx h (fpg h i) = int i" using D(7) [OF True] by auto
    then obtain r where r: "search_list sz (fpg h i) h = Some r"
        "r = 0 \<or> r \<in> L \<and> idx h r = int i \<and> unat sz + 96 \<le> rsz h r"
      using search_list_spec [OF S sz] by blast
    show ?thesis
    proof (cases "r = 0")
      case True0: True
      have no: "rsz h x < unat sz + 96" if x: "x \<in> L" "idx h x = int i" for x
      proof (rule ccontr)
        assume "\<not> rsz h x < unat sz + 96"
        then have "search_list sz x h = Some x" using search_list_step [OF S x(1) sz] by simp
        moreover have "search_list sz x h = Some 0"
          by (rule search_list_complete [OF S sz True _ x]) (use r(1) True0 in simp)
        ultimately show False using D(1) x(1) by simp
      qed
      have "search_index sz i h = search_index sz (i + 1) h"
        by (subst search_index.simps) (use True r(1) True0 in simp)
      moreover have "32 - (i + 1) < 32 - i" using True by simp
      note less.IH [OF this]
      moreover have "int i \<le> k \<longleftrightarrow> k = int i \<or> int (i + 1) \<le> k" for k by auto
      ultimately show ?thesis using no by auto
    next
      case False
      then show ?thesis using True r by (subst search_index.simps) auto
    qed
  next
    case False
    have "\<not> int i \<le> idx h x" if "x \<in> L" for x using D(3) [OF that] False by auto
    then show ?thesis using False by (subst search_index.simps) auto
  qed
qed

text \<open>A block that fits is in the class of the request or in a higher one.\<close>

lemma bucket_of_fit:
  assumes "unat sz + 96 \<le> unat r" "unat sz < 2 ^ 32"
  shows "max (getexp (ucast (sz :: u64))) 8 \<le> bucket r"
proof -
  have "unat (ucast sz :: u32) = unat sz" using assms(2) by (simp add: unat_ucast_mod)
  moreover have "unat (r - 48) = unat r - 48" using assms(1) unat_sub [of 48 r] by (simp add: word_le_nat_alt)
  ultimately have "getexp (ucast sz) \<le> getexp (r - 48)" using assms(1) by (intro getexp_mono) simp
  then show ?thesis unfolding bucket_def by auto
qed

section \<open>Allocation and release keep the invariant\<close>

lemma sint_u32: "sint (w :: u32) = (int (unat w) + 2147483648) mod 4294967296 - 2147483648"
  by (simp add: sint_uint signed_take_bit_eq_take_bit_shift take_bit_eq_mod)

text \<open>The block is cut only when the rest has room for a tag.\<close>

lemma remainder_positive:
  fixes r :: u32 and sz :: u64
  assumes "unat sz + 48 \<le> unat r" "0 < sint (ucast (ucast r - sz - 96 :: u64) :: u32)"
  shows "unat sz + 96 \<le> unat r"
proof (rule ccontr)
  assume n: "\<not> unat sz + 96 \<le> unat r"
  let ?d = "ucast r - sz - 96 :: u64"
  have u: "unat (ucast r :: u64) = unat r" by (rule unat_ucast_widen) simp
  then have a: "unat (ucast r - sz) = unat r - unat sz"
    using assms(1) unat_sub [of sz "ucast r"] by (simp add: word_le_nat_alt)
  define e where "e = 96 - (unat r - unat sz)"
  have e: "0 < e" "e \<le> 48" using assms(1) n by (auto simp: e_def)
  have "?d + of_nat e = 0"
  proof -
    have "(ucast r - sz :: u64) = of_nat (unat r - unat sz)" using a by (metis word_of_unat)
    moreover have "(of_nat (unat r - unat sz) + of_nat e :: u64) = of_nat 96"
      unfolding of_nat_add [symmetric] using assms(1) n by (simp add: e_def)
    ultimately show ?thesis by (simp add: algebra_simps)
  qed
  then have "unat (?d + of_nat e) = 0" by simp
  moreover have "unat (of_nat e :: u64) = e" by (rule unat_of_nat_small) (use e in simp)
  ultimately have "(unat ?d + e) mod 2 ^ 64 = 0" by (simp add: unat_word_ariths)
  then have "unat ?d + e = 2 ^ 64"
    using e unat_u64 [of ?d] by (auto simp: mod_if split: if_splits)
  then have ud: "unat ?d = 2 ^ 64 - e" by simp
  have m: "unat (ucast ?d :: u32) = unat ?d mod 4294967296" by (simp add: unat_ucast_mod)
  have "unat ?d = (4294967296 - e) + 4294967295 * 4294967296" unfolding ud using e(2) by simp
  then have "unat (ucast ?d :: u32) = (4294967296 - e) mod 4294967296"
    unfolding m by (simp only: mod_mult_self1)
  then have "int (unat (ucast ?d :: u32)) = 4294967296 - int e" using e by simp
  then have "sint (ucast ?d :: u32) = (2147483648 - int e + 1 * 4294967296) mod 4294967296 - 2147483648"
    unfolding sint_u32 by simp
  also have "\<dots> = - int e" unfolding mod_mult_self1 using e by simp
  finally have "sint (ucast ?d :: u32) \<le> 0" by simp
  then show False using assms(2) by simp
qed

lemma shape_tsize:
  assumes S: "heap_shape h L reg rk" and a: "a \<in> L"
  shows "heap_shape (h\<lparr>tags := (tags h)(a \<mapsto> (the (tags h a))\<lparr>tsize := s\<rparr>)\<rparr>) L reg rk"
proof -
  let ?h = "h\<lparr>tags := (tags h)(a \<mapsto> (the (tags h a))\<lparr>tsize := s\<rparr>)\<rparr>"
  note H = heap_shapeD [OF S]
  have "chain_ok L reg (rsz ?h) (slf ?h) (srt ?h)" by (rule chain_cong [OF H(1)]) simp
  moreover have "dll_ok L (idx ?h) (nxt ?h) (prv ?h) (fpg ?h) rk" by (rule dll_cong [OF H(2)]) simp_all
  ultimately show ?thesis using H(3-8) unfolding heap_shape_def by fastforce
qed

lemma add_sub_48 [simp]: "(a + 48 :: u64) - 48 = a" "p - 48 = a \<longleftrightarrow> p = (a + 48 :: u64)"
  by (auto simp: algebra_simps)

lemma use_tag_step:
  assumes S: "heap_shape h L reg rk" and U: "heap_use h L {a}" and a: "a \<in> L" "idx h a < 0"
    and sz: "unat sz + 48 \<le> rsz h a" and r: "srt h a \<noteq> 0 \<Longrightarrow> idx h (srt h a) < 0"
  shows "\<exists>h' L' reg' rk'. use_tag sz a h v = Some ((h', v), a + 48) \<and> heap_shape h' L' reg' rk' \<and>
    heap_use h' L' {} \<and> live_blocks h' L' {} = (live_blocks h L {a})(a + 48 \<mapsto> unat sz) \<and>
    l_completePages h' = l_completePages h \<and> l_initialized h' = l_initialized h \<and>
    keeps_blocks (live_blocks h L {a}) (bytes h) (bytes h') \<and> reg' ` L' = reg ` L"
proof -
  note H = heap_shapeD [OF S]
  have szu: "unat (ucast sz :: u32) = unat sz"
    using sz unat_u32 [of "real_size (the (tags h a))"] by (simp add: unat_ucast_mod)
  define h1 where "h1 = h\<lparr>tags := (tags h)(a \<mapsto> (the (tags h a))\<lparr>tsize := ucast sz\<rparr>)\<rparr>"
  have S1: "heap_shape h1 L reg rk" unfolding h1_def by (rule shape_tsize [OF S a(1)])
  have T1: "real_size (the (tags h1 x)) = real_size (the (tags h x))" "idx h1 x = idx h x" "srt h1 x = srt h x"
      "tsize (the (tags h1 x)) = (if x = a then ucast sz else tsize (the (tags h x)))" for x
    by (simp_all add: h1_def)
  have U1: "heap_use h1 L {}" using U sz szu unfolding heap_use_def T1 by auto
  have B1: "live_blocks h1 L {} = (live_blocks h L {a})(a + 48 \<mapsto> unat sz)"
    using a szu by (auto simp: live_blocks_def T1 fun_eq_iff)
  have u: "upd_tag a (\<lambda>t. t\<lparr>tsize := ucast sz\<rparr>) h = Some h1" "tags h1 a = Some ((the (tags h a))\<lparr>tsize := ucast sz\<rparr>)"
    using upd_tag_Some [OF H(3) [OF a(1)] H(8) [OF a(1)]] by (simp_all add: h1_def)
  have R1: "l_completePages h1 = l_completePages h" "l_initialized h1 = l_initialized h" "bytes h1 = bytes h"
    by (simp_all add: h1_def)
  have B2: "live_blocks h1 L {} p = live_blocks h L {a} p" if "live_blocks h L {a} p \<noteq> None" for p
    unfolding B1 using that by (auto simp: live_blocks_def)
  let ?rem = "ucast (ucast (real_size (the (tags h a))) - sz - 48 * 2 :: u64) :: u32"
  show ?thesis
  proof (cases "0 < sint ?rem \<and> 0 \<le> getexp ?rem")
    case True
    then have k: "48 + unat (tsize (the (tags h1 a))) + 48 \<le> rsz h1 a"
      using remainder_positive [OF sz] szu by (simp add: T1)
    obtain n h2 rk' where N: "split_tag a h1 = Some (n, h2)" "heap_shape h2 (insert n L) (reg(n := reg a)) rk'"
        "heap_use h2 (insert n L) {}" "live_blocks h2 (insert n L) {} = live_blocks h1 L {}" "n \<notin> L"
        "l_completePages h2 = l_completePages h1" "l_initialized h2 = l_initialized h1"
        "keeps_blocks (live_blocks h1 L {}) (bytes h1) (bytes h2)"
      using split_tag_step [OF S1 U1 a(1) _ refl k] a(2) r unfolding T1 by blast
    have "use_tag sz a h v = Some ((h2, v), a + 48)"
      unfolding use_tag_def u Option.bind.bind_lunit Let_def using True N(1) by simp
    moreover have "(reg(n := reg a)) ` insert n L = reg ` L" using a(1) N(5) by (auto simp: image_iff)
    moreover have "keeps_blocks (live_blocks h L {a}) (bytes h) (bytes h2)"
      using N(8) B2 unfolding keeps_blocks_def R1 by (metis option.distinct(1))
    ultimately show ?thesis using N(2-4,6,7) unfolding B1 R1 by blast
  next
    case False
    then have "use_tag sz a h v = Some ((h1, v), a + 48)"
      unfolding use_tag_def u Option.bind.bind_lunit Let_def by auto
    then show ?thesis using S1 U1 B1 R1 by (metis keeps_refl)
  qed
qed

end
