(* ===== verification/Liballoc_Spec.thy ===== *)
theory Liballoc_Spec
  imports Liballoc_Inv
begin

unbundle bit_operations_syntax

text \<open>
  The contract of the heap: over any page source that hands out separate runs of pages, \<^verbatim>\<open>malloc\<close>,
  \<^verbatim>\<open>free\<close>, \<^verbatim>\<open>calloc\<close> and \<^verbatim>\<open>realloc\<close> of \<^verbatim>\<open>liballoc.c\<close> maintain a finite map from pointers to sizes
  whose blocks never overlap. The page source is an interface (a locale); its instance is the
  virtual memory manager.
\<close>

section \<open>The page source\<close>

definition run_rng :: "region \<Rightarrow> nat set" where
  "run_rng r = {fst r..<fst r + snd r}"

text \<open>
  What \<^verbatim>\<open>liballoc.c\<close> relies on: a run of pages it obtains is not null, lies below the top of the
  address space and overlaps no run handed out before, and a run can be given back.
\<close>

locale page_source =
  fixes palloc :: "'v page_alloc" and pfree :: "'v page_free"
    and runs :: "'v \<Rightarrow> region set" and pinv :: "'v \<Rightarrow> bool"
  assumes run_bounds: "\<lbrakk>pinv v; r \<in> runs v\<rbrakk> \<Longrightarrow> fst r + snd r < 2 ^ 64"
    and run_disjoint: "\<lbrakk>pinv v; r \<in> runs v; q \<in> runs v; r \<noteq> q\<rbrakk> \<Longrightarrow> run_rng r \<inter> run_rng q = {}"
    and palloc_law: "\<lbrakk>pinv v; 0 < unat n; unat n < 2 ^ 20; palloc n v = Some (v', a)\<rbrakk> \<Longrightarrow>
      pinv v' \<and> runs v \<subseteq> runs v' \<and> (a \<noteq> 0 \<longrightarrow> (unat a, 4096 * unat n) \<in> runs v' - runs v)"
    and pfree_law: "\<lbrakk>pinv v; unat n < 2 ^ 20; (unat a, 4096 * unat n) \<in> runs v\<rbrakk> \<Longrightarrow>
      \<exists>v'. pfree a n v = Some v' \<and> pinv v' \<and> runs v - {(unat a, 4096 * unat n)} \<subseteq> runs v'"

text \<open>
  The heap holds the blocks \<open>B\<close> (pointer to requested size) and lives in the runs \<open>R\<close>. Before the
  first \<^verbatim>\<open>malloc\<close> nothing is set up.
\<close>

definition heap_wf :: "region set \<Rightarrow> lheap \<Rightarrow> (u64 \<Rightarrow> nat option) \<Rightarrow> bool" where
  "heap_wf R h B \<longleftrightarrow>
     (if l_initialized h
      then \<exists>L reg rk. heap_shape h L reg rk \<and> heap_use h L {} \<and> live_blocks h L {} = B \<and>
             reg ` L \<subseteq> R \<inter> {(b, 4096 * p) | b p. 16 \<le> p}
      else B = Map.empty)"

lemma heap_wfI:
  assumes "l_initialized h" "heap_shape h L reg rk" "heap_use h L {}" "live_blocks h L {} = B"
    "reg ` L \<subseteq> R" "reg ` L \<subseteq> {(b, 4096 * p) | b p. 16 \<le> p}"
  shows "heap_wf R h B"
proof -
  have "\<exists>L reg rk. heap_shape h L reg rk \<and> heap_use h L {} \<and> live_blocks h L {} = B \<and>
      reg ` L \<subseteq> R \<inter> {(b, 4096 * p) | b p. 16 \<le> p}"
    by (intro exI [of _ L] exI [of _ reg] exI [of _ rk]) (use assms(2-6) in simp)
  then show ?thesis using assms(1) by (simp add: heap_wf_def)
qed

lemma heap_wf_init:
  assumes "heap_wf R h B"
  shows "\<exists>L reg rk. heap_shape (malloc_init h) L reg rk \<and> heap_use (malloc_init h) L {} \<and>
    live_blocks (malloc_init h) L {} = B \<and> reg ` L \<subseteq> R \<inter> {(b, 4096 * p) | b p. 16 \<le> p}"
proof (cases "l_initialized h")
  case True
  then show ?thesis using assms by (simp add: heap_wf_def malloc_init_def)
next
  case False
  then have "B = Map.empty" using assms by (simp add: heap_wf_def)
  moreover have "heap_shape (malloc_init h) {} reg rk" for reg rk
    using False by (simp add: heap_shape_def malloc_init_def chain_ok_def dll_ok_def)
  moreover have "heap_use (malloc_init h) {} {}" by (simp add: heap_use_def)
  moreover have "live_blocks (malloc_init h) {} {} = Map.empty" by (simp add: live_blocks_def fun_eq_iff)
  ultimately show ?thesis by blast
qed

text \<open>Blocks the heap hands out do not overlap, and none is null.\<close>

lemma heap_wf_blocks:
  assumes "heap_wf R h B" "B p = Some m"
  shows "p \<noteq> 0" "48 \<le> unat p" "unat p + m < 2 ^ 64" "\<exists>r\<in>R. {unat p..<unat p + m} \<subseteq> run_rng r"
    "B q = Some k \<Longrightarrow> p \<noteq> q \<Longrightarrow> {unat p - 48..<unat p + m} \<inter> {unat q - 48..<unat q + k} = {}"
proof -
  have "l_initialized h" using assms by (auto simp: heap_wf_def split: if_splits)
  then obtain L reg rk where W: "heap_shape h L reg rk" "heap_use h L {}" "live_blocks h L {} = B" "reg ` L \<subseteq> R"
    using assms(1) unfolding heap_wf_def by auto
  note C = chain_okD [OF heap_shapeD(1) [OF W(1)]]
  have blk: "p - 48 \<in> L" "unat p = unat (p - 48) + 48" "unat (p - 48) + 48 + m \<le> unat (p - 48) + rsz h (p - 48)"
    if "B p = Some m" for p m
  proof -
    show l: "p - 48 \<in> L" and u: "unat (p - 48) + 48 + m \<le> unat (p - 48) + rsz h (p - 48)"
      using that W(2) unfolding W(3) [symmetric] live_blocks_def heap_use_def by (auto split: if_splits)
    have "unat (p - 48) + 48 < 2 ^ 64" using C(4,5) [OF l] u by linarith
    then show "unat p = unat (p - 48) + 48" using unat_plus_no_wrap [of "p - 48" 48] by simp
  qed
  note P = blk [OF assms(2)]
  note PC = C(3-5) [OF P(1)]
  show "p \<noteq> 0" "48 \<le> unat p" using P(2) by auto
  show "unat p + m < 2 ^ 64" using P(2,3) PC by linarith
  show "\<exists>r\<in>R. {unat p..<unat p + m} \<subseteq> run_rng r"
    using W(4) P PC by (intro bexI [of _ "reg (p - 48)"]) (auto simp: run_rng_def)
  show "{unat p - 48..<unat p + m} \<inter> {unat q - 48..<unat q + k} = {}" if q: "B q = Some k" "p \<noteq> q"
  proof -
    note Q = blk [OF q(1)]
    have "p - 48 \<noteq> q - 48" using q(2) by simp
    then have "span (rsz h) (p - 48) \<inter> span (rsz h) (q - 48) = {}" by (rule C(11) [OF P(1) Q(1)])
    moreover have "{unat p - 48..<unat p + m} \<subseteq> span (rsz h) (p - 48)" "{unat q - 48..<unat q + k} \<subseteq> span (rsz h) (q - 48)"
      using P(2,3) Q(2,3) by (auto simp: span_def)
    ultimately show ?thesis by blast
  qed
qed

lemma pages_for_bounds:
  assumes "unat u \<le> 4294963200"
  shows "16 \<le> unat (pages_for u)" "unat (pages_for u) < 2 ^ 20" "unat u \<le> 4096 * unat (pages_for u)"
    "unat (pages_for u * 4096) = 4096 * unat (pages_for u)"
proof -
  have d: "unat (u div 4096) = unat u div 4096" "unat (u mod 4096) = unat u mod 4096"
    by (simp_all add: unat_div_distrib unat_mod_distrib)
  define q where "q = u div 4096 + (if u mod 4096 \<noteq> 0 then 1 else 0)"
  have m: "u mod 4096 \<noteq> 0 \<longleftrightarrow> unat u mod 4096 \<noteq> 0" using d(2) by (metis unat_eq_zero)
  have u: "unat u div 4096 \<le> 1048575" "unat u mod 4096 \<noteq> 0 \<Longrightarrow> unat u div 4096 < 1048575"
    using assms div_le_mono [OF assms, of 4096] mult_div_mod_eq [of 4096 "unat u"] by (simp, linarith)
  have "unat q = unat u div 4096 + (if unat u mod 4096 \<noteq> 0 then 1 else 0)"
    unfolding q_def using u d m unat_plus_no_wrap [of "u div 4096" 1] by auto
  moreover have "unat u = 4096 * (unat u div 4096) + unat u mod 4096" "unat u mod 4096 < 4096" by simp_all
  ultimately have q: "unat q < 2 ^ 20" "unat u \<le> 4096 * unat q" using u by (auto split: if_splits)
  have p: "pages_for u = (if q < 16 then 16 else q)" by (simp add: pages_for_def Let_def q_def)
  show "16 \<le> unat (pages_for u)" "unat (pages_for u) < 2 ^ 20" "unat u \<le> 4096 * unat (pages_for u)"
    using q unfolding p by (auto simp: word_less_nat_alt not_less)
  then show "unat (pages_for u * 4096) = 4096 * unat (pages_for u)"
    by (simp add: unat_word_ariths)
qed

lemma pages_for_exact:
  assumes "unat u = 4096 * p" "16 \<le> p"
  shows "unat (pages_for u) = p"
proof -
  have "u mod 4096 = 0" using assms(1) by (simp add: word_unat_eq_iff unat_mod_distrib)
  moreover have "unat (u div 4096) = p" using assms(1) by (simp add: unat_div_distrib)
  ultimately show ?thesis using assms(2) by (simp add: pages_for_def Let_def word_less_nat_alt)
qed

section \<open>Taking a block\<close>

lemma shape_completePages:
  "heap_shape h L reg rk \<Longrightarrow> heap_shape (h\<lparr>l_completePages := (l_completePages h)[i := x]\<rparr>) L reg rk"
  by (simp add: heap_shape_def)

lemma use_completePages [simp]:
  "heap_use (h\<lparr>l_completePages := c\<rparr>) L X = heap_use h L X"
  "live_blocks (h\<lparr>l_completePages := c\<rparr>) L X = live_blocks h L X"
  by (simp_all add: heap_use_def live_blocks_def fun_eq_iff)

lemma remove_free_step:
  assumes S: "heap_shape h L reg rk" and U: "heap_use h L {}" and a: "a \<in> L" "0 \<le> idx h a"
  shows "\<exists>h'. remove_tag a h = Some h' \<and> heap_shape h' L reg rk \<and> heap_use h' L {a} \<and> idx h' a < 0 \<and>
    live_blocks h' L {a} = live_blocks h L {} \<and> same_rest h h' \<and> rsz h' a = rsz h a \<and>
    (srt h' a \<noteq> 0 \<longrightarrow> idx h' (srt h' a) < 0)"
proof -
  note C = chain_okD [OF heap_shapeD(1) [OF S]]
  obtain ix nx pv fl where Q: "remove_tag a h = Some (relink ix nx pv fl h)"
      "heap_shape (relink ix nx pv fl h) L reg rk" "ix = (idx h)(a := - 1)"
    using remove_tag_eq [OF S a] by simp
  define h1 where "h1 = relink ix nx pv fl h"
  have T: "the (tags h1 x) = (the (tags h x))\<lparr>tindex := (if x = a then - 1 else idx h x), tnext := nx x, tprev := pv x\<rparr>"
    if "x \<in> L" for x unfolding h1_def the_relink [OF S that] using Q(3) by simp
  have F: "idx h1 x = (if x = a then - 1 else idx h x)" "tsize (the (tags h1 x)) = tsize (the (tags h x))"
      "srt h1 x = srt h x" "real_size (the (tags h1 x)) = real_size (the (tags h x))" if "x \<in> L" for x
    by (simp_all add: T [OF that])
  have right: "srt h x \<noteq> 0 \<longrightarrow> idx h1 (srt h x) < 0" if x: "x \<in> L" "0 \<le> idx h x" for x
    using U x C(10) [OF x(1)] F(1) [of "srt h x"] unfolding heap_use_def by auto
  have "heap_use h1 L {a}" unfolding heap_use_def
  proof (intro ballI)
    fix x assume x: "x \<in> L"
    show "(idx h1 x < 0 \<longrightarrow> x \<notin> {a} \<longrightarrow> unat (tsize (the (tags h1 x))) + 48 \<le> rsz h1 x) \<and>
       (0 \<le> idx h1 x \<longrightarrow> idx h1 x = bucket (real_size (the (tags h1 x))) \<and> (srt h1 x \<noteq> 0 \<longrightarrow> idx h1 (srt h1 x) < 0))"
      using U x right [OF x] unfolding heap_use_def F [OF x] by auto
  qed
  moreover have "live_blocks h1 L {a} = live_blocks h L {}"
  proof (rule ext)
    fix p show "live_blocks h1 L {a} p = live_blocks h L {} p"
      by (cases "p - 48 \<in> L") (use F(1,2) [of "p - 48"] a(2) in \<open>auto simp: live_blocks_def\<close>)
  qed
  moreover have "srt h1 a \<noteq> 0 \<longrightarrow> idx h1 (srt h1 a) < 0" using right [OF a] F(3) [OF a(1)] by simp
  moreover have "idx h1 a < 0" "rsz h1 a = rsz h a" using F(1,4) [OF a(1)] by simp_all
  moreover have "same_rest h h1" by (simp add: same_rest_def h1_def)
  ultimately show ?thesis using Q(1,2) by (auto simp: h1_def)
qed

lemma new_block_step:
  fixes p :: u64 and r s :: u32
  assumes S: "heap_shape h L reg rk" and U: "heap_use h L {}" and p: "p \<noteq> 0" "48 \<le> unat r" "unat p + unat r < 2 ^ 64"
    and fresh: "\<And>a. a \<in> L \<Longrightarrow> run_rng (reg a) \<inter> {unat p..<unat p + unat r} = {}"
  defines "t \<equiv> \<lparr>magic = LIBALLOC_MAGIC, tsize = s, real_size = r, tindex = - 1,
             split_left = 0, split_right = 0, tnext = 0, tprev = 0\<rparr>"
  defines "h' \<equiv> put_tag p t h"
  shows "p \<notin> L" "heap_shape h' (insert p L) (reg(p := (unat p, unat r))) rk" "heap_use h' (insert p L) {p}"
    "live_blocks h' (insert p L) {p} = live_blocks h L {}"
    "keeps_blocks (live_blocks h L {}) (bytes h) (bytes h')"
proof -
  note H = heap_shapeD [OF S]
  note C = chain_okD [OF H(1)]
  have f: "span (rsz h) b \<inter> {unat p..<unat p + unat r} = {}" if "b \<in> L" for b
    using fresh [OF that] C(3,4) [OF that] by (auto simp: span_def run_rng_def)
  have r32: "unat r < 2 ^ 32" using unat_u32 [of r] by simp
  note N = chain_new [OF H(1) p(1,2) r32 p(3) f]
  show pL: "p \<notin> L" by (rule N(1))
  have T: "the (tags h' x) = (if x = p then t else the (tags h x))" for x by (simp add: h'_def)
  have "chain_ok (insert p L) (reg(p := (unat p, unat r))) (rsz h') (slf h') (srt h')"
    by (rule chain_cong [OF N(2)]) (auto simp: T t_def)
  moreover have "dll_ok (insert p L) (idx h') (nxt h') (prv h') (fpg h') rk"
    by (rule dll_cong [OF dll_add [OF H(2) pL p(1)]]) (auto simp: T t_def h'_def)
  moreover have "\<exists>u. tags h' x = Some u \<and> magic u = LIBALLOC_MAGIC" if "x \<in> insert p L" for x
    by (cases "x = p") (use H(3,4) [of x] that in \<open>auto simp: h'_def t_def\<close>)
  moreover have "tag_stored h' x" if "x \<in> insert p L" for x using that H(8) by (auto simp: h'_def tag_stored_put)
  ultimately show S': "heap_shape h' (insert p L) (reg(p := (unat p, unat r))) rk"
    using H(5-7) unfolding heap_shape_def by (simp add: h'_def)
  have right: "srt h x \<noteq> p" if "x \<in> L" for x using C(10) [OF that] pL p(1) by metis
  show U': "heap_use h' (insert p L) {p}"
    using U pL right unfolding heap_use_def T by (auto simp: t_def)
  show B': "live_blocks h' (insert p L) {p} = live_blocks h L {}"
    using pL by (auto simp: live_blocks_def T fun_eq_iff t_def)
  have "keeps_blocks (live_blocks h' (insert p L) {p}) (bytes h) (tag_over p (bytes h))"
    by (rule keeps_tag_over [OF S' U', of p 0]) (use p(2) in \<open>simp_all add: T t_def\<close>)
  then show "keeps_blocks (live_blocks h L {}) (bytes h) (bytes h')" unfolding B' by (simp add: h'_def)
qed

lemma keeps_trans: "keeps_blocks B m m1 \<Longrightarrow> keeps_blocks B m1 m2 \<Longrightarrow> keeps_blocks B m m2"
  by (simp add: keeps_blocks_def)

text \<open>A state of the heap after \<^verbatim>\<open>malloc_init\<close>, with its ghost components.\<close>

definition heap_at :: "region set \<Rightarrow> lheap \<Rightarrow> (u64 \<Rightarrow> nat option) \<Rightarrow> u64 set \<Rightarrow> (u64 \<Rightarrow> region) \<Rightarrow> (u64 \<Rightarrow> nat) \<Rightarrow> bool" where
  "heap_at R h B L reg rk \<longleftrightarrow> l_initialized h \<and> heap_shape h L reg rk \<and> heap_use h L {} \<and>
     live_blocks h L {} = B \<and> reg ` L \<subseteq> R \<inter> {(b, 4096 * p) | b p. 16 \<le> p}"

context page_source
begin

lemma malloc_found:
  assumes v: "pinv v" and h0: "h0 = malloc_init h" "bytes h0 = bytes h" and at: "heap_at (runs v) h0 B L reg rk"
    and a: "search_index sz (nat (max (getexp (ucast sz)) 8)) h0 = Some (a, j)" "a \<noteq> 0"
    and A: "a \<in> L" "0 \<le> idx h0 a" "unat sz + 96 \<le> rsz h0 a"
  shows "\<exists>h' p. malloc palloc sz (h, v) = Some ((h', v), p) \<and> keeps_blocks B (bytes h) (bytes h') \<and> p \<noteq> 0 \<and>
    B p = None \<and> heap_wf (runs v) h' (B(p \<mapsto> unat sz))"
proof -
  have init: "l_initialized h0" and W0: "heap_shape h0 L reg rk" "heap_use h0 L {}" "live_blocks h0 L {} = B"
      "reg ` L \<subseteq> runs v \<inter> {(b, 4096 * p) | b p. 16 \<le> p}"
    using at by (auto simp: heap_at_def)
  obtain h1 where R: "remove_tag a h0 = Some h1" "heap_shape h1 L reg rk" "heap_use h1 L {a}" "idx h1 a < 0"
      "live_blocks h1 L {a} = B" "same_rest h0 h1" "rsz h1 a = rsz h0 a"
      "srt h1 a \<noteq> 0 \<longrightarrow> idx h1 (srt h1 a) < 0"
    using remove_free_step [OF W0(1,2) A(1,2)] W0(3) by metis
  define h2 where "h2 = (if slf h1 a = 0 \<and> srt h1 a = 0
     then h1\<lparr>l_completePages := (l_completePages h1)[j := l_completePages h1 ! j - 1]\<rparr> else h1)"
  have h2: "heap_shape h2 L reg rk" "heap_use h2 L {a}" "live_blocks h2 L {a} = B" "tags h2 = tags h1"
      "bytes h2 = bytes h1" "l_initialized h2 = l_initialized h1"
    using R(2,3,5) shape_completePages [OF R(2)] by (auto simp: h2_def)
  have take: "take_tag palloc sz h0 v = Some (h2, v, a)"
  proof -
    obtain t where t: "tags h1 a = Some t" using heap_shapeD(3) [OF R(2) A(1)] by blast
    then show ?thesis using a(2) by (simp add: take_tag_def a(1) R(1) h2_def)
  qed
  obtain h' L' reg' rk' where N: "use_tag sz a h2 v = Some ((h', v), a + 48)" "heap_shape h' L' reg' rk'"
      "heap_use h' L' {}" "live_blocks h' L' {} = B(a + 48 \<mapsto> unat sz)" "l_initialized h' = l_initialized h2"
      "keeps_blocks B (bytes h2) (bytes h')" "reg' ` L' = reg ` L"
    using use_tag_step [OF h2(1,2) A(1), of sz v] R(4,7,8) A(3) h2(3,4) by auto
  have "malloc palloc sz (h, v) = Some ((h', v), a + 48)"
    using take N(1) a(2) by (simp add: malloc_def flip: h0(1))
  moreover have "l_initialized h'" "keeps_blocks B (bytes h) (bytes h')"
    using N(5,6) R(6) h2(5,6) init h0(2) by (auto simp: same_rest_def)
  moreover have "heap_wf (runs v) h' (B(a + 48 \<mapsto> unat sz))"
    by (rule heap_wfI [OF \<open>l_initialized h'\<close> N(2-4)]) (use N(7) W0(4) in auto)
  moreover have "B (a + 48) = None" using A(2) unfolding W0(3) [symmetric] by (simp add: live_blocks_def)
  moreover have "a + 48 \<noteq> 0" using heap_wf_blocks(1) [OF calculation(4), of "a + 48"] by simp
  ultimately show ?thesis using v by auto
qed

lemma malloc_fresh:
  assumes v: "pinv v" and h0: "h0 = malloc_init h" "bytes h0 = bytes h" and at: "heap_at (runs v) h0 B L reg rk"
    and a: "search_index sz (nat (max (getexp (ucast sz)) 8)) h0 = Some (0, j)" and sz: "unat sz \<le> 4294963152"
  shows "malloc palloc sz (h, v) = None \<and> palloc (pages_for (ucast sz + 48)) v = None \<or>
    (\<exists>h' v' p. malloc palloc sz (h, v) = Some ((h', v'), p) \<and> pinv v' \<and> keeps_blocks B (bytes h) (bytes h') \<and>
       (if p = 0 then heap_wf (runs v') h' B else B p = None \<and> heap_wf (runs v') h' (B(p \<mapsto> unat sz))))"
proof -
  have init: "l_initialized h0" and W0: "heap_shape h0 L reg rk" "heap_use h0 L {}" "live_blocks h0 L {} = B"
      "reg ` L \<subseteq> runs v \<inter> {(b, 4096 * p) | b p. 16 \<le> p}"
    using at by (auto simp: heap_at_def)
  have sz32: "unat sz < 2 ^ 32" using sz by simp
  define n where "n = pages_for (ucast sz + 48)"
  have us: "unat (ucast sz :: u32) = unat sz" using sz32 by (simp add: unat_ucast_mod)
  then have us': "unat (ucast sz + 48 :: u32) = unat sz + 48" using sz unat_plus_no_wrap [of "ucast sz :: u32" 48] by simp
  note P = pages_for_bounds [of "ucast sz + 48", folded n_def]
  have n: "16 \<le> unat n" "unat n < 2 ^ 20" "unat sz + 48 \<le> 4096 * unat n" "unat (n * 4096) = 4096 * unat n"
    using P us' sz by auto
  show ?thesis
  proof (cases "palloc n v")
    case None
    then have "malloc palloc sz (h, v) = None"
      using a by (simp add: malloc_def take_tag_def allocate_new_tag_def Let_def flip: h0(1) n_def)
    then show ?thesis using None by (simp add: n_def)
  next
    case (Some r)
    obtain v' p where r: "palloc n v = Some (v', p)" using Some by (cases r) auto
    have law: "pinv v'" "runs v \<subseteq> runs v'" "p \<noteq> 0 \<Longrightarrow> (unat p, 4096 * unat n) \<in> runs v' - runs v"
      using palloc_law [OF v _ n(2) r] n(1) by auto
    define h1 where "h1 = put_tag p
        \<lparr>magic = LIBALLOC_MAGIC, tsize = ucast sz, real_size = n * 4096, tindex = - 1,
         split_left = 0, split_right = 0, tnext = 0, tprev = 0\<rparr> h0"
    have take: "take_tag palloc sz h0 v = Some (if p = 0 then (h0, v', 0) else (h1, v', p))"
      using a r by (simp add: take_tag_def allocate_new_tag_def Let_def h1_def flip: n_def)
    show ?thesis
    proof (cases "p = 0")
      case True
      then have "malloc palloc sz (h, v) = Some ((h0, v'), 0)" using take by (simp add: malloc_def flip: h0(1))
      moreover have "heap_wf (runs v') h0 B" by (rule heap_wfI [OF init W0(1-3)]) (use W0(4) law(2) in auto)
      ultimately show ?thesis using law(1) h0(2) by auto
    next
      case False
      have fresh: "run_rng (reg x) \<inter> {unat p..<unat p + unat (n * 4096)} = {}" if "x \<in> L" for x
      proof -
        have "reg x \<in> runs v" using W0(4) that by auto
        then have "reg x \<in> runs v'" "reg x \<noteq> (unat p, 4096 * unat n)" using law(2,3) False by auto
        then have "run_rng (reg x) \<inter> run_rng (unat p, 4096 * unat n) = {}"
          using run_disjoint [OF law(1)] law(3) False by blast
        then show ?thesis unfolding n(4) by (simp add: run_rng_def)
      qed
      have b: "unat p + unat (n * 4096) < 2 ^ 64" using run_bounds [OF law(1)] law(3) [OF False] n(4) by force
      have n48: "48 \<le> unat (n * 4096)" using n(1,4) by simp
      note N = new_block_step [OF W0(1,2) False n48 b fresh]
      have N': "p \<notin> L" "heap_shape h1 (insert p L) (reg(p := (unat p, unat (n * 4096)))) rk" "heap_use h1 (insert p L) {p}"
          "live_blocks h1 (insert p L) {p} = B" "keeps_blocks B (bytes h0) (bytes h1)"
        unfolding h1_def W0(3) [symmetric] by (rule N, assumption)+
      have ph: "the (tags h1 p) = \<lparr>magic = LIBALLOC_MAGIC, tsize = ucast sz, real_size = n * 4096, tindex = - 1,
         split_left = 0, split_right = 0, tnext = 0, tprev = 0\<rparr>" by (simp add: h1_def)
      obtain h' L' reg' rk' where M: "use_tag sz p h1 v' = Some ((h', v'), p + 48)" "heap_shape h' L' reg' rk'"
          "heap_use h' L' {}" "live_blocks h' L' {} = B(p + 48 \<mapsto> unat sz)" "l_initialized h' = l_initialized h1"
          "keeps_blocks B (bytes h1) (bytes h')" "reg' ` L' = reg(p := (unat p, unat (n * 4096))) ` insert p L"
        using use_tag_step [OF N'(2,3), of sz v'] N'(4) n(3,4) ph by auto
      have "malloc palloc sz (h, v) = Some ((h', v'), p + 48)"
        using take M(1) False by (simp add: malloc_def flip: h0(1))
      moreover have i': "l_initialized h'" "keeps_blocks B (bytes h) (bytes h')"
        using M(5) init keeps_trans [OF N'(5) M(6)] by (simp_all add: h1_def h0(2))
      moreover have "reg(p := (unat p, unat (n * 4096))) ` insert p L \<subseteq> runs v' \<inter> {(b, 4096 * p) | b p. 16 \<le> p}"
        using W0(4) law(2,3) False n(1,4) by auto
      then have "heap_wf (runs v') h' (B(p + 48 \<mapsto> unat sz))"
        by (intro heap_wfI [OF i'(1) M(2-4)]) (simp_all add: M(7))
      moreover have "B (p + 48) = None" using N'(1) unfolding W0(3) [symmetric] by (simp add: live_blocks_def)
      moreover have "p + 48 \<noteq> 0" using heap_wf_blocks(1) [OF calculation(4), of "p + 48"] by simp
      ultimately show ?thesis using law(1) by auto
    qed
  qed
qed

lemma malloc_law:
  assumes v: "pinv v" and W: "heap_wf (runs v) h B" and sz: "unat sz \<le> 4294963152"
  shows "malloc palloc sz (h, v) = None \<and> palloc (pages_for (ucast sz + 48)) v = None \<or>
    (\<exists>h' v' p. malloc palloc sz (h, v) = Some ((h', v'), p) \<and> pinv v' \<and> keeps_blocks B (bytes h) (bytes h') \<and>
       (if p = 0 then heap_wf (runs v') h' B else B p = None \<and> heap_wf (runs v') h' (B(p \<mapsto> unat sz))))"
proof -
  have b: "bytes (malloc_init h) = bytes h" "l_initialized (malloc_init h)" by (simp_all add: malloc_init_def)
  obtain L reg rk where at: "heap_at (runs v) (malloc_init h) B L reg rk"
    using heap_wf_init [OF W] b(2) unfolding heap_at_def by blast
  then have S: "heap_shape (malloc_init h) L reg rk" by (simp add: heap_at_def)
  have "unat sz < 2 ^ 32" using sz by simp
  from search_index_spec [OF S this] obtain a j
    where a: "search_index sz (nat (max (getexp (ucast sz)) 8)) (malloc_init h) = Some (a, j)"
      "a \<noteq> 0 \<and> a \<in> L \<and> idx (malloc_init h) a = int j \<and> unat sz + 96 \<le> rsz (malloc_init h) a \<or> a = 0"
    by blast
  show ?thesis
  proof (cases "a = 0")
    case True
    then show ?thesis using malloc_fresh [OF v refl b(1) at _ sz] a(1) by blast
  next
    case False
    then have "a \<in> L" "0 \<le> idx (malloc_init h) a" "unat sz + 96 \<le> rsz (malloc_init h) a" using a(2) by auto
    from malloc_found [OF v refl b(1) at a(1) False this] show ?thesis using v by auto
  qed
qed

end

section \<open>Giving a block back\<close>

lemma insert_free_step:
  assumes S: "heap_shape h L reg rk" and U: "heap_use h L {b}" and b: "b \<in> L" "idx h b < 0"
    and n: "slf h b \<noteq> 0 \<Longrightarrow> idx h (slf h b) < 0" "srt h b \<noteq> 0 \<Longrightarrow> idx h (srt h b) < 0"
    and i: "i = bucket (real_size (the (tags h b)))"
  shows "\<exists>h' rk'. insert_tag b i h = Some h' \<and> heap_shape h' L reg rk' \<and> heap_use h' L {} \<and>
    live_blocks h' L {} = live_blocks h L {b} \<and> same_rest h h' \<and> 0 \<le> idx h' b \<and> rsz h' b = rsz h b"
proof -
  note C = chain_okD [OF heap_shapeD(1) [OF S]]
  have i0: "0 \<le> i" "i < 32" using bucket_bounds [of "real_size (the (tags h b))"] i by auto
  have i': "i = (if i < 0 then bucket (real_size (the (tags h b))) else i)" using i0 by simp
  obtain ix nx pv fl rk' where Q: "insert_tag b i h = Some (relink ix nx pv fl h)"
      "heap_shape (relink ix nx pv fl h) L reg rk'" "ix = (idx h)(b := i)"
    using insert_tag_eq [OF S b i' i0(2)] by simp
  define h1 where "h1 = relink ix nx pv fl h"
  have T: "the (tags h1 x) = (the (tags h x))\<lparr>tindex := (if x = b then i else idx h x), tnext := nx x, tprev := pv x\<rparr>"
    if "x \<in> L" for x unfolding h1_def the_relink [OF S that] using Q(3) by simp
  have F: "idx h1 x = (if x = b then i else idx h x)" "tsize (the (tags h1 x)) = tsize (the (tags h x))"
      "srt h1 x = srt h x" "real_size (the (tags h1 x)) = real_size (the (tags h x))" if "x \<in> L" for x
    by (simp_all add: T [OF that])
  have right: "srt h x \<noteq> 0 \<longrightarrow> idx h1 (srt h x) < 0" if x: "x \<in> L" "0 \<le> idx h x \<or> x = b" for x
  proof
    assume z: "srt h x \<noteq> 0"
    have q: "srt h x \<in> L" "slf h (srt h x) = x" using C(10) [OF x(1) z] by auto
    have "srt h x \<noteq> b"
    proof
      assume e: "srt h x = b"
      then have "slf h b = x" "x \<noteq> 0" using q(2) C(1) [OF x(1)] by auto
      then have "idx h x < 0" "x \<noteq> b" using n(1) C(8) [OF b(1)] C(2) [OF b(1)] by auto
      then show False using x(2) by simp
    qed
    moreover have "idx h (srt h x) < 0" using x U z n(2) unfolding heap_use_def by auto
    ultimately show "idx h1 (srt h x) < 0" using F(1) [OF q(1)] by simp
  qed
  have "heap_use h1 L {}" unfolding heap_use_def
  proof (intro ballI)
    fix x assume x: "x \<in> L"
    show "(idx h1 x < 0 \<longrightarrow> x \<notin> {} \<longrightarrow> unat (tsize (the (tags h1 x))) + 48 \<le> rsz h1 x) \<and>
       (0 \<le> idx h1 x \<longrightarrow> idx h1 x = bucket (real_size (the (tags h1 x))) \<and> (srt h1 x \<noteq> 0 \<longrightarrow> idx h1 (srt h1 x) < 0))"
      using U x i i0 right [OF x] unfolding heap_use_def F [OF x] by auto
  qed
  moreover have "live_blocks h1 L {} = live_blocks h L {b}"
  proof (rule ext)
    fix p show "live_blocks h1 L {} p = live_blocks h L {b} p"
      by (cases "p - 48 \<in> L") (use F(1,2) [of "p - 48"] i0 in \<open>auto simp: live_blocks_def\<close>)
  qed
  moreover have "0 \<le> idx h1 b" "rsz h1 b = rsz h b" using F(1,4) [OF b(1)] i0 by simp_all
  moreover have "same_rest h h1" by (simp add: same_rest_def h1_def)
  ultimately show ?thesis using Q(1,2) by (auto simp: h1_def)
qed

lemma drop_run_step:
  assumes S: "heap_shape h L reg rk" and U: "heap_use h L {b}" and b: "b \<in> L" "idx h b < 0" "slf h b = 0" "srt h b = 0"
  shows "heap_shape h (L - {b}) reg rk" "heap_use h (L - {b}) {}" "live_blocks h (L - {b}) {} = live_blocks h L {b}"
    "reg b = (unat b, rsz h b)" "reg b \<notin> reg ` (L - {b})"
proof -
  note H = heap_shapeD [OF S]
  note D = chain_drop [OF H(1) b(1,3,4)]
  have "dll_ok (L - {b}) (idx h) (nxt h) (prv h) (fpg h) rk" by (rule dll_drop [OF H(2) b(2)])
  then show "heap_shape h (L - {b}) reg rk" using S D(1) unfolding heap_shape_def by auto
  show "heap_use h (L - {b}) {}" using U unfolding heap_use_def by auto
  show "live_blocks h (L - {b}) {} = live_blocks h L {b}" by (auto simp: live_blocks_def fun_eq_iff)
  show "reg b = (unat b, rsz h b)"
    using chain_okD(7,9) [OF H(1) b(1)] b(3,4) by (auto intro!: prod_eqI)
  show "reg b \<notin> reg ` (L - {b})" using D(2) by fastforce
qed

context page_source
begin

lemma give_back_law:
  assumes v: "pinv v" and i: "l_initialized h" and S: "heap_shape h L reg rk" and U: "heap_use h L {b}"
    and b: "b \<in> L" "idx h b < 0" and R: "reg ` L \<subseteq> runs v" "reg ` L \<subseteq> {(b, 4096 * p) | b p. 16 \<le> p}"
    and n: "slf h b \<noteq> 0 \<Longrightarrow> idx h (slf h b) < 0" "srt h b \<noteq> 0 \<Longrightarrow> idx h (srt h b) < 0"
  shows "\<exists>h' v'. give_back pfree b h v = Some (h', v') \<and> pinv v' \<and> bytes h' = bytes h \<and>
    heap_wf (runs v') h' (live_blocks h L {b})"
proof -
  obtain t where t: "tags h b = Some t" using heap_shapeD(3) [OF S b(1)] by blast
  define k where "k = bucket (real_size t)"
  have k: "max (getexp (real_size t - 48)) 8 = k" by (simp add: k_def bucket_def)
  have ins: "\<exists>h'. insert_tag b k g = Some h' \<and> bytes h' = bytes h \<and> heap_wf (runs v) h' (live_blocks h L {b})"
    if g: "g = h \<or> g = h\<lparr>l_completePages := (l_completePages h)[nat k := x]\<rparr>" for g x
  proof -
    have "heap_shape g L reg rk" "heap_use g L {b}" "tags g = tags h" "live_blocks g L {b} = live_blocks h L {b}"
        "bytes g = bytes h" "l_initialized g = l_initialized h"
      using g S U shape_completePages [OF S] by auto
    then obtain h' rk' where "insert_tag b k g = Some h'" "heap_shape h' L reg rk'" "heap_use h' L {}"
        "live_blocks h' L {} = live_blocks h L {b}" "bytes h' = bytes h" "l_initialized h'"
      using insert_free_step [of g L reg rk b k] b n i t by (auto simp: k_def same_rest_def)
    then show ?thesis using heap_wfI [of h' L reg rk'] R by auto
  qed
  show ?thesis
  proof (cases "split_left t = 0 \<and> split_right t = 0 \<and> l_completePages h ! nat k = MAXCOMPLETE")
    case True
    have z: "slf h b = 0" "srt h b = 0" using True t by auto
    note D = drop_run_step [OF S U b z]
    have D': "reg b = (unat b, unat (real_size t))" using D(4) True t by simp
    have "reg b \<in> {(b, 4096 * p) | b p. 16 \<le> p}" using R(2) b(1) by blast
    then obtain p where p: "unat (real_size t) = 4096 * p" "16 \<le> p" unfolding D' by blast
    then have pg: "unat (pages_for (real_size t)) = p" by (rule pages_for_exact)
    have "(unat b, 4096 * unat (pages_for (real_size t))) \<in> runs v" using R(1) b(1) D' p pg by force
    moreover have "unat (pages_for (real_size t)) < 2 ^ 20" using p pg unat_u32 [of "real_size t"] by simp
    note pfree_law [OF v this]
    ultimately obtain v' where v': "pfree b (pages_for (real_size t)) v = Some v'" "pinv v'"
        "runs v - {reg b} \<subseteq> runs v'" unfolding D' using p pg by metis
    have "give_back pfree b h v = Some (h, v')" using True t v'(1) k by (simp add: give_back_def Let_def)
    moreover have "reg ` (L - {b}) \<subseteq> runs v - {reg b}" using R(1) D(5) by blast
    then have "heap_wf (runs v') h (live_blocks h L {b})"
      by (intro heap_wfI [OF i D(1-3)]) (use R(2) v'(3) in blast)+
    ultimately show ?thesis using v'(2) by auto
  next
    case False
    have "\<exists>h'. give_back pfree b h v = Some (h', v) \<and> bytes h' = bytes h \<and> heap_wf (runs v) h' (live_blocks h L {b})"
    proof (cases "split_left t = 0 \<and> split_right t = 0")
      case True
      then show ?thesis using False t k ins [of "h\<lparr>l_completePages := (l_completePages h)[nat k := l_completePages h ! nat k + 1]\<rparr>"]
        by (auto simp: give_back_def Let_def)
    next
      case False
      then show ?thesis using t k ins [of h] by (auto simp: give_back_def Let_def)
    qed
    then show ?thesis using v by auto
  qed
qed

lemma free_law:
  assumes v: "pinv v" and W: "heap_wf (runs v) h B" and p: "B p = Some m"
  shows "\<exists>h' v'. free pfree p (h, v) = Some (h', v') \<and> pinv v' \<and> bytes h' = bytes h \<and>
    heap_wf (runs v') h' (B(p := None))"
proof -
  have i: "l_initialized h" using W p by (auto simp: heap_wf_def split: if_splits)
  obtain L reg rk where W0: "heap_shape h L reg rk" "heap_use h L {}" "live_blocks h L {} = B"
      "reg ` L \<subseteq> runs v" "reg ` L \<subseteq> {(b, 4096 * p) | b p. 16 \<le> p}"
    using W i unfolding heap_wf_def by auto
  define a where "a = p - 48"
  have a: "a \<in> L" "idx h a < 0" using p unfolding W0(3) [symmetric] live_blocks_def a_def by (auto split: if_splits)
  have U: "heap_use h L {a}" using W0(2) unfolding heap_use_def by auto
  have B: "live_blocks h L {a} = B(p := None)"
    unfolding W0(3) [symmetric] by (auto simp: live_blocks_def a_def fun_eq_iff)
  obtain b h1 h2 L' where M: "melt_left_loop a h = Some (b, h1)" "melt_right_loop b h1 = Some (b, h2)" "L' \<subseteq> L"
      "heap_shape h2 L' reg rk" "heap_use h2 L' {b}" "b \<in> L'" "idx h2 b < 0" "live_blocks h2 L' {b} = B(p := None)"
      "same_rest h h2" "slf h2 b \<noteq> 0 \<longrightarrow> idx h2 (slf h2 b) < 0" "srt h2 b \<noteq> 0 \<longrightarrow> idx h2 (srt h2 b) < 0"
    using melt_both [OF W0(1) U a] B by metis
  have R: "reg ` L' \<subseteq> runs v" "reg ` L' \<subseteq> {(b, 4096 * p) | b p. 16 \<le> p}" using M(3) W0(4,5) by (blast dest: image_mono)+
  have "l_initialized h2" "bytes h2 = bytes h" using M(9) i by (auto simp: same_rest_def)
  then obtain h' v' where G: "give_back pfree b h2 v = Some (h', v')" "pinv v'" "bytes h' = bytes h"
      "heap_wf (runs v') h' (B(p := None))"
    using give_back_law [OF v _ M(4-7) R] M(8,10,11) by auto
  have "free pfree p (h, v) = Some (h', v')"
    using heap_wf_blocks(1) [OF W p] heap_shapeD(3,4) [OF W0(1) a(1)] M(1,2) G(1)
    by (simp add: free_def Let_def bind_eq_Some_conv flip: a_def) (metis option.sel)
  then show ?thesis using G by blast
qed

end

section \<open>The bytes of the blocks\<close>

lemma off_step: "x \<noteq> s \<Longrightarrow> unat (x - (s + 1) :: u64) = unat (x - s) - 1"
proof -
  assume "x \<noteq> s"
  then have "1 \<le> x - s" using word_le_nat_alt [of 1 "x - s"] by (simp add: Suc_le_eq unat_gt_0)
  then have "unat ((x - s) - 1) = unat (x - s) - 1" by (simp add: unat_sub)
  then show ?thesis by (simp add: algebra_simps)
qed

lemma memset_bytes:
  "liballoc_memset s c n m x = (if unat (x - s) < n then Some c else m x)" if "n \<le> 2 ^ 64"
  using that
proof (induction n arbitrary: s m)
  case (Suc n)
  show ?case
  proof (cases "x = s")
    case True
    have "unat (s - (s + 1)) = 2 ^ 64 - 1" by (simp add: unsigned_minus_1_eq_mask mask_eq_exp_minus_1)
    then have "\<not> unat (x - (s + 1)) < n" using Suc.prems True by simp
    then show ?thesis using Suc True by simp
  next
    case False
    then have "0 < unat (x - s)" by (simp add: unat_gt_0)
    then show ?thesis using Suc off_step [OF False] False by auto
  qed
qed simp

text \<open>The copy of separate ranges, in words and then in bytes.\<close>

definition ranges_apart :: "u64 \<Rightarrow> u64 \<Rightarrow> nat \<Rightarrow> bool" where
  "ranges_apart d s n \<longleftrightarrow> unat d + n < 2 ^ 64 \<and> unat s + n < 2 ^ 64 \<and> {unat d..<unat d + n} \<inter> {unat s..<unat s + n} = {}"

lemma apart_unat:
  assumes "ranges_apart d s n" "i < n"
  shows "unat (d + of_nat i) = unat d + i" "unat (s + of_nat i) = unat s + i"
  using assms by (simp_all add: ranges_apart_def unat_plus_no_wrap unat_of_nat)

lemma apart_ne: "ranges_apart d s n \<Longrightarrow> i < n \<Longrightarrow> j < n \<Longrightarrow> d + of_nat i \<noteq> s + of_nat j"
proof
  assume a: "ranges_apart d s n" "i < n" "j < n" and e: "d + of_nat i = s + of_nat j"
  have "unat d + i = unat s + j" using apart_unat [OF a(1)] a(2,3) e by metis
  moreover have "unat d + i \<in> {unat d..<unat d + n}" "unat s + j \<in> {unat s..<unat s + n}" using a(2,3) by auto
  ultimately show False using a(1) by (auto simp: ranges_apart_def)
qed

lemma apart_tail:
  assumes "ranges_apart d s n" "k \<le> n"
  shows "ranges_apart (d + of_nat k) (s + of_nat k) (n - k)"
proof -
  have "unat (d + of_nat k) = unat d + k" "unat (s + of_nat k) = unat s + k"
    using assms by (simp_all add: ranges_apart_def unat_plus_no_wrap unat_of_nat)
  moreover have "{unat d + k..<unat d + n} \<inter> {unat s + k..<unat s + n} \<subseteq> {unat d..<unat d + n} \<inter> {unat s..<unat s + n}"
    by auto
  ultimately show ?thesis using assms by (auto simp: ranges_apart_def)
qed

definition copied :: "u64 \<Rightarrow> u64 \<Rightarrow> nat \<Rightarrow> bytemem \<Rightarrow> bytemem \<Rightarrow> bool" where
  "copied d s n m m' \<longleftrightarrow> (\<forall>i<n. m' (d + of_nat i) = m (s + of_nat i)) \<and>
     (\<forall>x. (\<forall>i<n. x \<noteq> d + of_nat i) \<longrightarrow> m' x = m x)"

lemma copied_step:
  assumes a: "ranges_apart d s n" and k: "k \<le> n" and c: "copied d s k m m1"
    "copied (d + of_nat k) (s + of_nat k) (n - k) m1 m2"
  shows "copied d s n m m2"
  unfolding copied_def
proof (intro conjI allI impI)
  have inj: "d + of_nat i \<noteq> d + of_nat j" if "i < n" "j < n" "i \<noteq> j" for i j :: nat
    using apart_unat(1) [OF a] that by (metis add_left_cancel)
  fix i assume i: "i < n"
  show "m2 (d + of_nat i) = m (s + of_nat i)"
  proof (cases "i < k")
    case True
    have "d + of_nat i \<noteq> d + of_nat k + of_nat j" if "j < n - k" for j
      using inj [OF i, of "k + j"] that True by (simp add: add.assoc)
    then show ?thesis using c True unfolding copied_def by auto
  next
    case False
    define j where "j = i - k"
    have j: "i = k + j" "j < n - k" using False i by (auto simp: j_def)
    have "m1 (s + of_nat i) = m (s + of_nat i)"
      using c(1) apart_ne [OF a _ i] k unfolding copied_def by (metis less_le_trans)
    moreover have "m2 (d + of_nat k + of_nat j) = m1 (s + of_nat k + of_nat j)"
      using c(2) j(2) unfolding copied_def by blast
    ultimately show ?thesis by (simp add: j(1) add.assoc)
  qed
next
  fix x assume x: "\<forall>i<n. x \<noteq> d + of_nat i"
  have "x \<noteq> d + of_nat k + of_nat j" if "j < n - k" for j
    using x [rule_format, of "k + j"] that by (simp add: add.assoc)
  then show "m2 x = m x" using c x k unfolding copied_def by auto
qed

lemma copied_word: "ranges_apart d s n \<Longrightarrow> 4 \<le> n \<Longrightarrow> copied d s 4 m (copy_word d s m)"
proof -
  have l: "i < 4 \<longleftrightarrow> i = 0 \<or> i = 1 \<or> i = 2 \<or> i = 3" for i :: nat by auto
  show ?thesis unfolding copied_def copy_word_def l by (auto simp: l)
qed

lemma memcpy_copied:
  assumes "ranges_apart d s n"
  shows "copied d s n m (liballoc_memcpy d s n m)"
  using assms
proof (induction d s n m rule: liballoc_memcpy.induct)
  case (1 d s n m)
  consider "4 \<le> n" | "0 < n" "\<not> 4 \<le> n" | "n = 0" by linarith
  then show ?case
  proof cases
    case 1
    have "copied (d + 4) (s + 4) (n - 4) (copy_word d s m) (liballoc_memcpy (d + 4) (s + 4) (n - 4) (copy_word d s m))"
      using "1.IH"(1) [OF 1] apart_tail [OF "1.prems" 1] by simp
    then show ?thesis
      using copied_step [OF "1.prems" 1 copied_word [OF "1.prems" 1]] 1
      by (subst liballoc_memcpy.simps) simp
  next
    case 2
    then have n1: "1 \<le> n" by simp
    have "copied (d + 1) (s + 1) (n - 1) (m(d := m s)) (liballoc_memcpy (d + 1) (s + 1) (n - 1) (m(d := m s)))"
      using "1.IH"(2) [OF 2(2,1)] apart_tail [OF "1.prems" n1] by (simp add: fun_upd_def)
    moreover have "copied d s 1 m (m(d := m s))" by (simp add: copied_def)
    ultimately show ?thesis
      using copied_step [OF "1.prems" n1] 2 by (subst liballoc_memcpy.simps) simp
  next
    case 3
    then show ?thesis by (subst liballoc_memcpy.simps) (simp add: copied_def)
  qed
qed

lemma sint_u32_small:
  assumes "unat (w :: u32) < 2 ^ 31"
  shows "sint w = int (unat w)"
proof -
  define k where "k = unat w"
  have "k < 2147483648" using assms by (simp add: k_def)
  then have "(int k + 2147483648) mod 4294967296 = int k + 2147483648"
    by (intro mod_pos_pos_trivial) auto
  then show ?thesis unfolding sint_u32 k_def by linarith
qed

text \<open>Whatever is written inside the blocks in use, the tags are not touched.\<close>

lemma heap_wf_bytes:
  assumes W: "heap_wf R h B" and m: "\<And>x. m x \<noteq> bytes h x \<Longrightarrow> \<exists>p n. B p = Some n \<and> unat (x - p) < n"
  shows "heap_wf R (h\<lparr>bytes := m\<rparr>) B"
proof (cases "l_initialized h")
  case True
  then obtain L reg rk where H: "heap_shape h L reg rk" "heap_use h L {}" "live_blocks h L {} = B"
      "reg ` L \<subseteq> R \<inter> {(b, 4096 * p) | b p. 16 \<le> p}"
    using W unfolding heap_wf_def by auto
  note C = chain_okD [OF heap_shapeD(1) [OF H(1)]]
  have "m x = None" if a: "a \<in> L" and x: "unat (x - a) < 48" for a x
  proof (rule ccontr)
    assume "m x \<noteq> None"
    moreover have "bytes h x = None" using heap_shapeD(8) [OF H(1) a] x by (simp add: tag_stored_def)
    ultimately obtain p n where p: "B p = Some n" "unat (x - p) < n" using m [of x] by auto
    note b = live_block_bounds [OF H(1,2) p(1) [folded H(3)]]
    have u: "unat x = unat p + unat (x - p)" by (rule unat_offset [OF p(2)]) (use b(6) in simp)
    have v: "unat x = unat a + unat (x - a)" by (rule unat_offset [OF x]) (use C(2,4,5) [OF a] in linarith)
    have "unat x \<in> span (rsz h) (p - 48)" using u b(4,5) p(2) by (simp add: span_def)
    moreover have "unat x \<in> span (rsz h) a" using v x C(2) [OF a] by (simp add: span_def)
    moreover have "p - 48 \<noteq> a" using u v x b(4) by auto
    ultimately show False using C(11) [OF _ a, of "p - 48"] b(1) by blast
  qed
  then have "heap_shape (h\<lparr>bytes := m\<rparr>) L reg rk" using H(1) by (simp add: heap_shape_def tag_stored_def)
  moreover have "heap_use (h\<lparr>bytes := m\<rparr>) L {}" using H(2) by (simp add: heap_use_def)
  moreover have "live_blocks (h\<lparr>bytes := m\<rparr>) L {} = B"
    unfolding H(3) [symmetric] by (simp add: live_blocks_def fun_eq_iff)
  ultimately show ?thesis using H(4) True by (auto simp: heap_wf_def)
qed (use W in \<open>simp add: heap_wf_def\<close>)

text \<open>Writes inside one block leave the other blocks as they are.\<close>

lemma keeps_other_blocks:
  assumes W: "heap_wf R h B" and q: "B q = Some n" and m: "\<And>x. m' x \<noteq> m x \<Longrightarrow> unat (x - q) < n"
  shows "keeps_blocks (B(q := None)) m m'"
  unfolding keeps_blocks_def
proof (intro allI impI)
  fix p k x
  assume p: "(B(q := None)) p = Some k" and x: "unat (x - p) < k"
  then have p': "B p = Some k" "p \<noteq> q" by (auto split: if_splits)
  note P = heap_wf_blocks [OF W p'(1)] and Q = heap_wf_blocks(3) [OF W q]
  have ux: "unat x = unat p + unat (x - p)" by (rule unat_offset [OF x]) (use P(3) in simp)
  show "m' x = m x"
  proof (rule ccontr)
    assume "m' x \<noteq> m x"
    from m [OF this] have y: "unat (x - q) < n" .
    have "unat x = unat q + unat (x - q)" by (rule unat_offset [OF y]) (use Q in simp)
    then have "unat x \<in> {unat p - 48..<unat p + k} \<inter> {unat q - 48..<unat q + n}" using ux x y by auto
    then show False using P(5) [OF q p'(2)] by blast
  qed
qed

lemma heap_wf_mono: "heap_wf R h B \<Longrightarrow> R \<subseteq> R' \<Longrightarrow> heap_wf R' h B"
  by (auto simp: heap_wf_def split: if_splits) blast

lemma heap_wf_tag:
  assumes "heap_wf R h B" "B p = Some m"
  shows "\<exists>t. tags h (p - 48) = Some t \<and> unat (tsize t) = m"
proof -
  have "l_initialized h" using assms by (auto simp: heap_wf_def split: if_splits)
  then obtain L reg rk where W: "heap_shape h L reg rk" "live_blocks h L {} = B"
    using assms(1) unfolding heap_wf_def by auto
  have "p - 48 \<in> L" "unat (tsize (the (tags h (p - 48)))) = m"
    using assms(2) unfolding W(2) [symmetric] live_blocks_def by (auto split: if_splits)
  then show ?thesis using heap_shapeD(3) [OF W(1)] by blast
qed

context page_source
begin

lemma calloc_law:
  assumes v: "pinv v" and W: "heap_wf (runs v) h B" and m: "unat nobj * unat sz < 2 ^ 31"
    and r: "calloc palloc nobj sz (h, v) = Some ((h', v'), p)" "p \<noteq> 0"
  shows "pinv v'" "B p = None" "heap_wf (runs v') h' (B(p \<mapsto> unat nobj * unat sz))"
    "unat (x - p) < unat nobj * unat sz \<Longrightarrow> bytes h' x = Some 0" "keeps_blocks B (bytes h) (bytes h')"
proof -
  define n where "n = (scast (ucast (nobj * sz) :: u32) :: u64)"
  have un: "unat n = unat nobj * unat sz"
  proof -
    have "unat (nobj * sz) = unat nobj * unat sz" using m by (simp add: unat_word_ariths)
    then have u: "unat (ucast (nobj * sz) :: u32) = unat nobj * unat sz" using m by (simp add: unat_ucast_mod)
    then have "sint (ucast (nobj * sz) :: u32) = int (unat nobj * unat sz)"
      using sint_u32_small [of "ucast (nobj * sz)"] m by metis
    then have "n = of_int (int (unat nobj * unat sz))" unfolding n_def by (metis scast_eq)
    then have "n = of_nat (unat nobj * unat sz)" by (simp only: of_int_of_nat_eq)
    then show ?thesis using m by (simp only:) (rule unat_of_nat_small, simp)
  qed
  have n: "unat n \<le> 4294963152" using un m by simp
  obtain g w where g: "malloc palloc n (h, v) = Some ((g, w), p)" "w = v'"
      "h' = g\<lparr>bytes := liballoc_memset p 0 (unat n) (bytes g)\<rparr>"
    using r(1) unfolding calloc_def n_def [symmetric] Let_def
    by (auto simp: bind_eq_Some_conv split: if_splits prod.splits)
  from malloc_law [OF v W n] g r(2) have M: "pinv v'" "keeps_blocks B (bytes h) (bytes g)" "B p = None"
      "heap_wf (runs v') g (B(p \<mapsto> unat n))" by auto
  show "pinv v'" "B p = None" by (rule M)+
  have "unat n \<le> 2 ^ 64" using n by simp
  note S = memset_bytes [OF this, of p 0 "bytes g"]
  show "unat (x - p) < unat nobj * unat sz \<Longrightarrow> bytes h' x = Some 0" by (simp add: g(3) S flip: un)
  have ch: "unat (x - p) < unat n" if "liballoc_memset p 0 (unat n) (bytes g) x \<noteq> bytes g x" for x
    using that by (simp add: S split: if_splits)
  have "heap_wf (runs v') h' (B(p \<mapsto> unat n))"
    unfolding g(3) by (rule heap_wf_bytes [OF M(4)]) (use ch in \<open>auto intro!: exI [of _ p]\<close>)
  then show "heap_wf (runs v') h' (B(p \<mapsto> unat nobj * unat sz))" by (simp add: un)
  have "keeps_blocks ((B(p \<mapsto> unat n))(p := None)) (bytes g) (liballoc_memset p 0 (unat n) (bytes g))"
    by (rule keeps_other_blocks [OF M(4) _ ch]) simp
  moreover have "(B(p \<mapsto> unat n))(p := None) = B" using M(3) by auto
  ultimately have "keeps_blocks B (bytes g) (bytes h')" by (simp add: g(3))
  then show "keeps_blocks B (bytes h) (bytes h')" by (rule keeps_trans [OF M(2)])
qed

lemma realloc_law:
  assumes v: "pinv v" and W: "heap_wf (runs v) h B" and sz: "0 < unat sz" "unat sz \<le> 4294963152" and p: "B p = Some m"
    and g: "malloc palloc sz (h, v) = Some ((g, w), q)" "q \<noteq> 0"
  shows "\<exists>h' v'. realloc palloc pfree p sz (h, v) = Some ((h', v'), q) \<and> pinv v' \<and> q \<noteq> p \<and> B q = None \<and>
    heap_wf (runs v') h' (B(p := None, q \<mapsto> unat sz)) \<and>
    (\<forall>i < min m (unat sz). bytes h' (q + of_nat i) = bytes h (p + of_nat i)) \<and>
    keeps_blocks (B(p := None)) (bytes h) (bytes h')"
proof -
  have p0: "p \<noteq> 0" by (rule heap_wf_blocks(1) [OF W p])
  obtain t where t: "tags h (p - 48) = Some t" "unat (tsize t) = m" using heap_wf_tag [OF W p] by blast
  have ut: "unat (ucast (tsize t) :: u64) = m" unfolding t(2) [symmetric] by (rule unat_ucast_widen) simp
  define n where "n = (if sz < ucast (tsize t) then sz else ucast (tsize t))"
  have un: "unat n = min m (unat sz)" using ut by (auto simp: n_def word_less_nat_alt)
  have s0: "sz \<noteq> 0" using sz(1) by auto
  from malloc_law [OF v W sz(2)] g have M: "pinv w" "keeps_blocks B (bytes h) (bytes g)" "B q = None"
      "heap_wf (runs w) g (B(q \<mapsto> unat sz))" by auto
  have qp: "q \<noteq> p" using M(3) p by auto
  have Bp: "(B(q \<mapsto> unat sz)) p = Some m" and Bq: "(B(q \<mapsto> unat sz)) q = Some (unat sz)" using p qp by simp_all
  note Q = heap_wf_blocks [OF M(4) Bq] and P = heap_wf_blocks [OF M(4) Bp]
  have ap: "ranges_apart q p (unat n)"
  proof -
    have "{unat q - 48..<unat q + unat sz} \<inter> {unat p - 48..<unat p + m} = {}" by (rule Q(5) [OF Bp qp])
    moreover have "{unat q..<unat q + unat n} \<subseteq> {unat q - 48..<unat q + unat sz}"
      "{unat p..<unat p + unat n} \<subseteq> {unat p - 48..<unat p + m}" using un by auto
    ultimately show ?thesis using Q(3) P(3) un unfolding ranges_apart_def by auto
  qed
  let ?m = "liballoc_memcpy q p (unat n) (bytes g)"
  let ?g = "g\<lparr>bytes := ?m\<rparr>"
  note cp = memcpy_copied [OF ap, of "bytes g", unfolded copied_def]
  have ch: "unat (x - q) < unat sz" if x: "?m x \<noteq> bytes g x" for x
  proof -
    obtain i where i: "i < unat n" "x = q + of_nat i" using cp x by blast
    then have "unat (x - q) = i" using unat_u64 [of n] by (simp add: unat_of_nat)
    then show ?thesis using i(1) un by simp
  qed
  have "heap_wf (runs w) ?g (B(q \<mapsto> unat sz))"
    by (rule heap_wf_bytes [OF M(4)]) (use ch in \<open>auto intro!: exI [of _ q]\<close>)
  from free_law [OF M(1) this Bp] obtain h' v' where F: "free pfree p (?g, w) = Some (h', v')" "pinv v'"
      "bytes h' = bytes ?g" "heap_wf (runs v') h' ((B(q \<mapsto> unat sz))(p := None))" by blast
  have "realloc palloc pfree p sz (h, v) = Some ((h', v'), q)"
    using F(1) g p0 s0 t(1) unfolding realloc_def n_def Let_def by simp
  moreover have "heap_wf (runs v') h' (B(p := None, q \<mapsto> unat sz))" using F(4) qp by (simp add: fun_upd_twist)
  moreover have "bytes h' (q + of_nat i) = bytes h (p + of_nat i)" if i: "i < min m (unat sz)" for i
  proof -
    have "unat (of_nat i :: u64) = i" by (rule unat_of_nat_small) (use i sz(2) in simp)
    then have "bytes g (p + of_nat i) = bytes h (p + of_nat i)"
      using M(2) p i unfolding keeps_blocks_def by (metis add_diff_cancel_left' min_less_iff_conj)
    then show ?thesis using cp i by (simp add: F(3) un)
  qed
  moreover have "keeps_blocks (B(p := None)) (bytes h) (bytes h')"
  proof -
    have "keeps_blocks ((B(q \<mapsto> unat sz))(q := None)) (bytes g) ?m"
      by (rule keeps_other_blocks [OF M(4) _ ch]) simp
    moreover have "(B(q \<mapsto> unat sz))(q := None) = B" using M(3) by auto
    ultimately have "keeps_blocks B (bytes g) (bytes h')" by (simp add: F(3))
    then have "keeps_blocks B (bytes h) (bytes h')" by (rule keeps_trans [OF M(2)])
    then show ?thesis by (auto simp: keeps_blocks_def split: if_splits)
  qed
  ultimately show ?thesis using F(2) qp M(3) by blast
qed

end

section \<open>Sequences of calls\<close>

text \<open>
  A client keeps the blocks it was given, newest first; it frees only those and writes only inside
  them.
\<close>

datatype heap_op = Malloc u64 | Free nat | Store nat nat u8

fun heap_run ::
    "'v page_alloc \<Rightarrow> 'v page_free \<Rightarrow> heap_op list \<Rightarrow> lheap \<times> 'v \<Rightarrow> (u64 \<times> nat) list \<Rightarrow>
     ((lheap \<times> 'v) \<times> (u64 \<times> nat) list) option" where
  "heap_run pa pf [] s bs = Some (s, bs)"
| "heap_run pa pf (Malloc sz # ops) s bs =
     (case malloc pa sz s of
        None \<Rightarrow> None
      | Some (s', p) \<Rightarrow> heap_run pa pf ops s' (if p = 0 then bs else (p, unat sz) # bs))"
| "heap_run pa pf (Free i # ops) s bs =
     (if i < length bs then
        case free pf (fst (bs ! i)) s of
          None \<Rightarrow> None
        | Some s' \<Rightarrow> heap_run pa pf ops s' (take i bs @ drop (Suc i) bs)
      else heap_run pa pf ops s bs)"
| "heap_run pa pf (Store i k c # ops) s bs =
     (if i < length bs \<and> k < snd (bs ! i)
      then heap_run pa pf ops ((fst s)\<lparr>bytes := (bytes (fst s))(fst (bs ! i) + of_nat k \<mapsto> c)\<rparr>, snd s) bs
      else heap_run pa pf ops s bs)"

lemma map_of_remove_nth:
  assumes "distinct (map fst bs)" "i < length bs"
  shows "map_of (take i bs @ drop (Suc i) bs) = (map_of bs)(fst (bs ! i) := None)"
    "distinct (map fst (take i bs @ drop (Suc i) bs))"
proof -
  obtain A B k x where bs: "bs = A @ (k, x) # B" "i = length A"
    using id_take_nth_drop [OF assms(2)] by (metis assms(2) length_take min.absorb4 surj_pair)
  have "map_of A k = None" "map_of B k = None" using assms(1) by (auto simp: bs map_of_eq_None_iff)
  then show "map_of (take i bs @ drop (Suc i) bs) = (map_of bs)(fst (bs ! i) := None)"
    by (auto simp: bs fun_eq_iff map_add_def split: option.splits)
  show "distinct (map fst (take i bs @ drop (Suc i) bs))" using assms(1) by (auto simp: bs)
qed

context page_source
begin

lemma heap_run_law:
  assumes "pinv v" "heap_wf (runs v) h (map_of bs)" "distinct (map fst bs)"
    and "\<And>sz. Malloc sz \<in> set ops \<Longrightarrow> unat sz \<le> 4294963152"
    and "heap_run palloc pfree ops (h, v) bs = Some ((h', v'), bs')"
  shows "pinv v' \<and> heap_wf (runs v') h' (map_of bs') \<and> distinct (map fst bs')"
  using assms
proof (induction ops arbitrary: h v bs)
  case (Cons op ops)
  show ?case
  proof (cases op)
    case (Malloc sz)
    obtain h1 v1 p where m: "malloc palloc sz (h, v) = Some ((h1, v1), p)"
        "heap_run palloc pfree ops (h1, v1) (if p = 0 then bs else (p, unat sz) # bs) = Some ((h', v'), bs')"
      using Cons.prems(5) Malloc by (auto split: option.splits prod.splits)
    have "unat sz \<le> 4294963152" using Cons.prems(4) Malloc by simp
    from malloc_law [OF Cons.prems(1,2) this] m(1)
    have L: "pinv v1" "if p = 0 then heap_wf (runs v1) h1 (map_of bs)
        else map_of bs p = None \<and> heap_wf (runs v1) h1 ((map_of bs)(p \<mapsto> unat sz))" by auto
    show ?thesis
      by (rule Cons.IH [OF L(1) _ _ _ m(2)])
        (use L(2) Cons.prems(3,4) in \<open>auto simp: map_of_eq_None_iff fun_upd_def split: if_splits\<close>)
  next
    case (Free i)
    show ?thesis
    proof (cases "i < length bs")
      case True
      obtain s1 where m: "free pfree (fst (bs ! i)) (h, v) = Some s1"
          "heap_run palloc pfree ops s1 (take i bs @ drop (Suc i) bs) = Some ((h', v'), bs')"
        using Cons.prems(5) Free True by (auto split: option.splits)
      have "map_of bs (fst (bs ! i)) = Some (snd (bs ! i))"
        using Cons.prems(3) True by (metis map_of_is_SomeI nth_mem prod.collapse)
      from free_law [OF Cons.prems(1,2) this] m(1)
      obtain h1 v1 where L: "s1 = (h1, v1)" "pinv v1" "heap_wf (runs v1) h1 ((map_of bs)(fst (bs ! i) := None))" by auto
      note R = map_of_remove_nth [OF Cons.prems(3) True]
      have "heap_wf (runs v1) h1 (map_of (take i bs @ drop (Suc i) bs))" using L(3) by (simp only: R(1))
      from Cons.IH [OF L(2) this R(2) _ m(2) [unfolded L(1)]] show ?thesis using Cons.prems(4) by simp
    next
      case False
      then show ?thesis using Cons Free by auto
    qed
  next
    case (Store i k c)
    show ?thesis
    proof (cases "i < length bs \<and> k < snd (bs ! i)")
      case True
      have b: "map_of bs (fst (bs ! i)) = Some (snd (bs ! i))"
        using Cons.prems(3) True by (metis map_of_is_SomeI nth_mem prod.collapse)
      have "k < 2 ^ 64" using heap_wf_blocks(3) [OF Cons.prems(2) b] True by linarith
      then have k: "unat (of_nat k :: u64) < snd (bs ! i)" using True by (simp add: unat_of_nat)
      have W: "heap_wf (runs v) (h\<lparr>bytes := (bytes h)(fst (bs ! i) + of_nat k \<mapsto> c)\<rparr>) (map_of bs)"
        by (rule heap_wf_bytes [OF Cons.prems(2)])
          (use b k in \<open>auto intro!: exI [of _ "fst (bs ! i)"] split: if_splits\<close>)
      show ?thesis by (rule Cons.IH [OF Cons.prems(1) W Cons.prems(3)]) (use Cons.prems(4,5) Store True in auto)
    next
      case False
      then show ?thesis using Cons Store by auto
    qed
  qed
qed simp

end

context page_source
begin

text \<open>A free block that fits is used before new pages are asked for.\<close>

lemma malloc_reuse:
  assumes v: "pinv v" and at: "heap_at (runs v) h B L reg rk"
    and x: "x \<in> L" "0 \<le> idx h x" "unat sz + 96 \<le> rsz h x"
  shows "\<exists>h' p. malloc palloc sz (h, v) = Some ((h', v), p) \<and> keeps_blocks B (bytes h) (bytes h') \<and> p \<noteq> 0 \<and>
    B p = None \<and> heap_wf (runs v) h' (B(p \<mapsto> unat sz))"
proof -
  have i: "h = malloc_init h" and S: "heap_shape h L reg rk" and U: "heap_use h L {}"
    using at by (auto simp: heap_at_def malloc_init_def)
  have sz: "unat sz < 2 ^ 32" using x(3) unat_u32 [of "real_size (the (tags h x))"] by simp
  let ?i = "nat (max (getexp (ucast sz)) 8)"
  have "int ?i \<le> idx h x" using bucket_of_fit [OF x(3) sz] U x(1,2) unfolding heap_use_def by auto
  then obtain a j where a: "search_index sz ?i h = Some (a, j)" "a \<noteq> 0" "a \<in> L" "idx h a = int j" "unat sz + 96 \<le> rsz h a"
    using search_index_spec [OF S sz, of ?i] x(1,3) by (metis linorder_not_less)
  show ?thesis by (rule malloc_found [OF v i refl at a(1,2,3) _ a(5)]) (use a(4) in simp)
qed

end

lemma search_empty:
  assumes "l_freePages h = replicate 32 0" "i \<le> 32"
  shows "search_index sz i h = Some (0, 32)"
  using assms(2)
proof (induction i rule: measure_induct_rule [of "\<lambda>i. 32 - i"])
  case (less i)
  show ?case
  proof (cases "i = 32")
    case True
    then show ?thesis by (subst search_index.simps) simp
  next
    case False
    then have "search_index sz (Suc i) h = Some (0, 32)" using less.IH [of "Suc i"] less.prems by simp
    then show ?thesis
      by (subst search_index.simps) (use False less.prems assms(1) search_list.simps [of sz 0 h] in simp)
  qed
qed

lemma ucast_sub32: "ucast (x - y :: u64) = (ucast x - ucast y :: u32)"
proof transfer
  fix x y :: int
  have "take_bit 32 (take_bit 64 x - take_bit 64 y) = take_bit 32 (take_bit 32 (take_bit 64 x) - take_bit 32 (take_bit 64 y))"
    by (rule take_bit_diff [symmetric])
  also have "\<dots> = take_bit 32 (take_bit 32 x - take_bit 32 y)" by simp
  also have "\<dots> = take_bit 32 (x - y)" by (rule take_bit_diff)
  finally show "take_bit LENGTH(32) (take_bit LENGTH(64) (x - y)) =
    take_bit LENGTH(32) (take_bit LENGTH(64) x - take_bit LENGTH(64) y)" by simp
qed

lemma use_tag_cong:
  assumes "ucast sz = (ucast sz' :: u32)"
  shows "use_tag sz = use_tag sz'"
proof -
  have "(ucast (ucast (real_size t) - sz - 96 :: u64) :: u32) = ucast (ucast (real_size t) - sz' - 96 :: u64)" for t :: boundary_tag
    using assms by (simp add: ucast_sub32)
  then show ?thesis using assms by (intro ext) (simp add: use_tag_def)
qed

end
