(* ===== verification/Liballoc_Host.thy ===== *)
theory Liballoc_Host
  imports Liballoc_Spec Usermem
begin

unbundle bit_operations_syntax

text \<open>
  The page source of the heap, \<^verbatim>\<open>src/kern/mem/liballoc_host.c\<close>: runs of pages mapped anywhere in the
  kernel heap range of the current address space. The virtual memory manager keeps the contract
  the heap relies on, which gives the properties of the kernel's \<^verbatim>\<open>malloc\<close> and \<^verbatim>\<open>free\<close>.
\<close>

section \<open>Model\<close>

text \<open>The page count is an \<^verbatim>\<open>int\<close> here and a \<^verbatim>\<open>u64\<close> in the calls; \<^verbatim>\<open>vmm_ffreer\<close> reads the current process.\<close>

definition liballoc_alloc :: "nat \<Rightarrow> vmm_state page_alloc" where
  "liballoc_alloc pid npg st =
     vmm_map_pages pid st (vmm_cpml4v st) 0 0 (scast npg) (MAP_ANYPHYS OR MAP_ANYVIRT OR PAGE_WRITE)"

definition liballoc_free :: "vmm_state page_free" where
  "liballoc_free addr npg st = vmm_unmap_pages st (vmm_cpml4v st) addr (scast npg) 0"

section \<open>The virtual memory manager as page source\<close>

definition vm_runs :: "vmm_state \<Rightarrow> region set" where
  "vm_runs st = (\<lambda>(p, c). (4096 * p, 4096 * c)) ` used_blocks (vregs st)"

definition vm_ok :: "vmm_state \<Rightarrow> bool" where
  "vm_ok st \<longleftrightarrow> vr_ok (vregs st) \<and> vmm_cpml4v st \<noteq> 0"

text \<open>The page-table operations leave the regions and the root alone.\<close>

definition same_roots :: "vmm_state \<Rightarrow> vmm_state \<Rightarrow> bool" where
  "same_roots st st' \<longleftrightarrow> vregs st' = vregs st \<and> hhdm_offset st' = hhdm_offset st \<and> cr3 st' = cr3 st"

lemma same_roots_refl [simp]: "same_roots st st"
  by (simp add: same_roots_def)

lemma same_roots_trans: "same_roots a b \<Longrightarrow> same_roots b c \<Longrightarrow> same_roots a c"
  by (simp add: same_roots_def)

lemma sto_roots [simp]: "same_roots st (sto t i v st') = same_roots st st'"
  by (simp add: same_roots_def sto_def)

lemma free_frame_roots [simp]: "same_roots st (free_frame a st') = same_roots st st'"
  by (simp add: same_roots_def free_frame_def)

lemma pmms_roots [simp]: "same_roots st (st'\<lparr>pmms := p\<rparr>) = same_roots st st'"
  by (simp add: same_roots_def)

lemma get_table_roots: "get_table st t i = Some (st', v) \<Longrightarrow> same_roots st st'"
  by (auto simp: get_table_def alloctblpg_def Let_def split: if_splits prod.splits)
    (simp_all add: same_roots_def)

lemma mirror_roots [simp]: "same_roots (mirror_pml4 t i st) st' = same_roots st st'"
  by (simp add: mirror_pml4_def same_roots_def sto_def)

lemma map_page_roots: "vmm_map_page st t v p f = Some st' \<Longrightarrow> same_roots st st'"
  by (auto simp: vmm_map_page_def Let_def split: if_splits option.splits prod.splits
      dest!: get_table_roots) (simp_all add: same_roots_def)

lemma map_anyphys_roots: "map_anyphys n t v f st = Some (st', ok) \<Longrightarrow> same_roots st st'"
proof (induction n arbitrary: v st)
  case (Suc n)
  obtain p a where p: "pmm_falloc (pmms st) 1 = (p, a)" by fastforce
  show ?case
  proof (cases "a = 0")
    case True
    then show ?thesis using Suc.prems p by auto
  next
    case False
    then obtain s1 where "vmm_map_page (st\<lparr>pmms := p\<rparr>) t v a f = Some s1" "map_anyphys n t (v + 4096) f s1 = Some (st', ok)"
      using Suc.prems p by (auto split: option.splits)
    then have "same_roots (st\<lparr>pmms := p\<rparr>) s1" "same_roots s1 st'" by (auto dest: map_page_roots Suc.IH)
    then show ?thesis by (simp add: same_roots_def)
  qed
qed simp

lemma unmap_page_roots:
  assumes "t \<noteq> 0"
  shows "\<exists>st'. vmm_unmap_page st t v f = Some st' \<and> same_roots st st'"
  using assms by (auto simp: vmm_unmap_page_def Let_def)

lemma unmap_range_roots:
  assumes "t \<noteq> 0"
  shows "\<exists>st'. unmap_range n t v f st = Some st' \<and> same_roots st st'"
proof (induction n arbitrary: v st)
  case (Suc n)
  obtain s1 where s1: "vmm_unmap_page st t v f = Some s1" "same_roots st s1"
    using unmap_page_roots [OF assms] by blast
  then show ?case using Suc.IH [of "v + 4096" s1] by (auto intro: same_roots_trans)
qed simp

lemma used_block_disjoint:
  assumes W: "regs_wf s ns" and u: "(p, c) \<in> used_blocks s" and q: "(q, d) \<in> used_blocks s" "(p, c) \<noteq> (q, d)"
  shows "{p..<p + c} \<inter> {q..<q + d} = {}"
proof -
  have T: "tiles (vmmr_nodes s) heap_first ns heap_last" "distinct ns" using W by (auto simp: regs_wf_def)
  obtain i where i: "i \<in> set ns" "rpage (vmmr_nodes s ! i) = p" "rcnt (vmmr_nodes s ! i) = c"
    using used_block_node [OF W u] by (metis in_set_conv_decomp)
  obtain j where j: "j \<in> set ns" "rpage (vmmr_nodes s ! j) = q" "rcnt (vmmr_nodes s ! j) = d"
    using used_block_node [OF W q(1)] by (metis in_set_conv_decomp)
  have "i \<noteq> j" using i j q(2) by auto
  from tiles_rng_disjoint [OF T i(1) j(1) this] show ?thesis using i j by (simp add: rrng_def)
qed

lemma used_block_not_free:
  assumes W: "regs_wf s ns" and u: "(p, c) \<in> used_blocks s"
  shows "p \<notin> free_pages s"
proof
  assume "p \<in> free_pages s"
  then obtain j where j: "j \<in> set ns" "is_free (vmmr_nodes s ! j)" "p \<in> rrng (vmmr_nodes s ! j)"
    unfolding free_pages_list [OF W] node_free_def by auto
  obtain i where i: "i \<in> set ns" "\<not> is_free (vmmr_nodes s ! i)" "rpage (vmmr_nodes s ! i) = p" "rcnt (vmmr_nodes s ! i) = c"
    using used_block_node [OF W u] by (metis in_set_conv_decomp)
  have T: "tiles (vmmr_nodes s) heap_first ns heap_last" "distinct ns" using W by (auto simp: regs_wf_def)
  have "i \<noteq> j" using i j by auto
  from tiles_rng_disjoint [OF T i(1) j(1) this] i(3,4) j(3) used_block_bounds(1) [OF assms]
  show False by (auto simp: rrng_def)
qed

lemma scast_pages:
  assumes "unat (n :: u32) < 2 ^ 20"
  shows "unat (scast n :: u64) = unat n"
proof -
  have "sint n = int (unat n)" by (rule sint_u32_small) (use assms in simp)
  then have "(scast n :: u64) = of_nat (unat n)" by (metis of_int_of_nat_eq scast_eq)
  then show ?thesis using assms by (simp only:) (rule unat_of_nat_small, simp)
qed

lemma liballoc_alloc_run:
  assumes ok: "vm_ok st" and n: "0 < unat n" "unat n < 2 ^ 20" and r: "liballoc_alloc pid n st = Some (st', a)"
  shows "vm_ok st' \<and> vm_runs st \<subseteq> vm_runs st' \<and> (a \<noteq> 0 \<longrightarrow> (unat a, 4096 * unat n) \<in> vm_runs st' - vm_runs st)"
proof -
  obtain ns where W: "regs_wf (vregs st) ns" using ok by (auto simp: vm_ok_def vr_ok_def)
  let ?n = "scast n :: u64"
  have un: "unat ?n = unat n" by (rule scast_pages [OF n(2)])
  then have n0: "0 < ?n" using n(1) by (simp add: word_less_nat_alt)
  obtain s b where F: "vmm_ffreer pid ?n False (vregs st) = Some (s, b)"
      "b = 0 \<and> s = vregs st \<or> (\<exists>p ns'. unat b = 4096 * p \<and> b \<noteq> 0 \<and> regs_wf s ns' \<and>
         {p..<p + unat ?n} \<subseteq> free_pages (vregs st) \<and> used_blocks s = insert (p, unat ?n) (used_blocks (vregs st)))"
    using vmm_ffreer_kernel [OF W n0, of pid] by blast
  let ?f = "MAP_ANYPHYS OR MAP_ANYVIRT OR PAGE_WRITE :: u64"
  have fl: "?f AND MAP_ANYVIRT \<noteq> 0" "?f AND MAP_ANYPHYS \<noteq> 0" "?f AND MAP_CONT = 0" by simp_all
  show ?thesis
  proof (cases "b = 0")
    case True
    then have "st' = st" "a = 0" using r F
      unfolding liballoc_alloc_def vmm_map_pages_def usrmap_truncated by auto
    then show ?thesis using ok by simp
  next
    case False
    obtain p ns' where P: "unat b = 4096 * p" "regs_wf s ns'" "{p..<p + unat n} \<subseteq> free_pages (vregs st)"
        "used_blocks s = insert (p, unat n) (used_blocks (vregs st))"
      using F(2) False un by auto
    obtain g ok' where M: "map_anyphys (unat ?n) (vmm_cpml4v st) b g (st\<lparr>vregs := s\<rparr>) = Some (st', ok')" "a = (if ok' then b else 0)"
      using r F(1) False fl unfolding liballoc_alloc_def vmm_map_pages_def usrmap_truncated vmm_map_at_def Let_def
      by (auto split: prod.splits)
    have R: "vregs st' = s" "vmm_cpml4v st' = vmm_cpml4v st"
      using map_anyphys_roots [OF M(1)] by (simp_all add: same_roots_def vmm_cpml4v_def)
    have "p \<in> free_pages (vregs st)" using P(3) n(1) by auto
    then have "(p, unat n) \<notin> used_blocks (vregs st)" using used_block_not_free [OF W] by blast
    moreover have "vm_ok st'" using ok P(2) R by (auto simp: vm_ok_def vr_ok_def)
    ultimately show ?thesis using M(2) P(1,4) by (auto simp: vm_runs_def R)
  qed
qed

lemma liballoc_free_run:
  assumes ok: "vm_ok st" and r: "(unat a, 4096 * unat n) \<in> vm_runs st" "unat n < 2 ^ 20"
  shows "\<exists>st'. liballoc_free a n st = Some st' \<and> vm_ok st' \<and> vm_runs st - {(unat a, 4096 * unat n)} \<subseteq> vm_runs st'"
proof -
  obtain ns where W: "regs_wf (vregs st) ns" using ok by (auto simp: vm_ok_def vr_ok_def)
  obtain p where p: "unat a = 4096 * p" "(p, unat n) \<in> used_blocks (vregs st)" using r by (auto simp: vm_runs_def)
  have t: "vmm_cpml4v st \<noteq> 0" using ok by (simp add: vm_ok_def)
  obtain s1 where s1: "unmap_range (unat (scast n :: u64)) (vmm_cpml4v st) a 0 st = Some s1" "same_roots st s1"
    using unmap_range_roots [OF t] by blast
  have an: "a = of_nat (4096 * p)" "(scast n :: u64) = of_nat (unat n)"
    using p(1) scast_pages [OF r(2)] by (metis word_of_unat)+
  obtain s ns' where s: "unmap_regions a (scast n) (vregs st) = Some s" "regs_wf s ns'"
      "used_blocks s \<union> {(p, unat n)} = used_blocks (vregs st)"
    using release_block [OF W p(2)] unfolding an by blast
  have "liballoc_free a n st = Some (s1\<lparr>vregs := s\<rparr>)"
    using s1 s(1) by (simp add: liballoc_free_def vmm_unmap_pages_def same_roots_def)
  moreover have "vm_ok (s1\<lparr>vregs := s\<rparr>)" using s(2) s1(2) ok by (auto simp: vm_ok_def vr_ok_def same_roots_def vmm_cpml4v_def)
  moreover have "vm_runs st - {(unat a, 4096 * unat n)} \<subseteq> vm_runs (s1\<lparr>vregs := s\<rparr>)"
    unfolding vm_runs_def s(3) [symmetric] p(1) by auto
  ultimately show ?thesis by blast
qed

interpretation vp: page_source "liballoc_alloc pid" liballoc_free vm_runs vm_ok for pid
proof unfold_locales
  fix v r q
  assume v: "vm_ok v" and r: "r \<in> vm_runs v"
  obtain ns where W: "regs_wf (vregs v) ns" using v by (auto simp: vm_ok_def vr_ok_def)
  obtain p c where p: "r = (4096 * p, 4096 * c)" "(p, c) \<in> used_blocks (vregs v)" using r by (auto simp: vm_runs_def)
  show "fst r + snd r < 2 ^ 64" using used_block_bounds [OF W p(2)] p(1) by simp
  assume q: "q \<in> vm_runs v" "r \<noteq> q"
  obtain p' c' where p': "q = (4096 * p', 4096 * c')" "(p', c') \<in> used_blocks (vregs v)" using q by (auto simp: vm_runs_def)
  have "{p..<p + c} \<inter> {p'..<p' + c'} = {}" by (rule used_block_disjoint [OF W p(2) p'(2)]) (use p p' q in auto)
  then have "max p p' \<notin> {p..<p + c} \<inter> {p'..<p' + c'}" by simp
  then have "p + c \<le> p' \<or> p' + c' \<le> p"
    using used_block_bounds(1) [OF W p(2)] used_block_bounds(1) [OF W p'(2)] by (auto simp: max_def split: if_splits)
  then show "run_rng r \<inter> run_rng q = {}" by (auto simp: run_rng_def p(1) p'(1))
next
  fix v v' and n :: u32 and a :: u64
  assume "vm_ok v" "0 < unat n" "unat n < 2 ^ 20" "liballoc_alloc pid n v = Some (v', a)"
  then show "vm_ok v' \<and> vm_runs v \<subseteq> vm_runs v' \<and> (a \<noteq> 0 \<longrightarrow> (unat a, 4096 * unat n) \<in> vm_runs v' - vm_runs v)"
    by (rule liballoc_alloc_run)
next
  fix v and n :: u32 and a :: u64
  assume "vm_ok v" "unat n < 2 ^ 20" "(unat a, 4096 * unat n) \<in> vm_runs v"
  then show "\<exists>v'. liballoc_free a n v = Some v' \<and> vm_ok v' \<and> vm_runs v - {(unat a, 4096 * unat n)} \<subseteq> vm_runs v'"
    using liballoc_free_run by blast
qed

section \<open>A heap with one free run\<close>

definition host_regs :: vmm_regs where
  "host_regs = \<lparr>vmmr_head = Some 0,
     vmmr_nodes = \<lparr>vaddr_base = HEAP_START, page_count = 16, is_free = False, nxt = Some 1\<rparr>
       # \<lparr>vaddr_base = HEAP_START + 16 * 4096, page_count = 8589934576, is_free = True, nxt = None\<rparr>
       # replicate 1022 \<lparr>vaddr_base = 0, page_count = 0, is_free = False, nxt = None\<rparr>,
     vmm_umapr = replicate 255 \<lparr>r_vaddr_base = 0, r_vaddr_curr = 0, r_vaddr_end = 0, r_pgcnt = 0\<rparr>\<rparr>"

definition host_vm :: vmm_state where
  "host_vm = pt_demo\<lparr>vregs := host_regs\<rparr>"

definition host_heap :: lheap where
  "host_heap = \<lparr>l_freePages = (replicate 32 0)[15 := HEAP_START], l_completePages = (replicate 32 0)[15 := 1],
     l_initialized = True,
     tags = [HEAP_START \<mapsto> \<lparr>magic = LIBALLOC_MAGIC, tsize = 0, real_size = 65536, tindex = 15,
       split_left = 0, split_right = 0, tnext = 0, tprev = 0\<rparr>], bytes = (\<lambda>_. None)\<rparr>"

lemma host_nodes:
  "vmmr_nodes host_regs ! 0 = \<lparr>vaddr_base = HEAP_START, page_count = 16, is_free = False, nxt = Some 1\<rparr>"
  "vmmr_nodes host_regs ! Suc 0 =
     \<lparr>vaddr_base = HEAP_START + 16 * 4096, page_count = 8589934576, is_free = True, nxt = None\<rparr>"
  "1 < i \<Longrightarrow> i < MAX_VNODES \<Longrightarrow> node_blank (vmmr_nodes host_regs ! i)"
  "length (vmmr_nodes host_regs) = MAX_VNODES" "vmmr_head host_regs = Some 0"
  by (simp_all add: host_regs_def node_blank_def nth_Cons')

lemma host_regs_wf: "regs_wf host_regs [0, Suc 0]"
  using host_nodes by (auto simp: regs_wf_def rcnt_def)

lemma host_vm_ok: "vm_ok host_vm" "(unat HEAP_START, 65536) \<in> vm_runs host_vm"
proof -
  show "vm_ok host_vm"
    using host_regs_wf by (auto simp: vm_ok_def vr_ok_def host_vm_def vmm_cpml4v_def pt_demo_def pg_addr_def)
  have "(heap_first, 16) \<in> used_blocks host_regs"
    unfolding used_blocks_list [OF host_regs_wf] by (simp add: host_nodes rpage_def rcnt_def)
  then show "(unat HEAP_START, 65536) \<in> vm_runs host_vm" by (force simp: vm_runs_def host_vm_def)
qed

lemma bucket_64K: "bucket 65536 = 15"
proof -
  obtain n where n: "getexp (65488 :: u32) = int n" "2 ^ n \<le> (65488::nat)" "(65488::nat) < 2 ^ (n + 1)"
    using getexp_cases [of 65488] by auto
  have "n < 16" using n(2) power_less_imp_less_exp [of "2::nat" n 16] by simp
  moreover have "15 < n + 1" using n(3) power_less_imp_less_exp [of "2::nat" 15 "n + 1"] by simp
  ultimately show ?thesis using n(1) by (simp add: bucket_def)
qed

lemma host_heap_at: "heap_at (vm_runs host_vm) host_heap Map.empty {HEAP_START} (\<lambda>_. (unat HEAP_START, 65536)) (\<lambda>_. 0)"
proof -
  have "chain_ok {HEAP_START} (\<lambda>_. (unat HEAP_START, 65536)) (rsz host_heap) (slf host_heap) (srt host_heap)"
    by (simp add: chain_ok_def host_heap_def)
  moreover have "dll_ok {HEAP_START} (idx host_heap) (Liballoc_Inv.nxt host_heap) (prv host_heap) (fpg host_heap) (\<lambda>_. 0)"
    by (auto simp: dll_ok_def host_heap_def nth_list_update split: if_splits)
  ultimately have "heap_shape host_heap {HEAP_START} (\<lambda>_. (unat HEAP_START, 65536)) (\<lambda>_. 0)"
    unfolding heap_shape_def by (simp add: host_heap_def tag_stored_def)
  moreover have "heap_use host_heap {HEAP_START} {}" "live_blocks host_heap {HEAP_START} {} = Map.empty"
    using bucket_64K by (simp_all add: heap_use_def live_blocks_def host_heap_def fun_eq_iff)
  ultimately show ?thesis using host_vm_ok(2) by (simp add: heap_at_def) (auto simp: host_heap_def)
qed

section \<open>Properties\<close>

text \<open>
  C2. Whatever sequence of \<^verbatim>\<open>malloc\<close>, with sizes up to 0xFFFFEFD0, \<^verbatim>\<open>free\<close> of its blocks and stores into
  its blocks the kernel runs from a well-formed heap (a heap before the first call is one), the blocks it holds, with the tags in front of them, never overlap; none is
  null and each lies inside one run of pages that the virtual memory manager holds for the heap.
\<close>

theorem kmalloc_blocks_disjoint:
  assumes "vm_ok st" "heap_wf (vm_runs st) h (map_of bs)" "distinct (map fst bs)"
    and "\<And>sz. Malloc sz \<in> set ops \<Longrightarrow> unat sz \<le> 0xFFFFEFD0"
    and "heap_run (liballoc_alloc pid) liballoc_free ops (h, st) bs = Some ((h', st'), bs')"
  shows "heap_wf (vm_runs st') h' (map_of bs') \<and>
    (\<forall>i<length bs'. fst (bs' ! i) \<noteq> 0 \<and>
       (\<exists>r\<in>vm_runs st'. {unat (fst (bs' ! i))..<unat (fst (bs' ! i)) + snd (bs' ! i)} \<subseteq> run_rng r)) \<and>
    (\<forall>i<length bs'. \<forall>j<length bs'. i \<noteq> j \<longrightarrow>
       {unat (fst (bs' ! i)) - 48..<unat (fst (bs' ! i)) + snd (bs' ! i)} \<inter>
       {unat (fst (bs' ! j)) - 48..<unat (fst (bs' ! j)) + snd (bs' ! j)} = {})"
proof -
  have R: "heap_wf (vm_runs st') h' (map_of bs')" "distinct (map fst bs')"
    using vp.heap_run_law [OF assms(1-3) _ assms(5)] assms(4) by auto
  have B: "map_of bs' (fst (bs' ! i)) = Some (snd (bs' ! i))" if "i < length bs'" for i
    using R(2) that by (metis map_of_is_SomeI nth_mem prod.collapse)
  have ne: "fst (bs' ! i) \<noteq> fst (bs' ! j)" if "i < length bs'" "j < length bs'" "i \<noteq> j" for i j
    using R(2) that by (metis length_map nth_eq_iff_index_eq nth_map)
  show ?thesis using R(1) heap_wf_blocks(1,4) [OF R(1) B] heap_wf_blocks(5) [OF R(1) B B ne] by blast
qed

lemma host_run: "map_option snd (heap_run pa pf [Malloc 100, Malloc 200, Free 1, Malloc 20] (host_heap, st) []) =
   Some [(HEAP_START + 48, 20), (HEAP_START + 196, 200)]"
  by code_simp

lemma host_heap_wf: "heap_wf (vm_runs host_vm) host_heap Map.empty"
  using host_heap_at by (auto simp: heap_at_def intro!: heap_wfI)

theorem kmalloc_blocks_disjoint_witness:
  "\<exists>h' st'. heap_run (liballoc_alloc 0) liballoc_free [Malloc 100, Malloc 200, Free 1, Malloc 20] (host_heap, host_vm) [] =
     Some ((h', st'), [(HEAP_START + 48, 20), (HEAP_START + 196, 200)]) \<and>
   heap_wf (vm_runs st') h' [HEAP_START + 48 \<mapsto> 20, HEAP_START + 196 \<mapsto> 200]"
proof -
  obtain h' st' where r: "heap_run (liballoc_alloc 0) liballoc_free [Malloc 100, Malloc 200, Free 1, Malloc 20]
      (host_heap, host_vm) [] = Some ((h', st'), [(HEAP_START + 48, 20), (HEAP_START + 196, 200)])"
    using host_run [of "liballoc_alloc 0" liballoc_free host_vm] by auto
  have "heap_wf (vm_runs host_vm) host_heap (map_of [])" using host_heap_wf by simp
  moreover have "unat sz \<le> 0xFFFFEFD0" if "Malloc sz \<in> set [Malloc 100, Malloc 200, Free 1, Malloc 20]" for sz
    using that by auto
  ultimately have "heap_wf (vm_runs st') h' (map_of [(HEAP_START + 48, 20), (HEAP_START + 196, 200)])"
    using kmalloc_blocks_disjoint [OF host_vm_ok(1) _ _ _ r] by simp
  moreover have "map_of [(HEAP_START + 48, 20), (HEAP_START + 196, 200)] =
      [HEAP_START + 48 \<mapsto> 20, HEAP_START + 196 \<mapsto> (200 :: nat)]" by (auto simp: fun_eq_iff)
  ultimately show ?thesis using r by auto
qed

text \<open>
  C3. \<^verbatim>\<open>malloc\<close> ends, unless the virtual memory manager faults while it maps pages, and gives null
  with the blocks unchanged, or a block of the requested size that was not in use. \<^verbatim>\<open>free\<close> of a block
  in use always ends and takes exactly that block away. The tags that \<^verbatim>\<open>malloc\<close> writes leave the
  bytes of every block in use as they are; \<^verbatim>\<open>free\<close> writes no memory but that of existing tags.
\<close>

theorem kmalloc_refines:
  assumes "vm_ok st" "heap_wf (vm_runs st) h B" "unat sz \<le> 0xFFFFEFD0"
  shows "(malloc (liballoc_alloc pid) sz (h, st) = None \<and> liballoc_alloc pid (pages_for (ucast sz + 48)) st = None \<or>
      (\<exists>h' st' p. malloc (liballoc_alloc pid) sz (h, st) = Some ((h', st'), p) \<and> vm_ok st' \<and>
         (\<forall>b n x. B b = Some n \<longrightarrow> unat (x - b) < n \<longrightarrow> bytes h' x = bytes h x) \<and>
         (if p = 0 then heap_wf (vm_runs st') h' B
          else B p = None \<and> heap_wf (vm_runs st') h' (B(p \<mapsto> unat sz))))) \<and>
    (\<forall>p m. B p = Some m \<longrightarrow> (\<exists>h' st'. free liballoc_free p (h, st) = Some (h', st') \<and> vm_ok st' \<and>
       bytes h' = bytes h \<and> heap_wf (vm_runs st') h' (B(p := None))))"
  using vp.malloc_law [OF assms(1,2), unfolded keeps_blocks_def] vp.free_law [OF assms(1,2)] assms(3) by auto

text \<open>The heap of the example after a first request.\<close>

lemma host_first:
  "\<exists>h'. malloc (liballoc_alloc 0) 8 (host_heap, host_vm) = Some ((h', host_vm), HEAP_START + 48) \<and>
     heap_wf (vm_runs host_vm) h' [HEAP_START + 48 \<mapsto> 8]"
proof -
  have p: "map_option snd (malloc pa 8 (host_heap, st)) = Some (HEAP_START + 48)" for pa and st :: 'v
    by code_simp
  have "HEAP_START \<in> {HEAP_START :: u64}" "0 \<le> idx host_heap HEAP_START" "unat (8 :: u64) + 96 \<le> rsz host_heap HEAP_START"
    by (simp_all add: host_heap_def)
  from vp.malloc_reuse [OF host_vm_ok(1) host_heap_at this, of 0] p [of "liballoc_alloc 0" host_vm] show ?thesis by auto
qed

theorem kmalloc_refines_witness:
  "\<exists>h. heap_wf (vm_runs host_vm) h [HEAP_START + 48 \<mapsto> 8] \<and>
     (\<exists>h' st'. free liballoc_free (HEAP_START + 48) (h, host_vm) = Some (h', st') \<and> vm_ok st' \<and>
        heap_wf (vm_runs st') h' Map.empty)"
proof -
  obtain h where h: "heap_wf (vm_runs host_vm) h [HEAP_START + 48 \<mapsto> 8]" using host_first by blast
  from kmalloc_refines [OF host_vm_ok(1) h, of 200 0]
  have "\<exists>h' st'. free liballoc_free (HEAP_START + 48) (h, host_vm) = Some (h', st') \<and> vm_ok st' \<and>
      heap_wf (vm_runs st') h' ([HEAP_START + 48 \<mapsto> 8](HEAP_START + 48 := None))" by fastforce
  then show ?thesis using h by auto
qed



text \<open>
  C21. \<^verbatim>\<open>malloc\<close> passes its 64-bit size to helpers that take an \<^verbatim>\<open>unsigned int\<close>. While the free lists are
  empty, a request of 4 GiB or more is served exactly like its size modulo 4 GiB: the caller gets a
  block that is much smaller than what it asked for.
\<close>

theorem malloc_size_truncated:
  assumes "l_freePages (malloc_init h) = replicate 32 0"
  shows "malloc pa sz (h, v) = malloc pa (ucast (ucast sz :: u32)) (h, v)"
proof -
  let ?s = "ucast (ucast sz :: u32) :: u64"
  have c: "(ucast ?s :: u32) = ucast sz"
  proof -
    have "unat (ucast (ucast w :: u64) :: u32) = unat w" for w :: u32
      using unat_u32 [of w] unat_ucast_widen [of w] by (simp add: unat_ucast_mod)
    then show ?thesis by (simp add: word_unat_eq_iff)
  qed
  have "nat (max (getexp (ucast sz)) (int 8)) \<le> 32" using getexp_cases [of "ucast sz"] by auto
  note e = search_empty [OF assms this]
  have "take_tag pa sz (malloc_init h) v = take_tag pa ?s (malloc_init h) v"
    unfolding take_tag_def c e Option.bind.bind_lunit prod.case by simp
  then show ?thesis unfolding malloc_def by (simp only: use_tag_cong [OF c] fst_conv snd_conv)
qed

definition heap_boot :: lheap where
  "heap_boot = \<lparr>l_freePages = replicate 32 0, l_completePages = replicate 32 0, l_initialized = False,
     tags = Map.empty, bytes = (\<lambda>_. None)\<rparr>"

theorem malloc_size_truncated_witness:
  "malloc (\<lambda>n v. Some (v, 0x10000)) 0x100000010 (heap_boot, ()) = malloc (\<lambda>n v. Some (v, 0x10000)) 0x10 (heap_boot, ()) \<and>
   map_option snd (malloc (\<lambda>n v. Some (v, 0x10000)) 0x100000010 (heap_boot, ())) = Some 0x10030"
proof -
  have "l_freePages (malloc_init heap_boot) = replicate 32 0" by (simp add: malloc_init_def heap_boot_def)
  from malloc_size_truncated [OF this, of "\<lambda>n v. Some (v, 0x10000)" "0x100000010" "()"]
  have e: "malloc (\<lambda>n v. Some (v, 0x10000)) 0x100000010 (heap_boot, ()) = malloc (\<lambda>n v. Some (v, 0x10000)) 0x10 (heap_boot, ())"
    by simp
  have "map_option snd (malloc (\<lambda>n v. Some (v, 0x10000)) 0x10 (heap_boot, ())) = Some 0x10030" by code_simp
  then show ?thesis using e by simp
qed

end
