(* ===== verification/Spec2Isabelle.thy ===== *)
theory Spec2Isabelle
  imports Kqueue Usermem Vfs_Proofs Proc_Reach Console_Proofs Fb Rng Fdio Timekeeping Liballoc_Host
begin

text \<open>
  Verification of the randomos kernel (an x86_64 operating system kernel in C).

  \<^item> \<^verbatim>\<open>Prelude\<close>: machine words, errno values, shared lemmas.
  \<^item> \<^verbatim>\<open>Kqueue\<close>: the byte queue of \<^verbatim>\<open>src/kern/queue.c\<close>.
  \<^item> \<^verbatim>\<open>Pmm\<close>: the physical frame allocator of \<^verbatim>\<open>src/kern/mem/pmm.c\<close>.
\<close>

end
